(* ===== verification/Prelude.thy ===== *)
theory Prelude
  imports Main "HOL-Library.Word" "HOL-Library.Sublist"
begin

text \<open>
  Shared vocabulary of the development: the names of the machine types the Go sources use, the
  byte-slice operations of its standard library that several components call
  (\<open>bytes.IndexByte\<close>, the stripping of one trailing carriage return), and the generic lemmas on
  lists and words the component theories share.

  A Go \<open>string\<close> or \<open>[]byte\<close> is a list of \<open>char\<close>, Isabelle's eight-bit character, so its length
  is a byte count.  A \<open>uint64\<close> is a \<open>64 word\<close>, whose addition wraps as Go's does.
\<close>

type_synonym bytes = "char list"
type_synonym u64 = "64 word"
type_synonym u32 = "32 word"

abbreviation LF :: char where "LF \<equiv> CHR 0x0A"
abbreviation CR :: char where "CR \<equiv> CHR 0x0D"

named_theorems run_simps \<open>equations that unfold one step of a modelled operation\<close>
named_theorems inv_intros \<open>invariant preservation, one fact per operation\<close>

section \<open>Byte slices\<close>

fun index_byte :: "char \<Rightarrow> bytes \<Rightarrow> nat option" where
  "index_byte c [] = None"
| "index_byte c (x # xs) = (if x = c then Some 0 else map_option Suc (index_byte c xs))"

lemma index_byte_None [simp]: "index_byte c xs = None \<longleftrightarrow> c \<notin> set xs"
  by (induction xs) auto

lemma index_byte_absent [simp]: "c \<notin> set xs \<Longrightarrow> index_byte c xs = None"
  by simp

lemma index_byte_Some_iff:
  "index_byte c xs = Some i \<longleftrightarrow> i < length xs \<and> xs ! i = c \<and> c \<notin> set (take i xs)"
proof (induction xs arbitrary: i)
  case Nil
  then show ?case by simp
next
  case (Cons x xs)
  then show ?case by (cases i) auto
qed

lemma index_byte_append1: "index_byte c xs = Some i \<Longrightarrow> index_byte c (xs @ ys) = Some i"
  by (auto simp: index_byte_Some_iff nth_append)

lemma index_byte_append2:
  "c \<notin> set xs \<Longrightarrow> index_byte c (xs @ ys) = map_option (\<lambda>i. length xs + i) (index_byte c ys)"
proof (induction xs)
  case Nil
  show ?case by (simp add: option.map_ident)
next
  case (Cons x xs)
  then show ?case by (cases "index_byte c ys") auto
qed

lemma index_byte_split: "c \<notin> set xs \<Longrightarrow> index_byte c (xs @ c # ys) = Some (length xs)"
  by (simp add: index_byte_append2)

lemma index_byte_SomeD:
  assumes "index_byte c xs = Some i"
  shows "i < length xs" and "xs ! i = c" and "c \<notin> set (take i xs)"
    and "xs = take i xs @ c # drop (Suc i) xs"
  using assms id_take_nth_drop [of i xs] by (auto simp: index_byte_Some_iff)

definition trim_cr :: "bytes \<Rightarrow> bytes" where
  "trim_cr xs = (if xs \<noteq> [] \<and> last xs = CR then butlast xs else xs)"

lemma trim_cr_simps [simp]:
  "trim_cr [] = []"
  "trim_cr (xs @ [CR]) = xs"
  by (simp_all add: trim_cr_def)

lemma length_trim_cr: "length (trim_cr xs) \<le> length xs"
  by (simp add: trim_cr_def)

lemma length_trim_cr_cases:
  "length (trim_cr xs) = length xs - (if xs \<noteq> [] \<and> last xs = CR then 1 else 0)"
  by (simp add: trim_cr_def)

lemma trim_cr_prefix: "prefix (trim_cr xs) xs"
  by (metis append_butlast_last_id prefixI prefix_order.refl trim_cr_def)

lemma set_trim_cr: "set (trim_cr xs) \<subseteq> set xs"
  using trim_cr_prefix set_mono_prefix by blast

section \<open>Lists\<close>

lemma take_map_append_diff:
  "take n (xs @ ys) = take n xs @ take (n - length xs) ys"
  by simp

lemma filter_sorted_wrt_split:
  assumes "sorted_wrt R xs" and "\<And>x y. R x y \<Longrightarrow> P y \<Longrightarrow> P x"
  shows "filter P xs = takeWhile P xs"
  using assms(1)
proof (induction xs)
  case Nil
  then show ?case by simp
next
  case (Cons x xs)
  show ?case
  proof (cases "P x")
    case True
    with Cons show ?thesis by simp
  next
    case False
    with Cons.prems assms(2) have "\<forall>y \<in> set xs. \<not> P y" by auto
    with False show ?thesis by (simp add: filter_empty_conv)
  qed
qed

lemma sum_list_drop_le: "sum_list (drop n xs) \<le> sum_list (xs :: nat list)"
  by (metis append_take_drop_id le_add2 sum_list_append)

section \<open>Words\<close>

lemma unat_u64_less: "unat (x :: u64) < 18446744073709551616"
proof -
  have "unat x < 2 ^ LENGTH(64)" by (rule unsigned_less)
  then show ?thesis by simp
qed

lemma unat_u32_less: "unat (x :: u32) < 4294967296"
proof -
  have "unat x < 2 ^ LENGTH(32)" by (rule unsigned_less)
  then show ?thesis by simp
qed

lemma word_less_max_minus_one:
  "(x :: u64) < - 2 \<longleftrightarrow> unat x + 2 < 2 ^ 64"
  by (simp add: word_less_nat_alt)

lemma unat_add_one_u64: "(x :: u64) < - 2 \<Longrightarrow> unat (x + 1) = unat x + 1"
  by (simp add: word_less_max_minus_one unat_word_ariths)

end
