(* ===== verification/Ordered_Index.thy ===== *)
theory Ordered_Index
  imports Prelude "HOL-Library.List_Lexorder" "HOL-Library.Char_ord"
begin

text \<open>
  \<open>internal/orderedindex/index.go\<close>: the deterministic treap behind the keyset-paginated job lists,
  and its two clients' comparators (\<open>internal/searchjobs/job_list.go\<close>, \<open>job_list_index.go\<close>).

  A \<open>*Node[T]\<close> is a \<open>tnode\<close>, \<open>TNil\<close> the nil pointer.  The Go code updates nodes in place; every
  node has one owner, so the operations here return the new root.  The order is the caller's
  function \<open>comesBefore\<close>: the laws it must obey are the locales \<open>strict_key_order\<close> and
  \<open>boundary_order\<close>, interpreted below on the comparators of the search-job list.
\<close>

unbundle bit_operations_syntax

datatype 'a tnode = TNil | TNode 'a u64 "'a tnode" "'a tnode" nat

fun node_size :: "'a tnode \<Rightarrow> nat" where
  "node_size TNil = 0"
| "node_size (TNode v p l r s) = s"

text \<open>The priority of a nil node is never read: a child is non-nil after an insertion.\<close>

fun node_priority :: "'a tnode \<Rightarrow> u64" where
  "node_priority TNil = 0"
| "node_priority (TNode v p l r s) = p"

definition priority :: "u64 \<Rightarrow> u64" where
  "priority generation =
     (let a = generation + 0x9e3779b97f4a7c15;
          b = (a XOR drop_bit 30 a) * 0xbf58476d1ce4e5b9;
          c = (b XOR drop_bit 27 b) * 0x94d049bb133111eb
      in c XOR drop_bit 31 c)"

definition new_node :: "'a \<Rightarrow> u64 \<Rightarrow> 'a tnode" where
  "new_node v generation = TNode v (priority generation) TNil TNil 1"

fun update_node :: "'a tnode \<Rightarrow> 'a tnode" where
  "update_node TNil = TNil"
| "update_node (TNode v p l r s) = TNode v p l r (1 + node_size l + node_size r)"

fun rotate_left :: "'a tnode \<Rightarrow> 'a tnode" where
  "rotate_left (TNode v p l (TNode w q a b t) s) =
     update_node (TNode w q (update_node (TNode v p l a s)) b t)"
| "rotate_left t = t"

fun rotate_right :: "'a tnode \<Rightarrow> 'a tnode" where
  "rotate_right (TNode v p (TNode w q a b t) r s) =
     update_node (TNode w q a (update_node (TNode v p b r s)) t)"
| "rotate_right t = t"

text \<open>
  \<open>Insert\<close>: the inserted node is always the singleton \<open>NewNode\<close> returns, given here by its value
  and its priority.
\<close>

fun insert_node :: "('a \<Rightarrow> 'a \<Rightarrow> bool) \<Rightarrow> 'a tnode \<Rightarrow> 'a \<Rightarrow> u64 \<Rightarrow> 'a tnode" where
  "insert_node before TNil x q = TNode x q TNil TNil 1"
| "insert_node before (TNode v p l r s) x q =
     (if before x v then
        (let l' = insert_node before l x q; root = TNode v p l' r s
         in update_node (if p < node_priority l' then rotate_right root else root))
      else
        (let r' = insert_node before r x q; root = TNode v p l r' s
         in update_node (if p < node_priority r' then rotate_left root else root)))"

fun merge_nodes :: "'a tnode \<Rightarrow> 'a tnode \<Rightarrow> 'a tnode" where
  "merge_nodes TNil t = t"
| "merge_nodes (TNode v p l r s) TNil = TNode v p l r s"
| "merge_nodes (TNode v p l r s) (TNode w q a b t) =
     (if q < p then update_node (TNode v p l (merge_nodes r (TNode w q a b t)) s)
      else update_node (TNode w q (merge_nodes (TNode v p l r s) a) b t))"

fun remove_node :: "('a \<Rightarrow> 'a \<Rightarrow> bool) \<Rightarrow> 'a tnode \<Rightarrow> 'a \<Rightarrow> 'a tnode" where
  "remove_node before TNil x = TNil"
| "remove_node before (TNode v p l r s) x =
     (if v = x then merge_nodes l r
      else if before x v then update_node (TNode v p (remove_node before l x) r s)
      else update_node (TNode v p l (remove_node before r x) s))"

text \<open>
  \<open>CollectBefore\<close> appends to the caller's slice; the slice is the argument \<open>acc\<close> and the result.
  The limit is a Go \<open>int\<close>, compared with the slice's length.
\<close>

fun collect_before ::
  "('a \<Rightarrow> 'b \<Rightarrow> bool) \<Rightarrow> ('a \<Rightarrow> 'c) \<Rightarrow> 'b option \<Rightarrow> int \<Rightarrow> 'a tnode \<Rightarrow> 'c list \<Rightarrow> 'c list" where
  "collect_before bb snap before limit TNil acc = acc"
| "collect_before bb snap before limit (TNode v p l r s) acc =
     (if int (length acc) \<ge> limit then acc
      else if (case before of Some b \<Rightarrow> \<not> bb v b | None \<Rightarrow> False)
      then collect_before bb snap before limit l acc
      else (let acc' = collect_before bb snap before limit r acc
            in if int (length acc') \<ge> limit then acc'
               else collect_before bb snap before limit l (acc' @ [snap v])))"

section \<open>Abstraction and structural invariants\<close>

fun inorder :: "'a tnode \<Rightarrow> 'a list" where
  "inorder TNil = []"
| "inorder (TNode v p l r s) = inorder l @ v # inorder r"

fun sizes_ok :: "'a tnode \<Rightarrow> bool" where
  "sizes_ok TNil = True"
| "sizes_ok (TNode v p l r s) = (sizes_ok l \<and> sizes_ok r \<and> s = 1 + node_size l + node_size r)"

fun root_le :: "u64 \<Rightarrow> 'a tnode \<Rightarrow> bool" where
  "root_le p TNil = True"
| "root_le p (TNode v q l r s) = (q \<le> p)"

fun heap :: "'a tnode \<Rightarrow> bool" where
  "heap TNil = True"
| "heap (TNode v p l r s) = (heap l \<and> heap r \<and> root_le p l \<and> root_le p r)"

lemma sizes_ok_size: "sizes_ok t \<Longrightarrow> node_size t = length (inorder t)"
  by (induction t) auto

lemma inorder_update [simp]: "inorder (update_node t) = inorder t"
  by (cases t) auto

lemma sizes_ok_update: "sizes_ok (TNode v p l r (1 + node_size l + node_size r)) \<longleftrightarrow> sizes_ok l \<and> sizes_ok r"
  by simp

lemma heap_update [simp]: "heap (update_node t) = heap t"
  by (cases t) auto

lemma root_le_update [simp]: "root_le p (update_node t) = root_le p t"
  by (cases t) auto

lemma inorder_rotate [simp]:
  "inorder (rotate_left t) = inorder t" "inorder (rotate_right t) = inorder t"
  by (cases t rule: rotate_left.cases; simp) (cases t rule: rotate_right.cases; simp)

lemma sizes_ok_rotate:
  "sizes_ok l \<Longrightarrow> sizes_ok r \<Longrightarrow> sizes_ok (update_node (rotate_left (TNode v p l r s)))"
  "sizes_ok l \<Longrightarrow> sizes_ok r \<Longrightarrow> sizes_ok (update_node (rotate_right (TNode v p l r s)))"
  by (cases r; auto) (cases l; auto)

lemma root_le_trans: "root_le p t \<Longrightarrow> p \<le> q \<Longrightarrow> root_le q t"
  by (cases t) auto

lemma sizes_ok_insert: "sizes_ok t \<Longrightarrow> sizes_ok (insert_node before t x q)"
  by (induction t) (auto simp: Let_def sizes_ok_rotate)

lemma sizes_ok_merge: "sizes_ok s \<Longrightarrow> sizes_ok t \<Longrightarrow> sizes_ok (merge_nodes s t)"
  by (induction s t rule: merge_nodes.induct) auto

lemma sizes_ok_remove: "sizes_ok t \<Longrightarrow> sizes_ok (remove_node before t x)"
  by (induction t) (auto simp: sizes_ok_merge)

text \<open>
  What an insertion does to the priorities: below a bound \<open>b\<close> of the old root, the new root is at
  most \<open>max b q\<close> and its children are at most \<open>b\<close>, which is what makes one rotation enough.
\<close>

fun kids_le :: "u64 \<Rightarrow> 'a tnode \<Rightarrow> bool" where
  "kids_le b TNil = True"
| "kids_le b (TNode v p l r s) = (root_le b l \<and> root_le b r)"

lemma insert_node_not_nil [simp]: "insert_node before t x q \<noteq> TNil"
proof -
  have "inorder (insert_node before t x q) \<noteq> []"
    by (cases t) (simp_all add: Let_def)
  then show ?thesis by auto
qed

lemma heap_rotate_right:
  assumes "heap l" "heap r" "root_le p r" "kids_le p l" "p < node_priority l"
  shows "heap (rotate_right (TNode v p l r s))"
  using assms by (cases l) (auto intro: root_le_trans)

lemma heap_rotate_left:
  assumes "heap l" "heap r" "root_le p l" "kids_le p r" "p < node_priority r"
  shows "heap (rotate_left (TNode v p l r s))"
  using assms by (cases r) (auto intro: root_le_trans)

lemma heap_insert_bound:
  "heap t \<Longrightarrow> root_le b t \<Longrightarrow>
     heap (insert_node before t x q) \<and> root_le (max b q) (insert_node before t x q)
     \<and> kids_le b (insert_node before t x q)"
proof (induction t arbitrary: b)
  case TNil
  then show ?case by simp
next
  case (TNode v p l r s)
  have l: "heap (insert_node before l x q)" "root_le (max p q) (insert_node before l x q)"
      "kids_le p (insert_node before l x q)"
    and r: "heap (insert_node before r x q)" "root_le (max p q) (insert_node before r x q)"
      "kids_le p (insert_node before r x q)"
    using TNode.IH(1) [of p] TNode.IH(2) [of p] TNode.prems by auto
  show ?case
  proof (cases "before x v")
    case True
    then show ?thesis
      using TNode.prems l heap_rotate_right [of "insert_node before l x q" r p v s]
      by (cases "insert_node before l x q")
        (auto simp: Let_def max_def not_less intro: root_le_trans split: if_splits)
  next
    case False
    then show ?thesis
      using TNode.prems r heap_rotate_left [of l "insert_node before r x q" p v s]
      by (cases "insert_node before r x q")
        (auto simp: Let_def max_def not_less intro: root_le_trans split: if_splits)
  qed
qed

lemma heap_insert: "heap t \<Longrightarrow> heap (insert_node before t x q)"
  using heap_insert_bound [of t "- 1" before x q] by (cases t) auto

lemma heap_merge_bound:
  "heap s \<Longrightarrow> heap t \<Longrightarrow> heap (merge_nodes s t)
     \<and> (\<forall>b. root_le b s \<longrightarrow> root_le b t \<longrightarrow> root_le b (merge_nodes s t))"
  by (induction s t rule: merge_nodes.induct) (auto simp: not_less)

lemma heap_remove_bound:
  "heap t \<Longrightarrow> heap (remove_node before t x) \<and> (\<forall>b. root_le b t \<longrightarrow> root_le b (remove_node before t x))"
proof (induction t)
  case TNil
  then show ?case by simp
next
  case (TNode v p l r s)
  have "root_le b (merge_nodes l r)" if "p \<le> b" for b
    using heap_merge_bound [of l r] TNode.prems that by (auto intro: root_le_trans)
  then show ?case
    using TNode heap_merge_bound [of l r] by auto
qed

section \<open>The laws a comparator must obey\<close>

lemma set_inorder_insert: "set (inorder (insert_node before t x q)) = insert x (set (inorder t))"
  by (induction t) (auto simp: Let_def)

lemma inorder_merge [simp]: "inorder (merge_nodes s t) = inorder s @ inorder t"
  by (induction s t rule: merge_nodes.induct) auto

locale strict_key_order =
  fixes before :: "'a \<Rightarrow> 'a \<Rightarrow> bool"
  assumes before_asym: "before x y \<Longrightarrow> \<not> before y x"
    and before_trans: "before x y \<Longrightarrow> before y z \<Longrightarrow> before x z"
begin

lemma before_irrefl [simp]: "\<not> before x x"
  using before_asym by blast

lemma inorder_insert:
  assumes "sorted_wrt before (inorder t)"
    and "\<forall>y \<in> set (inorder t). before x y \<or> before y x"
  shows "inorder (insert_node before t x q) =
    takeWhile (\<lambda>y. before y x) (inorder t) @ x # dropWhile (\<lambda>y. before y x) (inorder t)"
  using assms
proof (induction t)
  case TNil
  then show ?case by simp
next
  case (TNode v p l r s)
  then have sl: "sorted_wrt before (inorder l)" and sr: "sorted_wrt before (inorder r)"
    and lv: "\<forall>y \<in> set (inorder l). before y v" and vr: "\<forall>y \<in> set (inorder r). before v y"
    by (auto simp: sorted_wrt_append)
  show ?case
  proof (cases "before x v")
    case True
    have "takeWhile (\<lambda>y. before y x) (inorder l @ v # inorder r) = takeWhile (\<lambda>y. before y x) (inorder l)"
      and "dropWhile (\<lambda>y. before y x) (inorder l @ v # inorder r) =
           dropWhile (\<lambda>y. before y x) (inorder l) @ v # inorder r"
      using True before_asym by (auto simp: takeWhile_tail dropWhile_append3)
    with True TNode sl show ?thesis by (simp add: Let_def)
  next
    case False
    then have vx: "before v x" using TNode.prems(2) by auto
    then have "\<forall>y \<in> set (inorder l). before y x" using lv before_trans by blast
    with vx have "takeWhile (\<lambda>y. before y x) (inorder l @ v # inorder r) =
        inorder l @ v # takeWhile (\<lambda>y. before y x) (inorder r)"
      and "dropWhile (\<lambda>y. before y x) (inorder l @ v # inorder r) = dropWhile (\<lambda>y. before y x) (inorder r)"
      by (auto simp: takeWhile_append2 dropWhile_append2)
    with False TNode sr show ?thesis by (simp add: Let_def)
  qed
qed

lemma sorted_insert:
  assumes "sorted_wrt before (inorder t)"
    and "\<forall>y \<in> set (inorder t). before x y \<or> before y x"
  shows "sorted_wrt before (inorder (insert_node before t x q))"
proof -
  define us where "us = takeWhile (\<lambda>y. before y x) (inorder t)"
  define vs where "vs = dropWhile (\<lambda>y. before y x) (inorder t)"
  have xs: "inorder t = us @ vs" by (simp add: us_def vs_def)
  have us: "\<forall>a \<in> set us. before a x" by (auto simp: us_def dest: set_takeWhileD)
  have parts: "sorted_wrt before us" "sorted_wrt before vs" "\<forall>a \<in> set us. \<forall>b \<in> set vs. before a b"
    using assms(1) by (auto simp: xs sorted_wrt_append)
  have vs: "\<forall>y \<in> set vs. before x y"
  proof (cases vs)
    case Nil
    then show ?thesis by simp
  next
    case (Cons w ws)
    then have "\<not> before w x" using hd_dropWhile [of "\<lambda>y. before y x" "inorder t"] by (simp add: vs_def)
    then have "before x w" using assms(2) Cons by (auto simp: xs)
    moreover have "\<forall>y \<in> set ws. before w y" using parts(2) Cons by simp
    ultimately show ?thesis using Cons before_trans by auto
  qed
  have "sorted_wrt before (us @ x # vs)"
    using us parts vs by (auto simp: sorted_wrt_append)
  then show ?thesis using inorder_insert [OF assms, folded us_def vs_def] by simp
qed

lemma inorder_remove:
  "sorted_wrt before (inorder t) \<Longrightarrow>
     inorder (remove_node before t x) = filter (\<lambda>y. y \<noteq> x) (inorder t)"
proof (induction t)
  case TNil
  then show ?case by simp
next
  case (TNode v p l r s)
  then have lv: "\<forall>y \<in> set (inorder l). before y v" and vr: "\<forall>y \<in> set (inorder r). before v y"
    and IH: "inorder (remove_node before l x) = filter (\<lambda>y. y \<noteq> x) (inorder l)"
      "inorder (remove_node before r x) = filter (\<lambda>y. y \<noteq> x) (inorder r)"
    by (auto simp: sorted_wrt_append)
  have nl: "x \<notin> set (inorder l)" if "\<not> before x v" using that lv by blast
  have nr: "x \<notin> set (inorder r)" if "before x v \<or> v = x" using that vr before_asym by blast
  have fl: "filter (\<lambda>y. y \<noteq> x) (inorder l) = inorder l" if "x \<notin> set (inorder l)"
    using that by (induction "inorder l") (auto simp: filter_id_conv)
  have fr: "filter (\<lambda>y. y \<noteq> x) (inorder r) = inorder r" if "x \<notin> set (inorder r)"
    using that by (auto simp: filter_id_conv)
  show ?case
    using IH nl nr fl fr by (auto simp: filter_id_conv)
qed

lemma sorted_remove:
  "sorted_wrt before (inorder t) \<Longrightarrow> sorted_wrt before (inorder (remove_node before t x))"
  by (simp add: inorder_remove sorted_wrt_filter)

end

locale boundary_order = strict_key_order before
  for before :: "'a \<Rightarrow> 'a \<Rightarrow> bool" +
  fixes before_boundary :: "'a \<Rightarrow> 'b \<Rightarrow> bool"
  assumes boundary_down: "before x y \<Longrightarrow> before_boundary y b \<Longrightarrow> before_boundary x b"
begin

lemma collect_before_eq:
  assumes "sorted_wrt before (inorder t)"
  shows "collect_before before_boundary snap bnd limit t acc =
    acc @ take (nat limit - length acc)
      (map snap (rev (filter (\<lambda>v. \<forall>b. bnd = Some b \<longrightarrow> before_boundary v b) (inorder t))))"
  using assms
proof (induction t arbitrary: acc)
  case TNil
  then show ?case by simp
next
  case (TNode v p l r s)
  let ?P = "\<lambda>v. \<forall>b. bnd = Some b \<longrightarrow> before_boundary v b"
  let ?L = "map snap (rev (filter ?P (inorder l)))" and ?R = "map snap (rev (filter ?P (inorder r)))"
  from TNode have IHl: "\<And>acc. collect_before before_boundary snap bnd limit l acc =
        acc @ take (nat limit - length acc) ?L"
    and IHr: "\<And>acc. collect_before before_boundary snap bnd limit r acc =
        acc @ take (nat limit - length acc) ?R"
    and vr: "\<forall>y \<in> set (inorder r). before v y"
    by (auto simp: sorted_wrt_append)
  show ?case
  proof (cases "int (length acc) \<ge> limit")
    case True
    then show ?thesis by (simp add: nat_le_iff)
  next
    case lt: False
    show ?thesis
    proof (cases "?P v")
      case False
      then have "filter ?P (inorder r) = []"
        using vr boundary_down [of v] by (auto simp: filter_empty_conv)
      with lt False IHl show ?thesis by (auto split: option.splits)
    next
      case True
      then have Pv: "\<not> (case bnd of Some b \<Rightarrow> \<not> before_boundary v b | None \<Rightarrow> False)"
        by (auto split: option.splits)
      show ?thesis
      proof (cases "length ?R < nat limit - length acc")
        case True
        then have "\<not> int (length (acc @ ?R)) \<ge> limit" by auto
        with True lt Pv \<open>?P v\<close> IHl IHr show ?thesis
          by (simp add: Let_def take_Cons' diff_diff_left)
      next
        case False
        then have "int (length (acc @ take (nat limit - length acc) ?R)) \<ge> limit" by auto
        with False lt Pv \<open>?P v\<close> IHr show ?thesis by (simp add: Let_def)
      qed
    qed
  qed
qed

end

section \<open>The search-job list\<close>

text \<open>
  The fields of a \<open>*jobEntry\<close> the index reads: the admission generation, the creation instant (in
  nanoseconds, as \<open>time.Time.Equal\<close> and \<open>Before\<close> compare it) and the job's identifier.
\<close>

record job_entry =
  generation :: u64
  created_at :: int
  job_id :: string

record job_list_boundary =
  boundary_created_at :: int
  boundary_id :: string

record retained_job_list_entry =
  retained_entry :: job_entry
  retained_generation :: u64
  retained_key :: job_list_boundary

definition job_list_key :: "job_entry \<Rightarrow> job_list_boundary" where
  "job_list_key e = \<lparr>boundary_created_at = created_at e, boundary_id = job_id e\<rparr>"

definition job_list_key_comes_before :: "job_list_boundary \<Rightarrow> job_list_boundary \<Rightarrow> bool" where
  "job_list_key_comes_before left right =
     (if boundary_created_at left = boundary_created_at right
      then boundary_id left < boundary_id right
      else boundary_created_at left < boundary_created_at right)"

definition job_list_entries_come_before :: "job_entry \<Rightarrow> job_entry \<Rightarrow> bool" where
  "job_list_entries_come_before left right =
     job_list_key_comes_before (job_list_key left) (job_list_key right)"

definition job_list_entry_comes_before_boundary :: "job_entry \<Rightarrow> job_list_boundary \<Rightarrow> bool" where
  "job_list_entry_comes_before_boundary e b = job_list_key_comes_before (job_list_key e) b"

definition retained_job_list_snapshot :: "job_entry \<Rightarrow> retained_job_list_entry" where
  "retained_job_list_snapshot e =
     \<lparr>retained_entry = e, retained_generation = generation e, retained_key = job_list_key e\<rparr>"

definition job_list_index_insert :: "job_entry tnode \<Rightarrow> job_entry \<Rightarrow> job_entry tnode" where
  "job_list_index_insert root e =
     insert_node job_list_entries_come_before root e (priority (generation e))"

definition job_list_index_remove :: "job_entry tnode \<Rightarrow> job_entry \<Rightarrow> job_entry tnode" where
  "job_list_index_remove root e = remove_node job_list_entries_come_before root e"

definition job_list_index_collect_before ::
  "job_entry tnode \<Rightarrow> job_list_boundary option \<Rightarrow> retained_job_list_entry list \<Rightarrow> int
     \<Rightarrow> retained_job_list_entry list" where
  "job_list_index_collect_before root before acc limit =
     collect_before job_list_entry_comes_before_boundary retained_job_list_snapshot before limit root acc"

definition job_list_index_size :: "job_entry tnode \<Rightarrow> nat" where
  "job_list_index_size root = node_size root"

definition index_ok :: "job_entry tnode \<Rightarrow> bool" where
  "index_ok t \<longleftrightarrow> sorted_wrt job_list_entries_come_before (inorder t) \<and> sizes_ok t \<and> heap t"

lemma key_trans:
  "job_list_key_comes_before a b \<Longrightarrow> job_list_key_comes_before b c \<Longrightarrow> job_list_key_comes_before a c"
  unfolding job_list_key_comes_before_def by (auto split: if_splits)

lemma key_asym: "job_list_key_comes_before a b \<Longrightarrow> \<not> job_list_key_comes_before b a"
  unfolding job_list_key_comes_before_def by (auto split: if_splits)

lemma key_total: "a \<noteq> b \<Longrightarrow> job_list_key_comes_before a b \<or> job_list_key_comes_before b a"
  unfolding job_list_key_comes_before_def by (cases a; cases b) auto

interpretation job_index: boundary_order job_list_entries_come_before job_list_entry_comes_before_boundary
  by unfold_locales
    (auto simp: job_list_entries_come_before_def job_list_entry_comes_before_boundary_def
      dest: key_asym key_trans)

lemma distinct_keys_comparable:
  "\<forall>y \<in> set xs. job_list_key y \<noteq> job_list_key x \<Longrightarrow>
     \<forall>y \<in> set xs. job_list_entries_come_before x y \<or> job_list_entries_come_before y x"
  by (metis job_list_entries_come_before_def key_total)

section \<open>The priority mixer\<close>

lemma xorshift_inj:
  fixes x y :: "'a::len word"
  assumes "x XOR drop_bit k x = y XOR drop_bit k y" and "0 < k"
  shows "x = y"
proof (rule ccontr)
  assume "x \<noteq> y"
  then obtain n where n: "bit x n \<noteq> bit y n" by (auto simp: bit_eq_iff)
  define N where "N = {n. bit x n \<noteq> bit y n}"
  have fin: "finite N"
    by (rule finite_subset [of _ "{..<LENGTH('a)}"]) (auto simp: N_def dest: bit_imp_le_length)
  have "N \<noteq> {}" using n by (auto simp: N_def)
  then have top: "Max N \<in> N" and above: "\<And>m. Max N < m \<Longrightarrow> m \<notin> N"
    using fin Max_in by (auto simp: not_less [symmetric])
  let ?m = "Max N"
  have "bit (x XOR drop_bit k x) ?m = bit (y XOR drop_bit k y) ?m" using assms(1) by simp
  moreover have "bit x (k + ?m) = bit y (k + ?m)"
    using above [of "k + ?m"] assms(2) by (auto simp: N_def)
  ultimately show False using top by (auto simp: N_def bit_xor_iff bit_drop_bit_eq)
qed

lemma odd_mult_inj:
  fixes c d :: u64
  assumes "d * c = 1" and "x * c = y * c"
  shows "x = y"
proof -
  have "x = x * (d * c)" using assms(1) by simp
  also have "\<dots> = x * c * d" by (simp only: ac_simps)
  also have "\<dots> = y * c * d" using assms(2) by simp
  also have "\<dots> = y * (d * c)" by (simp only: ac_simps)
  finally show ?thesis using assms(1) by simp
qed

section \<open>Properties\<close>

text \<open>C35: inserting an entry whose key no retained entry has keeps the index well-formed (strictly
  sorted in-order, heap-ordered priorities, exact cached sizes) and adds exactly that entry, at
  its sorted position.\<close>

theorem job_list_insert_correct:
  assumes "index_ok t" and "\<forall>y \<in> set (inorder t). job_list_key y \<noteq> job_list_key e"
  shows "index_ok (job_list_index_insert t e) \<and>
    inorder (job_list_index_insert t e) =
      takeWhile (\<lambda>y. job_list_entries_come_before y e) (inorder t) @ e #
      dropWhile (\<lambda>y. job_list_entries_come_before y e) (inorder t) \<and>
    job_list_index_size (job_list_index_insert t e) = Suc (job_list_index_size t)"
proof -
  note cmp = distinct_keys_comparable [OF assms(2)]
  have ok: "index_ok (job_list_index_insert t e)"
    using assms(1) job_index.sorted_insert [OF _ cmp]
    by (simp add: index_ok_def job_list_index_insert_def sizes_ok_insert heap_insert)
  have ino: "inorder (job_list_index_insert t e) =
      takeWhile (\<lambda>y. job_list_entries_come_before y e) (inorder t) @ e #
      dropWhile (\<lambda>y. job_list_entries_come_before y e) (inorder t)"
    using assms(1) job_index.inorder_insert [OF _ cmp] by (simp add: index_ok_def job_list_index_insert_def)
  have "length (inorder (job_list_index_insert t e)) = Suc (length (inorder t))"
    unfolding ino by (metis add_Suc_right length_Cons length_append takeWhile_dropWhile_id)
  with ok ino assms(1) show ?thesis
    by (simp add: job_list_index_size_def index_ok_def sizes_ok_size)
qed

theorem job_list_insert_correct_witness:
  "index_ok (job_list_index_insert
     (job_list_index_insert TNil \<lparr>generation = 1, created_at = 5, job_id = ''a''\<rparr>)
     \<lparr>generation = 2, created_at = 5, job_id = ''b''\<rparr>)"
proof -
  let ?a = "\<lparr>generation = 1, created_at = 5, job_id = ''a''\<rparr>" and
      ?b = "\<lparr>generation = 2, created_at = 5, job_id = ''b''\<rparr>"
  have e: "index_ok TNil" by (simp add: index_ok_def)
  have a: "index_ok (job_list_index_insert TNil ?a)"
    by (rule job_list_insert_correct [THEN conjunct1, OF e]) simp
  show ?thesis
    by (rule job_list_insert_correct [THEN conjunct1, OF a])
      (simp add: job_list_index_insert_def job_list_key_def)
qed

text \<open>C36: removing an entry keeps the index well-formed and deletes exactly that entry; removing one
  that is not indexed changes no content.\<close>

theorem job_list_remove_correct:
  assumes "index_ok t"
  shows "index_ok (job_list_index_remove t e) \<and>
    inorder (job_list_index_remove t e) = filter (\<lambda>y. y \<noteq> e) (inorder t)"
  using assms job_index.sorted_remove [of t e] job_index.inorder_remove [of t e]
  by (simp add: index_ok_def job_list_index_remove_def sizes_ok_remove heap_remove_bound)

theorem job_list_remove_correct_witness:
  "inorder (job_list_index_remove
     (TNode \<lparr>generation = 1, created_at = 5, job_id = ''a''\<rparr> 7 TNil TNil 1)
     \<lparr>generation = 1, created_at = 5, job_id = ''a''\<rparr>) = []"
  using job_list_remove_correct [of "TNode \<lparr>generation = 1, created_at = 5, job_id = ''a''\<rparr> 7 TNil TNil 1"
      "\<lparr>generation = 1, created_at = 5, job_id = ''a''\<rparr>"]
  by (simp add: index_ok_def)

text \<open>C34: a page of the job list is exactly the newest entries strictly below the page's boundary, in
  newest-first order, cut at the page limit.\<close>

theorem job_list_page_correct:
  assumes "index_ok t"
  shows "job_list_index_collect_before t before [] limit =
    take (nat limit) (map retained_job_list_snapshot (rev (filter
      (\<lambda>e. \<forall>b. before = Some b \<longrightarrow> job_list_key_comes_before (job_list_key e) b) (inorder t))))"
  using job_index.collect_before_eq [of t retained_job_list_snapshot before limit "[]"] assms
  by (simp add: index_ok_def job_list_index_collect_before_def job_list_entry_comes_before_boundary_def)

theorem job_list_page_correct_witness:
  "map (job_id \<circ> retained_entry) (job_list_index_collect_before
     (TNode \<lparr>generation = 1, created_at = 5, job_id = ''a''\<rparr> 9
        TNil (TNode \<lparr>generation = 2, created_at = 6, job_id = ''b''\<rparr> 7 TNil TNil 1) 2)
     (Some \<lparr>boundary_created_at = 6, boundary_id = ''b''\<rparr>) [] 10) = [''a'']"
  by (subst job_list_page_correct)
    (simp_all add: index_ok_def job_list_entries_come_before_def job_list_key_comes_before_def
      job_list_key_def retained_job_list_snapshot_def)

text \<open>Unique generations get unique priorities: the mixer is injective on all 64-bit values.\<close>

lemma priority_injective: "priority g = priority h \<longleftrightarrow> g = h"
proof
  assume eq: "priority g = priority h"
  let ?m = "\<lambda>g. (g + 0x9e3779b97f4a7c15) :: u64"
  let ?b = "\<lambda>a. (a XOR drop_bit 30 a) * 0xbf58476d1ce4e5b9 :: u64"
  let ?c = "\<lambda>b. (b XOR drop_bit 27 b) * 0x94d049bb133111eb :: u64"
  have "?c (?b (?m g)) = ?c (?b (?m h))"
    using eq unfolding priority_def Let_def by (rule xorshift_inj) simp
  then have "?b (?m g) XOR drop_bit 27 (?b (?m g)) = ?b (?m h) XOR drop_bit 27 (?b (?m h))"
    by (rule odd_mult_inj [rotated, where d = "0x319642b2d24d8ec3"]) simp
  then have "?b (?m g) = ?b (?m h)" by (rule xorshift_inj) simp
  then have "?m g XOR drop_bit 30 (?m g) = ?m h XOR drop_bit 30 (?m h)"
    by (rule odd_mult_inj [rotated, where d = "0x96de1b173f119089"]) simp
  then have "?m g = ?m h" by (rule xorshift_inj) simp
  then show "g = h" by simp
qed simp

end
