(* ===== verification/Go_Utf8.thy ===== *)
theory Go_Utf8
  imports Prelude
begin

text \<open>
  What the sources use of Go's \<open>unicode/utf8\<close>, \<open>unicode\<close> and \<open>strings\<close>: decoding the first or
  last rune of a byte string (an invalid sequence is \<open>RuneError\<close> of width one), encoding a rune,
  validity of a string, \<open>unicode.IsSpace\<close> and \<open>strings.TrimSpace\<close>.  A rune is a \<open>nat\<close>.
\<close>

abbreviation byte_at :: "bytes \<Rightarrow> nat \<Rightarrow> nat" where
  "byte_at s i \<equiv> of_char (s ! i)"

abbreviation rune_error :: nat where "rune_error \<equiv> 0xFFFD"

definition is_cont :: "nat \<Rightarrow> bool" where
  "is_cont b \<longleftrightarrow> 0x80 \<le> b \<and> b \<le> 0xBF"

text \<open>The accepted range of the second byte, by the first (Go's \<open>acceptRanges\<close>).\<close>

definition accept2 :: "nat \<Rightarrow> nat \<Rightarrow> bool" where
  "accept2 b0 b1 \<longleftrightarrow>
     (if b0 = 0xE0 then 0xA0 \<le> b1 \<and> b1 \<le> 0xBF
      else if b0 = 0xED then 0x80 \<le> b1 \<and> b1 \<le> 0x9F
      else if b0 = 0xF0 then 0x90 \<le> b1 \<and> b1 \<le> 0xBF
      else if b0 = 0xF4 then 0x80 \<le> b1 \<and> b1 \<le> 0x8F
      else is_cont b1)"

definition decode_rune :: "bytes \<Rightarrow> nat \<times> nat" where
  "decode_rune s =
     (if s = [] then (rune_error, 0)
      else let b0 = byte_at s 0 in
        if b0 < 0x80 then (b0, 1)
        else if 0xC2 \<le> b0 \<and> b0 \<le> 0xDF then
          (if 2 \<le> length s \<and> is_cont (byte_at s 1)
           then ((b0 - 0xC0) * 64 + (byte_at s 1 - 0x80), 2) else (rune_error, 1))
        else if 0xE0 \<le> b0 \<and> b0 \<le> 0xEF then
          (if 3 \<le> length s \<and> accept2 b0 (byte_at s 1) \<and> is_cont (byte_at s 2)
           then ((b0 - 0xE0) * 4096 + (byte_at s 1 - 0x80) * 64 + (byte_at s 2 - 0x80), 3)
           else (rune_error, 1))
        else if 0xF0 \<le> b0 \<and> b0 \<le> 0xF4 then
          (if 4 \<le> length s \<and> accept2 b0 (byte_at s 1) \<and> is_cont (byte_at s 2) \<and> is_cont (byte_at s 3)
           then ((b0 - 0xF0) * 262144 + (byte_at s 1 - 0x80) * 4096 + (byte_at s 2 - 0x80) * 64
                 + (byte_at s 3 - 0x80), 4)
           else (rune_error, 1))
        else (rune_error, 1))"

definition valid_rune :: "nat \<Rightarrow> bool" where
  "valid_rune r \<longleftrightarrow> r < 0xD800 \<or> (0xE000 \<le> r \<and> r \<le> 0x10FFFF)"

definition encode_valid :: "nat \<Rightarrow> bytes" where
  "encode_valid r =
     (if r < 0x80 then [char_of r]
      else if r < 0x800 then [char_of (0xC0 + r div 64), char_of (0x80 + r mod 64)]
      else if r < 0x10000 then
        [char_of (0xE0 + r div 4096), char_of (0x80 + r div 64 mod 64), char_of (0x80 + r mod 64)]
      else [char_of (0xF0 + r div 262144), char_of (0x80 + r div 4096 mod 64),
            char_of (0x80 + r div 64 mod 64), char_of (0x80 + r mod 64)])"

text \<open>\<open>WriteRune\<close> writes \<open>RuneError\<close> for a value that is no rune.\<close>

definition encode_rune :: "nat \<Rightarrow> bytes" where
  "encode_rune r = encode_valid (if valid_rune r then r else rune_error)"

lemma decode_rune_width:
  "s \<noteq> [] \<Longrightarrow> 1 \<le> snd (decode_rune s) \<and> snd (decode_rune s) \<le> 4 \<and> snd (decode_rune s) \<le> length s"
  by (cases s) (auto simp: decode_rune_def Let_def)

lemma decode_rune_pos: "s \<noteq> [] \<Longrightarrow> 0 < snd (decode_rune s)"
  using decode_rune_width [of s] by simp

lemma decode_width_pos: "decode_rune s = (r, w) \<Longrightarrow> s \<noteq> [] \<Longrightarrow> 0 < w"
  using decode_rune_pos [of s] by simp

text \<open>The bytes of a rune that is not ASCII, or of an invalid sequence, are not ASCII.\<close>

lemma decode_non_ascii:
  assumes "decode_rune s = (r, w)" "s \<noteq> []" "byte_at s 0 \<ge> 0x80"
  shows "r \<ge> 0x80 \<and> (\<forall>c \<in> set (take w s). of_char c \<ge> (0x80 :: nat))"
proof -
  obtain c t where s: "s = c # t" using assms(2) by (cases s) auto
  have c: "of_char c \<ge> (0x80 :: nat)" using assms(3) by (simp add: s)
  show ?thesis
    using assms(1) c unfolding s
    by (cases t; cases "tl t"; cases "tl (tl t)")
      (auto simp: decode_rune_def Let_def is_cont_def accept2_def numeral_2_eq_2 numeral_3_eq_3 split: if_splits)
qed

lemma decode_rune_le: "snd (decode_rune s) \<le> length s"
  using decode_rune_width [of s] by (cases "s = []") (auto simp: decode_rune_def)

lemma decode_ascii [simp]: "of_char c < (0x80 :: nat) \<Longrightarrow> decode_rune (c # s) = (of_char c, 1)"
  by (simp add: decode_rune_def)

lemma accept2_three:
  assumes "32 \<le> q" "q < 1024" "q < 864 \<or> 896 \<le> q"
  shows "accept2 (0xE0 + q div 64) (0x80 + q mod 64)"
proof -
  define a b where ab: "a = q div 64" "b = q mod 64"
  have q: "q = 64 * a + b" and "b < 64" by (simp_all add: ab)
  have "a < 16" using q assms(2) by linarith
  moreover have "a = 0 \<Longrightarrow> 32 \<le> b" using q assms(1) by linarith
  moreover have "a = 13 \<Longrightarrow> b < 32" using q assms(3) \<open>b < 64\<close> by arith
  ultimately show ?thesis
    unfolding accept2_def is_cont_def ab [symmetric] using \<open>b < 64\<close> by auto
qed

lemma accept2_four:
  assumes "16 \<le> q" "q \<le> 271"
  shows "accept2 (0xF0 + q div 64) (0x80 + q mod 64)"
proof -
  define a b where ab: "a = q div 64" "b = q mod 64"
  have q: "q = 64 * a + b" and "b < 64" by (simp_all add: ab)
  have "a < 5" using q assms(2) by linarith
  moreover have "a = 0 \<Longrightarrow> 16 \<le> b" using q assms(1) by linarith
  moreover have "a = 4 \<Longrightarrow> b < 16" using q assms(2) by linarith
  ultimately show ?thesis
    unfolding accept2_def is_cont_def ab [symmetric] using \<open>b < 64\<close> by auto
qed

lemma decode_encode:
  assumes "valid_rune r"
  shows "decode_rune (encode_rune r @ s) = (r, length (encode_rune r))"
proof -
  have c: "is_cont (0x80 + n mod 64)" for n by (simp add: is_cont_def)
  consider "r < 0x80" | "0x80 \<le> r" "r < 0x800" | "0x800 \<le> r" "r < 0x10000" | "0x10000 \<le> r" by linarith
  then show ?thesis
  proof cases
    case 1
    then show ?thesis using assms by (simp add: encode_rune_def encode_valid_def of_char_of)
  next
    case 2
    then have "r div 64 < 32" "2 \<le> r div 64" by auto
    then show ?thesis using 2 assms c [of r]
      by (simp add: encode_rune_def encode_valid_def of_char_of decode_rune_def Let_def)
  next
    case 3
    have b: "r div 4096 < 16" using 3 by auto
    have q: "r div 4096 = (r div 64) div 64" by (simp flip: div_mult2_eq)
    have "32 \<le> r div 64" "r div 64 < 1024" "r div 64 < 864 \<or> 896 \<le> r div 64"
      using assms 3 by (auto simp: valid_rune_def)
    then have a: "accept2 (0xE0 + r div 4096) (0x80 + r div 64 mod 64)"
      unfolding q by (rule accept2_three)
    have m: "r div 4096 * 4096 + r div 64 mod 64 * 64 + r mod 64 = r"
      unfolding q using mult_div_mod_eq [of 64 r] mult_div_mod_eq [of 64 "r div 64"] by linarith
    show ?thesis using 3 assms a b c [of r] m
      by (simp add: encode_rune_def encode_valid_def of_char_of decode_rune_def Let_def)
  next
    case 4
    have b: "r div 262144 < 5" using 4 assms by (auto simp: valid_rune_def)
    have q: "r div 262144 = (r div 4096) div 64" by (simp flip: div_mult2_eq)
    have "16 \<le> r div 4096" "r div 4096 \<le> 271"
      using assms 4 by (auto simp: valid_rune_def)
    then have a: "accept2 (0xF0 + r div 262144) (0x80 + r div 4096 mod 64)"
      unfolding q by (rule accept2_four)
    have m: "r div 262144 * 262144 + r div 4096 mod 64 * 4096 + r div 64 mod 64 * 64 + r mod 64 = r"
    proof -
      have "r div 262144 * 262144 + r div 4096 mod 64 * 4096 = r div 4096 * 4096"
        unfolding q using mult_div_mod_eq [of 64 "r div 4096"] by linarith
      moreover have "r div 4096 = (r div 64) div 64" by (simp flip: div_mult2_eq)
      ultimately show ?thesis
        using mult_div_mod_eq [of 64 r] mult_div_mod_eq [of 64 "r div 64"] by linarith
    qed
    show ?thesis using 4 assms a b c [of r] c [of "r div 64"] m
      by (simp add: encode_rune_def encode_valid_def of_char_of decode_rune_def Let_def)
  qed
qed

text \<open>A rune decoded from a string re-encodes to the bytes it came from.\<close>

definition decodes_ok :: "bytes \<Rightarrow> bool" where
  "decodes_ok s \<longleftrightarrow> \<not> (decode_rune s = (rune_error, 1))"

function valid_string :: "bytes \<Rightarrow> bool" where
  "valid_string s =
     (if s = [] then True
      else if decode_rune s = (rune_error, 1) then False
      else valid_string (drop (snd (decode_rune s)) s))"
  by pat_completeness auto
termination
  by (relation "measure length") (auto simp: decode_rune_pos)

declare valid_string.simps [simp del]

lemma valid_string_Nil [simp]: "valid_string []"
  by (simp add: valid_string.simps)

definition is_space :: "nat \<Rightarrow> bool" where
  "is_space r \<longleftrightarrow>
     (9 \<le> r \<and> r \<le> 13) \<or> r = 32 \<or> r = 0x85 \<or> r = 0xA0 \<or> r = 0x1680
     \<or> (0x2000 \<le> r \<and> r \<le> 0x200A) \<or> r = 0x2028 \<or> r = 0x2029 \<or> r = 0x202F \<or> r = 0x205F \<or> r = 0x3000"

lemma not_space_error [simp]: "\<not> is_space rune_error"
  by (simp add: is_space_def)

text \<open>
  \<open>DecodeLastRuneInString\<close>: step back to a byte that can start a rune (at most four bytes), decode
  there, and accept only a rune that ends exactly at the end.
\<close>

definition rune_start :: "char \<Rightarrow> bool" where
  "rune_start c \<longleftrightarrow> \<not> is_cont (of_char c)"

fun last_start :: "nat \<Rightarrow> bytes \<Rightarrow> nat \<Rightarrow> nat" where
  "last_start 0 s i = i"
| "last_start (Suc k) s i =
     (if i = 0 then 0 else if rune_start (s ! (i - 1)) then i - 1 else last_start k s (i - 1))"

definition decode_last_rune :: "bytes \<Rightarrow> nat \<times> nat" where
  "decode_last_rune s =
     (if s = [] then (rune_error, 0)
      else if of_char (last s) < (0x80 :: nat) then (of_char (last s), 1)
      else let start = last_start 3 s (length s - 1);
               (r, size) = decode_rune (drop start s)
           in if start + size \<noteq> length s then (rune_error, 1) else (r, size))"

lemma last_start_le: "last_start k s i \<le> i"
  by (induction k s i rule: last_start.induct) auto

lemma decode_last_rune_width:
  assumes "s \<noteq> []"
  shows "1 \<le> snd (decode_last_rune s) \<and> snd (decode_last_rune s) \<le> length s"
proof -
  have "last_start 3 s (length s - 1) < length s"
    using last_start_le [of 3 s "length s - 1"] assms by (cases s) auto
  then show ?thesis
    using assms decode_rune_width [of "drop (last_start 3 s (length s - 1)) s"]
    by (auto simp: decode_last_rune_def Let_def split: prod.splits)
qed

function trim_left :: "bytes \<Rightarrow> bytes" where
  "trim_left s =
     (if s \<noteq> [] \<and> is_space (fst (decode_rune s)) then trim_left (drop (snd (decode_rune s)) s) else s)"
  by pat_completeness auto
termination
  by (relation "measure length") (auto simp: decode_rune_pos)

function trim_right :: "bytes \<Rightarrow> bytes" where
  "trim_right s =
     (if s \<noteq> [] \<and> is_space (fst (decode_last_rune s))
      then trim_right (take (length s - snd (decode_last_rune s)) s) else s)"
  by pat_completeness auto
termination
  using decode_last_rune_width by (relation "measure length") (auto, fastforce)

declare trim_left.simps [simp del] trim_right.simps [simp del]

definition trim_space :: "bytes \<Rightarrow> bytes" where
  "trim_space s = trim_right (trim_left s)"

text \<open>ASCII text, where every rune is one byte.\<close>

lemma valid_string_ascii [simp]: "of_char c < (0x80 :: nat) \<Longrightarrow> valid_string (c # s) = valid_string s"
  by (subst valid_string.simps) simp

lemma trim_left_ascii [simp]:
  "of_char c < (0x80 :: nat) \<Longrightarrow> trim_left (c # s) = (if is_space (of_char c) then trim_left s else c # s)"
  by (subst trim_left.simps) simp

lemma trim_right_ascii:
  "s \<noteq> [] \<Longrightarrow> of_char (last s) < (0x80 :: nat) \<Longrightarrow> \<not> is_space (of_char (last s)) \<Longrightarrow> trim_right s = s"
  by (subst trim_right.simps) (simp add: decode_last_rune_def)

lemma trim_space_ascii:
  "s \<noteq> [] \<Longrightarrow> of_char (hd s) < (0x80 :: nat) \<Longrightarrow> \<not> is_space (of_char (hd s)) \<Longrightarrow>
   of_char (last s) < (0x80 :: nat) \<Longrightarrow> \<not> is_space (of_char (last s)) \<Longrightarrow> trim_space s = s"
  by (cases s) (simp_all add: trim_space_def trim_right_ascii)

section \<open>The runes of a valid string\<close>

lemma digits64: "(x * 64 + z) div 64 = x" "(x * 64 + z) mod 64 = z" if "z < 64" for x z :: nat
  using that by auto

lemma char_of_byte: "char_of (of_char c :: nat) = c"
  by simp

lemma decode_rune_encodes:
  assumes "s \<noteq> []" "decode_rune s = (r, w)" "\<not> (r = rune_error \<and> w = 1)"
  shows "valid_rune r \<and> take w s = encode_rune r"
proof -
  define b0 where "b0 = byte_at s 0"
  obtain c0 t where s: "s = c0 # t" using assms(1) by (cases s) auto
  have b0c: "b0 = of_char c0" by (simp add: b0_def s)
  consider (one) "b0 < 0x80" | (two) "0xC2 \<le> b0" "b0 \<le> 0xDF" | (three) "0xE0 \<le> b0" "b0 \<le> 0xEF" | (four) "0xF0 \<le> b0" "b0 \<le> 0xF4"
    using assms by (fastforce simp: decode_rune_def Let_def b0_def split: if_splits)
  then show ?thesis
  proof cases
    case one
    then have "r = b0" "w = 1" using assms by (auto simp: decode_rune_def Let_def b0_def)
    then show ?thesis using one by (simp add: s valid_rune_def encode_rune_def encode_valid_def b0c)
  next
    case two
    then have d: "2 \<le> length s" "is_cont (byte_at s 1)" "r = (b0 - 0xC0) * 64 + (byte_at s 1 - 0x80)" "w = 2"
      using assms by (auto simp: decode_rune_def Let_def b0_def split: if_splits)
    obtain c1 u where t: "t = c1 # u" using d(1) s by (cases t) auto
    define y where "y = of_char c1 - (0x80 :: nat)"
    have y: "of_char c1 = 0x80 + y" "y < 64" using d(2) by (auto simp: s t is_cont_def y_def)
    obtain x where x: "b0 = 0xC0 + x" "2 \<le> x" "x < 32" using two by (intro that [of "b0 - 0xC0"]) auto
    have r: "r = x * 64 + y" using d(3) x(1) y by (simp add: s t)
    have c: "c0 = char_of (0xC0 + x)" "c1 = char_of (0x80 + y)" using x(1) y(1) b0c char_of_byte by metis+
    have "r < 0x800" "0x80 \<le> r" using r x y(2) by linarith+
    then show ?thesis using d(4) digits64 [OF y(2), of x] by (simp add: s t r c valid_rune_def encode_rune_def encode_valid_def)
  next
    case three
    then have d: "3 \<le> length s" "accept2 b0 (byte_at s 1)" "is_cont (byte_at s 2)"
      "r = (b0 - 0xE0) * 4096 + (byte_at s 1 - 0x80) * 64 + (byte_at s 2 - 0x80)" "w = 3"
      using assms by (auto simp: decode_rune_def Let_def b0_def split: if_splits)
    obtain c1 c2 u where t: "t = c1 # c2 # u" using d(1) s by (cases t; cases "tl t") auto
    define y z where "y = of_char c1 - (0x80 :: nat)" and "z = of_char c2 - (0x80 :: nat)"
    have z: "of_char c2 = 0x80 + z" "z < 64" using d(3) by (auto simp: s t is_cont_def z_def)
    have y: "of_char c1 = 0x80 + y" "y < 64" "b0 = 0xE0 \<longrightarrow> 32 \<le> y" "b0 = 0xED \<longrightarrow> y < 32"
      using d(2) by (auto simp: s t is_cont_def accept2_def y_def split: if_splits)
    obtain x where x: "b0 = 0xE0 + x" "x < 16" using three by (intro that [of "b0 - 0xE0"]) auto
    have r: "r = (x * 64 + y) * 64 + z" using d(4) x(1) y z by (simp add: s t)
    have c: "c0 = char_of (0xE0 + x)" "c1 = char_of (0x80 + y)" "c2 = char_of (0x80 + z)" using x(1) y(1) z(1) b0c char_of_byte by metis+
    have r2: "r = x * 4096 + y * 64 + z" using r by simp
    have v: "r < 0x10000 \<and> 0x800 \<le> r \<and> (r < 0xD800 \<or> 0xE000 \<le> r)"
    proof -
      consider "x = 0" | "1 \<le> x" "x \<le> 12" | "x = 13" | "14 \<le> x" using x(2) by linarith
      then show ?thesis using x y z(2) r2 by cases linarith+
    qed
    have "r div 4096 = x" "r div 64 = x * 64 + y" "r mod 64 = z" "r div 64 mod 64 = y"
      using digits64 [OF z(2), of "x * 64 + y"] digits64 [OF y(2), of x] r by (simp_all flip: r add: div_mult2_eq [of r 64 64, simplified])
    then show ?thesis using d(5) v by (simp add: s t c valid_rune_def encode_rune_def encode_valid_def)
  next
    case four
    then have d: "4 \<le> length s" "accept2 b0 (byte_at s 1)" "is_cont (byte_at s 2)" "is_cont (byte_at s 3)"
      "r = (b0 - 0xF0) * 262144 + (byte_at s 1 - 0x80) * 4096 + (byte_at s 2 - 0x80) * 64 + (byte_at s 3 - 0x80)" "w = 4"
      using assms by (auto simp: decode_rune_def Let_def b0_def split: if_splits)
    obtain c1 c2 c3 u where t: "t = c1 # c2 # c3 # u" using d(1) s by (cases t; cases "tl t"; cases "tl (tl t)") auto
    define y z v where "y = of_char c1 - (0x80 :: nat)" and "z = of_char c2 - (0x80 :: nat)" and "v = of_char c3 - (0x80 :: nat)"
    have z: "of_char c2 = 0x80 + z" "z < 64" "of_char c3 = 0x80 + v" "v < 64"
      using d(3,4) by (auto simp: s t is_cont_def z_def v_def numeral_3_eq_3)
    have y: "of_char c1 = 0x80 + y" "y < 64" "b0 = 0xF0 \<longrightarrow> 16 \<le> y" "b0 = 0xF4 \<longrightarrow> y < 16"
      using d(2) by (auto simp: s t is_cont_def accept2_def y_def split: if_splits)
    obtain x where x: "b0 = 0xF0 + x" "x \<le> 4" using four by (intro that [of "b0 - 0xF0"]) auto
    have r: "r = ((x * 64 + y) * 64 + z) * 64 + v" using d(5) x(1) y z by (simp add: s t numeral_3_eq_3)
    have c: "c0 = char_of (0xF0 + x)" "c1 = char_of (0x80 + y)" "c2 = char_of (0x80 + z)" "c3 = char_of (0x80 + v)"
      using x(1) y(1) z(1,3) b0c char_of_byte by metis+
    have r2: "r = x * 262144 + y * 4096 + z * 64 + v" using r by simp
    have w: "0x10000 \<le> r \<and> r \<le> 0x10FFFF"
    proof -
      consider "x = 0" | "1 \<le> x" "x \<le> 3" | "x = 4" using x(2) by linarith
      then show ?thesis using x y z(2,4) r2 by cases linarith+
    qed
    have "r mod 64 = v" "r div 64 = (x * 64 + y) * 64 + z" using digits64 [OF z(4), of "(x * 64 + y) * 64 + z"] r by simp_all
    moreover from this have "r div 64 mod 64 = z" "r div 4096 = x * 64 + y"
      using digits64 [OF z(2), of "x * 64 + y"] div_mult2_eq [of r 64 64] by simp_all
    moreover from this have "r div 4096 mod 64 = y" "r div 262144 = x"
      using digits64 [OF y(2), of x] div_mult2_eq [of r 4096 64] by simp_all
    ultimately show ?thesis using d(6) w by (simp add: s t c valid_rune_def encode_rune_def encode_valid_def)
  qed
qed

function runes :: "bytes \<Rightarrow> nat list" where
  "runes s = (if s = [] then [] else fst (decode_rune s) # runes (drop (snd (decode_rune s)) s))"
  by pat_completeness auto
termination
  by (relation "measure length") (auto simp: decode_rune_pos)

declare runes.simps [simp del]

definition encode_runes :: "nat list \<Rightarrow> bytes" where
  "encode_runes rs = concat (map encode_rune rs)"

lemma encode_runes_simps [simp]:
  "encode_runes [] = []" "encode_runes (r # rs) = encode_rune r @ encode_runes rs" "encode_runes (xs @ ys) = encode_runes xs @ encode_runes ys"
  by (simp_all add: encode_runes_def)

lemma encode_rune_nonempty [simp]: "encode_rune r \<noteq> []"
  by (simp add: encode_rune_def encode_valid_def)

lemma runes_encode: "\<forall>r \<in> set rs. valid_rune r \<Longrightarrow> runes (encode_runes rs) = rs"
  by (induction rs) (simp_all add: runes.simps decode_encode)

lemma valid_string_step:
  assumes "valid_string s" "s \<noteq> []" "decode_rune s = (r, w)"
  shows "valid_rune r" "s = encode_rune r @ drop w s" "valid_string (drop w s)" "runes s = r # runes (drop w s)" "w = length (encode_rune r)"
    "0 < w" "w \<le> length s"
proof -
  have n: "\<not> (r = rune_error \<and> w = 1)" "valid_string (drop w s)" using assms by (auto simp: valid_string.simps [of s] split: if_splits)
  note e = decode_rune_encodes [OF assms(2,3) n(1)]
  show "valid_rune r" "valid_string (drop w s)" using e n by auto
  show "s = encode_rune r @ drop w s" using e by (metis append_take_drop_id)
  show "runes s = r # runes (drop w s)" using assms(2,3) by (simp add: runes.simps [of s])
  show wl: "0 < w" "w \<le> length s" using decode_rune_width [OF assms(2)] assms(3) by auto
  then show "w = length (encode_rune r)" using e by (metis length_take min.absorb2)
qed

lemma valid_string_runes: "valid_string s \<Longrightarrow> encode_runes (runes s) = s \<and> (\<forall>r \<in> set (runes s). valid_rune r)"
proof (induction s rule: runes.induct)
  case (1 s)
  show ?case
  proof (cases "s = []")
    case False
    obtain r w where d: "decode_rune s = (r, w)" by fastforce
    note v = valid_string_step [OF "1.prems" False d]
    show ?thesis using "1.IH" [OF False] v(1-4) d by simp
  qed (simp add: runes.simps)
qed

lemma valid_encode_runes: "\<forall>r \<in> set rs. valid_rune r \<Longrightarrow> valid_string (encode_runes rs)"
proof (induction rs)
  case (Cons r rs)
  have d: "decode_rune (encode_runes (r # rs)) = (r, length (encode_rune r))" using Cons.prems decode_encode by simp
  moreover have "\<not> (r = rune_error \<and> length (encode_rune r) = 1)" by (auto simp: encode_rune_def encode_valid_def valid_rune_def)
  ultimately show ?case using Cons by (subst valid_string.simps) auto
qed simp

end
