(* ===== verification/Ingest_Quota.thy ===== *)
theory Ingest_Quota
  imports Go_Utf8 "HOL-Library.List_Lexorder" "HOL-Library.Char_ord"
begin

text \<open>
  \<open>internal/ingestquota/quota.go\<close>: the virtual-schedule arithmetic of ingestion quotas.

  A \<open>uint64\<close> is a \<open>64 word\<close>.  An \<open>int64\<close> instant or duration (nanoseconds, microseconds) is an
  \<open>int\<close>; the guards of the code that keep it inside \<open>int64\<close> are part of the model and the range is
  a theorem.  A \<open>time.Time\<close> is the number of nanoseconds since the Unix epoch (unbounded: the
  supported range is what \<open>supportedUnixNano\<close> checks; the zero time lies before the epoch).  Errors
  are the constructors of \<open>quota_error\<close>, one per \<open>errors.New\<close> the code returns.
\<close>

abbreviation max_int64 :: int where "max_int64 \<equiv> 2 ^ 63 - 1"
abbreviation second_ns :: nat where "second_ns \<equiv> 1000000000"

datatype scope_kind = ScopeKindToken | ScopeKindIndex | ScopeKindOther string

record scope_key =
  scope_kind :: scope_kind
  scope_tenant :: string
  scope_identity :: string

record limits =
  max_events_per_second :: u64
  max_bytes_per_second :: u64

record quota_state =
  state_limits :: limits
  next_event_nano :: int
  next_byte_nano :: int
  updated_micro :: int

record charge =
  charge_scope :: scope_key
  charge_limits :: limits
  charge_events :: u64
  charge_bytes :: u64
  charge_state :: "quota_state option"

record state_update =
  update_scope :: scope_key
  update_state :: quota_state

record decision =
  allowed :: bool
  retry_after :: int
  blocking_scope :: "scope_key option"
  updates :: "state_update list"

record rejection_admission =
  rejection_scope :: scope_key
  token_limits :: limits

datatype quota_error =
    ScopeKindInvalid | TenantInvalid | IdentityInvalid | EventRateTooHigh | ByteRateTooHigh
  | EventChargeRange | ByteChargeRange | PersistedUpdateTime | PersistedSchedule
  | NotTokenScope | CostRateZero | DurationOverflow | DurationBounds | DivPanic
  | TimeUnsupported | NoCharge | DuplicateScope | EventScheduleOverflow | ByteScheduleOverflow

definition no_limits :: limits where
  "no_limits = \<lparr>max_events_per_second = 0, max_bytes_per_second = 0\<rparr>"

definition limits_validate :: "limits \<Rightarrow> quota_error option" where
  "limits_validate l =
     (if max_events_per_second l > 1000000 then Some EventRateTooHigh
      else if max_bytes_per_second l > 0x10000000000 then Some ByteRateTooHigh
      else None)"

definition valid_identity :: "string \<Rightarrow> bool" where
  "valid_identity v \<longleftrightarrow> 1 \<le> length v \<and> length v \<le> 255 \<and> valid_string v \<and> trim_space v = v
     \<and> index_byte (CHR 0x00) v = None"

definition scope_validate :: "scope_key \<Rightarrow> quota_error option" where
  "scope_validate k =
     (if scope_kind k \<noteq> ScopeKindToken \<and> scope_kind k \<noteq> ScopeKindIndex then Some ScopeKindInvalid
      else if \<not> valid_identity (scope_tenant k) then Some TenantInvalid
      else if \<not> valid_identity (scope_identity k) then Some IdentityInvalid
      else None)"

definition valid_dimension_state :: "u64 \<Rightarrow> int \<Rightarrow> bool" where
  "valid_dimension_state rate next = (if rate = 0 then next = 0 else next > 0)"

definition validate_charge :: "charge \<Rightarrow> quota_error option" where
  "validate_charge c =
     (case scope_validate (charge_scope c) of Some e \<Rightarrow> Some e | None \<Rightarrow>
      (case limits_validate (charge_limits c) of Some e \<Rightarrow> Some e | None \<Rightarrow>
       (if charge_events c = 0 \<or> charge_events c > 1000 then Some EventChargeRange
        else if charge_bytes c = 0 \<or> charge_bytes c > 0x800000 then Some ByteChargeRange
        else (case charge_state c of None \<Rightarrow> None | Some st \<Rightarrow>
          (case limits_validate (state_limits st) of Some e \<Rightarrow> Some e | None \<Rightarrow>
           (if updated_micro st \<le> 0 then Some PersistedUpdateTime
            else if \<not> valid_dimension_state (max_events_per_second (state_limits st)) (next_event_nano st)
                  \<or> \<not> valid_dimension_state (max_bytes_per_second (state_limits st)) (next_byte_nano st)
            then Some PersistedSchedule
            else None))))))"

definition rejection_charge :: "rejection_admission \<Rightarrow> u64 \<Rightarrow> quota_error + charge" where
  "rejection_charge a metadata_bytes =
     (if scope_kind (rejection_scope a) \<noteq> ScopeKindToken then Inl NotTokenScope
      else case scope_validate (rejection_scope a) of Some e \<Rightarrow> Inl e | None \<Rightarrow>
        (case limits_validate (token_limits a) of Some e \<Rightarrow> Inl e | None \<Rightarrow>
          (let er = max_events_per_second (token_limits a);
               br = max_bytes_per_second (token_limits a);
               l = \<lparr>max_events_per_second = (if er \<noteq> 0 then min 10 er else 10),
                    max_bytes_per_second = (if br \<noteq> 0 then min 0x40000 br else 0x40000)\<rparr>;
               c = \<lparr>charge_scope = rejection_scope a, charge_limits = l, charge_events = 1,
                    charge_bytes = max 1 metadata_bytes, charge_state = None\<rparr>
           in case validate_charge c of Some e \<Rightarrow> Inl e | None \<Rightarrow> Inr c)))"

text \<open>\<open>bits.Mul64\<close> and \<open>bits.Div64\<close>; the latter panics when the quotient does not fit.\<close>

definition mul64 :: "u64 \<Rightarrow> u64 \<Rightarrow> u64 \<times> u64" where
  "mul64 a b = (of_nat (unat a * unat b div 2 ^ 64), of_nat (unat a * unat b mod 2 ^ 64))"

definition div64 :: "u64 \<Rightarrow> u64 \<Rightarrow> u64 \<Rightarrow> (u64 \<times> u64) option" where
  "div64 hi lo y =
     (if y = 0 \<or> y \<le> hi then None
      else (let n = unat hi * 2 ^ 64 + unat lo
            in Some (of_nat (n div unat y), of_nat (n mod unat y))))"

definition schedule_duration :: "u64 \<Rightarrow> u64 \<Rightarrow> quota_error + int" where
  "schedule_duration cost rate =
     (if cost = 0 \<or> rate = 0 then Inl CostRateZero
      else let seconds = cost div rate in
        if seconds > 0x7FFFFFFFFFFFFFFF div 1000000000 then Inl DurationOverflow
        else
          let nanoseconds = seconds * 1000000000;
              remainder = cost mod rate;
              total = (if remainder \<noteq> 0 then
                 (let (high, low) = mul64 remainder 1000000000 in
                  case div64 high low rate of None \<Rightarrow> Inl DivPanic
                  | Some (fraction0, leftover) \<Rightarrow>
                      (let fraction = (if leftover \<noteq> 0 then fraction0 + 1 else fraction0) in
                       if 0xFFFFFFFFFFFFFFFF - nanoseconds < fraction then Inl DurationOverflow
                       else Inr (nanoseconds + fraction)))
               else Inr nanoseconds)
          in case total of Inl e \<Rightarrow> Inl e | Inr n \<Rightarrow>
            (if n = 0 \<or> n > 0x7FFFFFFFFFFFFFFF then Inl DurationBounds else Inr (uint n)))"

definition supported_unix_nano :: "int \<Rightarrow> quota_error + int" where
  "supported_unix_nano t = (if t < 1000 \<or> t > max_int64 then Inl TimeUnsupported else Inr t)"

definition enabled_now :: "u64 \<Rightarrow> int \<Rightarrow> int" where
  "enabled_now rate now = (if rate = 0 then 0 else now)"

text \<open>\<open>normalizedCharge\<close>, with the state it always fills in as a second component.\<close>

definition normalized_state :: "charge \<Rightarrow> int \<Rightarrow> quota_state" where
  "normalized_state c now =
     (case charge_state c of
        None \<Rightarrow> \<lparr>state_limits = charge_limits c,
                 next_event_nano = enabled_now (max_events_per_second (charge_limits c)) now,
                 next_byte_nano = enabled_now (max_bytes_per_second (charge_limits c)) now,
                 updated_micro = 0\<rparr>
      | Some st \<Rightarrow>
          st\<lparr>state_limits := charge_limits c,
             next_event_nano :=
               (if max_events_per_second (state_limits st) \<noteq> max_events_per_second (charge_limits c)
                then enabled_now (max_events_per_second (charge_limits c)) now else next_event_nano st),
             next_byte_nano :=
               (if max_bytes_per_second (state_limits st) \<noteq> max_bytes_per_second (charge_limits c)
                then enabled_now (max_bytes_per_second (charge_limits c)) now else next_byte_nano st)\<rparr>)"

definition blocking_nanoseconds :: "charge \<Rightarrow> int \<Rightarrow> int" where
  "blocking_nanoseconds c now =
     (let st = normalized_state c now;
          wait = (if max_events_per_second (charge_limits c) \<noteq> 0 \<and> next_event_nano st > now
                  then next_event_nano st - now else 0)
      in if max_bytes_per_second (charge_limits c) \<noteq> 0 \<and> next_byte_nano st > now
            \<and> next_byte_nano st - now > wait
         then next_byte_nano st - now else wait)"

definition scope_precedes :: "scope_key \<Rightarrow> scope_key \<Rightarrow> bool" where
  "scope_precedes left right =
     (if scope_kind left \<noteq> scope_kind right then scope_kind left = ScopeKindToken
      else if scope_identity left \<noteq> scope_identity right then scope_identity left < scope_identity right
      else scope_tenant left < scope_tenant right)"

text \<open>The validation loop: charges in order, each checked before the duplicate test on its scope.\<close>

fun check_charges :: "scope_key list \<Rightarrow> charge list \<Rightarrow> quota_error option" where
  "check_charges seen [] = None"
| "check_charges seen (c # cs) =
     (case validate_charge c of Some e \<Rightarrow> Some e | None \<Rightarrow>
       (if charge_scope c \<in> set seen then Some DuplicateScope
        else check_charges (charge_scope c # seen) cs))"

text \<open>The blocking loop: the longest wait, ties broken by \<open>scopePrecedes\<close>; \<open>None\<close> is not blocked.\<close>

fun find_block :: "int \<Rightarrow> (int \<times> scope_key) option \<Rightarrow> charge list \<Rightarrow> (int \<times> scope_key) option" where
  "find_block now best [] = best"
| "find_block now best (c # cs) =
     (let wait = blocking_nanoseconds c now in
      if wait \<le> 0 then find_block now best cs
      else (case best of
              None \<Rightarrow> find_block now (Some (wait, charge_scope c)) cs
            | Some (w, k) \<Rightarrow>
                (if wait > w \<or> (wait = w \<and> scope_precedes (charge_scope c) k)
                 then find_block now (Some (wait, charge_scope c)) cs
                 else find_block now best cs)))"

definition charge_update :: "int \<Rightarrow> charge \<Rightarrow> quota_error + state_update list" where
  "charge_update now c =
     (let l = charge_limits c in
      if l = no_limits then
        (case charge_state c of
           Some prior \<Rightarrow>
             (if state_limits prior \<noteq> no_limits
              then Inr [\<lparr>update_scope = charge_scope c,
                 update_state = \<lparr>state_limits = no_limits, next_event_nano = 0, next_byte_nano = 0,
                                 updated_micro = now div 1000\<rparr>\<rparr>]
              else Inr [])
         | None \<Rightarrow> Inr [])
      else
        (let ev = (if max_events_per_second l \<noteq> 0 then
             (case schedule_duration (charge_events c) (max_events_per_second l) of
                Inl e \<Rightarrow> Inl EventScheduleOverflow
              | Inr adv \<Rightarrow> if adv > max_int64 - now then Inl EventScheduleOverflow else Inr (now + adv))
             else Inr 0)
         in case ev of Inl e \<Rightarrow> Inl e | Inr ne \<Rightarrow>
          (let by = (if max_bytes_per_second l \<noteq> 0 then
             (case schedule_duration (charge_bytes c) (max_bytes_per_second l) of
                Inl e \<Rightarrow> Inl ByteScheduleOverflow
              | Inr adv \<Rightarrow> if adv > max_int64 - now then Inl ByteScheduleOverflow else Inr (now + adv))
             else Inr 0)
           in case by of Inl e \<Rightarrow> Inl e | Inr nb \<Rightarrow>
            Inr [\<lparr>update_scope = charge_scope c,
              update_state = \<lparr>state_limits = l, next_event_nano = ne, next_byte_nano = nb,
                              updated_micro = now div 1000\<rparr>\<rparr>])))"

fun charge_updates :: "int \<Rightarrow> charge list \<Rightarrow> quota_error + state_update list" where
  "charge_updates now [] = Inr []"
| "charge_updates now (c # cs) =
     (case charge_update now c of Inl e \<Rightarrow> Inl e | Inr us \<Rightarrow>
       (case charge_updates now cs of Inl e \<Rightarrow> Inl e | Inr vs \<Rightarrow> Inr (us @ vs)))"

definition evaluate :: "int \<Rightarrow> charge list \<Rightarrow> quota_error + decision" where
  "evaluate t charges =
     (case supported_unix_nano t of Inl e \<Rightarrow> Inl e | Inr now \<Rightarrow>
       (if charges = [] then Inl NoCharge
        else case check_charges [] charges of Some e \<Rightarrow> Inl e | None \<Rightarrow>
          (case find_block now None charges of
             Some (w, k) \<Rightarrow>
               Inr \<lparr>allowed = False, retry_after = min w (3600 * int second_ns),
                    blocking_scope = Some k, updates = []\<rparr>
           | None \<Rightarrow>
               (case charge_updates now charges of Inl e \<Rightarrow> Inl e | Inr us \<Rightarrow>
                  Inr \<lparr>allowed = True, retry_after = 0, blocking_scope = None, updates = us\<rparr>))))"

section \<open>The schedule arithmetic is exact\<close>

text \<open>The 128-bit product and quotient compute the rounded-up quotient without overflow.\<close>

definition ceil_div :: "nat \<Rightarrow> nat \<Rightarrow> nat" where
  "ceil_div a b = a div b + (if a mod b = 0 then 0 else 1)"

lemma unat_mul64:
  "unat (fst (mul64 a b)) = unat a * unat b div 2 ^ 64"
  "unat (snd (mul64 a b)) = unat a * unat b mod 2 ^ 64"
proof -
  have "unat a * unat b < 2 ^ 64 * 2 ^ 64"
    using unsigned_less [of a] unsigned_less [of b] by (intro mult_strict_mono) simp_all
  then have "unat a * unat b div 2 ^ 64 < 2 ^ 64" by (simp add: less_mult_imp_div_less)
  then show "unat (fst (mul64 a b)) = unat a * unat b div 2 ^ 64"
    by (simp add: mul64_def unat_of_nat take_bit_nat_eq_self)
  show "unat (snd (mul64 a b)) = unat a * unat b mod 2 ^ 64"
    by (simp add: mul64_def unat_of_nat)
qed

lemma div64_mul64:
  assumes "unat m < unat r"
  shows "div64 (fst (mul64 m s)) (snd (mul64 m s)) r =
    Some (of_nat (unat m * unat s div unat r), of_nat (unat m * unat s mod unat r))"
proof -
  have r0: "r \<noteq> 0" using assms by auto
  have "unat m * unat s < unat r * 2 ^ 64"
  proof (cases "unat s = 0")
    case True
    then show ?thesis using assms by simp
  next
    case False
    then show ?thesis using assms unsigned_less [of s] by (intro mult_strict_mono) simp_all
  qed
  then have "unat m * unat s div 2 ^ 64 < unat r" by (simp add: less_mult_imp_div_less)
  then have "fst (mul64 m s) < r" by (simp add: word_less_nat_alt unat_mul64)
  moreover have "unat m * unat s div 2 ^ 64 * 2 ^ 64 + unat m * unat s mod 2 ^ 64 = unat m * unat s"
    by simp
  ultimately show ?thesis using r0 by (simp add: div64_def Let_def unat_mul64 not_le)
qed

lemma mult_div_split:
  assumes "0 < r"
  shows "c * k div r = (c div r) * k + (c mod r) * k div (r::nat)"
    and "c * k mod r = (c mod r) * k mod r"
proof -
  have e: "c * k = (c mod r) * k + r * ((c div r) * k)"
    by (metis (no_types) add.commute add_mult_distrib mult.assoc mult_div_mod_eq)
  show "c * k div r = (c div r) * k + (c mod r) * k div r"
    unfolding e [of] using assms by simp
  show "c * k mod r = (c mod r) * k mod r"
    by (simp add: mod_mult_left_eq)
qed

abbreviation max_seconds :: u64 where "max_seconds \<equiv> 9223372036"

lemma max_seconds_eq: "(0x7FFFFFFFFFFFFFFF div 1000000000 :: u64) = max_seconds"
  by simp

lemma seconds_cmp: "cost div rate > max_seconds \<longleftrightarrow> unat cost div unat rate > 9223372036"
  by (simp add: word_less_nat_alt unat_div)

lemma nanos: "\<not> unat cost div unat rate > 9223372036 \<Longrightarrow>
   unat (cost div rate * 1000000000 :: u64) = unat cost div unat rate * 1000000000"
  by (subst unat_mult_lem [THEN iffD1]) (simp_all add: unat_div)


lemma nano_sum:
  fixes ns fr :: u64
  assumes "unat ns \<le> 9223372036000000000" "unat fr \<le> 1000000000"
  shows "\<not> (0xFFFFFFFFFFFFFFFF - ns < fr)" and "unat (ns + fr) = unat ns + unat fr"
proof -
  have "unat (0xFFFFFFFFFFFFFFFF - ns) = 18446744073709551615 - unat ns"
    by (subst unat_sub) (use assms in \<open>simp_all add: word_le_nat_alt\<close>)
  then show "\<not> (0xFFFFFFFFFFFFFFFF - ns < fr)"
    using assms by (simp add: word_less_nat_alt)
  show "unat (ns + fr) = unat ns + unat fr"
    by (rule unat_add_lem [THEN iffD1]) (use assms in simp)
qed

lemma duration_bounds:
  fixes n :: u64
  shows "(n = 0 \<or> n > 0x7FFFFFFFFFFFFFFF) \<longleftrightarrow> unat n = 0 \<or> unat n > 9223372036854775807"
  by (simp add: word_less_nat_alt unat_eq_0)

lemma schedule_duration_eq:
  assumes "cost \<noteq> 0" "rate \<noteq> 0"
  defines "n \<equiv> ceil_div (unat cost * 1000000000) (unat rate)"
  shows "schedule_duration cost rate = (if n \<le> 9223372036854775807 then Inr (int n)
     else if unat cost div unat rate > 9223372036 then Inl DurationOverflow
     else Inl DurationBounds)"
proof -
  define c r q m where cr: "c = unat cost" "r = unat rate" and qm: "q = c div r" "m = c mod r"
  have r: "0 < r" and c: "0 < c" using assms by (simp_all add: unat_gt_0 cr)
  define f where "f = ceil_div (m * 1000000000) r"
  have n: "n = q * 1000000000 + f"
    using mult_div_split(1) [OF r, of c 1000000000] mult_div_split(2) [OF r, of c 1000000000]
    by (simp add: n_def f_def ceil_div_def flip: cr qm)
  have npos: "n \<noteq> 0"
  proof (cases "q = 0")
    case True
    then have "m = c" using r by (simp add: qm div_eq_0_iff)
    then show ?thesis using c r unfolding n f_def ceil_div_def
      by (auto simp: div_eq_0_iff mod_less split: if_splits)
  next
    case False
    then show ?thesis unfolding n by simp
  qed
  show ?thesis
  proof (cases "q > 9223372036")
    case True
    then have "n > 9223372036854775807" unfolding n by simp
    then show ?thesis using True assms(1,2) seconds_cmp [of cost rate]
      unfolding schedule_duration_def Let_def max_seconds_eq by (simp add: qm cr)
  next
    case False
    let ?ns = "cost div rate * 1000000000"
    have q: "\<not> cost div rate > max_seconds" using False seconds_cmp [of cost rate] by (simp add: qm cr)
    have ns: "unat ?ns = q * 1000000000" using False nanos [of cost rate] by (simp add: qm cr)
    have nsb: "unat ?ns \<le> 9223372036000000000" using False ns by simp
    have mr: "unat (cost mod rate) = m" by (simp add: unat_mod qm cr)
    have mlt: "m < r" using r by (simp add: qm)
    have flt: "m * 1000000000 div r < 1000000000"
      using mlt r by (simp add: less_mult_imp_div_less mult.commute)
    have f: "f \<le> 1000000000" using flt by (simp add: f_def ceil_div_def)
    show ?thesis
    proof (cases "m = 0")
      case True
      then have mz: "cost mod rate = 0" using mr by (simp add: unat_eq_0)
      have "n = q * 1000000000" using True n by (simp add: f_def ceil_div_def)
      then show ?thesis
        using npos ns nsb q assms(1,2) mz duration_bounds [of ?ns] False
        unfolding schedule_duration_def Let_def max_seconds_eq
        by (simp add: uint_nat qm cr)
    next
      case mpos: False
      then have mz: "cost mod rate \<noteq> 0" using mr by (metis unat_0)
      obtain hi lo where hl: "mul64 (cost mod rate) 1000000000 = (hi, lo)" by fastforce
      have d: "div64 hi lo rate = Some (of_nat (m * 1000000000 div r), of_nat (m * 1000000000 mod r))"
        using div64_mul64 [of "cost mod rate" rate 1000000000] mlt by (simp add: mr hl cr)
      have lo: "(of_nat (m * 1000000000 mod r) :: u64) = 0 \<longleftrightarrow> m * 1000000000 mod r = 0"
      proof -
        have "m * 1000000000 mod r < r" using r by simp
        also have "r < 2 ^ 64" using unsigned_less [of rate] by (simp add: cr)
        finally have "unat (of_nat (m * 1000000000 mod r) :: u64) = m * 1000000000 mod r"
          by (simp add: unat_of_nat take_bit_nat_eq_self)
        then show ?thesis by (metis unat_0 unat_eq_zero)
      qed
      define fr :: u64 where "fr = (if (of_nat (m * 1000000000 mod r) :: u64) \<noteq> 0
          then of_nat (m * 1000000000 div r) + 1 else of_nat (m * 1000000000 div r))"
      have ufr: "unat fr = f"
      proof -
        have "unat (of_nat (m * 1000000000 div r) :: u64) = m * 1000000000 div r"
          using flt by (simp add: unat_of_nat take_bit_nat_eq_self)
        then show ?thesis using flt lo by (simp add: fr_def f_def ceil_div_def unat_word_ariths)
      qed
      note sum = nano_sum [OF nsb, of fr]
      have un: "unat (?ns + fr) = n" using sum(2) f ufr ns n by simp
      have ok: "\<not> (0xFFFFFFFFFFFFFFFF - ?ns < fr)" using sum(1) f ufr by simp
      have step: "schedule_duration cost rate =
          (if ?ns + fr = 0 \<or> ?ns + fr > 0x7FFFFFFFFFFFFFFF then Inl DurationBounds else Inr (uint (?ns + fr)))"
        using q ok assms(1,2) mz
        unfolding schedule_duration_def Let_def max_seconds_eq hl d prod.case option.case fr_def
        by (simp only: if_False if_True sum.case not_False_eq_True simp_thms)
      show ?thesis
        unfolding step duration_bounds un using npos False by (simp add: uint_nat un flip: qm cr)
    qed
  qed
qed


section \<open>Both dimensions of a quota at once\<close>

datatype dimension = Events | Bytes

fun dim_rate :: "dimension \<Rightarrow> limits \<Rightarrow> u64" where
  "dim_rate Events l = max_events_per_second l"
| "dim_rate Bytes l = max_bytes_per_second l"

fun dim_cost :: "dimension \<Rightarrow> charge \<Rightarrow> u64" where
  "dim_cost Events c = charge_events c"
| "dim_cost Bytes c = charge_bytes c"

fun dim_next :: "dimension \<Rightarrow> quota_state \<Rightarrow> int" where
  "dim_next Events s = next_event_nano s"
| "dim_next Bytes s = next_byte_nano s"

definition advance_of :: "dimension \<Rightarrow> charge \<Rightarrow> nat" where
  "advance_of d c = ceil_div (unat (dim_cost d c) * 1000000000) (unat (dim_rate d (charge_limits c)))"

lemma validate_chargeD:
  assumes "validate_charge c = None"
  shows "limits_validate (charge_limits c) = None" "scope_validate (charge_scope c) = None"
    "dim_cost d c \<noteq> 0" "unat (dim_cost d c) \<le> 8388608"
proof -
  show "limits_validate (charge_limits c) = None" "scope_validate (charge_scope c) = None"
    using assms by (auto simp: validate_charge_def split: option.splits if_splits)
  have "charge_events c \<noteq> 0 \<and> charge_events c \<le> 1000 \<and> charge_bytes c \<noteq> 0 \<and> charge_bytes c \<le> 0x800000"
    using assms by (auto simp: validate_charge_def not_less split: option.splits if_splits)
  then show "dim_cost d c \<noteq> 0" "unat (dim_cost d c) \<le> 8388608"
    by (cases d; auto simp: word_le_nat_alt)+
qed

lemma validate_charge_state:
  "validate_charge c = None \<longleftrightarrow> validate_charge (c\<lparr>charge_state := None\<rparr>) = None \<and>
    (\<forall>st. charge_state c = Some st \<longrightarrow> limits_validate (state_limits st) = None \<and> 0 < updated_micro st
      \<and> (\<forall>d. valid_dimension_state (dim_rate d (state_limits st)) (dim_next d st)))"
proof -
  have d: "(\<forall>d. valid_dimension_state (dim_rate d (state_limits st)) (dim_next d st)) \<longleftrightarrow>
      valid_dimension_state (max_events_per_second (state_limits st)) (next_event_nano st) \<and>
      valid_dimension_state (max_bytes_per_second (state_limits st)) (next_byte_nano st)" for st
    by (metis dim_next.simps dim_rate.simps dimension.exhaust)
  show ?thesis
    unfolding d by (auto simp: validate_charge_def not_le split: option.splits)
qed

lemma check_charges_None:
  "check_charges seen cs = None \<longleftrightarrow>
     (\<forall>c \<in> set cs. validate_charge c = None) \<and> distinct (map charge_scope cs)
     \<and> (\<forall>c \<in> set cs. charge_scope c \<notin> set seen)"
proof (induction cs arbitrary: seen)
  case (Cons a cs)
  have "(\<forall>c \<in> set cs. charge_scope c \<noteq> charge_scope a) \<longleftrightarrow> charge_scope a \<notin> charge_scope ` set cs"
    by (auto simp: image_iff)
  with Cons show ?case by (auto split: option.splits)
qed simp

lemma ceil_div_covers:
  assumes "0 < r"
  shows "n \<le> r * ceil_div n r"
proof -
  have e: "n = r * (n div r) + n mod r" by simp
  have l: "n mod r \<le> r" using assms by (simp add: less_imp_le)
  show ?thesis
  proof (cases "n mod r = 0")
    case True
    then have "ceil_div n r = n div r" by (simp add: ceil_div_def)
    then show ?thesis using e True by simp
  next
    case False
    then have "ceil_div n r = n div r + 1" by (simp add: ceil_div_def)
    then have "r * ceil_div n r = r * (n div r) + r" by simp
    then show ?thesis using e l by linarith
  qed
qed

lemma advance_bound:
  assumes "validate_charge c = None" "dim_rate d (charge_limits c) \<noteq> 0"
  shows "advance_of d c \<le> 8388608000000000" and "1 \<le> advance_of d c"
    and "schedule_duration (dim_cost d c) (dim_rate d (charge_limits c)) = Inr (int (advance_of d c))"
proof -
  let ?c = "unat (dim_cost d c)" and ?r = "unat (dim_rate d (charge_limits c))"
  have r: "0 < ?r" using assms(2) by (simp add: unat_gt_0)
  have c: "0 < ?c" "?c \<le> 8388608" using validate_chargeD(3,4) [OF assms(1), of d] by (simp_all add: unat_gt_0)
  have le: "ceil_div n ?r \<le> n" for n
    using r div_le_dividend [of n ?r]
    by (cases "?r = 1"; cases "n = 0") (auto simp: ceil_div_def Suc_le_eq intro!: div_less_dividend)
  show b: "advance_of d c \<le> 8388608000000000"
    using le [of "?c * 1000000000"] c(2) by (simp add: advance_of_def)
  show "1 \<le> advance_of d c"
    using c(1) ceil_div_covers [OF r, of "?c * 1000000000"]
    by (cases "ceil_div (?c * 1000000000) ?r") (simp_all add: advance_of_def)
  show "schedule_duration (dim_cost d c) (dim_rate d (charge_limits c)) = Inr (int (advance_of d c))"
    using schedule_duration_eq [OF _ assms(2), of "dim_cost d c"] c b
    by (simp add: advance_of_def unat_gt_0)
qed

definition new_state :: "int \<Rightarrow> charge \<Rightarrow> quota_state" where
  "new_state now c =
     (let nx = (\<lambda>d. if dim_rate d (charge_limits c) = 0 then 0 else now + int (advance_of d c))
      in \<lparr>state_limits = charge_limits c, next_event_nano = nx Events, next_byte_nano = nx Bytes,
          updated_micro = now div 1000\<rparr>)"

lemma dim_next_new_state:
  "dim_next d (new_state now c) =
     (if dim_rate d (charge_limits c) = 0 then 0 else now + int (advance_of d c))"
  by (cases d) (simp_all add: new_state_def)

lemma charge_update_eq:
  assumes "validate_charge c = None" "charge_update now c = Inr us"
  shows "charge_limits c \<noteq> no_limits \<Longrightarrow>
      us = [\<lparr>update_scope = charge_scope c, update_state = new_state now c\<rparr>]
      \<and> (\<forall>d. dim_next d (new_state now c) \<le> max_int64)"
    and "charge_limits c = no_limits \<Longrightarrow> us = [] \<or>
      us = [\<lparr>update_scope = charge_scope c, update_state = new_state now c\<rparr>]"
proof -
  note ev = advance_bound [OF assms(1), of Events, simplified]
    and bt = advance_bound [OF assms(1), of Bytes, simplified]
  have all: "(\<forall>d. P d) \<longleftrightarrow> P Events \<and> P Bytes" for P by (metis dimension.exhaust)
  show "charge_limits c \<noteq> no_limits \<Longrightarrow>
      us = [\<lparr>update_scope = charge_scope c, update_state = new_state now c\<rparr>]
      \<and> (\<forall>d. dim_next d (new_state now c) \<le> max_int64)"
    using assms(2) ev(3) bt(3) unfolding all
    by (auto simp: charge_update_def Let_def new_state_def split: if_splits)
  show "charge_limits c = no_limits \<Longrightarrow> us = [] \<or>
      us = [\<lparr>update_scope = charge_scope c, update_state = new_state now c\<rparr>]"
    using assms(2)
    by (auto simp: charge_update_def Let_def new_state_def no_limits_def split: if_splits option.splits)
qed


lemma charge_updates_mem:
  assumes "charge_updates now cs = Inr us"
  shows "u \<in> set us \<Longrightarrow> \<exists>c \<in> set cs. \<exists>vs. charge_update now c = Inr vs \<and> u \<in> set vs"
    and "c \<in> set cs \<Longrightarrow> \<exists>vs. charge_update now c = Inr vs \<and> set vs \<subseteq> set us"
  using assms by (induction cs arbitrary: us) (fastforce split: sum.splits)+

lemma charge_update_new_state:
  assumes "validate_charge c = None" "charge_update now c = Inr vs" "u \<in> set vs"
  shows "u = \<lparr>update_scope = charge_scope c, update_state = new_state now c\<rparr>
    \<and> (\<forall>d. dim_next d (new_state now c) \<le> max_int64)"
proof (cases "charge_limits c = no_limits")
  case True
  then have "dim_next d (new_state now c) = 0" for d
    by (cases d) (simp_all add: dim_next_new_state no_limits_def)
  then show ?thesis using charge_update_eq(2) [OF assms(1,2) True] assms(3) by auto
next
  case False
  then show ?thesis using charge_update_eq(1) [OF assms(1,2) False] assms(3) by simp
qed

lemma new_state_valid:
  assumes "validate_charge c = None" "1000 \<le> now"
  shows "validate_charge (c\<lparr>charge_state := Some (new_state now c)\<rparr>) = None"
proof -
  have "validate_charge (c\<lparr>charge_state := None\<rparr>) = None"
    using assms(1) validate_charge_state [of c] by blast
  moreover have "limits_validate (charge_limits c) = None" by (rule validate_chargeD [OF assms(1)])
  moreover have "state_limits (new_state now c) = charge_limits c" "updated_micro (new_state now c) = now div 1000"
    by (simp_all add: new_state_def)
  moreover have "0 < now div 1000" using assms(2) by (simp add: pos_imp_zdiv_pos_iff)
  moreover have "valid_dimension_state (dim_rate d (charge_limits c)) (dim_next d (new_state now c))" for d
    using assms(2) by (simp add: dim_next_new_state valid_dimension_state_def)
  ultimately show ?thesis
    using validate_charge_state [of "c\<lparr>charge_state := Some (new_state now c)\<rparr>"] by simp
qed

text \<open>What a successful evaluation went through.\<close>

lemma evaluate_InrD:
  assumes "evaluate t cs = Inr d"
  shows "1000 \<le> t" "t \<le> max_int64" "cs \<noteq> []" "\<And>c. c \<in> set cs \<Longrightarrow> validate_charge c = None"
    "distinct (map charge_scope cs)"
  using assms by (auto simp: evaluate_def supported_unix_nano_def check_charges_None
      split: if_splits option.splits sum.splits)

lemma evaluate_allowedD:
  assumes "evaluate t cs = Inr d" "allowed d"
  shows "find_block t None cs = None" "charge_updates t cs = Inr (updates d)"
  using assms by (auto simp: evaluate_def supported_unix_nano_def
      split: if_splits option.splits sum.splits)

lemma evaluate_deniedD:
  assumes "evaluate t cs = Inr d" "\<not> allowed d"
  obtains w k where "find_block t None cs = Some (w, k)" "retry_after d = min w (3600 * int second_ns)"
    "blocking_scope d = Some k" "updates d = []"
  using assms by (auto simp: evaluate_def supported_unix_nano_def
      split: if_splits option.splits sum.splits)

lemma dim_all: "(\<forall>d. P d) \<longleftrightarrow> P Events \<and> P Bytes"
  by (metis dimension.exhaust)

lemma blocking_le_iff:
  assumes "0 \<le> w"
  shows "blocking_nanoseconds c now \<le> w \<longleftrightarrow>
     (\<forall>d. dim_rate d (charge_limits c) \<noteq> 0 \<longrightarrow> dim_next d (normalized_state c now) \<le> now + w)"
  using assms by (auto simp: blocking_nanoseconds_def Let_def dim_all)

lemma dim_next_normalized:
  "dim_rate d (charge_limits c) \<noteq> 0 \<Longrightarrow> dim_next d (normalized_state c now) =
     (case charge_state c of None \<Rightarrow> now
      | Some st \<Rightarrow> if dim_rate d (state_limits st) = dim_rate d (charge_limits c) then dim_next d st else now)"
  by (cases d) (auto simp: normalized_state_def enabled_now_def split: option.splits)

lemma charge_updates_ok:
  assumes "\<And>c. c \<in> set cs \<Longrightarrow> \<exists>us. charge_update now c = Inr us"
  shows "\<exists>us. charge_updates now cs = Inr us"
  using assms by (induction cs) (fastforce split: sum.splits)+

lemma charge_update_ok:
  assumes "validate_charge c = None" "now \<le> max_int64 - 8388608000000000"
  shows "\<exists>us. charge_update now c = Inr us"
proof -
  note ev = advance_bound [OF assms(1), of Events, simplified]
    and bt = advance_bound [OF assms(1), of Bytes, simplified]
  have "int (advance_of Events c) \<le> max_int64 - now" if "max_events_per_second (charge_limits c) \<noteq> 0"
    using ev(1) [OF that] assms(2) by linarith
  moreover have "int (advance_of Bytes c) \<le> max_int64 - now" if "max_bytes_per_second (charge_limits c) \<noteq> 0"
    using bt(1) [OF that] assms(2) by linarith
  ultimately show ?thesis
    using ev(3) bt(3) by (auto simp: charge_update_def Let_def split: option.splits)
qed


definition stored_kind :: "scope_key \<Rightarrow> bool" where
  "stored_kind k \<longleftrightarrow> scope_kind k = ScopeKindToken \<or> scope_kind k = ScopeKindIndex"

lemma scope_precedes_trans:
  "stored_kind a \<Longrightarrow> stored_kind b \<Longrightarrow> stored_kind c \<Longrightarrow> scope_precedes a b \<Longrightarrow> scope_precedes b c
    \<Longrightarrow> scope_precedes a c"
  by (auto simp: scope_precedes_def stored_kind_def split: if_splits)

lemma scope_precedes_total:
  "stored_kind a \<Longrightarrow> stored_kind b \<Longrightarrow> scope_precedes a b \<or> scope_precedes b a \<or> a = b"
  by (auto simp: scope_precedes_def stored_kind_def intro!: scope_key.equality)

lemma scope_precedes_asym: "stored_kind a \<Longrightarrow> stored_kind b \<Longrightarrow> scope_precedes a b \<Longrightarrow> \<not> scope_precedes b a"
  by (auto simp: scope_precedes_def stored_kind_def split: if_splits)

text \<open>\<open>(w, k)\<close> is at least as blocking as \<open>(w', k')\<close>.\<close>

definition dominates :: "int \<times> scope_key \<Rightarrow> int \<times> scope_key \<Rightarrow> bool" where
  "dominates a b \<longleftrightarrow> fst b < fst a \<or> fst b = fst a \<and> (snd b = snd a \<or> scope_precedes (snd a) (snd b))"

lemma dominates_trans:
  "stored_kind (snd a) \<Longrightarrow> stored_kind (snd b) \<Longrightarrow> stored_kind (snd c) \<Longrightarrow> dominates a b \<Longrightarrow> dominates b c
    \<Longrightarrow> dominates a c"
  using scope_precedes_trans [of "snd a" "snd b" "snd c"] by (auto simp: dominates_def)

lemma find_block_None:
  "find_block now best cs = None \<longleftrightarrow> best = None \<and> (\<forall>c \<in> set cs. blocking_nanoseconds c now \<le> 0)"
proof (induction cs arbitrary: best)
  case (Cons c cs)
  then show ?case by (cases best) (simp_all add: Let_def split_beta del: not_None_eq)
qed simp

lemma find_block_Some:
  assumes "find_block now best cs = Some b" "\<forall>c \<in> set cs. stored_kind (charge_scope c)"
    "\<forall>x. best = Some x \<longrightarrow> stored_kind (snd x) \<and> 0 < fst x"
  shows "0 < fst b \<and> stored_kind (snd b)
    \<and> (best = Some b \<or> (\<exists>c \<in> set cs. b = (blocking_nanoseconds c now, charge_scope c)))
    \<and> (\<forall>c \<in> set cs. dominates b (blocking_nanoseconds c now, charge_scope c))
    \<and> (\<forall>x. best = Some x \<longrightarrow> dominates b x)"
  using assms
proof (induction cs arbitrary: best)
  case Nil
  then show ?case by (auto simp: dominates_def)
next
  case (Cons c cs)
  let ?x = "(blocking_nanoseconds c now, charge_scope c)"
  have kc: "stored_kind (snd ?x)" and kcs: "\<forall>c \<in> set cs. stored_kind (charge_scope c)"
    using Cons.prems(2) by simp_all
  consider (skip) "fst ?x \<le> 0" | (first) "0 < fst ?x" "best = None"
    | (better) y where "0 < fst ?x" "best = Some y" "dominates ?x y" "find_block now best (c # cs) = find_block now (Some ?x) cs"
    | (keep) y where "0 < fst ?x" "best = Some y" "dominates y ?x" "find_block now best (c # cs) = find_block now (Some y) cs"
  proof (cases "fst ?x \<le> 0")
    case False
    show ?thesis
    proof (cases best)
      case (Some y)
      let ?b = "fst y < fst ?x \<or> fst ?x = fst y \<and> scope_precedes (snd ?x) (snd y)"
      have "find_block now best (c # cs) = find_block now (Some (if ?b then ?x else y)) cs"
        using False Some by (cases y) (simp add: Let_def)
      moreover have "?b \<Longrightarrow> dominates ?x y" "\<not> ?b \<Longrightarrow> dominates y ?x"
        using scope_precedes_total [of "snd ?x" "snd y"] kc Cons.prems(3) Some by (auto simp: dominates_def)
      ultimately show ?thesis using False Some that(3,4) by (cases ?b) auto
    qed (use False that(2) in simp)
  qed (use that(1) in simp)
  then show ?case
  proof cases
    case skip
    then have "find_block now best cs = Some b" using Cons.prems(1) by simp
    from Cons.IH [OF this kcs Cons.prems(3)] skip show ?thesis by (auto simp: dominates_def)
  next
    case first
    then have "find_block now (Some ?x) cs = Some b" using Cons.prems(1) by simp
    from Cons.IH [OF this kcs] first kc show ?thesis by auto
  next
    case better
    then have "find_block now (Some ?x) cs = Some b" using Cons.prems(1) by simp
    from Cons.IH [OF this kcs] better kc Cons.prems(3) dominates_trans [of b ?x y] show ?thesis by auto
  next
    case keep
    then have "find_block now (Some y) cs = Some b" using Cons.prems(1) by simp
    from Cons.IH [OF this kcs] keep kc Cons.prems(3) dominates_trans [of b y ?x] show ?thesis by auto
  qed
qed

lemma validated_kind: "validate_charge c = None \<Longrightarrow> stored_kind (charge_scope c)"
  using validate_chargeD(2) [of c] by (auto simp: scope_validate_def stored_kind_def split: if_splits)

section \<open>The quota store a caller keeps\<close>

text \<open>The caller loads the stored state of every charged scope, evaluates, and persists the updates.\<close>

type_synonym quota_store = "scope_key \<Rightarrow> quota_state option"

definition load_states :: "quota_store \<Rightarrow> charge list \<Rightarrow> charge list" where
  "load_states st cs = map (\<lambda>c. c\<lparr>charge_state := st (charge_scope c)\<rparr>) cs"

definition commit_updates :: "quota_store \<Rightarrow> state_update list \<Rightarrow> quota_store" where
  "commit_updates st us = foldl (\<lambda>m u. m(update_scope u \<mapsto> update_state u)) st us"

fun admitted_charges :: "scope_key \<Rightarrow> quota_store \<Rightarrow> (int \<times> charge list) list \<Rightarrow> (int \<times> charge) list" where
  "admitted_charges k st [] = []"
| "admitted_charges k st ((t, cs) # rs) =
     (case evaluate t (load_states st cs) of
        Inl e \<Rightarrow> admitted_charges k st rs
      | Inr d \<Rightarrow>
          (if allowed d
           then map (Pair t) (filter (\<lambda>c. charge_scope c = k) (load_states st cs))
                @ admitted_charges k (commit_updates st (updates d)) rs
           else admitted_charges k st rs))"

lemma commit_updates_at:
  "commit_updates st us k =
     (case filter (\<lambda>u. update_scope u = k) us of [] \<Rightarrow> st k | vs \<Rightarrow> Some (update_state (last vs)))"
proof (induction us rule: rev_induct)
  case (snoc u us)
  then show ?case by (auto simp: commit_updates_def split: list.splits)
qed (simp add: commit_updates_def)

text \<open>After an allowed admission the stored state of a rate-limited charged scope is its new state.\<close>

lemma commit_allowed:
  assumes ev: "evaluate t cs = Inr d" "allowed d"
  shows "c \<in> set cs \<Longrightarrow> charge_limits c \<noteq> no_limits
      \<Longrightarrow> commit_updates st (updates d) (charge_scope c) = Some (new_state t c)"
    and "\<forall>c \<in> set cs. charge_scope c \<noteq> k \<Longrightarrow> commit_updates st (updates d) k = st k"
proof -
  note us = evaluate_allowedD(2) [OF ev] and val = evaluate_InrD(4) [OF ev(1)]
  have u: "\<exists>c \<in> set cs. u = \<lparr>update_scope = charge_scope c, update_state = new_state t c\<rparr>"
    if "u \<in> set (updates d)" for u
    using charge_updates_mem(1) [OF us that] charge_update_new_state [OF val] by blast
  show "commit_updates st (updates d) k = st k" if "\<forall>c \<in> set cs. charge_scope c \<noteq> k"
  proof -
    have "filter (\<lambda>u. update_scope u = k) (updates d) = []" using u that by (fastforce simp: filter_empty_conv)
    then show ?thesis by (simp add: commit_updates_at)
  qed
  assume c: "c \<in> set cs" "charge_limits c \<noteq> no_limits"
  let ?f = "filter (\<lambda>u. update_scope u = charge_scope c) (updates d)"
  obtain vs where vs: "charge_update t c = Inr vs" "set vs \<subseteq> set (updates d)"
    using charge_updates_mem(2) [OF us c(1)] by blast
  then have "\<lparr>update_scope = charge_scope c, update_state = new_state t c\<rparr> \<in> set ?f"
    using charge_update_eq(1) [OF val [OF c(1)] vs(1) c(2)] by auto
  then have ne: "?f \<noteq> []" by (metis empty_iff empty_set)
  then have "last ?f \<in> set ?f" by (rule last_in_set)
  then obtain c' where c': "c' \<in> set cs" "last ?f = \<lparr>update_scope = charge_scope c', update_state = new_state t c'\<rparr>"
      "charge_scope c' = charge_scope c"
    using u [of "last ?f"] by auto
  then have "c' = c"
    using evaluate_InrD(5) [OF ev(1)] c(1) by (metis distinct_map inj_onD)
  then show "commit_updates st (updates d) (charge_scope c) = Some (new_state t c)"
    using ne c'(2) by (auto simp: commit_updates_at split: list.splits)
qed


fun spaced :: "dimension \<Rightarrow> (int \<times> charge) list \<Rightarrow> bool" where
  "spaced d ((t, c) # (t', c') # xs) = (t + int (advance_of d c) \<le> t' \<and> spaced d ((t', c') # xs))"
| "spaced d xs = True"

lemma spaced_append: "spaced d (xs @ ys) \<Longrightarrow> spaced d ys"
proof (induction xs)
  case (Cons a xs)
  then show ?case by (cases a; cases "xs @ ys") auto
qed simp

lemma advance_covers:
  assumes "dim_rate d (charge_limits c) = r" "r \<noteq> 0" "int (advance_of d c) \<le> delta"
  shows "int (unat (dim_cost d c)) * 1000000000 \<le> int (unat r) * delta"
proof -
  have "0 < unat r" using assms(2) by (simp add: unat_gt_0)
  from ceil_div_covers [OF this, of "unat (dim_cost d c) * 1000000000"]
  have "unat (dim_cost d c) * 1000000000 \<le> unat r * advance_of d c"
    using assms(1) by (simp add: advance_of_def)
  then have "int (unat (dim_cost d c)) * 1000000000 \<le> int (unat r) * int (advance_of d c)"
    by (metis of_nat_le_iff of_nat_mult of_nat_numeral)
  also have "\<dots> \<le> int (unat r) * delta" using assms(3) by (intro mult_left_mono) auto
  finally show ?thesis .
qed

lemma spaced_window:
  assumes "spaced d ((t, c) # win @ (t', c') # post)"
    and lim: "\<forall>x \<in> set ((t, c) # win). dim_rate d (charge_limits (snd x)) = r" and r: "r \<noteq> 0"
  shows "int (\<Sum>x \<leftarrow> (t, c) # win. unat (dim_cost d (snd x))) * 1000000000 \<le> int (unat r) * (t' - t)"
    and "t \<le> t'"
proof -
  have "int (\<Sum>x \<leftarrow> (t, c) # win. unat (dim_cost d (snd x))) * 1000000000 \<le> int (unat r) * (t' - t) \<and> t \<le> t'"
    using assms(1) lim
  proof (induction win arbitrary: t c)
    case Nil
    then show ?case using advance_covers [of d c r "t' - t"] r by simp
  next
    case (Cons p win)
    obtain t2 c2 where p: "p = (t2, c2)" by fastforce
    have sp: "spaced d ((t2, c2) # win @ (t', c') # post)" "t + int (advance_of d c) \<le> t2"
      using Cons.prems(1) by (auto simp: p)
    have ih: "int (\<Sum>x \<leftarrow> (t2, c2) # win. unat (dim_cost d (snd x))) * 1000000000 \<le> int (unat r) * (t' - t2) \<and> t2 \<le> t'"
      by (rule Cons.IH [OF sp(1)]) (use Cons.prems(2) p in simp)
    have hd: "int (unat (dim_cost d c)) * 1000000000 \<le> int (unat r) * (t2 - t)"
      using advance_covers [of d c r "t2 - t"] Cons.prems(2) r sp(2) by simp
    have "int (unat r) * (t2 - t) + int (unat r) * (t' - t2) = int (unat r) * (t' - t)"
      by (simp add: algebra_simps)
    then show ?case using hd ih sp(2) by (simp add: p algebra_simps)
  qed
  then show "int (\<Sum>x \<leftarrow> (t, c) # win. unat (dim_cost d (snd x))) * 1000000000 \<le> int (unat r) * (t' - t)"
    and "t \<le> t'" by blast+
qed

lemma load_states_mem: "c \<in> set (load_states st cs) \<Longrightarrow> charge_state c = st (charge_scope c)
   \<and> (\<exists>c0 \<in> set cs. charge_scope c = charge_scope c0 \<and> charge_limits c = charge_limits c0)"
  by (auto simp: load_states_def)

lemma spaced_Cons_Nil[simp]: "spaced d [x]" by (cases x) simp

lemma state_limits_new_state: "state_limits (new_state now c) = charge_limits c"
  by (simp add: new_state_def)

lemma filter_distinct_key:
  assumes "distinct (map f xs)" "filter (\<lambda>x. f x = k) xs = y # ys"
  shows "ys = []" "y \<in> set xs" "f y = k"
proof -
  have "set (y # ys) = {x \<in> set xs. f x = k}" using assms(2) by (metis set_filter)
  then show "y \<in> set xs" and y: "f y = k" by auto
  have "distinct (map f (y # ys))" using distinct_map_filter [OF assms(1), of "\<lambda>x. f x = k"] assms(2) by simp
  moreover have "f z = k" if "z \<in> set ys" for z using \<open>set (y # ys) = _\<close> that by auto
  ultimately show "ys = []" using y by (cases ys) auto
qed

lemma admitted_spaced:
  assumes "\<forall>(t, cs) \<in> set rs. \<forall>c \<in> set cs. charge_scope c = k \<longrightarrow> charge_limits c = l"
    and "dim_rate d l \<noteq> 0"
  shows "spaced d (admitted_charges k st rs)"
    and "\<forall>s. st k = Some s \<longrightarrow> state_limits s = l \<longrightarrow>
       (case admitted_charges k st rs of [] \<Rightarrow> True | (t, c) # _ \<Rightarrow> dim_next d s \<le> t)"
    and "\<forall>(t, c) \<in> set (admitted_charges k st rs). charge_limits c = l"
proof -
  have ln: "l \<noteq> no_limits" using assms(2) by (cases d) (auto simp: no_limits_def)
  have "spaced d (admitted_charges k st rs) \<and> (\<forall>s. st k = Some s \<longrightarrow> state_limits s = l \<longrightarrow>
       (case admitted_charges k st rs of [] \<Rightarrow> True | (t, c) # _ \<Rightarrow> dim_next d s \<le> t))
     \<and> (\<forall>(t, c) \<in> set (admitted_charges k st rs). charge_limits c = l)"
    using assms(1)
  proof (induction rs arbitrary: st)
    case (Cons r rs)
    obtain t cs where r: "r = (t, cs)" by fastforce
    have hyp: "\<forall>(t, cs) \<in> set rs. \<forall>c \<in> set cs. charge_scope c = k \<longrightarrow> charge_limits c = l"
      using Cons.prems by simp
    note IH = Cons.IH [OF hyp]
    show ?case
    proof (cases "\<exists>dc. evaluate t (load_states st cs) = Inr dc \<and> allowed dc")
      case False
      then have "admitted_charges k st (r # rs) = admitted_charges k st rs"
        by (auto simp: r split: sum.splits)
      then show ?thesis using IH by simp
    next
      case True
      then obtain dc where dc: "evaluate t (load_states st cs) = Inr dc" "allowed dc" by blast
      let ?cs = "load_states st cs" and ?st = "commit_updates st (updates dc)"
      let ?f = "filter (\<lambda>c. charge_scope c = k) ?cs"
      have adm: "admitted_charges k st (r # rs) = map (Pair t) ?f @ admitted_charges k ?st rs"
        using dc by (simp add: r)
      have dist: "distinct (map charge_scope ?cs)" by (rule evaluate_InrD [OF dc(1)])
      show ?thesis
      proof (cases ?f)
        case Nil
        then have "?st k = st k" by (intro commit_allowed(2) [OF dc]) (simp add: filter_empty_conv)
        then show ?thesis using IH [of ?st] adm Nil by simp
      next
        case (Cons c fs)
        note key = filter_distinct_key [OF dist Cons]
        have fs: "fs = []" and c: "c \<in> set ?cs" and k: "charge_scope c = k" by (fact key)+
        have lim: "charge_limits c = l" using load_states_mem [OF c] Cons.prems k by (auto simp: r)
        have stk: "?st k = Some (new_state t c)" using commit_allowed(1) [OF dc c] ln lim k by simp
        have "blocking_nanoseconds c t \<le> 0"
          using evaluate_allowedD(1) [OF dc] c by (simp add: find_block_None)
        then have nx: "dim_next d (normalized_state c t) \<le> t"
          using blocking_le_iff [of 0 c t] assms(2) lim by simp
        have "dim_next d s \<le> t" if "st k = Some s" "state_limits s = l" for s
          using nx that load_states_mem [OF c] k lim assms(2) by (simp add: dim_next_normalized)
        moreover have "admitted_charges k st (r # rs) = (t, c) # admitted_charges k ?st rs"
          using adm Cons fs by simp
        moreover have "spaced d ((t, c) # admitted_charges k ?st rs)"
        proof (cases "admitted_charges k ?st rs")
          case (Cons a as)
          then show ?thesis using IH [of ?st] stk lim assms(2)
              state_limits_new_state [of t c] by (cases a) (auto simp: dim_next_new_state)
        qed simp
        ultimately show ?thesis using IH [of ?st] lim by auto
      qed
    qed
  qed simp
  then show "spaced d (admitted_charges k st rs)"
    and "\<forall>s. st k = Some s \<longrightarrow> state_limits s = l \<longrightarrow>
       (case admitted_charges k st rs of [] \<Rightarrow> True | (t, c) # _ \<Rightarrow> dim_next d s \<le> t)"
    and "\<forall>(t, c) \<in> set (admitted_charges k st rs). charge_limits c = l" by blast+
qed

section \<open>Properties\<close>


text \<open>C30: the 128-bit schedule arithmetic is exact. \<open>scheduleDuration\<close> returns the quotient of cost times 10^9
  by the rate, rounded up, whenever it fits an \<open>int64\<close>, and otherwise the error of the check that
  catches the overflow; the division never panics and no 64-bit operation wraps.\<close>

theorem schedule_duration_exact:
  "schedule_duration cost rate =
     (let n = ceil_div (unat cost * 1000000000) (unat rate) in
      if cost = 0 \<or> rate = 0 then Inl CostRateZero
      else if n \<le> 9223372036854775807 then Inr (int n)
      else if unat cost div unat rate > 9223372036 then Inl DurationOverflow else Inl DurationBounds)"
  using schedule_duration_eq [of cost rate] by (simp add: schedule_duration_def)

text \<open>C12: a rate limit holds over every window. Along any sequence of requests (with any clock readings),
  take the admitted charges of one scope, whose requests all carry the same limits. Between any
  admission and any later one, the events (or bytes) admitted from the first up to, and not including,
  the last take at most rate units per second of the time between the two.\<close>

theorem admitted_rate_bound:
  assumes "\<forall>(t, cs) \<in> set rs. \<forall>c \<in> set cs. charge_scope c = k \<longrightarrow> charge_limits c = l"
    and "dim_rate d l \<noteq> 0"
    and "admitted_charges k st rs = pre @ ((t, c) # win) @ (t', c') # post"
  shows "int (\<Sum>x \<leftarrow> (t, c) # win. unat (dim_cost d (snd x))) * 1000000000 \<le> int (unat (dim_rate d l)) * (t' - t)"
proof -
  have "\<forall>x \<in> set ((t, c) # win). dim_rate d (charge_limits (snd x)) = dim_rate d l"
    using admitted_spaced(3) [OF assms(1,2), of st] unfolding assms(3) by (fastforce simp: split_beta)
  moreover have "spaced d ((t, c) # win @ (t', c') # post)"
    using spaced_append [of d pre] admitted_spaced(1) [OF assms(1,2), of st] unfolding assms(3) by simp
  ultimately show ?thesis using spaced_window(1) [OF _ _ assms(2)] by blast
qed

abbreviation demo_scope :: scope_key where
  "demo_scope \<equiv> \<lparr>scope_kind = ScopeKindToken, scope_tenant = ''t'', scope_identity = ''a''\<rparr>"

abbreviation demo_charge :: charge where
  "demo_charge \<equiv> \<lparr>charge_scope = demo_scope,
     charge_limits = \<lparr>max_events_per_second = 2, max_bytes_per_second = 0\<rparr>,
     charge_events = 1, charge_bytes = 7, charge_state = None\<rparr>"

lemma demo_charge_valid [simp]: "validate_charge demo_charge = None"
  by (simp add: validate_charge_def scope_validate_def limits_validate_def valid_identity_def
      trim_space_ascii is_space_def)

lemma demo_advance: "advance_of Events demo_charge = 500000000"
  by (simp add: advance_of_def ceil_div_def)

lemma demo_state: "new_state t demo_charge = \<lparr>state_limits = charge_limits demo_charge,
    next_event_nano = t + 500000000, next_byte_nano = 0, updated_micro = t div 1000\<rparr>"
  using demo_advance by (simp add: new_state_def)

text \<open>The demo charge at time \<open>t\<close>, with no stored state or with the state an admission at time \<open>s\<close> left.\<close>

lemma demo_stored_valid:
  "1000 \<le> s \<Longrightarrow> validate_charge (demo_charge\<lparr>charge_state := Some (new_state s demo_charge)\<rparr>) = None"
  by (rule new_state_valid) simp_all

lemma demo_blocking:
  "blocking_nanoseconds demo_charge t = 0"
  "blocking_nanoseconds (demo_charge\<lparr>charge_state := Some (new_state s demo_charge)\<rparr>) t = max 0 (s + 500000000 - t)"
  by (simp_all add: blocking_nanoseconds_def normalized_state_def enabled_now_def demo_state)

lemma demo_update:
  assumes "t \<le> 1000000000000" "charge_state c = None \<or> charge_state c = Some (new_state s demo_charge)"
    "c\<lparr>charge_state := None\<rparr> = demo_charge"
  shows "charge_update t c = Inr [\<lparr>update_scope = demo_scope, update_state = new_state t demo_charge\<rparr>]"
proof -
  have "charge_limits c = charge_limits demo_charge" "charge_events c = 1" "charge_bytes c = 7"
    "charge_scope c = demo_scope"
    using assms(3) by (cases c; simp)+
  moreover have "schedule_duration 1 2 = Inr 500000000"
    by (simp add: schedule_duration_eq ceil_div_def)
  ultimately show ?thesis using assms(1) by (simp add: charge_update_def demo_state no_limits_def)
qed

lemma demo_evaluate_fresh:
  assumes "1000 \<le> t" "t \<le> 1000000000000"
  shows "evaluate t [demo_charge] = Inr \<lparr>allowed = True, retry_after = 0, blocking_scope = None,
     updates = [\<lparr>update_scope = demo_scope, update_state = new_state t demo_charge\<rparr>]\<rparr>"
  using assms demo_update [of t demo_charge]
  by (simp add: evaluate_def supported_unix_nano_def demo_blocking)

lemma demo_evaluate_stored:
  fixes s t :: int
  defines "c \<equiv> demo_charge\<lparr>charge_state := Some (new_state s demo_charge)\<rparr>"
  assumes "1000 \<le> s" "s \<le> t" "t \<le> 1000000000000"
  shows "evaluate t [c] =
    (if t < s + 500000000
     then Inr \<lparr>allowed = False, retry_after = s + 500000000 - t, blocking_scope = Some demo_scope, updates = []\<rparr>
     else Inr \<lparr>allowed = True, retry_after = 0, blocking_scope = None,
       updates = [\<lparr>update_scope = demo_scope, update_state = new_state t demo_charge\<rparr>]\<rparr>)"
proof -
  have "check_charges [] [c] = None" using demo_stored_valid [OF assms(2)] by (simp add: c_def)
  moreover have "blocking_nanoseconds c t = max 0 (s + 500000000 - t)" by (simp only: c_def demo_blocking)
  moreover have "charge_update t c = Inr [\<lparr>update_scope = demo_scope, update_state = new_state t demo_charge\<rparr>]"
    using demo_update [of t c s] assms(4) by (simp add: c_def)
  moreover have "charge_scope c = demo_scope" by (simp add: c_def)
  ultimately show ?thesis using assms by (simp add: evaluate_def supported_unix_nano_def)
qed

theorem admitted_rate_bound_witness:
  "int (\<Sum>x \<leftarrow> [(1000, demo_charge)]. unat (dim_cost Events (snd x))) * 1000000000 \<le> 2 * (500001000 - 1000)"
proof -
  let ?rs = "[(1000, [demo_charge]), (400000000, [demo_charge]), (500001000, [demo_charge])]"
  let ?c2 = "demo_charge\<lparr>charge_state := Some (new_state 1000 demo_charge)\<rparr>"
  have "admitted_charges demo_scope (\<lambda>_. None) ?rs = [] @ ((1000, demo_charge) # []) @ (500001000, ?c2) # []"
    using demo_evaluate_fresh [of 1000] demo_evaluate_stored [of 1000 400000000]
      demo_evaluate_stored [of 1000 500001000]
    by (simp add: load_states_def commit_updates_def)
  from admitted_rate_bound [OF _ _ this, of "charge_limits demo_charge" Events]
  show ?thesis by simp
qed

text \<open>C32: what an evaluation asks to persist is valid. Every update of a decision belongs to a charged scope,
  carries the limits of that charge, passes the validation of a later charge that loads it, and its
  schedule stays inside \<open>int64\<close>.\<close>

theorem evaluate_updates_persistable:
  assumes "evaluate t cs = Inr d"
  shows "\<forall>u \<in> set (updates d). \<exists>c \<in> set cs. update_scope u = charge_scope c
      \<and> state_limits (update_state u) = charge_limits c
      \<and> validate_charge (c\<lparr>charge_state := Some (update_state u)\<rparr>) = None
      \<and> next_event_nano (update_state u) \<le> max_int64 \<and> next_byte_nano (update_state u) \<le> max_int64"
proof (cases "allowed d")
  case True
  show ?thesis
  proof
    fix u assume "u \<in> set (updates d)"
    then obtain c vs where c: "c \<in> set cs" "charge_update t c = Inr vs" "u \<in> set vs"
      using charge_updates_mem(1) [OF evaluate_allowedD(2) [OF assms True]] by blast
    have val: "validate_charge c = None" by (rule evaluate_InrD(4) [OF assms c(1)])
    have "u = \<lparr>update_scope = charge_scope c, update_state = new_state t c\<rparr>"
      and "dim_next Events (new_state t c) \<le> max_int64" "dim_next Bytes (new_state t c) \<le> max_int64"
      using charge_update_new_state [OF val c(2,3)] by blast+
    then show "\<exists>c \<in> set cs. update_scope u = charge_scope c
      \<and> state_limits (update_state u) = charge_limits c
      \<and> validate_charge (c\<lparr>charge_state := Some (update_state u)\<rparr>) = None
      \<and> next_event_nano (update_state u) \<le> max_int64 \<and> next_byte_nano (update_state u) \<le> max_int64"
      using c(1) new_state_valid [OF val evaluate_InrD(1) [OF assms]] by (auto simp: state_limits_new_state)
  qed
next
  case False
  then show ?thesis using evaluate_deniedD [OF assms] by force
qed

theorem evaluate_updates_persistable_witness:
  "\<exists>d. evaluate 1000 [demo_charge] = Inr d \<and> updates d \<noteq> [] \<and>
     (\<forall>u \<in> set (updates d). validate_charge (demo_charge\<lparr>charge_state := Some (update_state u)\<rparr>) = None)"
proof -
  let ?d = "\<lparr>allowed = True, retry_after = 0, blocking_scope = None,
     updates = [\<lparr>update_scope = demo_scope, update_state = new_state 1000 demo_charge\<rparr>]\<rparr>"
  have e: "evaluate 1000 [demo_charge] = Inr ?d" using demo_evaluate_fresh [of 1000] by simp
  from evaluate_updates_persistable [OF e]
  show ?thesis by (intro exI [of _ ?d] conjI e) auto
qed

text \<open>C31: a denied decision has no updates and a retry hint in (0, 1h]. It names a charged scope whose wait
  is the longest, and among equal waits the one that comes first by \<open>scopePrecedes\<close>, whatever the
  order of the charges.\<close>

theorem evaluate_denied_blocking:
  assumes "evaluate t cs = Inr d" "\<not> allowed d"
  shows "updates d = [] \<and> 0 < retry_after d \<and> retry_after d \<le> 3600 * int second_ns \<and>
    (\<exists>c \<in> set cs. blocking_scope d = Some (charge_scope c)
       \<and> retry_after d = min (blocking_nanoseconds c t) (3600 * int second_ns)
       \<and> (\<forall>c' \<in> set cs. blocking_nanoseconds c' t < blocking_nanoseconds c t
            \<or> blocking_nanoseconds c' t = blocking_nanoseconds c t
               \<and> (c' = c \<or> scope_precedes (charge_scope c) (charge_scope c'))))"
proof -
  obtain w k where b: "find_block t None cs = Some (w, k)" "retry_after d = min w (3600 * int second_ns)"
    "blocking_scope d = Some k" "updates d = []" by (rule evaluate_deniedD [OF assms])
  have kind: "\<forall>c \<in> set cs. stored_kind (charge_scope c)"
    using evaluate_InrD(4) [OF assms(1)] validated_kind by blast
  from find_block_Some [OF b(1) kind] obtain c where c: "0 < w" "c \<in> set cs"
      "w = blocking_nanoseconds c t" "k = charge_scope c"
      "\<forall>c' \<in> set cs. dominates (w, k) (blocking_nanoseconds c' t, charge_scope c')" by auto
  have "c' = c" if "c' \<in> set cs" "charge_scope c' = charge_scope c" for c'
    using evaluate_InrD(5) [OF assms(1)] that c(2) by (metis distinct_map inj_onD)
  then have "\<forall>c' \<in> set cs. blocking_nanoseconds c' t < blocking_nanoseconds c t
      \<or> blocking_nanoseconds c' t = blocking_nanoseconds c t
         \<and> (c' = c \<or> scope_precedes (charge_scope c) (charge_scope c'))"
    using c(5) unfolding dominates_def by (auto simp: c(3,4))
  then show ?thesis using b c by auto
qed

theorem evaluate_denied_blocking_witness:
  "\<exists>d. evaluate 1000 [demo_charge\<lparr>charge_state := Some (new_state 1000 demo_charge)\<rparr>] = Inr d
     \<and> updates d = [] \<and> 0 < retry_after d \<and> blocking_scope d = Some demo_scope"
proof -
  let ?c = "demo_charge\<lparr>charge_state := Some (new_state 1000 demo_charge)\<rparr>"
  let ?d = "\<lparr>allowed = False, retry_after = 500000000, blocking_scope = Some demo_scope, updates = []\<rparr>"
  have e: "evaluate 1000 [?c] = Inr ?d" using demo_evaluate_stored [of 1000 1000] by simp
  from evaluate_denied_blocking [OF e]
  show ?thesis by (intro exI [of _ ?d] conjI e) auto
qed

text \<open>C19: the retry hint is honest. When the hint is not capped at one hour, the same charges evaluated
  after waiting exactly the hint are allowed, as long as the clock stays clear of the end of \<open>int64\<close>.\<close>

theorem evaluate_retry_allowed:
  assumes "evaluate t cs = Inr d" "\<not> allowed d" "retry_after d < 3600 * int second_ns"
    and "t + retry_after d \<le> max_int64 - 8388608000000000"
  shows "\<exists>d'. evaluate (t + retry_after d) cs = Inr d' \<and> allowed d'"
proof -
  from evaluate_denied_blocking [OF assms(1,2)] assms(3)
  have w: "0 < retry_after d" "\<And>c. c \<in> set cs \<Longrightarrow> blocking_nanoseconds c t \<le> retry_after d" by fastforce+
  have "blocking_nanoseconds c (t + retry_after d) \<le> 0" if "c \<in> set cs" for c
  proof -
    have "dim_next x (normalized_state c (t + retry_after d)) \<le> t + retry_after d"
      if r: "dim_rate x (charge_limits c) \<noteq> 0" for x
    proof -
      have "dim_next x (normalized_state c t) \<le> t + retry_after d"
        using w(2) [OF \<open>c \<in> set cs\<close>] w(1) r blocking_le_iff [of "retry_after d" c t] by simp
      then show ?thesis using dim_next_normalized [OF r] by (auto split: option.splits if_splits)
    qed
    then show ?thesis using blocking_le_iff [of 0 c "t + retry_after d"] by simp
  qed
  then have "find_block (t + retry_after d) None cs = None" by (simp add: find_block_None)
  moreover obtain us where "charge_updates (t + retry_after d) cs = Inr us"
    using charge_updates_ok [of cs "t + retry_after d"] charge_update_ok [OF evaluate_InrD(4) [OF assms(1)] assms(4)]
    by blast
  moreover have "check_charges [] cs = None"
    using evaluate_InrD(4,5) [OF assms(1)] by (simp add: check_charges_None)
  moreover have "supported_unix_nano (t + retry_after d) = Inr (t + retry_after d)"
    using evaluate_InrD(1) [OF assms(1)] w(1) assms(4) by (simp add: supported_unix_nano_def)
  ultimately show ?thesis using evaluate_InrD(3) [OF assms(1)] by (simp add: evaluate_def)
qed

theorem evaluate_retry_allowed_witness:
  "\<exists>d'. evaluate 500001000 [demo_charge\<lparr>charge_state := Some (new_state 1000 demo_charge)\<rparr>] = Inr d' \<and> allowed d'"
proof -
  let ?c = "demo_charge\<lparr>charge_state := Some (new_state 1000 demo_charge)\<rparr>"
  let ?d = "\<lparr>allowed = False, retry_after = 500000000, blocking_scope = Some demo_scope, updates = []\<rparr>"
  have e: "evaluate 1000 [?c] = Inr ?d" using demo_evaluate_stored [of 1000 1000] by simp
  from evaluate_retry_allowed [OF e] show ?thesis by simp
qed

end
