(* ===== verification/Go_Strconv.thy ===== *)
theory Go_Strconv
  imports Prelude
begin

text \<open>
  What the sources use of Go's \<open>strconv\<close> and \<open>fmt\<close> on decimal numbers: \<open>ParseUint\<close> in base ten, the
  zero-padded \<open>%020d\<close> and the plain \<open>%d\<close>.
\<close>

fun decimal_digits :: "nat \<Rightarrow> nat \<Rightarrow> string" where
  "decimal_digits 0 n = []"
| "decimal_digits (Suc w) n = decimal_digits w (n div 10) @ [char_of (48 + n mod 10)]"

definition is_digit :: "char \<Rightarrow> bool" where
  "is_digit c \<longleftrightarrow> 48 \<le> (of_char c :: nat) \<and> (of_char c :: nat) \<le> 57"

text \<open>\<open>strconv.ParseUint(s, 10, 64)\<close>: digits only, not empty, and a range error above 64 bits.\<close>

definition decimal_value :: "string \<Rightarrow> nat" where
  "decimal_value s = foldl (\<lambda>n c. 10 * n + (of_char c - 48)) 0 s"

definition parse_uint64 :: "string \<Rightarrow> u64 option" where
  "parse_uint64 s =
     (if s = [] \<or> \<not> list_all is_digit s then None
      else if decimal_value s \<ge> 2 ^ 64 then None else Some (of_nat (decimal_value s)))"

lemma length_decimal_digits [simp]: "length (decimal_digits w n) = w"
  by (induction w arbitrary: n) simp_all

lemma digits_are_digits: "list_all is_digit (decimal_digits w n)"
  by (induction w arbitrary: n) (simp_all add: is_digit_def)

lemma decimal_value_snoc: "decimal_value (s @ [c]) = 10 * decimal_value s + (of_char c - 48)"
  by (simp add: decimal_value_def)

lemma decimal_value_digits: "decimal_value (decimal_digits w n) = n mod 10 ^ w"
proof (induction w arbitrary: n)
  case (Suc w)
  have "n mod (10 * 10 ^ w) = 10 * (n div 10 mod 10 ^ w) + n mod 10"
    by (simp add: mod_mult2_eq)
  then show ?case using Suc by (simp add: decimal_value_snoc)
qed (simp add: decimal_value_def)

lemma digits_decimal_value: "list_all is_digit s \<Longrightarrow> decimal_digits (length s) (decimal_value s) = s"
proof (induction s rule: rev_induct)
  case (snoc c s)
  obtain d :: nat where d: "of_char c = 48 + d" "d \<le> 9"
    using snoc.prems by (auto simp: is_digit_def dest: le_Suc_ex)
  have "c = char_of (48 + d)" by (metis char_of_char d(1))
  then show ?case using snoc d by (simp add: decimal_value_snoc)
qed (simp add: decimal_value_def)

text \<open>The decimal rendering of \<open>%d\<close>.\<close>

fun decimal :: "nat \<Rightarrow> string" where
  "decimal n = (if n < 10 then [char_of (48 + n)] else decimal (n div 10) @ [char_of (48 + n mod 10)])"

declare decimal.simps [simp del]

lemma decimal_value_decimal [simp]: "decimal_value (decimal n) = n"
proof (induction n rule: decimal.induct)
  case (1 n)
  show ?case
  proof (cases "n < 10")
    case True
    then show ?thesis by (subst decimal.simps) (simp add: decimal_value_def)
  next
    case False
    then show ?thesis using 1 by (subst decimal.simps) (simp add: decimal_value_snoc)
  qed
qed

lemma decimal_inj: "decimal a = decimal b \<longleftrightarrow> a = b"
  by (metis decimal_value_decimal)

lemma last_digit: "is_digit (last (decimal n))" "decimal n \<noteq> []"
proof -
  have "n mod 10 \<le> 9" by presburger
  then show "is_digit (last (decimal n))" by (subst decimal.simps) (simp add: is_digit_def)
  show "decimal n \<noteq> []" by (subst decimal.simps) simp
qed

lemma decimal_digits_only: "list_all is_digit (decimal n)"
proof (induction n rule: decimal.induct)
  case (1 n)
  have d: "is_digit (char_of (48 + n mod 10))" "n < 10 \<Longrightarrow> is_digit (char_of (48 + n))" by (simp_all add: is_digit_def)
  show ?case
  proof (cases "n < 10")
    case True
    then show ?thesis using d(2) by (subst decimal.simps) simp
  next
    case False
    then show ?thesis using 1 d(1) by (subst decimal.simps) simp
  qed
qed

text \<open>A digit string without a leading zero is the rendering of its value.\<close>

lemma decimal_value_pos: "list_all is_digit s \<Longrightarrow> s \<noteq> [] \<Longrightarrow> hd s \<noteq> CHR ''0'' \<Longrightarrow> 0 < decimal_value s"
proof (induction s rule: rev_induct)
  case (snoc c s)
  show ?case
  proof (cases "s = []")
    case True
    obtain d :: nat where d: "of_char c = 48 + d" using snoc.prems by (auto simp: is_digit_def dest: le_Suc_ex)
    have "d \<noteq> 0"
    proof
      assume "d = 0"
      then have "c = char_of (48 :: nat)" using d by (metis add.right_neutral char_of_char)
      moreover have "char_of (48 :: nat) = CHR ''0''" by code_simp
      ultimately show False using snoc.prems True by simp
    qed
    then show ?thesis using d True by (simp add: decimal_value_def)
  qed (use snoc in \<open>simp add: decimal_value_snoc\<close>)
qed simp

lemma decimal_decimal_value:
  "list_all is_digit s \<Longrightarrow> s \<noteq> [] \<Longrightarrow> length s = 1 \<or> hd s \<noteq> CHR ''0'' \<Longrightarrow> decimal (decimal_value s) = s"
proof (induction s rule: rev_induct)
  case (snoc c s)
  obtain d :: nat where d: "of_char c = 48 + d" "d \<le> 9" using snoc.prems by (auto simp: is_digit_def dest: le_Suc_ex)
  have c: "c = char_of (48 + d)" by (metis char_of_char d(1))
  have v: "decimal_value (s @ [c]) = 10 * decimal_value s + d" by (simp add: decimal_value_snoc d(1))
  show ?case
  proof (cases "s = []")
    case True
    then show ?thesis using v d(2) c by (subst decimal.simps) (simp add: decimal_value_def)
  next
    case False
    then have h: "hd s \<noteq> CHR ''0''" "list_all is_digit s" using snoc.prems by auto
    then have "0 < decimal_value s" using False decimal_value_pos by blast
    moreover have "decimal (decimal_value s) = s" using snoc.IH h False by simp
    ultimately show ?thesis using v d(2) c by (subst decimal.simps) simp
  qed
qed simp

lemma decimal_leading: "length (decimal n) = 1 \<or> hd (decimal n) \<noteq> CHR ''0''"
proof (induction n rule: decimal.induct)
  case (1 n)
  show ?case
  proof (cases "n < 10")
    case True
    then show ?thesis by (subst decimal.simps) simp
  next
    case False
    have d: "decimal n = decimal (n div 10) @ [char_of (48 + n mod 10)]" using False by (subst decimal.simps) simp
    have ne: "decimal (n div 10) \<noteq> []" by (rule last_digit(2))
    have "hd (decimal (n div 10)) \<noteq> CHR ''0''"
    proof (cases "n div 10 < 10")
      case True
      then obtain k where k: "n div 10 = k" "1 \<le> k" "k < 10" using False by auto
      have "char_of (48 + k) \<noteq> CHR ''0''"
      proof
        assume "char_of (48 + k) = CHR ''0''"
        then have "of_char (char_of (48 + k) :: char) = (of_char CHR ''0'' :: nat)" by simp
        then show False using k by (simp add: of_char_of)
      qed
      then show ?thesis using k by (subst decimal.simps) simp
    next
      case F: False
      have "length (decimal (n div 10)) > 1"
      proof -
        have "decimal (n div 10) = decimal (n div 10 div 10) @ [char_of (48 + n div 10 mod 10)]" using F by (subst decimal.simps) simp
        then show ?thesis using last_digit(2) [of "n div 10 div 10"] by (cases "decimal (n div 10 div 10)") auto
      qed
      then show ?thesis using 1 [OF False] by simp
    qed
    then show ?thesis using d ne by simp
  qed
qed

end
