(* ===== verification/Wal_Record.thy ===== *)
theory Wal_Record
  imports Go_Strconv
begin

text \<open>
  \<open>internal/collector/wal/segment.go\<close>: the on-disk records of the durable queue.  A segment file is
  a list of bytes.  A record is a 4-byte big-endian payload length, the CRC32C of the payload, and
  the payload, which is a marshalled \<open>EventBatch\<close>.

  The protobuf runtime is not part of the repository: its two functions are the fields of a
  \<open>codec\<close>, with \<open>codec_ok\<close> the documented fact that unmarshalling undoes marshalling.  The CRC is
  computed here from its polynomial.  Offsets are natural numbers: a file offset is an \<open>int64\<close> and
  the code never computes one beyond the file size plus one maximal record.
\<close>

unbundle bit_operations_syntax

section \<open>CRC32C\<close>

fun crc_bits :: "nat \<Rightarrow> u32 \<Rightarrow> u32" where
  "crc_bits 0 c = c"
| "crc_bits (Suc n) c = crc_bits n (if bit c 0 then drop_bit 1 c XOR 0x82F63B78 else drop_bit 1 c)"

definition crc_byte :: "u32 \<Rightarrow> char \<Rightarrow> u32" where
  "crc_byte c b = crc_bits 8 (c XOR of_nat (of_char b))"

definition crc32c :: "bytes \<Rightarrow> u32" where
  "crc32c b = NOT (foldl crc_byte (NOT 0) b)"

section \<open>Big-endian words\<close>

definition be32 :: "u32 \<Rightarrow> bytes" where
  "be32 w = [char_of (unat w div 16777216), char_of (unat w div 65536 mod 256),
             char_of (unat w div 256 mod 256), char_of (unat w mod 256)]"

fun of_be32 :: "bytes \<Rightarrow> u32" where
  "of_be32 (a # b # c # d # _) =
     of_nat (of_char a * 16777216 + of_char b * 65536 + of_char c * 256 + of_char d)"
| "of_be32 _ = 0"

lemma length_be32 [simp]: "length (be32 w) = 4"
  by (simp add: be32_def)

lemma of_be32_be32 [simp]: "of_be32 (be32 w @ xs) = w"
proof -
  define n where "n = unat w"
  have n: "n < 4294967296" using unsigned_less [of w] by (simp add: n_def)
  then have "n div 16777216 < 256" by (simp add: less_mult_imp_div_less)
  then have "of_be32 (be32 w @ xs) =
      of_nat (n div 16777216 * 16777216 + n div 65536 mod 256 * 65536 + n div 256 mod 256 * 256 + n mod 256)"
    by (simp add: be32_def flip: n_def)
  also have "n div 16777216 * 16777216 + n div 65536 mod 256 * 65536 + n div 256 mod 256 * 256 + n mod 256 = n"
  proof -
    have a: "n div 256 div 256 = n div 65536" "n div 65536 div 256 = n div 16777216"
      by (simp_all flip: div_mult2_eq)
    have "n = n div 256 * 256 + n mod 256" by simp
    moreover have "n div 256 = n div 65536 * 256 + n div 256 mod 256" using a by (metis div_mult_mod_eq)
    moreover have "n div 65536 = n div 16777216 * 256 + n div 65536 mod 256" using a by (metis div_mult_mod_eq)
    ultimately show ?thesis by linarith
  qed
  finally show ?thesis by (simp add: n_def)
qed

section \<open>Segment names\<close>

definition segment_name :: "u64 \<Rightarrow> string" where
  "segment_name first_seq = ''segment-'' @ decimal_digits 20 (unat first_seq) @ ''.wal''"

definition strip_suffix :: "string \<Rightarrow> string \<Rightarrow> string" where
  "strip_suffix sfx s = (if suffix sfx s then take (length s - length sfx) s else s)"

definition parse_segment_name :: "string \<Rightarrow> u64 option" where
  "parse_segment_name name =
     (if \<not> prefix ''segment-'' name \<or> \<not> suffix ''.wal'' name then None
      else let digits = strip_suffix ''.wal'' (drop 8 name) in
        if length digits \<noteq> 20 then None else parse_uint64 digits)"

lemma parse_segment_name_eq:
  "parse_segment_name name = Some s \<longleftrightarrow> name = segment_name s"
proof
  assume p: "parse_segment_name name = Some s"
  then obtain d where d: "name = ''segment-'' @ d" by (auto simp: parse_segment_name_def prefix_def split: if_splits)
  from p d have sf: "suffix ''.wal'' (''segment-'' @ d)" and "length (strip_suffix ''.wal'' d) = 20"
    and u: "parse_uint64 (strip_suffix ''.wal'' d) = Some s"
    by (auto simp: parse_segment_name_def Let_def split: if_splits)
  then have "4 \<le> length d" by (simp add: strip_suffix_def split: if_splits)
  with sf have "suffix ''.wal'' d" using suffix_length_suffix [of "''.wal''" "''segment-'' @ d" d] by (simp add: suffix_def)
  then obtain ds where ds: "d = ds @ ''.wal''" by (auto simp: suffix_def)
  have st: "strip_suffix ''.wal'' d = ds" by (simp add: strip_suffix_def ds suffix_def)
  have len: "length ds = 20" using \<open>length _ = 20\<close> st by simp
  have dg: "list_all is_digit ds" "decimal_value ds < 2 ^ 64" "s = of_nat (decimal_value ds)"
    using u unfolding st by (auto simp: parse_uint64_def split: if_splits)
  then have "unat s = decimal_value ds" by (simp add: unat_of_nat take_bit_nat_eq_self)
  then have "decimal_digits 20 (unat s) = ds" using digits_decimal_value [OF dg(1)] len by simp
  then show "name = segment_name s" by (simp add: segment_name_def d ds)
next
  assume n: "name = segment_name s"
  have s64: "unat s < 2 ^ 64" using unat_u64_less [of s] by simp
  then have "unat s < 10 ^ 20" by simp
  then have "decimal_value (decimal_digits 20 (unat s)) = unat s" by (simp add: decimal_value_digits)
  then have "parse_uint64 (decimal_digits 20 (unat s)) = Some s"
    using s64 digits_are_digits [of 20 "unat s"] length_decimal_digits [of 20 "unat s"]
    by (auto simp: parse_uint64_def simp del: length_decimal_digits decimal_digits.simps)
  moreover have "suffix ''.wal'' (x @ ''.wal'')" for x by (rule suffixI) simp
  moreover from this have "suffix ''.wal'' (''segment-'' @ decimal_digits 20 (unat s) @ ''.wal'')"
    by (metis append_assoc)
  ultimately show "parse_segment_name name = Some s"
    by (simp add: n parse_segment_name_def segment_name_def Let_def strip_suffix_def del: decimal_digits.simps)
qed

section \<open>Batches\<close>

text \<open>
  The fields of the generated messages \<open>EventOrigin\<close>, \<open>LogEvent\<close> and \<open>EventBatch\<close> that the queue
  reads; an optional field is an \<open>option\<close>.  \<open>event_body\<close> stands for the rest of the event, which the
  queue only carries.  A nil event of a batch is \<open>None\<close>.
\<close>

record event_origin =
  origin_input_id :: string
  origin_file_identity :: "string option"
  origin_source_path :: "string option"
  origin_end_offset :: "u64 option"
  origin_line_number :: "u64 option"
  origin_next_line_number :: "u64 option"
  origin_fingerprint_length :: "u32 option"
  origin_guard_fingerprint :: "string option"
  origin_guard_length :: "u32 option"

record log_event =
  event_id :: string
  event_origin_of :: "event_origin option"
  event_body :: bytes

record event_batch =
  collector_id :: string
  batch_id :: string
  batch_sequence :: u64
  batch_created_at :: "int option"
  batch_events :: "log_event option list"
  uncompressed_size_bytes :: u64
  event_ids_sha256 :: bytes

text \<open>
  Code outside the repository: the protobuf runtime (marshalling, the encoded size of a batch and
  of an event, the validity of a timestamp) and \<open>uuid.Parse\<close> with the version-4 test.
\<close>

record codec =
  marshal :: "event_batch \<Rightarrow> bytes option"
  marshal_deterministic :: "event_batch \<Rightarrow> bytes option"
  unmarshal :: "bytes \<Rightarrow> event_batch option"
  batch_size :: "event_batch \<Rightarrow> int"
  event_size :: "log_event option \<Rightarrow> int"
  timestamp_valid :: "int \<Rightarrow> bool"
  is_uuid_v4 :: "string \<Rightarrow> bool"

text \<open>What the protobuf documentation promises of a batch whose events are all present.\<close>

definition codec_ok :: "codec \<Rightarrow> bool" where
  "codec_ok cd \<longleftrightarrow> (\<forall>b p. marshal cd b = Some p \<longrightarrow> None \<notin> set (batch_events b) \<longrightarrow>
      unmarshal cd p = Some b \<and> batch_size cd b = int (length p))"

section \<open>Records\<close>

abbreviation record_header_size :: nat where "record_header_size \<equiv> 8"
abbreviation maximum_record_payload_bytes :: nat where "maximum_record_payload_bytes \<equiv> 16777216"

text \<open>\<open>encodeRecord\<close>; \<open>None\<close> is \<open>ErrBatchTooLarge\<close>.\<close>

definition encode_record :: "bytes \<Rightarrow> bytes option" where
  "encode_record payload =
     (if length payload > maximum_record_payload_bytes then None
      else Some (be32 (of_nat (length payload)) @ be32 (crc32c payload) @ payload))"

record scanned_record =
  payload_off :: nat
  payload_len :: u32
  record_crc :: u32
  record_batch :: event_batch

record scan_result =
  file_size :: nat
  record_count :: u64
  bad_offset :: nat
  corrupt :: bool

text \<open>
  \<open>walkSegment\<close>: \<open>sz\<close> is what \<open>Stat\<close> reported and \<open>file\<close> the bytes then read, which may have
  become fewer.  The visitor threads a state and may fail, which ends the walk with its error.
\<close>

definition corrupt_at :: "nat \<Rightarrow> nat \<Rightarrow> u64 \<Rightarrow> scan_result" where
  "corrupt_at sz off count = \<lparr>file_size = sz, record_count = count, bad_offset = off, corrupt = True\<rparr>"

function walk_from ::
  "codec \<Rightarrow> (scanned_record \<Rightarrow> 's \<Rightarrow> 'e + 's) \<Rightarrow> nat \<Rightarrow> bytes \<Rightarrow> nat \<Rightarrow> u64 \<Rightarrow> 's \<Rightarrow> 'e + scan_result \<times> 's" where
  "walk_from cd visit sz file off count st =
     (if sz \<le> off then Inr (\<lparr>file_size = sz, record_count = count, bad_offset = 0, corrupt = False\<rparr>, st)
      else if sz - off < record_header_size then Inr (corrupt_at sz off count, st)
      else if length file - off < record_header_size then Inr (corrupt_at sz off count, st)
      else
        let header = drop off file;
            len = of_be32 header;
            want = of_be32 (drop 4 header);
            record_end = off + record_header_size + unat len
        in if unat len > maximum_record_payload_bytes then Inr (corrupt_at sz off count, st)
           else if len = 0 \<or> record_end > sz then Inr (corrupt_at sz off count, st)
           else if length file < record_end then Inr (corrupt_at sz off count, st)
           else
             let payload = take (unat len) (drop record_header_size header)
             in if crc32c payload \<noteq> want then Inr (corrupt_at sz off count, st)
                else case unmarshal cd payload of
                    None \<Rightarrow> Inr (corrupt_at sz off count, st)
                  | Some batch \<Rightarrow>
                      (case visit \<lparr>payload_off = off + record_header_size, payload_len = len,
                                   record_crc = want, record_batch = batch\<rparr> st of
                         Inl e \<Rightarrow> Inl e
                       | Inr st' \<Rightarrow> walk_from cd visit sz file record_end (count + 1) st'))"
  by pat_completeness auto
termination
  by (relation "measure (\<lambda>(cd, visit, sz, file, off, count, st). sz - off)") auto

declare walk_from.simps [simp del]

definition walk_segment ::
  "codec \<Rightarrow> (scanned_record \<Rightarrow> 's \<Rightarrow> 'e + 's) \<Rightarrow> bytes \<Rightarrow> 's \<Rightarrow> 'e + scan_result \<times> 's" where
  "walk_segment cd visit file st = walk_from cd visit (length file) file 0 0 st"

text \<open>\<open>scanSegment\<close>: the walk that collects the records.\<close>

definition scan_segment :: "codec \<Rightarrow> bytes \<Rightarrow> scan_result \<times> scanned_record list" where
  "scan_segment cd file =
     (case walk_segment cd (\<lambda>r rs. Inr (rs @ [r]) :: unit + scanned_record list) file [] of
        Inl e \<Rightarrow> (\<lparr>file_size = 0, record_count = 0, bad_offset = 0, corrupt = False\<rparr>, [])
      | Inr p \<Rightarrow> p)"

text \<open>\<open>readRecordPayload\<close>: \<open>None\<close> is \<open>ErrCorruptSegment\<close>, for a short read, a CRC mismatch or a bad message.\<close>

definition read_record_payload :: "codec \<Rightarrow> bytes \<Rightarrow> nat \<Rightarrow> u32 \<Rightarrow> u32 \<Rightarrow> event_batch option" where
  "read_record_payload cd file off len want =
     (let buf = take (unat len) (drop off file)
      in if length buf < unat len then None
         else if crc32c buf \<noteq> want then None
         else unmarshal cd buf)"

definition crc_step :: "u32 \<Rightarrow> u32" where
  "crc_step c = (if bit c 0 then drop_bit 1 c XOR 0x82F63B78 else drop_bit 1 c)"

lemma crc_step_top: "bit (crc_step c) 31 \<longleftrightarrow> bit c 0"
proof -
  have "\<not> bit c 32" using bit_imp_le_length [of c 32] by auto
  then have "\<not> bit (drop_bit 1 c) 31" by (simp only: bit_drop_bit_eq comp_apply) simp
  moreover have "bit (0x82F63B78 :: u32) 31" by simp
  ultimately show ?thesis by (cases "bit c 0") (simp_all only: crc_step_def bit_xor_iff if_True if_False simp_thms)
qed

lemma crc_step_inj: "crc_step c = crc_step d \<Longrightarrow> c = d"
proof -
  assume e: "crc_step c = crc_step d"
  then have b: "bit c 0 = bit d 0" using crc_step_top by metis
  have "drop_bit 1 c = drop_bit 1 d"
  proof (cases "bit c 0")
    case True
    then have "(drop_bit 1 c XOR 0x82F63B78) XOR 0x82F63B78 = (drop_bit 1 d XOR 0x82F63B78) XOR 0x82F63B78"
      using e b by (simp only: crc_step_def if_True)
    then show ?thesis by (simp only: xor.assoc xor_self_eq xor.right_neutral)
  next
    case False
    then show ?thesis using e b by (simp only: crc_step_def if_False)
  qed
  then have d: "bit c (Suc n) = bit d (Suc n)" for n by (metis bit_drop_bit_eq comp_apply plus_1_eq_Suc)
  show "c = d"
  proof (rule bit_eqI)
    fix n show "bit c n = bit d n" using b d by (cases n) simp_all
  qed
qed

lemma crc_bits_Suc: "crc_bits (Suc n) c = crc_bits n (crc_step c)"
  by (simp add: crc_step_def)

lemma crc_bits_inj: "crc_bits n c = crc_bits n d \<Longrightarrow> c = d"
proof (induction n arbitrary: c d)
  case (Suc n)
  then show ?case using crc_step_inj unfolding crc_bits_Suc by blast
qed simp

text \<open>One step of the CRC is injective in the register and in the byte.\<close>

lemma xor_right_cancel: "a XOR c = b XOR c \<longleftrightarrow> a = (b :: u32)"
proof
  assume "a XOR c = b XOR c"
  then have "(a XOR c) XOR c = (b XOR c) XOR c" by (simp only:)
  then show "a = b" by (simp only: xor.assoc xor_self_eq xor.right_neutral)
qed simp

lemma xor_left_cancel: "c XOR a = c XOR b \<longleftrightarrow> a = (b :: u32)"
  by (simp only: xor.commute [of c a] xor.commute [of c b] xor_right_cancel)

lemma crc_byte_inj: "crc_byte c b = crc_byte d b \<longleftrightarrow> c = d"
  using crc_bits_inj unfolding crc_byte_def by (metis xor_right_cancel)

lemma crc_byte_inj_byte: "crc_byte c b = crc_byte c b' \<longleftrightarrow> b = b'"
proof
  assume "crc_byte c b = crc_byte c b'"
  then have "(of_nat (of_char b) :: u32) = of_nat (of_char b')"
    using crc_bits_inj unfolding crc_byte_def by (metis xor_left_cancel)
  then have "unat (of_nat (of_char b) :: u32) = unat (of_nat (of_char b') :: u32)" by simp
  moreover have "(of_char x :: nat) < 256" for x by simp
  ultimately have "(of_char b :: nat) = of_char b'"
    by (simp add: unat_of_nat take_bit_nat_eq_self less_trans [of _ 256])
  then show "b = b'" by simp
qed simp

lemma foldl_crc_inj: "foldl crc_byte c bs = foldl crc_byte d bs \<longleftrightarrow> c = d"
  by (induction bs arbitrary: c d) (simp_all add: crc_byte_inj)

lemma crc32c_one_byte:
  assumes "i < length p" "b \<noteq> p ! i"
  shows "crc32c (p[i := b]) \<noteq> crc32c p"
proof -
  have p: "p = take i p @ p ! i # drop (Suc i) p" using assms(1) by (rule id_take_nth_drop)
  have q: "p[i := b] = take i p @ b # drop (Suc i) p" using assms(1) by (rule upd_conv_take_nth_drop)
  have "foldl crc_byte c (p[i := b]) \<noteq> foldl crc_byte c p" for c
    by (subst (2) p, subst q) (simp add: foldl_crc_inj crc_byte_inj_byte assms(2))
  then show ?thesis by (simp add: crc32c_def)
qed

section \<open>Scanning what was written\<close>

text \<open>The bytes of one record, and the records a run of payloads occupies from an offset.\<close>

definition record_bytes :: "bytes \<Rightarrow> bytes" where
  "record_bytes p = be32 (of_nat (length p)) @ be32 (crc32c p) @ p"

lemma length_record_bytes [simp]: "length (record_bytes p) = 8 + length p"
  by (simp add: record_bytes_def)

definition payload_ok :: "codec \<Rightarrow> bytes \<times> event_batch \<Rightarrow> bool" where
  "payload_ok cd pb \<longleftrightarrow> fst pb \<noteq> [] \<and> length (fst pb) \<le> maximum_record_payload_bytes
     \<and> unmarshal cd (fst pb) = Some (snd pb)"

definition segment_bytes :: "(bytes \<times> event_batch) list \<Rightarrow> bytes" where
  "segment_bytes pbs = concat (map (record_bytes \<circ> fst) pbs)"

fun records_at :: "nat \<Rightarrow> (bytes \<times> event_batch) list \<Rightarrow> scanned_record list" where
  "records_at off [] = []"
| "records_at off ((p, b) # pbs) =
     \<lparr>payload_off = off + 8, payload_len = of_nat (length p), record_crc = crc32c p, record_batch = b\<rparr>
     # records_at (off + 8 + length p) pbs"

fun visit_all :: "(scanned_record \<Rightarrow> 's \<Rightarrow> 'e + 's) \<Rightarrow> scanned_record list \<Rightarrow> 's \<Rightarrow> 'e + 's" where
  "visit_all visit [] st = Inr st"
| "visit_all visit (r # rs) st = (case visit r st of Inl e \<Rightarrow> Inl e | Inr st' \<Rightarrow> visit_all visit rs st')"

lemma segment_bytes_simps [simp]:
  "segment_bytes [] = []"
  "segment_bytes (pb # pbs) = record_bytes (fst pb) @ segment_bytes pbs"
  "segment_bytes (as @ bs) = segment_bytes as @ segment_bytes bs"
  by (simp_all add: segment_bytes_def)

lemma length_records_at [simp]: "length (records_at off pbs) = length pbs"
  by (induction off pbs rule: records_at.induct) simp_all

lemma records_at_append:
  "records_at off (as @ bs) = records_at off as @ records_at (off + length (segment_bytes as)) bs"
  by (induction off as rule: records_at.induct) (simp_all add: add.assoc)

lemma unat_length:
  "length p \<le> maximum_record_payload_bytes \<Longrightarrow> unat (of_nat (length p) :: u32) = length p"
  by (simp add: unat_of_nat take_bit_nat_eq_self)

lemma record_fields [simp]:
  "of_be32 (record_bytes p @ xs) = of_nat (length p)"
  "of_be32 (record_bytes p) = of_nat (length p)"
  "drop 4 (record_bytes p) = be32 (crc32c p) @ p"
  "drop 8 (record_bytes p) = p"
  using of_be32_be32 [of "of_nat (length p)" "be32 (crc32c p) @ p"] by (simp_all add: record_bytes_def)

text \<open>One step of the walk: the record at the head of the unread bytes \<open>h\<close>, when it is intact.\<close>

definition next_record :: "codec \<Rightarrow> nat \<Rightarrow> bytes \<Rightarrow> (u32 \<times> u32 \<times> event_batch) option" where
  "next_record cd remaining h =
     (let len = of_be32 h; want = of_be32 (drop 4 h); p = take (unat len) (drop 8 h)
      in if remaining < 8 \<or> length h < 8 \<or> unat len > maximum_record_payload_bytes \<or> len = 0
            \<or> 8 + unat len > remaining \<or> length h < 8 + unat len \<or> crc32c p \<noteq> want
         then None else map_option (\<lambda>b. (len, want, b)) (unmarshal cd p))"

lemma walk_from_next:
  "walk_from cd visit sz file off count st =
     (if sz \<le> off then Inr (\<lparr>file_size = sz, record_count = count, bad_offset = 0, corrupt = False\<rparr>, st)
      else case next_record cd (sz - off) (drop off file) of
        None \<Rightarrow> Inr (corrupt_at sz off count, st)
      | Some (len, want, b) \<Rightarrow>
          (case visit \<lparr>payload_off = off + 8, payload_len = len, record_crc = want, record_batch = b\<rparr> st of
             Inl e \<Rightarrow> Inl e
           | Inr st' \<Rightarrow> walk_from cd visit sz file (off + 8 + unat len) (count + 1) st'))"
proof -
  have le: "length file - off < n \<longleftrightarrow> length file < off + n" if "8 \<le> length file - off" for n
    using that by linarith
  have le': "off + 8 + n > sz \<longleftrightarrow> 8 + n > sz - off" if "off < sz" for n
    using that by linarith
  show ?thesis
    by (subst walk_from.simps, cases "sz \<le> off"; cases "length file - off < 8")
      (auto simp: next_record_def Let_def le le' not_le add.assoc split: option.split sum.split)
qed

lemma next_record_written:
  assumes "payload_ok cd (p, b)" "8 + length p \<le> remaining"
  shows "next_record cd remaining (record_bytes p @ post) = Some (of_nat (length p), crc32c p, b)"
proof -
  have len: "length p \<le> maximum_record_payload_bytes" "p \<noteq> []" "unmarshal cd p = Some b"
    using assms(1) by (simp_all add: payload_ok_def)
  have "(of_nat (length p) :: u32) \<noteq> 0" using unat_length [OF len(1)] len(2) by auto
  then show ?thesis using assms(2) len by (simp add: next_record_def Let_def unat_length)
qed

lemma next_record_truncated:
  assumes "payload_ok cd (p, b)" "k < 8 + length p"
  shows "next_record cd remaining (take k (record_bytes p)) = None"
proof (cases "k < 8")
  case False
  have len: "length p \<le> maximum_record_payload_bytes" using assms(1) by (simp add: payload_ok_def)
  have "take k (record_bytes p) = be32 (of_nat (length p)) @ be32 (crc32c p) @ take (k - 8) p"
    using False by (simp add: record_bytes_def)
  then have "unat (of_be32 (take k (record_bytes p))) = length p" using len by (simp add: unat_length)
  then show ?thesis using assms(2) False by (simp add: next_record_def Let_def)
qed (simp add: next_record_def)

lemma next_record_bad_crc:
  assumes "payload_ok cd (p, b)" "length q = length p" "crc32c q \<noteq> crc32c p"
  shows "next_record cd remaining (be32 (of_nat (length p)) @ be32 (crc32c p) @ q @ rest) = None"
proof -
  have len: "length p \<le> maximum_record_payload_bytes" using assms(1) by (simp add: payload_ok_def)
  then show ?thesis using assms(2,3) by (simp add: next_record_def Let_def unat_length)
qed

lemma walk_record:
  assumes "payload_ok cd (p, b)" "drop off file = record_bytes p @ post" "off + 8 + length p \<le> sz"
  shows "walk_from cd visit sz file off count st =
    (case visit \<lparr>payload_off = off + 8, payload_len = of_nat (length p), record_crc = crc32c p, record_batch = b\<rparr> st of
       Inl e \<Rightarrow> Inl e
     | Inr st' \<Rightarrow> walk_from cd visit sz file (off + 8 + length p) (count + 1) st')"
proof -
  have "unat (of_nat (length p) :: u32) = length p" using assms(1) by (simp add: payload_ok_def unat_length)
  moreover have "\<not> sz \<le> off" "8 + length p \<le> sz - off" using assms(3) by linarith+
  ultimately show ?thesis
    using next_record_written [OF assms(1), of "sz - off" post] by (subst walk_from_next) (simp add: assms(2) split: sum.split)
qed

lemma walk_records:
  assumes "\<forall>pb \<in> set pbs. payload_ok cd pb"
    and "drop off file = segment_bytes pbs @ post" "off + length (segment_bytes pbs) \<le> sz"
  shows "walk_from cd visit sz file off count st =
    (case visit_all visit (records_at off pbs) st of
       Inl e \<Rightarrow> Inl e
     | Inr st' \<Rightarrow> walk_from cd visit sz file (off + length (segment_bytes pbs)) (count + of_nat (length pbs)) st')"
  using assms
proof (induction pbs arbitrary: off count st)
  case (Cons pb pbs)
  obtain p b where pb: "pb = (p, b)" by fastforce
  have fl: "drop off file = record_bytes p @ (segment_bytes pbs @ post)" using Cons.prems(2) by (simp add: pb)
  have rest: "drop (off + 8 + length p) file = segment_bytes pbs @ post"
    using arg_cong [OF fl, of "drop (8 + length p)"] by (simp add: add.commute add.left_commute)
  have "walk_from cd visit sz file (off + 8 + length p) (count + 1) st' =
      (case visit_all visit (records_at (off + 8 + length p) pbs) st' of
         Inl e \<Rightarrow> Inl e
       | Inr st' \<Rightarrow> walk_from cd visit sz file (off + 8 + length p + length (segment_bytes pbs))
            (count + 1 + of_nat (length pbs)) st')" for st'
    by (rule Cons.IH [OF _ rest]) (use Cons.prems pb in auto)
  moreover have "payload_ok cd (p, b)" "off + 8 + length p \<le> sz" using Cons.prems pb by auto
  ultimately show ?case
    using walk_record [of cd p b off "file" "segment_bytes pbs @ post" sz visit count st] fl
    by (simp add: pb add.assoc split: sum.split)
qed simp

text \<open>A record cut short, and a record whose payload fails its checksum, stop the walk.\<close>

lemma walk_stops:
  "next_record cd (length file - off) (drop off file) = None \<Longrightarrow> off < length file \<Longrightarrow>
    walk_from cd visit (length file) file off count st = Inr (corrupt_at (length file) off count, st)"
  by (subst walk_from_next) simp

lemma base256:
  fixes a b c d n :: nat
  assumes "a < 256" "b < 256" "c < 256" "d < 256" and n: "n = a * 16777216 + b * 65536 + c * 256 + d"
  shows "n div 16777216 = a" "n div 65536 mod 256 = b" "n div 256 mod 256 = c" "n mod 256 = d"
proof -
  show "n div 16777216 = a" by (rule div_nat_eqI) (use assms in simp_all)
  have "n div 65536 = a * 256 + b" by (rule div_nat_eqI) (use assms in simp_all)
  then show "n div 65536 mod 256 = b" using assms(2) by simp
  have "n div 256 = (a * 256 + b) * 256 + c" by (rule div_nat_eqI) (use assms in simp_all)
  then show "n div 256 mod 256 = c" using assms(3) by (metis mod_less mod_mult_self3)
  have "n = d + 256 * ((a * 256 + b) * 256 + c)" using n by simp
  then show "n mod 256 = d" using assms(4) by (metis mod_less mod_mult_self2)
qed

lemma be32_of_be32:
  assumes "4 \<le> length t"
  shows "be32 (of_be32 t) = take 4 t"
proof -
  obtain a t1 where t1: "t = a # t1" using assms by (cases t) auto
  obtain b t2 where t2: "t1 = b # t2" using assms t1 by (cases t1) auto
  obtain c t3 where t3: "t2 = c # t3" using assms t1 t2 by (cases t2) auto
  obtain d r where r: "t3 = d # r" using assms t1 t2 t3 by (cases t3) auto
  define n where "n = of_char a * 16777216 + of_char b * 65536 + of_char c * 256 + (of_char d :: nat)"
  have l: "(of_char a :: nat) < 256" "(of_char b :: nat) < 256" "(of_char c :: nat) < 256" "(of_char d :: nat) < 256"
    by simp_all
  have "n < 4294967296" using l unfolding n_def by linarith
  then have u: "unat (of_nat n :: u32) = n" by (simp add: unat_of_nat take_bit_nat_eq_self)
  note base256 [OF l n_def]
  then show ?thesis using u by (simp add: t1 t2 t3 r be32_def del: of_nat_add of_nat_mult flip: n_def)
qed

lemma next_record_Some:
  assumes "next_record cd remaining h = Some (len, want, b)"
  shows "\<exists>p rest. h = record_bytes p @ rest \<and> payload_ok cd (p, b) \<and> len = of_nat (length p)
    \<and> unat len = length p \<and> want = crc32c p \<and> 8 + length p \<le> remaining"
proof -
  define p where "p = take (unat (of_be32 h)) (drop 8 h)"
  from assms have a: "8 \<le> length h" "unat (of_be32 h) \<le> maximum_record_payload_bytes" "of_be32 h \<noteq> 0"
    "8 + unat (of_be32 h) \<le> remaining" "8 + unat (of_be32 h) \<le> length h" "crc32c p = of_be32 (drop 4 h)"
    "unmarshal cd p = Some b" "len = of_be32 h" "want = of_be32 (drop 4 h)"
    by (auto simp: next_record_def Let_def p_def split: if_splits)
  have lp: "length p = unat (of_be32 h)" using a(5) by (simp add: p_def)
  have "h = take 4 h @ take 4 (drop 4 h) @ drop 8 h"
    by (metis append_take_drop_id drop_drop numeral_Bit0)
  also have "take 4 h = be32 (of_nat (length p))" using a(1) lp by (simp add: be32_of_be32)
  also have "take 4 (drop 4 h) = be32 (crc32c p)" using a(1,6) by (simp add: be32_of_be32)
  also have "drop 8 h = p @ drop (unat (of_be32 h)) (drop 8 h)"
    unfolding p_def by (rule append_take_drop_id [symmetric])
  finally have "h = record_bytes p @ drop (unat (of_be32 h)) (drop 8 h)" by (simp add: record_bytes_def)
  moreover have "payload_ok cd (p, b)" using a lp by (auto simp: payload_ok_def unat_eq_0)
  ultimately show ?thesis using a lp
    by (intro exI [of _ p] exI [of _ "drop (unat (of_be32 h)) (drop 8 h)"]) (simp del: drop_drop)
qed

text \<open>
  Every file splits into the records the walk visits and a rest on which it stops: the rest is empty
  exactly when the file is clean, and otherwise starts at the reported offset.
\<close>

lemma walk_splits:
  assumes "walk_from cd (\<lambda>r rs. Inr (rs @ [r]) :: unit + scanned_record list) (length file) file off count rs = Inr (res, rs')"
    and "off \<le> length file"
  shows "\<exists>pbs tail. drop off file = segment_bytes pbs @ tail \<and> (\<forall>pb \<in> set pbs. payload_ok cd pb)
    \<and> (tail = [] \<or> next_record cd (length tail) tail = None)
    \<and> rs' = rs @ records_at off pbs
    \<and> res = \<lparr>file_size = length file, record_count = count + of_nat (length pbs),
             bad_offset = (if tail = [] then 0 else off + length (segment_bytes pbs)), corrupt = (tail \<noteq> [])\<rparr>"
  using assms
proof (induction "length file - off" arbitrary: off count rs rule: less_induct)
  case less
  show ?case
  proof (cases "length file \<le> off")
    case True
    then have "res = \<lparr>file_size = length file, record_count = count, bad_offset = 0, corrupt = False\<rparr> \<and> rs' = rs"
      using less.prems(1) by (subst (asm) walk_from_next) simp
    then show ?thesis using True by (intro exI [of _ "[]"]) simp
  next
    case False
    show ?thesis
    proof (cases "next_record cd (length file - off) (drop off file)")
      case None
      then have "res = corrupt_at (length file) off count \<and> rs' = rs"
        using less.prems(1) False by (subst (asm) walk_stops) simp_all
      then show ?thesis using False by (intro exI [of _ "[]"] exI [of _ "drop off file"]) (simp add: corrupt_at_def None)
    next
      case (Some x)
      obtain len want b where x: "x = (len, want, b)" by (cases x)
      obtain p rest where p: "drop off file = record_bytes p @ rest" "payload_ok cd (p, b)"
          "len = of_nat (length p)" "unat len = length p" "want = crc32c p" "8 + length p \<le> length file - off"
        using next_record_Some Some x by blast
      have step: "walk_from cd (\<lambda>r rs. Inr (rs @ [r]) :: unit + scanned_record list) (length file) file
          (off + 8 + length p) (count + 1)
           (rs @ [\<lparr>payload_off = off + 8, payload_len = len, record_crc = crc32c p, record_batch = b\<rparr>]) = Inr (res, rs')"
        using less.prems(1) False Some x p by (subst (asm) walk_from_next) simp
      have rest: "drop (off + 8 + length p) file = rest"
        using arg_cong [OF p(1), of "drop (8 + length p)"] by (simp add: add.commute add.left_commute)
      have "length file - (off + 8 + length p) < length file - off" "off + 8 + length p \<le> length file"
        using False p(6) by linarith+
      from less.hyps [OF this(1) step this(2)] obtain pbs tail where
        "rest = segment_bytes pbs @ tail" "\<forall>pb \<in> set pbs. payload_ok cd pb"
        "tail = [] \<or> next_record cd (length tail) tail = None"
        "rs' = (rs @ [\<lparr>payload_off = off + 8, payload_len = len, record_crc = crc32c p, record_batch = b\<rparr>])
            @ records_at (off + 8 + length p) pbs"
        "res = \<lparr>file_size = length file, record_count = count + 1 + of_nat (length pbs),
             bad_offset = (if tail = [] then 0 else off + 8 + length p + length (segment_bytes pbs)), corrupt = (tail \<noteq> [])\<rparr>"
        unfolding rest by blast
      then show ?thesis using p
        by (intro exI [of _ "(p, b) # pbs"] exI [of _ tail]) (simp add: add.assoc)
    qed
  qed
qed

lemma visit_collect:
  "visit_all (\<lambda>r rs. Inr (rs @ [r]) :: unit + scanned_record list) rs acc = Inr (acc @ rs)"
  by (induction rs arbitrary: acc) simp_all

lemma walk_collect_total:
  "\<exists>res rs'. walk_from cd (\<lambda>r rs. Inr (rs @ [r]) :: unit + scanned_record list) sz file off count rs = Inr (res, rs')"
proof (induction "sz - off" arbitrary: off count rs rule: less_induct)
  case less
  show ?case
    by (subst walk_from_next, cases "sz \<le> off")
      (auto split: option.split intro!: less.hyps)
qed

lemma scan_segment_walk:
  "walk_from cd (\<lambda>r rs. Inr (rs @ [r]) :: unit + scanned_record list) (length file) file 0 0 [] = Inr (scan_segment cd file)"
  using walk_collect_total [of cd "length file" "file" 0 0 "[]"] by (auto simp: scan_segment_def walk_segment_def)

text \<open>Every file is the records the scan reports followed by a tail on which the scan stops.\<close>

lemma scan_segment_splits:
  "\<exists>pbs tail. file = segment_bytes pbs @ tail \<and> list_all (payload_ok cd) pbs
     \<and> (tail = [] \<or> next_record cd (length tail) tail = None)
     \<and> scan_segment cd file =
       (\<lparr>file_size = length file, record_count = of_nat (length pbs),
         bad_offset = (if tail = [] then 0 else length (segment_bytes pbs)), corrupt = (tail \<noteq> [])\<rparr>,
        records_at 0 pbs)"
proof -
  obtain res rs where s: "scan_segment cd file = (res, rs)" by fastforce
  obtain pbs tail where "file = segment_bytes pbs @ tail" "\<forall>pb \<in> set pbs. payload_ok cd pb"
    "tail = [] \<or> next_record cd (length tail) tail = None"
    "rs = records_at 0 pbs" "res = \<lparr>file_size = length file, record_count = of_nat (length pbs),
         bad_offset = (if tail = [] then 0 else length (segment_bytes pbs)), corrupt = (tail \<noteq> [])\<rparr>"
    using walk_splits [OF scan_segment_walk [of cd "file", unfolded s]] by auto
  then show ?thesis unfolding s by (intro exI [of _ pbs] exI [of _ tail]) (simp add: list_all_iff)
qed

lemma scan_segment_intact:
  assumes "\<forall>pb \<in> set pbs. payload_ok cd pb" "file = segment_bytes pbs @ tail"
    and "tail = [] \<or> next_record cd (length tail) tail = None"
  shows "scan_segment cd file =
    (\<lparr>file_size = length file, record_count = of_nat (length pbs),
      bad_offset = (if tail = [] then 0 else length (segment_bytes pbs)), corrupt = (tail \<noteq> [])\<rparr>,
     records_at 0 pbs)"
proof -
  let ?v = "\<lambda>r rs. Inr (rs @ [r]) :: unit + scanned_record list"
  have "walk_from cd ?v (length file) file 0 0 [] =
      walk_from cd ?v (length file) file (length (segment_bytes pbs)) (of_nat (length pbs)) (records_at 0 pbs)"
    using walk_records [of pbs cd 0 "file" tail "length file" ?v 0 "[]"] assms(1,2) by (simp add: visit_collect)
  also have "\<dots> = Inr (\<lparr>file_size = length file, record_count = of_nat (length pbs),
      bad_offset = (if tail = [] then 0 else length (segment_bytes pbs)), corrupt = (tail \<noteq> [])\<rparr>, records_at 0 pbs)"
  proof (cases "tail = []")
    case True
    then show ?thesis using assms(2) by (subst walk_from_next) simp
  next
    case False
    then show ?thesis
      using walk_stops [of cd "file" "length (segment_bytes pbs)"] assms(2,3) by (simp add: corrupt_at_def)
  qed
  finally show ?thesis using scan_segment_walk [of cd "file"] by simp
qed

text \<open>Every walk visits the records the scan collects, and reports what the scan reports.\<close>

lemma walk_segment_visits:
  "walk_segment cd visit file st =
     (case visit_all visit (snd (scan_segment cd file)) st of
        Inl e \<Rightarrow> Inl e
      | Inr st' \<Rightarrow> Inr (fst (scan_segment cd file), st'))"
proof -
  obtain pbs tail where f: "file = segment_bytes pbs @ tail" "list_all (payload_ok cd) pbs"
    "tail = [] \<or> next_record cd (length tail) tail = None"
    "scan_segment cd file =
       (\<lparr>file_size = length file, record_count = of_nat (length pbs),
         bad_offset = (if tail = [] then 0 else length (segment_bytes pbs)), corrupt = (tail \<noteq> [])\<rparr>,
        records_at 0 pbs)"
    using scan_segment_splits by blast
  let ?o = "length (segment_bytes pbs)"
  have w: "walk_segment cd visit file st =
    (case visit_all visit (records_at 0 pbs) st of
       Inl e \<Rightarrow> Inl e
     | Inr st' \<Rightarrow> walk_from cd visit (length file) file ?o (of_nat (length pbs)) st')"
  proof -
    have "drop 0 file = segment_bytes pbs @ tail" "0 + ?o \<le> length file" using f(1) by simp_all
    from walk_records [OF _ this, of cd visit 0 st] f(2) show ?thesis
      by (simp only: walk_segment_def add_0 list_all_iff)
  qed
  have "walk_from cd visit (length file) file ?o (of_nat (length pbs)) st' =
      Inr (fst (scan_segment cd file), st')" for st'
  proof (cases "tail = []")
    case True
    then show ?thesis unfolding f(4) by (subst walk_from_next) (simp add: f(1))
  next
    case False
    have l: "length file - ?o = length tail" "drop ?o file = tail" "?o < length file" using f(1) False by simp_all
    show ?thesis using walk_stops [of cd "file" ?o visit "of_nat (length pbs)" st'] f(3) False l(3)
      by (simp only: l f(4)) (simp add: corrupt_at_def)
  qed
  then show ?thesis by (simp only: w f(4) prod.sel)
qed

text \<open>A scanned record reads back.\<close>

lemma scan_read_back:
  assumes "r \<in> set (snd (scan_segment cd file))"
  shows "read_record_payload cd file (payload_off r) (payload_len r) (record_crc r) = Some (record_batch r)"
proof -
  obtain pbs tail where f: "file = segment_bytes pbs @ tail" "list_all (payload_ok cd) pbs"
      "snd (scan_segment cd file) = records_at 0 pbs"
    using scan_segment_splits [of "file" cd] by (metis snd_conv)
  have "r \<in> set (records_at off pbs) \<Longrightarrow> drop off file = segment_bytes pbs @ tail \<Longrightarrow> \<forall>pb \<in> set pbs. payload_ok cd pb
     \<Longrightarrow> read_record_payload cd file (payload_off r) (payload_len r) (record_crc r) = Some (record_batch r)" for off
  proof (induction off pbs rule: records_at.induct)
    case (2 off p b pbs)
    have h: "drop off file = record_bytes p @ segment_bytes pbs @ tail" using 2 by simp
    have rest: "drop (off + 8 + length p) file = segment_bytes pbs @ tail"
      using arg_cong [OF h, of "drop (8 + length p)"] by (simp add: add.commute add.left_commute)
    have "drop (off + 8) file = p @ segment_bytes pbs @ tail"
      using arg_cong [OF h, of "drop 8"] by (simp add: add.commute)
    then have hd: "read_record_payload cd file (off + 8) (of_nat (length p)) (crc32c p) = Some b"
      using 2(4) by (simp add: read_record_payload_def payload_ok_def unat_length)
    from 2(2) consider "r = \<lparr>payload_off = off + 8, payload_len = of_nat (length p), record_crc = crc32c p, record_batch = b\<rparr>"
      | "r \<in> set (records_at (off + 8 + length p) pbs)" by auto
    then show ?case
    proof cases
      case 1
      then show ?thesis using hd by simp
    next
      case 2
      then show ?thesis using "2.IH" rest "2.prems"(3) by simp
    qed
  qed simp
  then show ?thesis using assms f by (simp add: list_all_iff)
qed

section \<open>Properties\<close>

text \<open>A runtime that marshals one batch, for the witnesses.\<close>

definition demo_batch :: event_batch where
  "demo_batch = \<lparr>collector_id = ''c'', batch_id = ''b'', batch_sequence = 1, batch_created_at = Some 0,
     batch_events = [], uncompressed_size_bytes = 0, event_ids_sha256 = []\<rparr>"

definition demo_codec :: codec where
  "demo_codec = \<lparr>marshal = (\<lambda>b. if b = demo_batch then Some ''x'' else None),
     marshal_deterministic = (\<lambda>b. None),
     unmarshal = (\<lambda>p. if p = ''x'' then Some demo_batch else None), batch_size = (\<lambda>b. 1),
     event_size = (\<lambda>e. 0), timestamp_valid = (\<lambda>t. True), is_uuid_v4 = (\<lambda>s. True)\<rparr>"

lemma demo_codec_ok: "codec_ok demo_codec"
  by (simp add: codec_ok_def demo_codec_def)

lemma demo_payload_ok: "payload_ok demo_codec (''x'', demo_batch)"
  by (simp add: payload_ok_def demo_codec_def)

text \<open>C26: segment names. A name parses to a sequence exactly when it is the name the queue gives to the
  segment that starts at that sequence, for every 64-bit sequence.\<close>

theorem segment_names_bijective:
  "parse_segment_name name = Some s \<longleftrightarrow> name = segment_name s"
  by (rule parse_segment_name_eq)

text \<open>C23: a crash while appending loses nothing before the append. If the file holds intact records and the
  first \<open>k\<close> bytes of one more, the scan reports exactly the intact records, and reports corruption at
  the end of the last one exactly when \<open>k > 0\<close>.\<close>

theorem scan_torn_append:
  assumes "\<forall>pb \<in> set pbs. payload_ok cd pb" "payload_ok cd (p, b)" "k < 8 + length p"
  shows "scan_segment cd (segment_bytes pbs @ take k (record_bytes p)) =
    (\<lparr>file_size = length (segment_bytes pbs) + k, record_count = of_nat (length pbs),
      bad_offset = (if k = 0 then 0 else length (segment_bytes pbs)), corrupt = (k \<noteq> 0)\<rparr>,
     records_at 0 pbs)"
proof -
  have "take k (record_bytes p) = [] \<longleftrightarrow> k = 0" by (simp add: record_bytes_def be32_def)
  then show ?thesis
    using scan_segment_intact [OF assms(1) refl, of "take k (record_bytes p)"]
      next_record_truncated [OF assms(2,3), of k] assms(3) by auto
qed

theorem scan_torn_append_witness:
  "scan_segment demo_codec (segment_bytes [(''x'', demo_batch)] @ take 5 (record_bytes ''x'')) =
    (\<lparr>file_size = length (segment_bytes [(''x'', demo_batch)]) + 5, record_count = of_nat (length [(''x'', demo_batch)]),
      bad_offset = (if (5::nat) = 0 then 0 else length (segment_bytes [(''x'', demo_batch)])), corrupt = ((5::nat) \<noteq> 0)\<rparr>,
     records_at 0 [(''x'', demo_batch)])"
  by (rule scan_torn_append [where b = demo_batch]) (simp_all add: demo_payload_ok)

text \<open>C13: a changed payload byte never passes. Whatever one byte of the payload of one record becomes, and
  whatever follows the record, the scan stops at that record and keeps every record before it.\<close>

theorem scan_detects_byte_corruption:
  assumes "\<forall>pb \<in> set (pbs @ [(p, b)]). payload_ok cd pb" "i < length p" "c \<noteq> p ! i"
  shows "scan_segment cd ((segment_bytes pbs @ record_bytes p @ rest)[length (segment_bytes pbs) + 8 + i := c]) =
    (\<lparr>file_size = length (segment_bytes pbs @ record_bytes p @ rest), record_count = of_nat (length pbs),
      bad_offset = length (segment_bytes pbs), corrupt = True\<rparr>, records_at 0 pbs)"
proof -
  let ?tail = "be32 (of_nat (length p)) @ be32 (crc32c p) @ p[i := c] @ rest"
  have "(segment_bytes pbs @ record_bytes p @ rest)[length (segment_bytes pbs) + 8 + i := c] = segment_bytes pbs @ ?tail"
    using assms(2) by (simp add: list_update_append record_bytes_def)
  moreover have "next_record cd (length ?tail) ?tail = None"
    using assms by (intro next_record_bad_crc [of cd p b]) (simp_all add: crc32c_one_byte)
  moreover have "?tail \<noteq> []" "be32 w \<noteq> []" for w by (simp_all add: be32_def)
  ultimately show ?thesis
    using scan_segment_intact [of pbs cd _ ?tail] assms(1) by simp
qed

theorem scan_detects_byte_corruption_witness:
  "snd (scan_segment demo_codec ((segment_bytes [] @ record_bytes ''x'' @ ''tail'')[length (segment_bytes []) + 8 + 0 := CHR ''y''])) = []"
  using scan_detects_byte_corruption [of "[]" "''x''" demo_batch demo_codec 0 "CHR ''y''" "''tail''"]
  by (simp add: demo_payload_ok)

text \<open>C24: the prefix the quarantine keeps is clean. Scanning the bytes before the reported offset of a corrupt
  segment finds no corruption and the same records.\<close>

theorem scan_quarantine_prefix:
  assumes "scan_segment cd file = (res, rs)" "corrupt res"
  shows "scan_segment cd (take (bad_offset res) file) =
    (\<lparr>file_size = bad_offset res, record_count = record_count res, bad_offset = 0, corrupt = False\<rparr>, rs)"
proof -
  obtain pbs tail where "file = segment_bytes pbs @ tail" "list_all (payload_ok cd) pbs"
    "(res, rs) = (\<lparr>file_size = length file, record_count = of_nat (length pbs),
         bad_offset = (if tail = [] then 0 else length (segment_bytes pbs)), corrupt = (tail \<noteq> [])\<rparr>, records_at 0 pbs)"
    using scan_segment_splits [of "file" cd] assms(1) by metis
  then show ?thesis using scan_segment_intact [of pbs cd "segment_bytes pbs" "[]"] assms(2) by (auto simp: list_all_iff split: if_splits)
qed

theorem scan_quarantine_prefix_witness:
  "\<exists>res rs. scan_segment demo_codec (segment_bytes [(''x'', demo_batch)] @ take 5 (record_bytes ''x'')) = (res, rs)
     \<and> corrupt res \<and> snd (scan_segment demo_codec
        (take (bad_offset res) (segment_bytes [(''x'', demo_batch)] @ take 5 (record_bytes ''x'')))) = rs"
proof -
  let ?f = "segment_bytes [(''x'', demo_batch)] @ take 5 (record_bytes ''x'')"
  have n: "next_record demo_codec (length (take 5 (record_bytes ''x''))) (take 5 (record_bytes ''x'')) = None"
    by (rule next_record_truncated [OF demo_payload_ok]) simp
  obtain res where s: "scan_segment demo_codec ?f = (res, records_at 0 [(''x'', demo_batch)])" "corrupt res"
    using scan_segment_intact [of "[(''x'', demo_batch)]" demo_codec ?f "take 5 (record_bytes ''x'')"] n
    by (simp add: demo_payload_ok record_bytes_def be32_def)
  show ?thesis using scan_quarantine_prefix [OF s] s by auto
qed

text \<open>C25: delivery reads what recovery indexed. For any file, reading back the position, length and checksum
  of a scanned record returns the batch the scan decoded.\<close>

theorem scanned_records_read_back:
  assumes "r \<in> set (snd (scan_segment cd file))"
  shows "read_record_payload cd file (payload_off r) (payload_len r) (record_crc r) = Some (record_batch r)"
  using assms by (rule scan_read_back)

theorem scanned_records_read_back_witness:
  "read_record_payload demo_codec (segment_bytes [(''x'', demo_batch)]) 8 1 (crc32c ''x'') = Some demo_batch"
proof -
  let ?r = "\<lparr>payload_off = 8, payload_len = 1, record_crc = crc32c ''x'', record_batch = demo_batch\<rparr>"
  have "?r \<in> set (snd (scan_segment demo_codec (segment_bytes [(''x'', demo_batch)])))"
    using scan_segment_intact [of "[(''x'', demo_batch)]" demo_codec "segment_bytes [(''x'', demo_batch)]" "[]"]
    by (simp add: demo_payload_ok)
  from scanned_records_read_back [OF this] show ?thesis by simp
qed

end
