(* ===== verification/Go_Sha256.thy ===== *)
theory Go_Sha256
  imports Prelude
begin

text \<open>
  Go's \<open>crypto/sha256\<close> (FIPS 180-4), which the queue uses for event-identifier digests and for the
  checksums of repacking manifests, and \<open>encoding/hex\<close>.  Written out so that the functions that use
  a digest are executable; no property here relies on collision resistance.
\<close>

unbundle bit_operations_syntax

text \<open>
  The standard's constants are the leading 32 fractional bits of the cube roots of the first 64 primes and
  of the square roots of the first 8; they are computed here, bit by bit from the top.
\<close>

definition small_primes :: "nat list" where
  "small_primes = filter (\<lambda>n. list_all (\<lambda>d. n mod d \<noteq> 0) [2..<n]) [2..<312]"

fun root_bits :: "nat \<Rightarrow> nat \<Rightarrow> nat \<Rightarrow> nat \<Rightarrow> nat" where
  "root_bits e n 0 r = r"
| "root_bits e n (Suc b) r = root_bits e n b (if (r + 2 ^ b) ^ e \<le> n then r + 2 ^ b else r)"

text \<open>The integer \<open>e\<close>-th root of \<open>p\<close> scaled by \<open>2 ^ 32\<close>; its low 32 bits are the fraction.\<close>

definition scaled_root :: "nat \<Rightarrow> nat \<Rightarrow> nat" where
  "scaled_root e p = root_bits e (p * 2 ^ (32 * e)) 40 0"

definition sha_k :: "u32 list" where
  "sha_k = map (\<lambda>p. of_nat (scaled_root 3 p mod 2 ^ 32)) small_primes"

definition sha_init :: "u32 list" where
  "sha_init = map (\<lambda>p. of_nat (scaled_root 2 p mod 2 ^ 32)) (take 8 small_primes)"

definition rotr :: "nat \<Rightarrow> u32 \<Rightarrow> u32" where
  "rotr n w = drop_bit n w OR push_bit (32 - n) w"

definition be_bytes :: "nat \<Rightarrow> nat \<Rightarrow> bytes" where
  "be_bytes k n = map (\<lambda>i. char_of (n div 256 ^ (k - 1 - i) mod 256)) [0..<k]"

definition sha_pad :: "bytes \<Rightarrow> bytes" where
  "sha_pad m =
     (let r = (length m + 9) mod 64; z = (if r = 0 then 0 else 64 - r)
      in m @ [CHR 0x80] @ replicate z (CHR 0x00) @ be_bytes 8 (8 * length m mod 2 ^ 64))"

fun words_of :: "bytes \<Rightarrow> u32 list" where
  "words_of (a # b # c # d # r) =
     of_nat (((of_char a * 256 + of_char b) * 256 + of_char c) * 256 + of_char d) # words_of r"
| "words_of _ = []"

definition sha_next_word :: "u32 list \<Rightarrow> u32" where
  "sha_next_word w =
     (let n = length w; a = w ! (n - 15); b = w ! (n - 2);
          s0 = rotr 7 a XOR rotr 18 a XOR drop_bit 3 a;
          s1 = rotr 17 b XOR rotr 19 b XOR drop_bit 10 b
      in w ! (n - 16) + s0 + w ! (n - 7) + s1)"

fun sha_extend :: "nat \<Rightarrow> u32 list \<Rightarrow> u32 list" where
  "sha_extend 0 w = w"
| "sha_extend (Suc k) w = sha_extend k (w @ [sha_next_word w])"

fun sha_round :: "u32 list \<Rightarrow> u32 \<times> u32 \<Rightarrow> u32 list" where
  "sha_round [a, b, c, d, e, f, g, h] (k, w) =
     (let s1 = rotr 6 e XOR rotr 11 e XOR rotr 25 e;
          ch = (e AND f) XOR (NOT e AND g);
          t1 = h + s1 + ch + k + w;
          s0 = rotr 2 a XOR rotr 13 a XOR rotr 22 a;
          maj = (a AND b) XOR (a AND c) XOR (b AND c)
      in [t1 + s0 + maj, a, b, c, d + t1, e, f, g])"
| "sha_round st _ = st"

definition sha_block :: "u32 list \<Rightarrow> u32 list \<Rightarrow> u32 list" where
  "sha_block st block = map2 (+) st (foldl sha_round st (zip sha_k (sha_extend 48 block)))"

fun sha_blocks :: "nat \<Rightarrow> u32 list \<Rightarrow> u32 list \<Rightarrow> u32 list" where
  "sha_blocks 0 st ws = st"
| "sha_blocks (Suc k) st ws = sha_blocks k (sha_block st (take 16 ws)) (drop 16 ws)"

definition sha256 :: "bytes \<Rightarrow> bytes" where
  "sha256 m =
     (let ws = words_of (sha_pad m)
      in concat (map (\<lambda>w. be_bytes 4 (unat w)) (sha_blocks (length ws div 16) sha_init ws)))"

definition hex_digit :: "nat \<Rightarrow> char" where
  "hex_digit n = (if n < 10 then char_of (48 + n) else char_of (87 + n))"

definition hex_encode :: "bytes \<Rightarrow> string" where
  "hex_encode b = concat (map (\<lambda>c. [hex_digit (of_char c div 16), hex_digit (of_char c mod 16)]) b)"

end
