(* ===== verification/Wal_Marks.thy ===== *)
theory Wal_Marks
  imports Wal_Record Go_Sha256 "HOL-Library.List_Lexorder" "HOL-Library.Char_ord" "HOL-Library.Product_Lexorder"
begin

text \<open>
  \<open>internal/collector/wal\<close>: the source checkpoint marks a durable batch keeps
  (\<open>checkpointMarksForBatch\<close>, \<open>sourceMarkAggregator\<close> of \<open>queue.go\<close>, \<open>ComputeEventIDsDigest\<close> of
  \<open>wal.go\<close>).  A Go map keyed by source is an association list with distinct keys, updated in
  place: the code only looks keys up and then sorts the values, so its iteration order is not used.
\<close>

section \<open>Event digests and sizes\<close>

fun event_identifier :: "log_event option \<Rightarrow> string" where
  "event_identifier None = []"
| "event_identifier (Some e) = event_id e"

text \<open>\<open>ComputeEventIDsDigest\<close>: \<open>None\<close> is the nil digest of an identifier longer than 32 bits can count.\<close>

definition compute_event_ids_digest :: "log_event option list \<Rightarrow> bytes option" where
  "compute_event_ids_digest events =
     (if \<exists>e \<in> set events. length (event_identifier e) > 0xFFFFFFFF then None
      else Some (sha256 (concat (map (\<lambda>e. be32 (of_nat (length (event_identifier e))) @ event_identifier e) events))))"

text \<open>\<open>uncompressedEventBytes\<close>: a saturating sum of the encoded sizes.\<close>

fun uncompressed_sum :: "codec \<Rightarrow> u64 \<Rightarrow> log_event option list \<Rightarrow> u64" where
  "uncompressed_sum cd acc [] = acc"
| "uncompressed_sum cd acc (e # es) =
     (if event_size cd e < 0 then 0xFFFFFFFFFFFFFFFF
      else let sz = of_int (event_size cd e) in
        if 0xFFFFFFFFFFFFFFFF - acc < sz then 0xFFFFFFFFFFFFFFFF
        else uncompressed_sum cd (acc + sz) es)"

definition uncompressed_event_bytes :: "codec \<Rightarrow> log_event option list \<Rightarrow> u64" where
  "uncompressed_event_bytes cd events = uncompressed_sum cd 0 events"

section \<open>Marks\<close>

record source_mark =
  mark_input :: string
  mark_file :: string
  mark_path :: string
  mark_batch :: u64
  mark_end :: u64
  mark_line :: u64
  mark_next_line :: u64
  mark_event :: u32
  mark_fp_length :: u32
  mark_guard :: string
  mark_guard_length :: u32
  mark_has_path :: bool
  mark_has_end :: bool
  mark_has_next_line :: bool
  mark_has_fp_length :: bool
  mark_has_guard :: bool
  mark_has_guard_length :: bool
  mark_conflict :: bool

type_synonym mark_key = "string \<times> string"

definition mark_key :: "source_mark \<Rightarrow> mark_key" where
  "mark_key m = (mark_input m, mark_file m)"

definition source_line_cursors_conflict :: "source_mark \<Rightarrow> source_mark \<Rightarrow> bool" where
  "source_line_cursors_conflict l r =
     (if \<not> mark_has_next_line l \<or> \<not> mark_has_next_line r then False
      else if mark_end l = mark_end r then mark_next_line l \<noteq> mark_next_line r
      else if mark_end l < mark_end r then mark_next_line l \<ge> mark_next_line r
      else mark_next_line l \<le> mark_next_line r)"

definition source_guards_conflict :: "source_mark \<Rightarrow> source_mark \<Rightarrow> bool" where
  "source_guards_conflict l r =
     (if mark_has_guard l \<noteq> mark_has_guard_length l \<or> mark_has_guard r \<noteq> mark_has_guard_length r then True
      else if mark_end l \<noteq> mark_end r \<or> \<not> mark_has_guard l \<or> \<not> mark_has_guard r then False
      else mark_guard l \<noteq> mark_guard r \<or> mark_guard_length l \<noteq> mark_guard_length r)"

definition fingerprints_conflict :: "source_mark \<Rightarrow> source_mark \<Rightarrow> bool" where
  "fingerprints_conflict current m \<longleftrightarrow>
     mark_has_fp_length current \<and> mark_has_fp_length m \<and> mark_fp_length current \<noteq> mark_fp_length m"

fun first_difference :: "(bool \<times> bool) list \<Rightarrow> bool option" where
  "first_difference [] = None"
| "first_difference ((a, b) # xs) = (if a \<noteq> b then Some a else first_difference xs)"

definition source_mark_should_replace :: "source_mark \<Rightarrow> source_mark \<Rightarrow> bool" where
  "source_mark_should_replace current candidate =
     (if mark_end candidate \<noteq> mark_end current then mark_end candidate > mark_end current
      else case first_difference
          [(mark_has_next_line candidate, mark_has_next_line current),
           (mark_has_guard candidate, mark_has_guard current),
           (mark_has_fp_length candidate, mark_has_fp_length current),
           (mark_has_path candidate, mark_has_path current)] of
        Some b \<Rightarrow> b
      | None \<Rightarrow>
          (if mark_batch candidate \<noteq> mark_batch current then mark_batch candidate > mark_batch current
           else mark_event candidate \<ge> mark_event current))"

definition source_mark_less :: "source_mark \<Rightarrow> source_mark \<Rightarrow> bool" where
  "source_mark_less l r =
     (if mark_input l \<noteq> mark_input r then mark_input l < mark_input r
      else if mark_file l \<noteq> mark_file r then mark_file l < mark_file r
      else mark_event l < mark_event r)"

text \<open>\<open>sort.Slice\<close> with \<open>sourceCheckpointMarkLess\<close>; equal marks keep their order here.\<close>

fun insert_mark :: "source_mark \<Rightarrow> source_mark list \<Rightarrow> source_mark list" where
  "insert_mark m [] = [m]"
| "insert_mark m (x # xs) = (if source_mark_less x m then x # insert_mark m xs else m # x # xs)"

definition sort_marks :: "source_mark list \<Rightarrow> source_mark list" where
  "sort_marks ms = foldr insert_mark ms []"

fun update_source :: "mark_key \<Rightarrow> source_mark \<Rightarrow> (mark_key \<times> source_mark) list \<Rightarrow> (mark_key \<times> source_mark) list" where
  "update_source k m [] = [(k, m)]"
| "update_source k m ((k', m') # xs) = (if k' = k then (k, m) # xs else (k', m') # update_source k m xs)"

section \<open>The aggregator\<close>

record aggregator =
  by_source :: "(mark_key \<times> source_mark) list"
  failure :: "source_mark option"

definition new_aggregator :: aggregator where
  "new_aggregator = \<lparr>by_source = [], failure = None\<rparr>"

definition malformed_mark :: "source_mark \<Rightarrow> bool" where
  "malformed_mark m \<longleftrightarrow> mark_input m = [] \<or> mark_file m = [] \<or> \<not> mark_has_end m \<or> mark_conflict m
     \<or> mark_has_guard m \<noteq> mark_has_guard_length m"

definition conflicts_with :: "source_mark \<Rightarrow> source_mark \<Rightarrow> bool" where
  "conflicts_with current m \<longleftrightarrow> fingerprints_conflict current m
     \<or> source_line_cursors_conflict current m \<or> source_guards_conflict current m"

definition aggregator_add :: "aggregator \<Rightarrow> source_mark \<Rightarrow> aggregator \<times> bool" where
  "aggregator_add a m =
     (if malformed_mark m then (a\<lparr>failure := Some m\<rparr>, False)
      else case map_of (by_source a) (mark_key m) of
          None \<Rightarrow> (a\<lparr>by_source := update_source (mark_key m) m (by_source a)\<rparr>, True)
        | Some current \<Rightarrow>
            (if conflicts_with current m then (a\<lparr>failure := Some (m\<lparr>mark_conflict := True\<rparr>)\<rparr>, False)
             else if source_mark_should_replace current m
               then (a\<lparr>by_source := update_source (mark_key m) m (by_source a)\<rparr>, True)
             else (a, True)))"

definition aggregator_marks :: "aggregator \<Rightarrow> source_mark list" where
  "aggregator_marks a =
     (case failure a of Some m \<Rightarrow> [m] | None \<Rightarrow> sort_marks (map snd (by_source a)))"

text \<open>The loop of \<open>aggregateAckPlan\<close> and of \<open>PendingSourceMarks\<close>: it stops at the first failure.\<close>

fun aggregate_list :: "aggregator \<Rightarrow> source_mark list \<Rightarrow> aggregator" where
  "aggregate_list a [] = a"
| "aggregate_list a (m # ms) = (let (a', ok) = aggregator_add a m in if ok then aggregate_list a' ms else a')"

definition aggregate_marks :: "source_mark list \<Rightarrow> source_mark list" where
  "aggregate_marks ms = aggregator_marks (aggregate_list new_aggregator ms)"

section \<open>The marks of one batch\<close>

definition mark_of_origin :: "u64 \<Rightarrow> nat \<Rightarrow> event_origin \<Rightarrow> source_mark" where
  "mark_of_origin sequence i og =
     \<lparr>mark_input = origin_input_id og,
      mark_file = case_option [] id (origin_file_identity og),
      mark_path = case_option [] id (origin_source_path og),
      mark_batch = sequence,
      mark_end = case_option 0 id (origin_end_offset og),
      mark_line = case_option 0 id (origin_line_number og),
      mark_next_line = case_option 0 id (origin_next_line_number og),
      mark_event = of_nat i,
      mark_fp_length = case_option 0 id (origin_fingerprint_length og),
      mark_guard = case_option [] id (origin_guard_fingerprint og),
      mark_guard_length = case_option 0 id (origin_guard_length og),
      mark_has_path = (origin_source_path og \<noteq> None),
      mark_has_end = (origin_end_offset og \<noteq> None),
      mark_has_next_line = (origin_next_line_number og \<noteq> None),
      mark_has_fp_length = (origin_fingerprint_length og \<noteq> None),
      mark_has_guard = (origin_guard_fingerprint og \<noteq> None),
      mark_has_guard_length = (origin_guard_length og \<noteq> None),
      mark_conflict = False\<rparr>"

definition add_batch_mark ::
  "source_mark \<Rightarrow> (mark_key \<times> source_mark) list \<times> source_mark option
     \<Rightarrow> (mark_key \<times> source_mark) list \<times> source_mark option" where
  "add_batch_mark m st =
     (let (src, invalid) = st; k = mark_key m in
      if mark_input m = [] \<or> mark_file m = [] \<or> \<not> mark_has_end m \<or> mark_has_guard m \<noteq> mark_has_guard_length m
      then (src, if invalid = None
                 then Some (m\<lparr>mark_conflict := (mark_has_guard m \<noteq> mark_has_guard_length m)\<rparr>) else invalid)
      else (case map_of src k of
          None \<Rightarrow> (update_source k m src, invalid)
        | Some current \<Rightarrow>
            (if mark_conflict current then (src, invalid)
             else if conflicts_with current m then (update_source k (m\<lparr>mark_conflict := True\<rparr>) src, invalid)
             else if source_mark_should_replace current m then (update_source k m src, invalid)
             else (src, invalid))))"

fun batch_marks_from ::
  "u64 \<Rightarrow> nat \<Rightarrow> log_event option list \<Rightarrow> (mark_key \<times> source_mark) list \<times> source_mark option
     \<Rightarrow> (mark_key \<times> source_mark) list \<times> source_mark option" where
  "batch_marks_from sequence i [] st = st"
| "batch_marks_from sequence i (e # es) st =
     batch_marks_from sequence (i + 1) es
       (case e of None \<Rightarrow> st
        | Some ev \<Rightarrow> (case event_origin_of ev of None \<Rightarrow> st
            | Some og \<Rightarrow> add_batch_mark (mark_of_origin sequence i og) st))"

definition checkpoint_marks_for_batch :: "u64 \<Rightarrow> log_event option list \<Rightarrow> source_mark list" where
  "checkpoint_marks_for_batch sequence events =
     (let (src, invalid) = batch_marks_from sequence 0 events ([], None)
      in sort_marks ((case invalid of None \<Rightarrow> [] | Some m \<Rightarrow> [m]) @ map snd src))"

section \<open>The furthest mark per source\<close>

text \<open>The order in which marks of one source replace each other.\<close>

definition mark_rank :: "source_mark \<Rightarrow> u64 \<times> bool \<times> bool \<times> bool \<times> bool \<times> u64 \<times> u32" where
  "mark_rank m = (mark_end m, mark_has_next_line m, mark_has_guard m, mark_has_fp_length m, mark_has_path m,
     mark_batch m, mark_event m)"

lemma should_replace_rank: "source_mark_should_replace current candidate \<longleftrightarrow> mark_rank current \<le> mark_rank candidate"
  by (auto simp: source_mark_should_replace_def mark_rank_def less_eq_prod_def)

lemma map_of_update_source: "map_of (update_source k m xs) = (map_of xs)(k \<mapsto> m)"
  by (induction k m xs rule: update_source.induct) auto

lemma keys_update_source:
  "fst ` set (update_source k m xs) = insert k (fst ` set xs)"
  by (induction k m xs rule: update_source.induct) auto

lemma distinct_update_source: "distinct (map fst xs) \<Longrightarrow> distinct (map fst (update_source k m xs))"
proof (induction k m xs rule: update_source.induct)
  case (2 k m k' m' xs)
  then show ?case using keys_update_source [of k m xs] by (auto simp del: split_paired_All)
qed simp

text \<open>\<open>src\<close> holds, for every source among \<open>ms\<close>, the mark of the highest rank.\<close>

definition furthest :: "(mark_key \<times> source_mark) list \<Rightarrow> source_mark list \<Rightarrow> bool" where
  "furthest src ms \<longleftrightarrow> distinct (map fst src) \<and>
     (\<forall>k m. map_of src k = Some m \<longrightarrow> m \<in> set ms \<and> mark_key m = k
        \<and> (\<forall>m' \<in> set ms. mark_key m' = k \<longrightarrow> mark_rank m' \<le> mark_rank m)) \<and>
     (\<forall>m \<in> set ms. map_of src (mark_key m) \<noteq> None)"

lemma furthest_Nil [simp]: "furthest [] []"
  by (simp add: furthest_def)

lemma furthestD:
  assumes "furthest src ms"
  shows "distinct (map fst src)"
    and "map_of src k = Some m \<Longrightarrow> m \<in> set ms \<and> mark_key m = k"
    and "map_of src k = Some m \<Longrightarrow> m' \<in> set ms \<Longrightarrow> mark_key m' = k \<Longrightarrow> mark_rank m' \<le> mark_rank m"
    and "m \<in> set ms \<Longrightarrow> map_of src (mark_key m) \<noteq> None"
  using assms unfolding furthest_def by blast+

lemma furthest_step:
  assumes "furthest src ms" "\<And>m'. m' \<in> set ms \<Longrightarrow> mark_key m' = mark_key m \<Longrightarrow> mark_rank m' \<le> mark_rank m"
  shows "furthest (update_source (mark_key m) m src) (ms @ [m])"
  unfolding furthest_def
proof (intro conjI allI ballI impI)
  show "distinct (map fst (update_source (mark_key m) m src))"
    by (rule distinct_update_source [OF furthestD(1) [OF assms(1)]])
  fix k x assume "map_of (update_source (mark_key m) m src) k = Some x"
  then have c: "k = mark_key m \<and> x = m \<or> k \<noteq> mark_key m \<and> map_of src k = Some x"
    by (auto simp: map_of_update_source split: if_splits)
  then show "x \<in> set (ms @ [m])" "mark_key x = k" using furthestD(2) [OF assms(1), of k x] by auto
  show "mark_rank m' \<le> mark_rank x" if "m' \<in> set (ms @ [m])" "mark_key m' = k" for m'
    using c that assms(2) furthestD(3) [OF assms(1), of k x m'] by auto
next
  fix x assume "x \<in> set (ms @ [m])"
  then show "map_of (update_source (mark_key m) m src) (mark_key x) \<noteq> None"
    using furthestD(4) [OF assms(1), of x] by (auto simp: map_of_update_source)
qed

lemma furthest_new:
  assumes "furthest src ms" "map_of src (mark_key m) = None"
  shows "furthest (update_source (mark_key m) m src) (ms @ [m])"
proof (rule furthest_step [OF assms(1)])
  fix m' assume "m' \<in> set ms" "mark_key m' = mark_key m"
  then show "mark_rank m' \<le> mark_rank m" using furthestD(4) [OF assms(1), of m'] assms(2) by simp
qed

lemma furthest_replace:
  assumes "furthest src ms" "map_of src (mark_key m) = Some c" "mark_rank c \<le> mark_rank m"
  shows "furthest (update_source (mark_key m) m src) (ms @ [m])"
  using furthestD(3) [OF assms(1,2)] assms(3) by (intro furthest_step [OF assms(1)]) (blast intro: order_trans)

lemma furthest_keep:
  assumes "furthest src ms" "map_of src (mark_key m) = Some c" "\<not> mark_rank c \<le> mark_rank m"
  shows "furthest src (ms @ [m])"
  unfolding furthest_def
proof (intro conjI allI ballI impI)
  show "distinct (map fst src)" by (rule furthestD(1) [OF assms(1)])
  fix k x assume x: "map_of src k = Some x"
  then show "x \<in> set (ms @ [m])" "mark_key x = k" using furthestD(2) [OF assms(1) x] by auto
  show "mark_rank m' \<le> mark_rank x" if "m' \<in> set (ms @ [m])" "mark_key m' = k" for m'
    using x that assms(2,3) furthestD(3) [OF assms(1) x, of m'] by auto
next
  fix x assume "x \<in> set (ms @ [m])"
  then show "map_of src (mark_key x) \<noteq> None" using furthestD(4) [OF assms(1), of x] assms(2) by auto
qed

lemma furthest_mem:
  assumes "furthest src ms" "m \<in> snd ` set src"
  shows "m \<in> set ms" and "map_of src (mark_key m) = Some m"
    and "m' \<in> set ms \<Longrightarrow> mark_key m' = mark_key m \<Longrightarrow> mark_rank m' \<le> mark_rank m"
proof -
  obtain k where "(k, m) \<in> set src" using assms(2) by auto
  then have k: "map_of src k = Some m" using furthestD(1) [OF assms(1)] by simp
  then show "m \<in> set ms" "map_of src (mark_key m) = Some m" using furthestD(2) [OF assms(1) k] by simp_all
  then show "m' \<in> set ms \<Longrightarrow> mark_key m' = mark_key m \<Longrightarrow> mark_rank m' \<le> mark_rank m"
    using furthestD(3) [OF assms(1)] by blast
qed

lemma furthest_covers:
  assumes "furthest src ms" "m \<in> set ms"
  shows "\<exists>m' \<in> snd ` set src. mark_key m' = mark_key m \<and> mark_rank m \<le> mark_rank m'"
proof -
  obtain m' where m': "map_of src (mark_key m) = Some m'" using furthestD(4) [OF assms] by blast
  then have "(mark_key m, m') \<in> set src" by (rule map_of_SomeD)
  then show ?thesis using furthestD(2,3) [OF assms(1) m'] assms(2) by (intro bexI [of _ m']) (auto intro: rev_image_eqI)
qed

text \<open>Sorting.\<close>

lemma set_insert_mark [simp]: "set (insert_mark m xs) = insert m (set xs)"
  by (induction m xs rule: insert_mark.induct) auto

lemma set_sort_marks [simp]: "set (sort_marks ms) = set ms"
  unfolding sort_marks_def by (induction ms) simp_all

lemma source_mark_less_iff:
  "source_mark_less l r \<longleftrightarrow> mark_key l < mark_key r \<or> mark_key l = mark_key r \<and> mark_event l < mark_event r"
  by (auto simp: source_mark_less_def mark_key_def less_prod_def)

lemma sorted_insert_mark:
  "sorted_wrt (\<lambda>l r. mark_key l < mark_key r) xs \<Longrightarrow> \<forall>x \<in> set xs. mark_key x \<noteq> mark_key m
    \<Longrightarrow> sorted_wrt (\<lambda>l r. mark_key l < mark_key r) (insert_mark m xs)"
  by (induction m xs rule: insert_mark.induct) (auto simp: source_mark_less_iff)

lemma sorted_sort_marks:
  assumes "distinct (map mark_key ms)"
  shows "sorted_wrt (\<lambda>l r. mark_key l < mark_key r) (sort_marks ms)"
  using assms
proof (induction ms)
  case (Cons m ms)
  then have "\<forall>x \<in> set (sort_marks ms). mark_key x \<noteq> mark_key m" by (metis distinct.simps(2) image_eqI list.set_map list.simps(9) set_sort_marks)
  then show ?case using Cons sorted_insert_mark by (simp add: sort_marks_def)
qed (simp add: sort_marks_def)

lemma furthest_distinct:
  assumes "furthest src ms"
  shows "distinct (map mark_key (map snd src))"
proof -
  have "mark_key (snd x) = fst x" if "x \<in> set src" for x
    using furthestD(1,2) [OF assms] that by (metis map_of_is_SomeI prod.collapse)
  then have "map mark_key (map snd src) = map fst src" by simp
  then show ?thesis using furthestD(1) [OF assms] by (simp only:)
qed

section \<open>The aggregator keeps the furthest marks or fails\<close>

lemma aggregate_list_failure:
  assumes "failure a = None"
  shows "failure (aggregate_list a ms) = Some f \<Longrightarrow> malformed_mark f"
    and "m \<in> set ms \<Longrightarrow> malformed_mark m \<Longrightarrow> failure (aggregate_list a ms) \<noteq> None"
  using assms
  by (induction ms arbitrary: a)
    (auto simp: aggregator_add_def malformed_mark_def split: if_splits option.splits)

lemma aggregate_list_furthest:
  assumes "furthest (by_source a) done" "failure a = None" "failure (aggregate_list a ms) = None"
  shows "furthest (by_source (aggregate_list a ms)) (done @ ms)"
  using assms
proof (induction ms arbitrary: a "done")
  case (Cons m ms)
  have "failure (fst (aggregator_add a m)) = None" "snd (aggregator_add a m)"
    and "furthest (by_source (fst (aggregator_add a m))) (done @ [m])"
    using Cons.prems
    by (auto simp: aggregator_add_def should_replace_rank furthest_new furthest_replace furthest_keep
        split: if_splits option.splits)
  then show ?case using Cons.IH [of "fst (aggregator_add a m)" "done @ [m]"] Cons.prems(3)
    by (auto simp: split_beta)
qed simp

section \<open>The marks of a batch\<close>

text \<open>The marks of the events that have an origin, in event order.\<close>

fun origin_marks :: "u64 \<Rightarrow> nat \<Rightarrow> log_event option list \<Rightarrow> source_mark list" where
  "origin_marks sequence i [] = []"
| "origin_marks sequence i (e # es) =
     (case e of None \<Rightarrow> [] | Some ev \<Rightarrow>
        (case event_origin_of ev of None \<Rightarrow> [] | Some og \<Rightarrow> [mark_of_origin sequence i og]))
     @ origin_marks sequence (i + 1) es"

definition clean_marks :: "(mark_key \<times> source_mark) list \<times> source_mark option \<Rightarrow> bool" where
  "clean_marks st \<longleftrightarrow> snd st = None \<and> (\<forall>m \<in> snd ` set (fst st). \<not> malformed_mark m)"

lemma mark_of_origin_no_conflict [simp]: "\<not> mark_conflict (mark_of_origin sequence i og)"
  by (simp add: mark_of_origin_def)

lemma batch_marks_origin:
  "batch_marks_from sequence i es st = foldl (\<lambda>st m. add_batch_mark m st) st (origin_marks sequence i es)"
proof (induction es arbitrary: i st)
  case (Cons e es)
  then show ?case by (cases e) (auto split: option.splits)
qed simp

lemma origin_marks_no_conflict: "m \<in> set (origin_marks sequence i es) \<Longrightarrow> \<not> mark_conflict m"
proof (induction es arbitrary: i)
  case (Cons e es)
  then show ?case by (auto split: option.splits)
qed simp

lemma update_source_values:
  "distinct (map fst src) \<Longrightarrow> snd ` set (update_source k m src) = insert m (snd ` {p \<in> set src. fst p \<noteq> k})"
  by (induction k m src rule: update_source.induct) (auto simp: image_iff, force+)

lemma add_batch_mark_clean:
  assumes "furthest src done" "\<not> mark_conflict m" "clean_marks (src, None)"
    and "clean_marks (add_batch_mark m (src, None))"
  shows "furthest (fst (add_batch_mark m (src, None))) (done @ [m]) \<and> \<not> malformed_mark m"
proof -
  have nm: "\<not> malformed_mark m"
    using assms(2,4) by (auto simp: add_batch_mark_def clean_marks_def malformed_mark_def Let_def split: if_splits)
  show ?thesis
  proof (cases "map_of src (mark_key m)")
    case None
    then show ?thesis using nm furthest_new [OF assms(1) None]
      by (auto simp: add_batch_mark_def Let_def malformed_mark_def)
  next
    case (Some c)
    have "c \<in> snd ` set src" using map_of_SomeD [OF Some] by force
    then have "\<not> mark_conflict c" using assms(3) by (auto simp: clean_marks_def malformed_mark_def)
    moreover have "\<not> conflicts_with c m"
    proof
      assume cf: "conflicts_with c m"
      have "m\<lparr>mark_conflict := True\<rparr> \<in> snd ` set (update_source (mark_key m) (m\<lparr>mark_conflict := True\<rparr>) src)"
        by (simp add: update_source_values [OF furthestD(1) [OF assms(1)]])
      moreover have "add_batch_mark m (src, None) = (update_source (mark_key m) (m\<lparr>mark_conflict := True\<rparr>) src, None)"
        using cf nm Some \<open>\<not> mark_conflict c\<close> by (auto simp: add_batch_mark_def Let_def malformed_mark_def)
      moreover have "malformed_mark (m\<lparr>mark_conflict := True\<rparr>)" by (simp add: malformed_mark_def)
      ultimately show False using assms(4) by (metis clean_marks_def fst_conv)
    qed
    ultimately show ?thesis
      using nm Some furthest_replace [OF assms(1) Some] furthest_keep [OF assms(1) Some]
      by (auto simp: add_batch_mark_def Let_def malformed_mark_def should_replace_rank)
  qed
qed

text \<open>Once a batch has a malformed or conflicting mark it keeps one.\<close>

lemma add_batch_mark_stays_dirty:
  assumes "\<not> clean_marks st" "distinct (map fst (fst st))" "\<forall>(k, m) \<in> set (fst st). mark_key m = k"
    and "\<forall>m \<in> snd ` set (fst st). malformed_mark m \<longrightarrow> mark_conflict m"
  shows "\<not> clean_marks (add_batch_mark m st)"
proof -
  obtain src bad where st: "st = (src, bad)" by fastforce
  show ?thesis
  proof (cases bad)
    case (Some f)
    then show ?thesis by (auto simp: st add_batch_mark_def clean_marks_def Let_def split: option.splits)
  next
    case None
    then obtain k c where c: "(k, c) \<in> set src" "malformed_mark c"
      using assms(1) by (auto simp: clean_marks_def st)
    then have cf: "mark_conflict c" and kc: "mark_key c = k" using assms(3,4) by (auto simp: st)
    have mo: "map_of src k = Some c" using c assms(2) by (simp add: st)
    show ?thesis
    proof (cases "k = mark_key m")
      case True
      then have "fst (add_batch_mark m st) = src" using mo cf by (auto simp: st add_batch_mark_def Let_def)
      then show ?thesis using c by (force simp: clean_marks_def)
    next
      case False
      have "c \<in> snd ` set (update_source (mark_key m) x src)" for x
        using c False assms(2) by (force simp: update_source_values st)
      moreover have "c \<in> snd ` set src" using c(1) by force
      ultimately have "c \<in> snd ` set (fst (add_batch_mark m st))"
        by (auto simp: st add_batch_mark_def Let_def split: option.split)
      then show ?thesis using c(2) by (auto simp: clean_marks_def)
    qed
  qed
qed

definition batch_wf :: "(mark_key \<times> source_mark) list \<times> source_mark option \<Rightarrow> bool" where
  "batch_wf st \<longleftrightarrow> distinct (map fst (fst st)) \<and> (\<forall>(k, m) \<in> set (fst st). mark_key m = k)
     \<and> (\<forall>m \<in> snd ` set (fst st). malformed_mark m \<longrightarrow> mark_conflict m)
     \<and> (\<forall>f. snd st = Some f \<longrightarrow> malformed_mark f)"

lemma update_source_mem: "(k', m') \<in> set (update_source k m src) \<Longrightarrow> (k' = k \<and> m' = m) \<or> (k', m') \<in> set src"
  by (induction k m src rule: update_source.induct) (auto split: if_splits)

lemma batch_wf_update:
  assumes "batch_wf (src, bad)" "malformed_mark m \<longrightarrow> mark_conflict m"
  shows "batch_wf (update_source (mark_key m) m src, bad)"
  using assms unfolding batch_wf_def
  by (auto simp: distinct_update_source dest!: update_source_mem)

lemma batch_wf_add:
  assumes "batch_wf st" "\<not> mark_conflict m"
  shows "batch_wf (add_batch_mark m st)"
proof -
  obtain src bad where st: "st = (src, bad)" by fastforce
  have k: "mark_key (m\<lparr>mark_conflict := True\<rparr>) = mark_key m" by (simp add: mark_key_def)
  have c: "batch_wf (update_source (mark_key m) (m\<lparr>mark_conflict := True\<rparr>) src, bad)"
    using batch_wf_update [of src bad "m\<lparr>mark_conflict := True\<rparr>"] assms(1) by (simp add: st k)
  show ?thesis
  proof (cases "mark_input m = [] \<or> mark_file m = [] \<or> \<not> mark_has_end m \<or> mark_has_guard m \<noteq> mark_has_guard_length m")
    case True
    then show ?thesis using assms(1) by (auto simp: st add_batch_mark_def batch_wf_def malformed_mark_def Let_def)
  next
    case False
    then have "batch_wf (update_source (mark_key m) m src, bad)"
      using batch_wf_update [of src bad m] assms by (auto simp: st malformed_mark_def)
    then show ?thesis using False c assms(1)
      by (auto simp: st add_batch_mark_def Let_def split: option.split)
  qed
qed

lemma fold_batch_marks:
  assumes "\<forall>m \<in> set ms. \<not> mark_conflict m" "batch_wf st" "clean_marks st \<longrightarrow> furthest (fst st) done"
  shows "batch_wf (foldl (\<lambda>st m. add_batch_mark m st) st ms) \<and>
    (clean_marks (foldl (\<lambda>st m. add_batch_mark m st) st ms) \<longrightarrow>
       furthest (fst (foldl (\<lambda>st m. add_batch_mark m st) st ms)) (done @ ms)
       \<and> (\<forall>m \<in> set ms. \<not> malformed_mark m))"
  using assms
proof (induction ms arbitrary: st "done")
  case (Cons m ms)
  have wf: "batch_wf (add_batch_mark m st)" using batch_wf_add Cons.prems(1,2) by simp
  have bad: "clean_marks st \<and> furthest (fst (add_batch_mark m st)) (done @ [m]) \<and> \<not> malformed_mark m"
    if "clean_marks (add_batch_mark m st)"
  proof -
    have cl: "clean_marks st"
      using add_batch_mark_stays_dirty [of st m] Cons.prems(2) that unfolding batch_wf_def by blast
    then have "st = (fst st, None)" by (cases st) (simp add: clean_marks_def)
    then show ?thesis using add_batch_mark_clean [of "fst st" "done" m] cl that Cons.prems(1,3) by simp
  qed
  let ?e = "foldl (\<lambda>st m. add_batch_mark m st) (add_batch_mark m st) ms"
  have IH: "batch_wf ?e \<and> (clean_marks ?e \<longrightarrow> furthest (fst ?e) ((done @ [m]) @ ms) \<and> (\<forall>m \<in> set ms. \<not> malformed_mark m))"
    using Cons.IH [OF _ wf, of "done @ [m]"] Cons.prems(1) bad by simp
  have "\<not> malformed_mark m" if "clean_marks ?e"
  proof -
    have stays: "batch_wf s \<Longrightarrow> \<not> clean_marks s \<Longrightarrow> \<forall>x \<in> set xs. \<not> mark_conflict x
        \<Longrightarrow> \<not> clean_marks (foldl (\<lambda>st m. add_batch_mark m st) s xs)" for s xs
    proof (induction xs arbitrary: s)
      case (Cons x xs)
      then show ?case using add_batch_mark_stays_dirty [of s x] batch_wf_add [of s x]
        by (simp add: batch_wf_def)
    qed simp
    show ?thesis using stays [OF wf, of ms] that bad Cons.prems(1) by auto
  qed
  then show ?case using IH by simp
qed simp

lemma aggregate_marks_mem:
  assumes "failure (aggregate_list new_aggregator ms) = None"
  shows "set (aggregate_marks ms) = snd ` set (by_source (aggregate_list new_aggregator ms))"
    and "furthest (by_source (aggregate_list new_aggregator ms)) ms"
    and "sorted_wrt (\<lambda>l r. mark_key l < mark_key r) (aggregate_marks ms)"
proof -
  show f: "furthest (by_source (aggregate_list new_aggregator ms)) ms"
    using aggregate_list_furthest [of new_aggregator "[]" ms] assms by (simp add: new_aggregator_def)
  show "set (aggregate_marks ms) = snd ` set (by_source (aggregate_list new_aggregator ms))"
    using assms by (simp add: aggregate_marks_def aggregator_marks_def)
  show "sorted_wrt (\<lambda>l r. mark_key l < mark_key r) (aggregate_marks ms)"
    using assms sorted_sort_marks [OF furthest_distinct [OF f]] by (simp add: aggregate_marks_def aggregator_marks_def)
qed

lemma mark_rank_end: "mark_rank m \<le> mark_rank m' \<Longrightarrow> mark_end m \<le> mark_end m'"
  by (auto simp: mark_rank_def less_eq_prod_def)

lemma aggregate_fails_on_malformed:
  assumes "m \<in> set ms" "malformed_mark m"
  shows "\<exists>f. aggregate_marks ms = [f] \<and> malformed_mark f"
proof -
  obtain f where f: "failure (aggregate_list new_aggregator ms) = Some f"
    using aggregate_list_failure(2) [of new_aggregator m ms] assms by (auto simp: new_aggregator_def)
  then have "malformed_mark f"
    using aggregate_list_failure(1) [of new_aggregator ms f] by (simp add: new_aggregator_def)
  then show ?thesis using f by (simp add: aggregate_marks_def aggregator_marks_def)
qed

lemma batch_marks_summary:
  obtains st where "checkpoint_marks_for_batch s es = sort_marks ((case snd st of None \<Rightarrow> [] | Some m \<Rightarrow> [m]) @ map snd (fst st))"
    "batch_wf st" "clean_marks st \<Longrightarrow> furthest (fst st) (origin_marks s 0 es)"
    "clean_marks st \<Longrightarrow> \<forall>m \<in> set (origin_marks s 0 es). \<not> malformed_mark m"
proof -
  let ?st = "batch_marks_from s 0 es ([], None)"
  have "\<forall>m \<in> set (origin_marks s 0 es). \<not> mark_conflict m" using origin_marks_no_conflict by blast
  from fold_batch_marks [OF this, of "([], None)" "[]"]
  have "batch_wf ?st \<and> (clean_marks ?st \<longrightarrow> furthest (fst ?st) (origin_marks s 0 es)
      \<and> (\<forall>m \<in> set (origin_marks s 0 es). \<not> malformed_mark m))"
    by (simp add: batch_marks_origin batch_wf_def clean_marks_def)
  then show thesis by (intro that [of ?st]) (simp_all add: checkpoint_marks_for_batch_def split_beta)
qed

lemma batch_marks_clean:
  assumes "\<forall>m \<in> set (checkpoint_marks_for_batch s es). \<not> malformed_mark m"
  shows "\<exists>src. furthest src (origin_marks s 0 es) \<and> set (checkpoint_marks_for_batch s es) = snd ` set src
     \<and> (\<forall>m \<in> set (origin_marks s 0 es). \<not> malformed_mark m)"
proof -
  obtain st where st: "checkpoint_marks_for_batch s es = sort_marks ((case snd st of None \<Rightarrow> [] | Some m \<Rightarrow> [m]) @ map snd (fst st))"
    "batch_wf st" "clean_marks st \<Longrightarrow> furthest (fst st) (origin_marks s 0 es)"
    "clean_marks st \<Longrightarrow> \<forall>m \<in> set (origin_marks s 0 es). \<not> malformed_mark m"
    using batch_marks_summary [of s es] by blast
  have none: "snd st = None"
  proof (rule ccontr)
    assume "snd st \<noteq> None"
    then obtain f where "snd st = Some f" by blast
    then show False using assms st(1,2) by (auto simp: batch_wf_def)
  qed
  then have "clean_marks st" using assms st(1) by (auto simp: clean_marks_def)
  then show ?thesis using st none by (intro exI [of _ "fst st"]) simp
qed

section \<open>Properties\<close>

text \<open>C29: the marks of an acknowledgment are the furthest per source. When the aggregation of a list of marks
  does not fail, its result is strictly sorted by input and file identity, every mark in it is one of
  the list and lies at the highest end offset of its source, and every source of the list is present.\<close>

theorem aggregate_marks_furthest:
  assumes "failure (aggregate_list new_aggregator ms) = None"
  shows "sorted_wrt (\<lambda>l r. mark_key l < mark_key r) (aggregate_marks ms)
    \<and> (\<forall>m \<in> set (aggregate_marks ms). m \<in> set ms \<and> (\<forall>m' \<in> set ms. mark_key m' = mark_key m \<longrightarrow> mark_end m' \<le> mark_end m))
    \<and> (\<forall>m \<in> set ms. \<exists>m' \<in> set (aggregate_marks ms). mark_key m' = mark_key m)"
proof (intro conjI ballI impI)
  note mem = aggregate_marks_mem [OF assms]
  show "sorted_wrt (\<lambda>l r. mark_key l < mark_key r) (aggregate_marks ms)" by (rule mem(3))
  fix m assume "m \<in> set (aggregate_marks ms)"
  then have m: "m \<in> snd ` set (by_source (aggregate_list new_aggregator ms))" by (simp only: mem(1))
  show "m \<in> set ms" by (rule furthest_mem(1) [OF mem(2) m])
  show "mark_end m' \<le> mark_end m" if "m' \<in> set ms" "mark_key m' = mark_key m" for m'
    by (rule mark_rank_end [OF furthest_mem(3) [OF mem(2) m that]])
next
  note mem = aggregate_marks_mem [OF assms]
  fix m assume "m \<in> set ms"
  from furthest_covers [OF mem(2) this] show "\<exists>m' \<in> set (aggregate_marks ms). mark_key m' = mark_key m"
    unfolding mem(1) by blast
qed

abbreviation demo_origin :: "u64 \<Rightarrow> event_origin" where
  "demo_origin off \<equiv> \<lparr>origin_input_id = ''i'', origin_file_identity = Some ''f'', origin_source_path = None,
     origin_end_offset = Some off, origin_line_number = Some 1, origin_next_line_number = Some off,
     origin_fingerprint_length = None, origin_guard_fingerprint = None, origin_guard_length = None\<rparr>"

abbreviation demo_event :: "u64 \<Rightarrow> log_event option" where
  "demo_event off \<equiv> Some \<lparr>event_id = ''e'', event_origin_of = Some (demo_origin off), event_body = []\<rparr>"

theorem aggregate_marks_furthest_witness:
  "\<exists>m \<in> set (aggregate_marks [mark_of_origin 1 0 (demo_origin 10), mark_of_origin 2 0 (demo_origin 20)]).
     mark_end m = 20"
proof -
  let ?ms = "[mark_of_origin 1 0 (demo_origin 10), mark_of_origin 2 0 (demo_origin 20)]"
  have f: "failure (aggregate_list new_aggregator ?ms) = None"
    by (simp add: aggregator_add_def new_aggregator_def mark_of_origin_def malformed_mark_def mark_key_def
        conflicts_with_def fingerprints_conflict_def source_line_cursors_conflict_def source_guards_conflict_def)
  have "mark_key (mark_of_origin 1 0 (demo_origin 10)) = mark_key (mark_of_origin 2 0 (demo_origin 20))"
    "mark_end (mark_of_origin 1 0 (demo_origin 10)) = 10" "mark_end (mark_of_origin 2 0 (demo_origin 20)) = 20"
    by (simp_all add: mark_of_origin_def mark_key_def)
  with aggregate_marks_furthest [OF f] show ?thesis by auto
qed

text \<open>C28: a malformed coordinate is never dropped. If any mark of the list has no input, no file identity, no
  end offset, a guard without its length, or a recorded conflict, the whole aggregation yields exactly
  one mark, and that mark is malformed.\<close>

theorem aggregate_marks_fail_closed:
  assumes "m \<in> set ms" "malformed_mark m"
  shows "\<exists>f. aggregate_marks ms = [f] \<and> malformed_mark f"
  using aggregate_fails_on_malformed [OF assms] .

theorem aggregate_marks_fail_closed_witness:
  "\<exists>f. aggregate_marks [mark_of_origin 1 0 (demo_origin 10),
      mark_of_origin 1 1 ((demo_origin 20)\<lparr>origin_end_offset := None\<rparr>)] = [f] \<and> malformed_mark f"
  by (rule aggregate_marks_fail_closed [of "mark_of_origin 1 1 ((demo_origin 20)\<lparr>origin_end_offset := None\<rparr>)"])
    (simp_all add: mark_of_origin_def malformed_mark_def)

text \<open>C27: checkpoints follow the batches exactly. Collect the marks of any sequence of batches and aggregate
  them. If the result is not the failure mark, then every event of every batch that has an origin lies
  at or before the aggregated mark of its source, and every aggregated mark is the coordinate of an
  event of one of the batches; so a checkpoint neither loses an event nor moves past one.\<close>

theorem ack_marks_cover_batches:
  assumes "ms = concat (map (\<lambda>(s, es). checkpoint_marks_for_batch s es) batches)"
    and "\<forall>f \<in> set (aggregate_marks ms). \<not> malformed_mark f"
  shows "(\<forall>(s, es) \<in> set batches. \<forall>m \<in> set (origin_marks s 0 es).
       \<exists>m' \<in> set (aggregate_marks ms). mark_key m' = mark_key m \<and> mark_end m \<le> mark_end m')
    \<and> (\<forall>m' \<in> set (aggregate_marks ms). \<exists>(s, es) \<in> set batches. m' \<in> set (origin_marks s 0 es))"
proof -
  have ok: "\<forall>m \<in> set ms. \<not> malformed_mark m" using aggregate_fails_on_malformed assms(2) by fastforce
  have nf: "failure (aggregate_list new_aggregator ms) = None"
  proof (rule ccontr)
    assume "failure (aggregate_list new_aggregator ms) \<noteq> None"
    then obtain f where f: "failure (aggregate_list new_aggregator ms) = Some f" by blast
    then have "malformed_mark f" "aggregate_marks ms = [f]"
      using aggregate_list_failure(1) [of new_aggregator ms f]
      by (simp_all add: new_aggregator_def aggregate_marks_def aggregator_marks_def)
    then show False using assms(2) by simp
  qed
  note mem = aggregate_marks_mem [OF nf]
  have sub: "set (checkpoint_marks_for_batch s es) \<subseteq> set ms" if "(s, es) \<in> set batches" for s es
    using that unfolding assms(1) set_concat set_map by (intro Union_upper) (auto intro!: image_eqI [of _ _ "(s, es)"])
  have batch: "\<exists>src. furthest src (origin_marks s 0 es) \<and> set (checkpoint_marks_for_batch s es) = snd ` set src"
    if "(s, es) \<in> set batches" for s es
  proof -
    have "set (checkpoint_marks_for_batch s es) \<subseteq> set ms" by (rule sub [OF that])
    then have "\<forall>m \<in> set (checkpoint_marks_for_batch s es). \<not> malformed_mark m" using ok by blast
    then show ?thesis using batch_marks_clean by blast
  qed
  show ?thesis
  proof (intro conjI ballI)
    fix x assume x: "x \<in> set batches"
    obtain s es where se: "x = (s, es)" by fastforce
    obtain src where src: "furthest src (origin_marks s 0 es)" "set (checkpoint_marks_for_batch s es) = snd ` set src"
      using batch x se by blast
    have "\<exists>m' \<in> set (aggregate_marks ms). mark_key m' = mark_key m \<and> mark_end m \<le> mark_end m'"
      if m: "m \<in> set (origin_marks s 0 es)" for m
    proof -
      obtain a where a: "a \<in> snd ` set src" "mark_key a = mark_key m" "mark_rank m \<le> mark_rank a"
        using furthest_covers [OF src(1) m] by blast
      then have "a \<in> set ms" using src(2) sub [of s es] x se by blast
      from furthest_covers [OF mem(2) this]
      obtain b where b: "b \<in> set (aggregate_marks ms)" "mark_key b = mark_key a" "mark_rank a \<le> mark_rank b"
        unfolding mem(1) by blast
      have "mark_end m \<le> mark_end b" by (rule mark_rank_end [OF order_trans [OF a(3) b(3)]])
      then show ?thesis using a(2) b(1,2) by (intro bexI [of _ b]) simp_all
    qed
    then show "case x of (s, es) \<Rightarrow> \<forall>m \<in> set (origin_marks s 0 es).
       \<exists>m' \<in> set (aggregate_marks ms). mark_key m' = mark_key m \<and> mark_end m \<le> mark_end m'"
      by (simp add: se)
  next
    fix m' assume "m' \<in> set (aggregate_marks ms)"
    then have "m' \<in> set ms" unfolding mem(1) by (rule furthest_mem(1) [OF mem(2)])
    then obtain s es where se: "(s, es) \<in> set batches" "m' \<in> set (checkpoint_marks_for_batch s es)"
      unfolding assms(1) by (auto simp: split_beta)
    obtain src where src: "furthest src (origin_marks s 0 es)" "set (checkpoint_marks_for_batch s es) = snd ` set src"
      using batch [OF se(1)] by blast
    have "m' \<in> set (origin_marks s 0 es)"
      by (rule furthest_mem(1) [OF src(1)]) (use se(2) src(2) in simp)
    then show "\<exists>(s, es) \<in> set batches. m' \<in> set (origin_marks s 0 es)" using se(1) by blast
  qed
qed

theorem ack_marks_cover_batches_witness:
  "\<exists>m' \<in> set (aggregate_marks (checkpoint_marks_for_batch 1 [demo_event 10])). mark_end m' = 10"
proof -
  let ?m = "mark_of_origin 1 0 (demo_origin 10)"
  have c: "checkpoint_marks_for_batch 1 [demo_event 10] = [?m]"
    by (simp add: checkpoint_marks_for_batch_def add_batch_mark_def mark_of_origin_def sort_marks_def)
  have "aggregate_marks [?m] = [?m]" "\<not> malformed_mark ?m"
    by (simp_all add: aggregate_marks_def aggregator_add_def new_aggregator_def aggregator_marks_def
        malformed_mark_def mark_of_origin_def sort_marks_def)
  with ack_marks_cover_batches [of _ "[(1, [demo_event 10])]", OF refl]
  show ?thesis by (simp add: c) (simp add: mark_of_origin_def)
qed

end
