(* ===== verification/Wal_Queue.thy ===== *)
theory Wal_Queue
  imports Wal_Marks "HOL-Library.AList"
begin

text \<open>
  \<open>internal/collector/wal/queue.go\<close>: the durable queue.  \<open>queue\<close> is the Go struct under its mutex
  together with the part of the disk the queue owns: the segment files (\<open>files\<close>), the metadata file
  (\<open>meta\<close>) and the repacking manifests (\<open>manifests\<close>).  Every method runs under the mutex, so it is
  a function on this state.

  Input and output may fail at any call.  The state carries the outcomes of the calls to come
  (\<open>io_left\<close>); each call consumes one, and \<open>IoFail n\<close> says how much of the call took effect although
  it reported an error (bytes written; for metadata and directory entries, whether the change is
  visible).  A statement about all states therefore covers every pattern of failures.

  The active segment is the last element of \<open>segments\<close>: \<open>openActiveLocked\<close> appends it and nothing is
  appended after it while it is open.  Not modelled: the capacity management of the descriptor slice
  (\<open>unackedHeadWaste\<close>), the wake-up channel and the test hooks, none of which changes a result.
\<close>

datatype io_result = IoOk | IoFail nat

datatype wal_error =
    ErrQueueFull | ErrBatchTooLarge | ErrClosed | ErrInvalidAck | ErrCorruptSegment
  | ErrUnhealthy | ErrSequenceExhausted | ErrMarshal | ErrIO | ErrAccounting | ErrQuarantineScan
  | ErrRepackLimits | ErrRepackNotQueued | ErrRepackSingleton | ErrRepackExhausted | ErrRepackInvalid | ErrRepackManifest
  | ErrRecovery

datatype sync_policy = SyncOnSeal | SyncInterval | SyncAlways

record wal_options =
  opt_max_queue_bytes :: u64
  opt_segment_max_bytes :: u64
  opt_sync :: sync_policy
  opt_reservation :: u64
  opt_collector_id :: string

record repack_child =
  child_seq :: u64
  child_id :: string
  child_start :: int
  child_end :: int

record repack_plan =
  plan_version :: int
  plan_parent :: repack_child
  plan_parent_sha256 :: string
  plan_segment :: string
  plan_offset :: int
  plan_length :: u32
  plan_crc :: u32
  plan_children :: "repack_child list"

record repack_reference =
  ref_parent :: u64
  ref_through :: u64

record wal_meta =
  meta_format :: u32
  meta_next :: u64
  meta_acked :: u64
  meta_refs :: "repack_reference list"

record batch_desc =
  desc_repacked :: "repack_child option"
  desc_seq :: u64
  desc_seg :: string
  desc_off :: nat
  desc_len :: u32
  desc_crc :: u32
  desc_events :: u64
  desc_size :: u64
  desc_created :: int
  desc_marks :: "source_mark list"

record seg_info =
  seg_name :: string
  seg_first :: u64
  seg_last :: u64
  seg_sealed :: bool
  seg_size :: u64

record queue =
  closed :: bool
  next_seq :: u64
  reserved_until :: u64
  last_acked :: u64
  unacked :: "batch_desc list"
  deliver_idx :: nat
  live_bytes :: u64
  physical_bytes :: u64
  quarantined_bytes :: u64
  queued_events :: u64
  terminal :: "u64 set"
  repacks :: "(u64 \<times> repack_plan) list"
  segments :: "seg_info list"
  active_open :: bool
  active_size :: nat
  active_dirty :: bool
  sync_err :: bool
  quarantined :: u64
  refresh_at :: "int option"
  refresh_err :: bool
  meta :: wal_meta
  files :: "(string \<times> bytes) list"
  manifests :: "(u64 \<times> repack_plan) list"
  io_left :: "io_result list"

definition io_call :: "queue \<Rightarrow> io_result \<times> queue" where
  "io_call q = (case io_left q of [] \<Rightarrow> (IoOk, q) | r # rs \<Rightarrow> (r, q\<lparr>io_left := rs\<rparr>))"

section \<open>Metadata\<close>

definition plan_through :: "repack_plan \<Rightarrow> u64" where
  "plan_through p = child_seq (last (plan_children p))"

definition is_parent :: "queue \<Rightarrow> u64 \<Rightarrow> bool" where
  "is_parent q s \<longleftrightarrow> map_of (repacks q) s \<noteq> None"

text \<open>\<open>repackReferences\<close>: the plans that still bar the cumulative mark, by parent.\<close>

definition repack_references :: "queue \<Rightarrow> repack_reference list" where
  "repack_references q =
     map (\<lambda>(p, plan). \<lparr>ref_parent = p, ref_through = plan_through plan\<rparr>)
       (sort_key fst (filter (\<lambda>(p, plan). plan_through plan > last_acked q) (repacks q)))"

definition current_meta :: "queue \<Rightarrow> wal_meta" where
  "current_meta q = \<lparr>meta_format = 2, meta_next = max (next_seq q) (reserved_until q),
     meta_acked = last_acked q, meta_refs = repack_references q\<rparr>"

definition persist_meta :: "queue \<Rightarrow> queue \<times> wal_error option" where
  "persist_meta q =
     (let (r, q1) = io_call q in
      case r of
        IoOk \<Rightarrow> (q1\<lparr>meta := current_meta q\<rparr>, None)
      | IoFail n \<Rightarrow> (if n > 0 then q1\<lparr>meta := current_meta q\<rparr> else q1, Some ErrIO))"

text \<open>The validation at the end of \<open>readMeta\<close>.\<close>

fun valid_refs :: "u32 \<Rightarrow> u64 \<Rightarrow> u64 \<Rightarrow> repack_reference list \<Rightarrow> bool" where
  "valid_refs format nxt previous [] = True"
| "valid_refs format nxt previous (r # rs) =
     (if format \<noteq> 2 \<or> ref_parent r \<le> previous \<or> ref_through r \<le> ref_parent r \<or> ref_through r \<ge> nxt
      then False else valid_refs format nxt (ref_parent r) rs)"

definition valid_meta :: "wal_meta \<Rightarrow> bool" where
  "valid_meta m \<longleftrightarrow> (meta_format m = 1 \<or> meta_format m = 2) \<and> meta_next m \<noteq> 0
     \<and> meta_acked m < meta_next m \<and> valid_refs (meta_format m) (meta_next m) 0 (meta_refs m)"

definition reserve_sequences :: "wal_options \<Rightarrow> queue \<Rightarrow> queue \<times> wal_error option" where
  "reserve_sequences opts q =
     (if next_seq q \<le> reserved_until q then (q, None)
      else
        let sz = max 1 (opt_reservation opts);
            reserved = next_seq q + min (sz - 1) (0xFFFFFFFFFFFFFFFF - next_seq q);
            previous = reserved_until q
        in case persist_meta (q\<lparr>reserved_until := reserved\<rparr>) of
            (q1, None) \<Rightarrow> (q1, None)
          | (q1, Some e) \<Rightarrow> (q1\<lparr>reserved_until := previous\<rparr>, Some e))"

section \<open>Segments\<close>

definition update_last :: "('a \<Rightarrow> 'a) \<Rightarrow> 'a list \<Rightarrow> 'a list" where
  "update_last f xs = (if xs = [] then [] else butlast xs @ [f (last xs)])"

definition seal_active :: "queue \<Rightarrow> queue \<times> wal_error option" where
  "seal_active q =
     (if \<not> active_open q then (q, None)
      else
        let (synced, q1) = io_call q;
            (closed_ok, q2) = io_call q1;
            q3 = q2\<lparr>segments := update_last (\<lambda>s. s\<lparr>seg_sealed := True\<rparr>) (segments q2),
                    active_open := False, active_size := 0, active_dirty := False\<rparr>
        in if synced \<noteq> IoOk then (q3\<lparr>sync_err := True\<rparr>, Some ErrIO)
           else if closed_ok \<noteq> IoOk then (q3, Some ErrIO)
           else (q3\<lparr>sync_err := False\<rparr>, None))"

text \<open>\<open>O_CREATE\<close>: an existing file keeps its bytes.\<close>

definition create_file :: "string \<Rightarrow> queue \<Rightarrow> queue" where
  "create_file name q =
     (if map_of (files q) name = None then q\<lparr>files := AList.update name [] (files q)\<rparr> else q)"

definition open_active :: "u64 \<Rightarrow> queue \<Rightarrow> queue \<times> wal_error option" where
  "open_active first_seq q =
     (let name = segment_name first_seq; (r, q1) = io_call q
      in case r of
          IoFail n \<Rightarrow> (if n > 0 then create_file name q1 else q1, Some ErrIO)
        | IoOk \<Rightarrow>
            (let (r2, q2) = io_call (create_file name q1)
             in if r2 \<noteq> IoOk then (q2, Some ErrIO)
                else (q2\<lparr>segments := segments q2 @ [\<lparr>seg_name = name, seg_first = first_seq, seg_last = first_seq,
                             seg_sealed = False, seg_size = 0\<rparr>],
                         active_open := True, active_size := 0, active_dirty := False\<rparr>, None)))"

definition append_file :: "string \<Rightarrow> bytes \<Rightarrow> queue \<Rightarrow> queue" where
  "append_file name data q =
     q\<lparr>files := AList.update name (case_option [] id (map_of (files q) name) @ data) (files q)\<rparr>"

definition rotate_at_limit :: "wal_options \<Rightarrow> nat \<Rightarrow> nat \<Rightarrow> bool" where
  "rotate_at_limit opts active record_size \<longleftrightarrow>
     opt_segment_max_bytes opts > 0 \<and> opt_segment_max_bytes opts \<le> 0x7FFFFFFFFFFFFFFF
     \<and> (record_size > unat (opt_segment_max_bytes opts)
        \<or> active > unat (opt_segment_max_bytes opts) - record_size)"

definition write_record :: "wal_options \<Rightarrow> u64 \<Rightarrow> bytes \<Rightarrow> queue \<Rightarrow> queue \<times> (wal_error + string \<times> nat)" where
  "write_record opts sq record_data q =
     (let (q1, e1) = (if active_open q \<and> active_size q > 0 \<and> rotate_at_limit opts (active_size q) (length record_data)
                      then seal_active q else (q, None))
      in case e1 of Some e \<Rightarrow> (q1, Inl e) | None \<Rightarrow>
        (let (q2, e2) = (if \<not> active_open q1 then open_active sq q1 else (q1, None))
         in case e2 of Some e \<Rightarrow> (q2, Inl e) | None \<Rightarrow>
           (let name = seg_name (last (segments q2));
                off = active_size q2 + record_header_size;
                (r, q3) = io_call q2
            in case r of
                IoFail n \<Rightarrow> ((fst (seal_active (append_file name (take n record_data) q3)))\<lparr>sync_err := True\<rparr>, Inl ErrIO)
              | IoOk \<Rightarrow>
                  ((append_file name record_data q3)\<lparr>
                      active_size := active_size q3 + length record_data,
                      physical_bytes := physical_bytes q3 + of_nat (length record_data),
                      active_dirty := True,
                      segments := update_last (\<lambda>s. s\<lparr>seg_last := sq, seg_size := seg_size s + of_nat (length record_data)\<rparr>)
                                    (segments q3)\<rparr>, Inr (name, off)))))"

section \<open>Reclamation\<close>

definition segment_physical_bytes :: "seg_info list \<Rightarrow> u64" where
  "segment_physical_bytes segs =
     foldl (\<lambda>acc s. if acc = 0xFFFFFFFFFFFFFFFF \<or> seg_size s > 0xFFFFFFFFFFFFFFFF - acc
                    then 0xFFFFFFFFFFFFFFFF else acc + seg_size s) 0 segs"

text \<open>The loop of \<open>reclaimLocked\<close>: segments removed so far are dropped from the front; the last component is \<open>removeErr\<close>.\<close>

function reclaim_segments :: "queue \<Rightarrow> nat \<Rightarrow> queue \<times> nat \<times> wal_error option" where
  "reclaim_segments q reclaimed =
     (case segments q of
        [] \<Rightarrow> (q, reclaimed, None)
      | s # rest \<Rightarrow>
          (if \<not> seg_sealed s \<or> seg_last s > last_acked q then (q, reclaimed, None)
           else if seg_size s > physical_bytes q
             then (q\<lparr>physical_bytes := segment_physical_bytes (segments q)\<rparr>, reclaimed, Some ErrAccounting)
           else (let (r, q1) = io_call q;
                     removed = q1\<lparr>files := AList.delete (seg_name s) (files q1)\<rparr>
                 in case r of
                      IoFail n \<Rightarrow> (if n > 0 then removed else q1, reclaimed, Some ErrIO)
                    | IoOk \<Rightarrow> reclaim_segments
                        (removed\<lparr>physical_bytes := physical_bytes q - seg_size s, segments := rest\<rparr>) (reclaimed + 1))))"
  by pat_completeness auto
termination
  by (relation "measure (\<lambda>(q, n). length (segments q))") (auto simp: io_call_def split: list.splits)

declare reclaim_segments.simps [simp del]

text \<open>\<open>reclaimRepackPlans\<close>: the manifest of every finished plan is removed; the loop ends at an error.\<close>

fun reclaim_plans :: "(u64 \<times> repack_plan) list \<Rightarrow> queue \<Rightarrow> bool \<Rightarrow> queue \<times> bool \<times> wal_error option" where
  "reclaim_plans [] q changed = (q, changed, None)"
| "reclaim_plans ((p, plan) # ps) q changed =
     (if plan_through plan > last_acked q then reclaim_plans ps q changed
      else let (r, q1) = io_call q; removed = q1\<lparr>manifests := AList.delete p (manifests q1)\<rparr> in
        case r of
          IoFail n \<Rightarrow> (if n > 0 then removed else q1, changed, Some ErrIO)
        | IoOk \<Rightarrow> reclaim_plans ps (removed\<lparr>repacks := AList.delete p (repacks q)\<rparr>) True)"

definition reclaim_repack_plans :: "queue \<Rightarrow> queue \<times> wal_error option" where
  "reclaim_repack_plans q =
     (case reclaim_plans (repacks q) q False of
        (q1, changed, Some e) \<Rightarrow> (q1, Some e)
      | (q1, changed, None) \<Rightarrow>
          (if changed then (let (r, q2) = io_call q1 in (q2, if r = IoOk then None else Some ErrIO))
           else (q1, None)))"

definition join_errors :: "wal_error option \<Rightarrow> wal_error option \<Rightarrow> wal_error option" where
  "join_errors a b = (case a of None \<Rightarrow> b | Some e \<Rightarrow> Some e)"

definition reclaim :: "queue \<Rightarrow> queue \<times> wal_error option" where
  "reclaim q =
     (let (q1, reclaimed, remove_err) = reclaim_segments q 0;
          (r, q2) = (if reclaimed > 0 then io_call q1 else (IoOk, q1))
      in if r \<noteq> IoOk then (q2, join_errors remove_err (Some ErrIO))
         else (let (q3, e) = reclaim_repack_plans q2 in (q3, join_errors remove_err e)))"

section \<open>Capacity\<close>

text \<open>
  What an append takes from its surroundings: the clock, the fresh batch identifier, and what a scan
  of the directory would find outside the live segments (bytes and number of quarantine artifacts;
  \<open>None\<close> is a failed scan).
\<close>

record append_env =
  env_now :: int
  env_uuid :: string
  env_scan :: "(u64 \<times> u64) option"

definition exceeds_byte_limit :: "u64 \<Rightarrow> u64 \<Rightarrow> u64 \<Rightarrow> bool" where
  "exceeds_byte_limit current additional limit \<longleftrightarrow> current > limit \<or> additional > limit - current"

definition storage_bytes :: "queue \<Rightarrow> u64" where
  "storage_bytes q =
     (if quarantined_bytes q > 0xFFFFFFFFFFFFFFFF - physical_bytes q then 0xFFFFFFFFFFFFFFFF
      else physical_bytes q + quarantined_bytes q)"

definition refresh_storage_stats :: "append_env \<Rightarrow> queue \<Rightarrow> queue \<times> wal_error option" where
  "refresh_storage_stats env q =
     (case env_scan env of
        None \<Rightarrow> (q, Some ErrQuarantineScan)
      | Some (bytes_found, count) \<Rightarrow>
          (q\<lparr>physical_bytes := sum_list (map (\<lambda>(n, b). if parse_segment_name n = None then 0 else of_nat (length b)) (files q)),
             quarantined_bytes := bytes_found, quarantined := count\<rparr>, None))"

definition refresh_quarantine_stats :: "append_env \<Rightarrow> queue \<Rightarrow> queue \<times> wal_error option" where
  "refresh_quarantine_stats env q =
     (if (case refresh_at q of None \<Rightarrow> False | Some t \<Rightarrow> env_now env < t)
      then (q, if refresh_err q then Some ErrQuarantineScan else None)
      else let (q1, e) = refresh_storage_stats env q
           in (q1\<lparr>refresh_at := Some (env_now env + 1000000000), refresh_err := (e \<noteq> None)\<rparr>, e))"

definition reclaim_acked_active :: "queue \<Rightarrow> queue \<times> wal_error option" where
  "reclaim_acked_active q =
     (if \<not> active_open q \<or> active_size q = 0 \<or> seg_last (last (segments q)) > last_acked q then (q, None)
      else case seal_active q of
          (q1, Some e) \<Rightarrow> (q1, Some e)
        | (q1, None) \<Rightarrow> reclaim q1)"

definition ensure_record_capacity :: "wal_options \<Rightarrow> append_env \<Rightarrow> u64 \<Rightarrow> queue \<Rightarrow> queue \<times> wal_error option" where
  "ensure_record_capacity opts env record_size q =
     (if opt_max_queue_bytes opts = 0 then (q, None)
      else if record_size > opt_max_queue_bytes opts then (q, Some ErrBatchTooLarge)
      else if \<not> exceeds_byte_limit (storage_bytes q) record_size (opt_max_queue_bytes opts) then (q, None)
      else
        let (q1, e1) = (if quarantined_bytes q > 0 then refresh_quarantine_stats env q else (q, None))
        in case e1 of Some e \<Rightarrow> (q1, Some e) | None \<Rightarrow>
          (case reclaim_acked_active q1 of
             (q2, Some e) \<Rightarrow> (q2, Some e)
           | (q2, None) \<Rightarrow>
               (if exceeds_byte_limit (storage_bytes q2) record_size (opt_max_queue_bytes opts)
                then (q2, Some ErrQueueFull) else (q2, None))))"

section \<open>Append\<close>

definition seal_after_burn :: "wal_error \<Rightarrow> queue \<Rightarrow> queue \<times> wal_error" where
  "seal_after_burn cause q = (fst (seal_active q), cause)"

definition new_batch :: "codec \<Rightarrow> wal_options \<Rightarrow> append_env \<Rightarrow> u64 \<Rightarrow> log_event option list \<Rightarrow> bytes \<Rightarrow> event_batch" where
  "new_batch cd opts env sq events digest =
     \<lparr>collector_id = opt_collector_id opts, batch_id = env_uuid env, batch_sequence = sq,
      batch_created_at = Some (env_now env), batch_events = events,
      uncompressed_size_bytes = uncompressed_event_bytes cd events, event_ids_sha256 = digest\<rparr>"

text \<open>Everything up to the reservation: the batch, its payload and its record, or a refusal that leaves no trace.\<close>

definition prepare_append ::
  "codec \<Rightarrow> wal_options \<Rightarrow> append_env \<Rightarrow> log_event option list \<Rightarrow> queue
     \<Rightarrow> queue \<times> (wal_error + event_batch \<times> bytes \<times> bytes)" where
  "prepare_append cd opts env events q =
     (case compute_event_ids_digest events of None \<Rightarrow> (q, Inl ErrBatchTooLarge) | Some digest \<Rightarrow>
       (let batch = new_batch cd opts env (next_seq q) events digest; sz = batch_size cd batch in
        if sz < 0 then (q, Inl ErrBatchTooLarge)
        else if sz > int maximum_record_payload_bytes then (q, Inl ErrBatchTooLarge)
        else case ensure_record_capacity opts env (8 + of_int sz) q of
            (q1, Some e) \<Rightarrow> (q1, Inl e)
          | (q1, None) \<Rightarrow>
            (case marshal cd batch of None \<Rightarrow> (q1, Inl ErrMarshal) | Some payload \<Rightarrow>
              (case (if int (length payload) \<noteq> sz
                     then (if length payload > maximum_record_payload_bytes then (q1, Some ErrBatchTooLarge)
                           else ensure_record_capacity opts env (8 + of_nat (length payload)) q1)
                     else (q1, None)) of
                 (q2, Some e) \<Rightarrow> (q2, Inl e)
               | (q2, None) \<Rightarrow>
                   (case encode_record payload of None \<Rightarrow> (q2, Inl ErrBatchTooLarge)
                    | Some record_data \<Rightarrow> (q2, Inr (batch, payload, record_data)))))))"

definition batch_desc_of :: "event_batch \<Rightarrow> string \<Rightarrow> nat \<Rightarrow> bytes \<Rightarrow> batch_desc" where
  "batch_desc_of batch name off payload =
     \<lparr>desc_repacked = None, desc_seq = batch_sequence batch, desc_seg = name, desc_off = off,
      desc_len = of_nat (length payload), desc_crc = crc32c payload,
      desc_events = of_nat (length (batch_events batch)), desc_size = 8 + of_nat (length payload),
      desc_created = case_option 0 id (batch_created_at batch),
      desc_marks = checkpoint_marks_for_batch (batch_sequence batch) (batch_events batch)\<rparr>"

definition sync_record :: "wal_options \<Rightarrow> queue \<Rightarrow> queue \<times> wal_error option" where
  "sync_record opts q =
     (if opt_sync opts = SyncAlways
      then (let (r, q1) = io_call q
            in if r \<noteq> IoOk then (q1\<lparr>sync_err := True\<rparr>, Some ErrIO)
               else (q1\<lparr>active_dirty := False, sync_err := False\<rparr>, None))
      else (q, None))"

definition append_batch ::
  "codec \<Rightarrow> wal_options \<Rightarrow> append_env \<Rightarrow> log_event option list \<Rightarrow> queue \<Rightarrow> queue \<times> (wal_error + event_batch)" where
  "append_batch cd opts env events q =
     (if closed q then (q, Inl ErrClosed)
      else if sync_err q then (q, Inl ErrUnhealthy)
      else if next_seq q = 0xFFFFFFFFFFFFFFFF then (q, Inl ErrSequenceExhausted)
      else case prepare_append cd opts env events q of
          (q1, Inl e) \<Rightarrow> (q1, Inl e)
        | (q1, Inr (batch, payload, record_data)) \<Rightarrow>
            (case reserve_sequences opts (q1\<lparr>next_seq := batch_sequence batch + 1\<rparr>) of
               (q2, Some e) \<Rightarrow> (let (q3, e') = seal_after_burn e q2 in (q3, Inl e'))
             | (q2, None) \<Rightarrow>
                 (case write_record opts (batch_sequence batch) record_data q2 of
                    (q3, Inl e) \<Rightarrow> (q3, Inl e)
                  | (q3, Inr (name, off)) \<Rightarrow>
                      (case sync_record opts q3 of
                         (q4, Some e) \<Rightarrow> (q4, Inl e)
                       | (q4, None) \<Rightarrow>
                           (let d = batch_desc_of batch name off payload
                            in (q4\<lparr>unacked := unacked q4 @ [d], live_bytes := live_bytes q4 + desc_size d,
                                   queued_events := queued_events q4 + desc_events d\<rparr>, Inr batch))))))"

section \<open>Delivery\<close>

definition repack_batch :: "codec \<Rightarrow> event_batch \<Rightarrow> repack_child \<Rightarrow> event_batch" where
  "repack_batch cd root child =
     (let events = drop (nat (child_start child)) (take (nat (child_end child)) (batch_events root))
      in \<lparr>collector_id = collector_id root, batch_id = child_id child, batch_sequence = child_seq child,
          batch_created_at = batch_created_at root, batch_events = events,
          uncompressed_size_bytes = uncompressed_event_bytes cd events,
          event_ids_sha256 = case_option [] id (compute_event_ids_digest events)\<rparr>)"

definition read_batch :: "codec \<Rightarrow> queue \<Rightarrow> batch_desc \<Rightarrow> wal_error + event_batch" where
  "read_batch cd q d =
     (case map_of (files q) (desc_seg d) of None \<Rightarrow> Inl ErrIO | Some data \<Rightarrow>
       (case read_record_payload cd data (desc_off d) (desc_len d) (desc_crc d) of None \<Rightarrow> Inl ErrCorruptSegment
        | Some root \<Rightarrow>
            (case desc_repacked d of None \<Rightarrow> Inr root
             | Some child \<Rightarrow> Inr (repack_batch cd root child))))"

text \<open>The scan of \<open>NextBatch\<close> from the delivery cursor: parents of repacked children are passed over.\<close>

fun next_deliverable :: "queue \<Rightarrow> batch_desc list \<Rightarrow> nat \<Rightarrow> batch_desc option \<times> nat" where
  "next_deliverable q [] i = (None, i)"
| "next_deliverable q (d # ds) i =
     (if is_parent q (desc_seq d) then next_deliverable q ds (i + 1) else (Some d, i + 1))"

text \<open>\<open>NextBatch\<close> until it would block; \<open>Inr None\<close> is the wait.\<close>

definition next_batch :: "codec \<Rightarrow> queue \<Rightarrow> queue \<times> (wal_error + event_batch option)" where
  "next_batch cd q =
     (if closed q then (q, Inl ErrClosed)
      else case next_deliverable q (drop (deliver_idx q) (unacked q)) (deliver_idx q) of
          (None, i) \<Rightarrow> (q\<lparr>deliver_idx := i\<rparr>, Inr None)
        | (Some d, i) \<Rightarrow>
            (q\<lparr>deliver_idx := i\<rparr>,
             case read_batch cd q d of Inl e \<Rightarrow> Inl e | Inr b \<Rightarrow> Inr (Some b)))"

definition rewind :: "queue \<Rightarrow> queue" where
  "rewind q = (if closed q then q else q\<lparr>deliver_idx := 0\<rparr>)"

section \<open>Acknowledgment\<close>

fun has_sequence :: "u64 \<Rightarrow> batch_desc list \<Rightarrow> bool" where
  "has_sequence s [] = False"
| "has_sequence s (d # ds) =
     (if desc_seq d = s then True else if desc_seq d > s then False else has_sequence s ds)"

text \<open>\<open>repackTerminalParents\<close>: parents from the highest down, so that a parent among the children is decided first.\<close>

definition child_done :: "queue \<Rightarrow> u64 \<Rightarrow> bool \<Rightarrow> u64 set \<Rightarrow> repack_child \<Rightarrow> bool" where
  "child_done q s cumulative completed c \<longleftrightarrow>
     (let k = child_seq c; hypothetical = (\<not> is_parent q k \<and> (k = s \<or> (cumulative \<and> k \<le> s)))
      in k \<in> terminal q \<or> k \<in> completed \<or> k \<le> last_acked q \<or> hypothetical)"

fun complete_parents :: "queue \<Rightarrow> u64 \<Rightarrow> bool \<Rightarrow> u64 list \<Rightarrow> u64 set \<Rightarrow> u64 set" where
  "complete_parents q s cumulative [] completed = completed"
| "complete_parents q s cumulative (p # ps) completed =
     complete_parents q s cumulative ps
       (if list_all (child_done q s cumulative completed) (plan_children (the (map_of (repacks q) p)))
        then insert p completed else completed)"

definition repack_terminal_parents :: "queue \<Rightarrow> u64 \<Rightarrow> bool \<Rightarrow> u64 set" where
  "repack_terminal_parents q s cumulative =
     complete_parents q s cumulative (rev (sort (map fst (repacks q)))) {}"

definition terminal_prefix :: "queue \<Rightarrow> batch_desc list" where
  "terminal_prefix q = takeWhile (\<lambda>d. desc_seq d \<in> terminal q) (unacked q)"

definition advance_terminal :: "queue \<Rightarrow> queue \<times> wal_error option" where
  "advance_terminal q =
     (let ds = terminal_prefix q in
      if ds = [] then (q, None)
      else case persist_meta (q\<lparr>last_acked := desc_seq (last ds)\<rparr>) of
          (q1, Some e) \<Rightarrow> (q1\<lparr>last_acked := last_acked q\<rparr>, Some e)
        | (q1, None) \<Rightarrow>
            reclaim (q1\<lparr>
              live_bytes := live_bytes q1 - sum_list (map desc_size ds),
              queued_events := queued_events q1 - sum_list (map desc_events ds),
              terminal := terminal q1 - desc_seq ` set ds,
              unacked := drop (length ds) (unacked q1),
              deliver_idx := deliver_idx q1 - length ds\<rparr>))"

definition ack :: "u64 \<Rightarrow> queue \<Rightarrow> queue \<times> wal_error option" where
  "ack s q =
     (if closed q then (q, Some ErrClosed)
      else if s \<le> last_acked q then (q, None)
      else if \<not> has_sequence s (unacked q) then (q, Some ErrInvalidAck)
      else if is_parent q s then (q, Some ErrInvalidAck)
      else let q1 = q\<lparr>terminal := insert s (terminal q)\<rparr>
           in advance_terminal (q1\<lparr>terminal := terminal q1 \<union> repack_terminal_parents q1 s False\<rparr>))"

definition ack_through :: "u64 \<Rightarrow> queue \<Rightarrow> queue \<times> wal_error option" where
  "ack_through s q =
     (if closed q then (q, Some ErrClosed)
      else if s \<le> last_acked q then (q, None)
      else if \<not> has_sequence s (unacked q) then (q, Some ErrInvalidAck)
      else if is_parent q s then (q, Some ErrInvalidAck)
      else let covered = takeWhile (\<lambda>d. desc_seq d \<le> s) (unacked q);
               q1 = q\<lparr>terminal := terminal q \<union> {k \<in> desc_seq ` set covered. \<not> is_parent q k}\<rparr>
           in advance_terminal (q1\<lparr>terminal := terminal q1 \<union> repack_terminal_parents q1 s True\<rparr>))"

record ack_plan =
  plan_through_seq :: u64
  plan_batch_count :: u64
  plan_mark_groups :: "source_mark list list"

definition hypothetically_terminal :: "queue \<Rightarrow> u64 \<Rightarrow> bool \<Rightarrow> u64 set \<Rightarrow> batch_desc \<Rightarrow> bool" where
  "hypothetically_terminal q s cumulative completed d =
     (let k = desc_seq d in
      if is_parent q k then k \<in> completed
      else k \<in> terminal q \<or> k = s \<or> (cumulative \<and> k \<le> s))"

definition prepare_ack_plan :: "u64 \<Rightarrow> bool \<Rightarrow> queue \<Rightarrow> wal_error + ack_plan" where
  "prepare_ack_plan s cumulative q =
     (let nothing = \<lparr>plan_through_seq = 0, plan_batch_count = 0, plan_mark_groups = []\<rparr> in
      if closed q then Inl ErrClosed
      else if s \<le> last_acked q then Inr nothing
      else if \<not> has_sequence s (unacked q) then Inl ErrInvalidAck
      else if is_parent q s then Inl ErrInvalidAck
      else let ds = takeWhile (hypothetically_terminal q s cumulative (repack_terminal_parents q s cumulative)) (unacked q)
           in Inr \<lparr>plan_through_seq = (if ds = [] then 0 else desc_seq (last ds)),
                   plan_batch_count = of_nat (length ds),
                   plan_mark_groups = filter (\<lambda>ms. ms \<noteq> []) (map desc_marks ds)\<rparr>)"

record ack_preview =
  preview_through :: u64
  preview_count :: u64
  preview_marks :: "source_mark list"

definition aggregate_ack_plan :: "ack_plan \<Rightarrow> ack_preview" where
  "aggregate_ack_plan plan =
     \<lparr>preview_through = plan_through_seq plan, preview_count = plan_batch_count plan,
      preview_marks = aggregate_marks (concat (plan_mark_groups plan))\<rparr>"

definition prepare_ack :: "u64 \<Rightarrow> bool \<Rightarrow> queue \<Rightarrow> wal_error + ack_preview" where
  "prepare_ack s cumulative q = map_sum id aggregate_ack_plan (prepare_ack_plan s cumulative q)"

definition pending_source_marks :: "queue \<Rightarrow> wal_error + source_mark list" where
  "pending_source_marks q =
     (if closed q then Inl ErrClosed else Inr (aggregate_marks (concat (map desc_marks (unacked q)))))"

section \<open>Closing, syncing and statistics\<close>

definition close_queue :: "queue \<Rightarrow> queue \<times> wal_error option" where
  "close_queue q = (if closed q then (q, None) else seal_active (q\<lparr>closed := True\<rparr>))"

text \<open>One tick of \<open>syncLoop\<close>.\<close>

definition sync_tick :: "queue \<Rightarrow> queue" where
  "sync_tick q =
     (if active_open q \<and> active_dirty q
      then (let (r, q1) = io_call q
            in if r = IoOk then q1\<lparr>active_dirty := False, sync_err := False\<rparr> else q1\<lparr>sync_err := True\<rparr>)
      else q)"

record queue_stats =
  stat_queued_batches :: u64
  stat_queued_events :: u64
  stat_queued_bytes :: u64
  stat_oldest_age :: int
  stat_next_sequence :: u64
  stat_last_acked :: u64
  stat_quarantined :: u64
  stat_physical :: u64
  stat_quarantined_bytes :: u64
  stat_on_disk :: u64
  stat_sync_failing :: bool

definition queue_stats_of :: "int \<Rightarrow> queue \<Rightarrow> queue_stats" where
  "queue_stats_of now q =
     \<lparr>stat_queued_batches = of_nat (length (unacked q)) - of_nat (length (filter (\<lambda>(p, _). p > last_acked q) (repacks q))),
      stat_queued_events = queued_events q,
      stat_queued_bytes = live_bytes q,
      stat_oldest_age = (case unacked q of [] \<Rightarrow> 0 | d # _ \<Rightarrow> max 0 (now - desc_created d)),
      stat_next_sequence = next_seq q,
      stat_last_acked = last_acked q,
      stat_quarantined = quarantined q,
      stat_physical = physical_bytes q,
      stat_quarantined_bytes = quarantined_bytes q,
      stat_on_disk = storage_bytes q,
      stat_sync_failing = sync_err q\<rparr>"

section \<open>What each step leaves alone\<close>

text \<open>The part of the state that decides what is queued, and the durable counters.\<close>

definition core where
  "core q = (closed q, next_seq q, last_acked q, unacked q, deliver_idx q, live_bytes q, queued_events q, terminal q)"

definition counters where
  "counters q = (reserved_until q, meta q)"

lemma core_eqD:
  assumes "core q' = core q"
  shows "closed q' = closed q" "next_seq q' = next_seq q" "last_acked q' = last_acked q" "unacked q' = unacked q"
    "deliver_idx q' = deliver_idx q" "live_bytes q' = live_bytes q" "queued_events q' = queued_events q"
    "terminal q' = terminal q"
  using assms by (simp_all add: core_def)

lemma counters_eqD:
  assumes "counters q' = counters q"
  shows "reserved_until q' = reserved_until q" "meta q' = meta q"
  using assms by (simp_all add: counters_def)

lemma io_call_frame [simp]:
  "core (snd (io_call q)) = core q" "counters (snd (io_call q)) = counters q" "repacks (snd (io_call q)) = repacks q"
  "segments (snd (io_call q)) = segments q" "active_open (snd (io_call q)) = active_open q"
  "active_size (snd (io_call q)) = active_size q" "physical_bytes (snd (io_call q)) = physical_bytes q"
  "quarantined_bytes (snd (io_call q)) = quarantined_bytes q" "sync_err (snd (io_call q)) = sync_err q"
  "files (snd (io_call q)) = files q" "manifests (snd (io_call q)) = manifests q"
  "current_meta (snd (io_call q)) = current_meta q" "active_dirty (snd (io_call q)) = active_dirty q"
  by (simp_all add: io_call_def core_def counters_def current_meta_def repack_references_def split: list.split)

lemma core_simps [simp]:
  "core (q\<lparr>segments := a\<rparr>) = core q" "core (q\<lparr>active_open := b\<rparr>) = core q" "core (q\<lparr>active_size := n\<rparr>) = core q"
  "core (q\<lparr>active_dirty := b\<rparr>) = core q" "core (q\<lparr>sync_err := b\<rparr>) = core q" "core (q\<lparr>files := f\<rparr>) = core q"
  "core (q\<lparr>physical_bytes := w\<rparr>) = core q" "core (q\<lparr>quarantined_bytes := w\<rparr>) = core q"
  "core (q\<lparr>quarantined := w\<rparr>) = core q" "core (q\<lparr>refresh_at := t\<rparr>) = core q" "core (q\<lparr>refresh_err := b\<rparr>) = core q"
  "core (q\<lparr>manifests := m\<rparr>) = core q" "core (q\<lparr>repacks := m\<rparr>) = core q" "core (q\<lparr>meta := x\<rparr>) = core q"
  "core (q\<lparr>reserved_until := w\<rparr>) = core q" "core (q\<lparr>io_left := l\<rparr>) = core q"
  by (simp_all add: core_def)

lemma counters_simps [simp]:
  "counters (q\<lparr>segments := a\<rparr>) = counters q" "counters (q\<lparr>active_open := b\<rparr>) = counters q"
  "counters (q\<lparr>active_size := n\<rparr>) = counters q" "counters (q\<lparr>active_dirty := b\<rparr>) = counters q"
  "counters (q\<lparr>sync_err := b\<rparr>) = counters q" "counters (q\<lparr>files := f\<rparr>) = counters q"
  "counters (q\<lparr>physical_bytes := w\<rparr>) = counters q" "counters (q\<lparr>quarantined_bytes := w\<rparr>) = counters q"
  "counters (q\<lparr>quarantined := w\<rparr>) = counters q" "counters (q\<lparr>refresh_at := t\<rparr>) = counters q"
  "counters (q\<lparr>refresh_err := b\<rparr>) = counters q" "counters (q\<lparr>manifests := m\<rparr>) = counters q"
  "counters (q\<lparr>repacks := m\<rparr>) = counters q" "counters (q\<lparr>io_left := l\<rparr>) = counters q"
  by (simp_all add: counters_def)

lemma sizes_update_last [simp]:
  "map seg_size (update_last (\<lambda>s. s\<lparr>seg_sealed := b\<rparr>) xs) = map seg_size xs"
  by (cases xs rule: rev_cases) (simp_all add: update_last_def)

lemma seal_active_frame [simp]:
  "core (fst (seal_active q)) = core q" "counters (fst (seal_active q)) = counters q"
  "repacks (fst (seal_active q)) = repacks q" "files (fst (seal_active q)) = files q"
  "physical_bytes (fst (seal_active q)) = physical_bytes q"
  "quarantined_bytes (fst (seal_active q)) = quarantined_bytes q"
  "map seg_size (segments (fst (seal_active q))) = map seg_size (segments q)"
  by (simp_all add: seal_active_def Let_def split_beta)

lemma create_file_frame [simp]:
  "core (create_file n q) = core q" "counters (create_file n q) = counters q"
  "repacks (create_file n q) = repacks q" "physical_bytes (create_file n q) = physical_bytes q"
  "quarantined_bytes (create_file n q) = quarantined_bytes q" "segments (create_file n q) = segments q"
  by (simp_all add: create_file_def)

lemma open_active_frame [simp]:
  "core (fst (open_active s q)) = core q" "counters (fst (open_active s q)) = counters q"
  "repacks (fst (open_active s q)) = repacks q" "physical_bytes (fst (open_active s q)) = physical_bytes q"
  "quarantined_bytes (fst (open_active s q)) = quarantined_bytes q"
  "map seg_size (segments (fst (open_active s q)))
     = map seg_size (segments q) @ (if snd (open_active s q) = None then [0] else [])"
  by (simp_all add: open_active_def Let_def split_beta split: io_result.split)

lemma append_file_frame [simp]:
  "core (append_file n d q) = core q" "counters (append_file n d q) = counters q"
  "repacks (append_file n d q) = repacks q" "physical_bytes (append_file n d q) = physical_bytes q"
  "quarantined_bytes (append_file n d q) = quarantined_bytes q" "segments (append_file n d q) = segments q"
  by (simp_all add: append_file_def)

lemma write_record_frame [simp]:
  "core (fst (write_record opts s r q)) = core q" "counters (fst (write_record opts s r q)) = counters q"
  "repacks (fst (write_record opts s r q)) = repacks q"
  "quarantined_bytes (fst (write_record opts s r q)) = quarantined_bytes q"
  "physical_bytes (fst (write_record opts s r q)) = physical_bytes q
     + (case snd (write_record opts s r q) of Inl e \<Rightarrow> 0 | Inr _ \<Rightarrow> of_nat (length r))"
  by (simp_all add: write_record_def Let_def split_beta split: option.split io_result.split)


lemma reclaim_segments_Nil: "segments q = [] \<Longrightarrow> reclaim_segments q n = (q, n, None)"
  by (subst reclaim_segments.simps) simp

definition drop_segment :: "queue \<Rightarrow> seg_info \<Rightarrow> seg_info list \<Rightarrow> queue" where
  "drop_segment q s rest =
     (snd (io_call q))\<lparr>files := AList.delete (seg_name s) (files q), physical_bytes := physical_bytes q - seg_size s,
                       segments := rest\<rparr>"

lemma drop_segment_frame [simp]:
  "core (drop_segment q s rest) = core q" "counters (drop_segment q s rest) = counters q"
  "repacks (drop_segment q s rest) = repacks q" "quarantined_bytes (drop_segment q s rest) = quarantined_bytes q"
  "segments (drop_segment q s rest) = rest" "physical_bytes (drop_segment q s rest) = physical_bytes q - seg_size s"
  by (simp_all add: drop_segment_def)

lemma reclaim_segments_Cons:
  "segments q = s # rest \<Longrightarrow> reclaim_segments q n =
     (if \<not> seg_sealed s \<or> seg_last s > last_acked q then (q, n, None)
      else if seg_size s > physical_bytes q
        then (q\<lparr>physical_bytes := segment_physical_bytes (segments q)\<rparr>, n, Some ErrAccounting)
      else case fst (io_call q) of
          IoFail k \<Rightarrow> (if k > 0 then (snd (io_call q))\<lparr>files := AList.delete (seg_name s) (files q)\<rparr>
                      else snd (io_call q), n, Some ErrIO)
        | IoOk \<Rightarrow> reclaim_segments (drop_segment q s rest) (n + 1))"
  by (subst reclaim_segments.simps) (simp add: Let_def split_beta drop_segment_def split: io_result.split)

lemma reclaim_segments_frame [simp]:
  "core (fst (reclaim_segments q n)) = core q \<and> counters (fst (reclaim_segments q n)) = counters q
   \<and> repacks (fst (reclaim_segments q n)) = repacks q
   \<and> quarantined_bytes (fst (reclaim_segments q n)) = quarantined_bytes q"
proof (induction "segments q" arbitrary: q n)
  case Nil
  then show ?case by (simp add: reclaim_segments_Nil)
next
  case (Cons s rest)
  then show ?case using Cons.hyps(1) [of "drop_segment q s rest" "n + 1"]
    by (simp add: reclaim_segments_Cons [OF Cons.hyps(2) [symmetric]] split: io_result.split)
qed

lemma reclaim_plans_frame [simp]:
  "core (fst (reclaim_plans ps q c)) = core q \<and> counters (fst (reclaim_plans ps q c)) = counters q
   \<and> quarantined_bytes (fst (reclaim_plans ps q c)) = quarantined_bytes q
   \<and> physical_bytes (fst (reclaim_plans ps q c)) = physical_bytes q
   \<and> segments (fst (reclaim_plans ps q c)) = segments q"
proof (induction ps arbitrary: q c)
  case (Cons x ps)
  then show ?case by (cases x) (simp add: Let_def split_beta split: io_result.split)
qed simp

lemma reclaim_repack_plans_frame [simp]:
  "core (fst (reclaim_repack_plans q)) = core q" "counters (fst (reclaim_repack_plans q)) = counters q"
  "quarantined_bytes (fst (reclaim_repack_plans q)) = quarantined_bytes q"
  "physical_bytes (fst (reclaim_repack_plans q)) = physical_bytes q"
  "segments (fst (reclaim_repack_plans q)) = segments q"
  by (simp_all add: reclaim_repack_plans_def split_beta split: option.split)

lemma reclaim_frame [simp]:
  "core (fst (reclaim q)) = core q" "counters (fst (reclaim q)) = counters q"
  "quarantined_bytes (fst (reclaim q)) = quarantined_bytes q"
  by (simp_all add: reclaim_def Let_def split_beta)

lemma refresh_frame [simp]:
  "core (fst (refresh_quarantine_stats env q)) = core q"
  "counters (fst (refresh_quarantine_stats env q)) = counters q"
  "repacks (fst (refresh_quarantine_stats env q)) = repacks q"
  "segments (fst (refresh_quarantine_stats env q)) = segments q"
  by (simp_all add: refresh_quarantine_stats_def refresh_storage_stats_def Let_def split_beta split: option.split)

lemma reclaim_acked_active_frame [simp]:
  "core (fst (reclaim_acked_active q)) = core q" "counters (fst (reclaim_acked_active q)) = counters q"
  "quarantined_bytes (fst (reclaim_acked_active q)) = quarantined_bytes q"
  by (simp_all add: reclaim_acked_active_def split_beta split: option.split)

lemma ensure_record_capacity_frame [simp]:
  "core (fst (ensure_record_capacity opts env n q)) = core q"
  "counters (fst (ensure_record_capacity opts env n q)) = counters q"
  by (simp_all add: ensure_record_capacity_def Let_def split_beta split: option.split)

lemma prepare_append_frame [simp]:
  "core (fst (prepare_append cd opts env events q)) = core q"
  "counters (fst (prepare_append cd opts env events q)) = counters q"
  by (simp_all add: prepare_append_def Let_def split_beta split: option.split)

lemma sync_record_frame [simp]:
  "core (fst (sync_record opts q)) = core q" "counters (fst (sync_record opts q)) = counters q"
  "repacks (fst (sync_record opts q)) = repacks q" "physical_bytes (fst (sync_record opts q)) = physical_bytes q"
  "quarantined_bytes (fst (sync_record opts q)) = quarantined_bytes q"
  "segments (fst (sync_record opts q)) = segments q"
  by (simp_all add: sync_record_def Let_def split_beta)

lemma persist_meta_frame [simp]:
  "core (fst (persist_meta q)) = core q" "reserved_until (fst (persist_meta q)) = reserved_until q"
  "repacks (fst (persist_meta q)) = repacks q" "segments (fst (persist_meta q)) = segments q"
  "physical_bytes (fst (persist_meta q)) = physical_bytes q"
  "quarantined_bytes (fst (persist_meta q)) = quarantined_bytes q" "files (fst (persist_meta q)) = files q"
  by (simp_all add: persist_meta_def Let_def split_beta counters_eqD [OF io_call_frame(2)] split: io_result.split)

lemma persist_meta_meta:
  "snd (persist_meta q) = None \<Longrightarrow> meta (fst (persist_meta q)) = current_meta q"
  "meta (fst (persist_meta q)) = current_meta q \<or> meta (fst (persist_meta q)) = meta q"
  by (simp_all add: persist_meta_def Let_def split_beta counters_eqD [OF io_call_frame(2)] split: io_result.split_asm io_result.split)

section \<open>The queue invariant\<close>

text \<open>
  The queued sequences increase strictly and lie above the cumulative acknowledgment and below the
  next sequence and the durable counter; the delivery cursor is inside the queue; the byte and event
  totals are the sums over the queue; a reservation is never ahead of the durable counter.
\<close>

definition queue_ok :: "queue \<Rightarrow> bool" where
  "queue_ok q \<longleftrightarrow> sorted_wrt (<) (map desc_seq (unacked q))
     \<and> (\<forall>d \<in> set (unacked q). last_acked q < desc_seq d \<and> desc_seq d < next_seq q \<and> desc_seq d < meta_next (meta q))
     \<and> last_acked q < next_seq q \<and> last_acked q < meta_next (meta q)
     \<and> deliver_idx q \<le> length (unacked q)
     \<and> live_bytes q = sum_list (map desc_size (unacked q))
     \<and> queued_events q = sum_list (map desc_events (unacked q))
     \<and> reserved_until q \<le> meta_next (meta q)"

lemma queue_okD:
  assumes "queue_ok q"
  shows "sorted_wrt (<) (map desc_seq (unacked q))" "last_acked q < next_seq q" "deliver_idx q \<le> length (unacked q)"
    "reserved_until q \<le> meta_next (meta q)" "last_acked q < meta_next (meta q)"
    "d \<in> set (unacked q) \<Longrightarrow> last_acked q < desc_seq d" "d \<in> set (unacked q) \<Longrightarrow> desc_seq d < next_seq q"
    "d \<in> set (unacked q) \<Longrightarrow> desc_seq d < meta_next (meta q)"
    "live_bytes q = sum_list (map desc_size (unacked q))" "queued_events q = sum_list (map desc_events (unacked q))"
  using assms by (simp_all add: queue_ok_def)

lemma queue_ok_cong:
  "core q' = core q \<Longrightarrow> counters q' = counters q \<Longrightarrow> queue_ok q' \<longleftrightarrow> queue_ok q"
  by (simp add: queue_ok_def core_def counters_def)

lemma queue_ok_frame [inv_intros]:
  "queue_ok q \<Longrightarrow> queue_ok (fst (seal_active q))"
  "queue_ok q \<Longrightarrow> queue_ok (fst (reclaim q))"
  "queue_ok q \<Longrightarrow> queue_ok (fst (write_record opts s r q))"
  "queue_ok q \<Longrightarrow> queue_ok (fst (sync_record opts q))"
  "queue_ok q \<Longrightarrow> queue_ok (fst (prepare_append cd opts env events q))"
  by (simp_all cong: queue_ok_cong add: queue_ok_cong [OF seal_active_frame(1,2)] queue_ok_cong [OF reclaim_frame(1,2)]
      queue_ok_cong [OF write_record_frame(1,2)] queue_ok_cong [OF sync_record_frame(1,2)]
      queue_ok_cong [OF prepare_append_frame(1,2)])

lemma u64_succ: "x \<noteq> 0xFFFFFFFFFFFFFFFF \<Longrightarrow> (x :: u64) < x + 1"
proof -
  assume "x \<noteq> 0xFFFFFFFFFFFFFFFF"
  then have "unat x \<noteq> unat (0xFFFFFFFFFFFFFFFF :: u64)" by (metis word_unat_eq_iff)
  then have "unat x + 1 < 2 ^ 64" using unat_u64_less [of x] by simp
  then have "unat (x + 1) = unat x + 1" by (simp add: unat_word_ariths)
  then show ?thesis by (simp add: word_less_nat_alt)
qed

lemma queue_ok_bump:
  assumes "queue_ok q" "next_seq q \<noteq> 0xFFFFFFFFFFFFFFFF"
  shows "queue_ok (q\<lparr>next_seq := next_seq q + 1\<rparr>)"
  using assms u64_succ [OF assms(2)] unfolding queue_ok_def by (auto intro: less_trans)

lemma meta_next_current: "meta_next (current_meta q) = max (next_seq q) (reserved_until q)"
  by (simp add: current_meta_def)

lemma queue_ok_persist [inv_intros]:
  assumes "queue_ok q"
  shows "queue_ok (fst (persist_meta q))"
proof -
  note c = core_eqD [OF persist_meta_frame(1) [of q]]
  show ?thesis
    using persist_meta_meta(2) [of q] assms
    by (auto simp: queue_ok_def c meta_next_current less_max_iff_disj)
qed

lemma reserve_sequences_core [simp]: "core (fst (reserve_sequences opts q)) = core q"
  by (simp add: reserve_sequences_def Let_def split_beta split: option.split)

lemma reserve_sequences_frame [simp]:
  "repacks (fst (reserve_sequences opts q)) = repacks q" "segments (fst (reserve_sequences opts q)) = segments q"
  "physical_bytes (fst (reserve_sequences opts q)) = physical_bytes q"
  "quarantined_bytes (fst (reserve_sequences opts q)) = quarantined_bytes q"
  "files (fst (reserve_sequences opts q)) = files q"
  by (simp_all add: reserve_sequences_def Let_def split_beta split: option.split)

lemma reservation_end:
  fixes n sz :: u64
  shows "n \<le> n + min (sz - 1) (0xFFFFFFFFFFFFFFFF - n)"
proof -
  have "unat (0xFFFFFFFFFFFFFFFF - n) = 18446744073709551615 - unat n"
    using unat_u64_less [of n] by (subst unat_sub) (simp_all add: word_le_nat_alt)
  then have "unat (min (sz - 1) (0xFFFFFFFFFFFFFFFF - n)) \<le> 18446744073709551615 - unat n"
    by (metis min.cobounded2 word_le_nat_alt)
  then have "unat n + unat (min (sz - 1) (0xFFFFFFFFFFFFFFFF - n)) < 2 ^ 64" using unat_u64_less [of n] by simp
  then have "unat (n + min (sz - 1) (0xFFFFFFFFFFFFFFFF - n)) = unat n + unat (min (sz - 1) (0xFFFFFFFFFFFFFFFF - n))"
    by (simp add: unat_word_ariths)
  then show ?thesis by (simp add: word_le_nat_alt)
qed

lemma queue_ok_self: "reserved_until q = r \<Longrightarrow> queue_ok (q\<lparr>reserved_until := r\<rparr>) \<longleftrightarrow> queue_ok q"
  by (simp add: queue_ok_def)

lemma reserve_sequences_ok:
  assumes "queue_ok q"
  shows "queue_ok (fst (reserve_sequences opts q))"
    and "snd (reserve_sequences opts q) = None \<Longrightarrow> next_seq q \<le> meta_next (meta (fst (reserve_sequences opts q)))"
proof -
  let ?r = "next_seq q + min (max 1 (opt_reservation opts) - 1) (0xFFFFFFFFFFFFFFFF - next_seq q)"
  let ?q = "q\<lparr>reserved_until := ?r\<rparr>"
  have q: "core ?q = core q" by simp
  note c = core_eqD [OF persist_meta_frame(1) [of ?q, unfolded q]]
  have m: "meta (fst (persist_meta ?q)) = current_meta ?q \<or> meta (fst (persist_meta ?q)) = meta q"
    using persist_meta_meta(2) [of ?q] by simp
  have mn: "meta_next (current_meta ?q) = max (next_seq q) ?r" by (simp add: current_meta_def)
  have le: "next_seq q \<le> ?r" by (rule reservation_end)
  have ok: "queue_ok ((fst (persist_meta ?q))\<lparr>reserved_until := x\<rparr>)"
    if "x = reserved_until q \<and> x < next_seq q \<or> meta (fst (persist_meta ?q)) = current_meta ?q \<and> x = ?r" for x
  proof -
    define M where "M = meta_next (meta (fst (persist_meta ?q)))"
    have M: "M = max (next_seq q) ?r \<or> M = meta_next (meta q)" using m mn unfolding M_def by metis
    have "x \<le> M"
    proof (rule disjE [OF that])
      assume "x = reserved_until q \<and> x < next_seq q"
      then show ?thesis using M queue_okD(4) [OF assms] by (auto simp: le_max_iff_disj)
    next
      assume "meta (fst (persist_meta ?q)) = current_meta ?q \<and> x = ?r"
      then show ?thesis unfolding M_def by (simp add: mn)
    qed
    then show ?thesis using M assms unfolding queue_ok_def
      by (auto simp: c less_max_iff_disj simp flip: M_def)
  qed
  show "queue_ok (fst (reserve_sequences opts q))"
  proof (cases "next_seq q \<le> reserved_until q")
    case True
    then show ?thesis using assms by (simp add: reserve_sequences_def)
  next
    case False
    show ?thesis
    proof (cases "snd (persist_meta ?q)")
      case None
      have "queue_ok (fst (persist_meta ?q))"
        using ok [of ?r] persist_meta_meta(1) [OF None] queue_ok_self [OF persist_meta_frame(2) [of ?q]] by simp
      then show ?thesis using None False
        by (simp add: reserve_sequences_def Let_def split_beta)
    next
      case (Some e)
      have "queue_ok ((fst (persist_meta ?q))\<lparr>reserved_until := reserved_until q\<rparr>)"
        using ok [of "reserved_until q"] False by (simp add: not_le)
      then show ?thesis using Some False
        by (simp add: reserve_sequences_def Let_def split_beta)
    qed
  qed
  show "next_seq q \<le> meta_next (meta (fst (reserve_sequences opts q)))" if "snd (reserve_sequences opts q) = None"
  proof (cases "next_seq q \<le> reserved_until q")
    case True
    then show ?thesis using queue_okD(4) [OF assms] by (simp add: reserve_sequences_def)
  next
    case False
    then have "snd (persist_meta ?q) = None"
      using that by (simp add: reserve_sequences_def Let_def split_beta split: option.splits)
    then show ?thesis using persist_meta_meta(1) [of ?q] False
      by (simp add: reserve_sequences_def Let_def split_beta mn)
  qed
qed

lemma prepare_append_seq:
  "snd (prepare_append cd opts env events q) = Inr (batch, payload, r) \<Longrightarrow>
     batch_sequence batch = next_seq q \<and> batch_events batch = events \<and> marshal cd batch = Some payload
     \<and> encode_record payload = Some r"
  by (auto simp: prepare_append_def Let_def split_beta new_batch_def split: option.splits if_splits)

text \<open>The ways an append ends: refused, refused after preparation, and the failures and the success after the reservation.\<close>

definition bumped :: "codec \<Rightarrow> wal_options \<Rightarrow> append_env \<Rightarrow> log_event option list \<Rightarrow> queue \<Rightarrow> queue" where
  "bumped cd opts env events q = (fst (prepare_append cd opts env events q))\<lparr>next_seq := next_seq q + 1\<rparr>"

definition reserved_state :: "codec \<Rightarrow> wal_options \<Rightarrow> append_env \<Rightarrow> log_event option list \<Rightarrow> queue \<Rightarrow> queue" where
  "reserved_state cd opts env events q = fst (reserve_sequences opts (bumped cd opts env events q))"

definition enqueue :: "batch_desc \<Rightarrow> queue \<Rightarrow> queue" where
  "enqueue d q = q\<lparr>unacked := unacked q @ [d], live_bytes := live_bytes q + desc_size d,
     queued_events := queued_events q + desc_events d\<rparr>"

lemma append_batch_rule:
  fixes cd opts env events q
  defines "p \<equiv> prepare_append cd opts env events q" and "q2 \<equiv> reserved_state cd opts env events q"
  assumes refused: "\<And>e. P q (Inl e)"
    and unprepared: "\<And>e. snd p = Inl e \<Longrightarrow> P (fst p) (Inl e)"
    and unreserved: "\<And>e batch payload r. snd p = Inr (batch, payload, r) \<Longrightarrow> next_seq q \<noteq> 0xFFFFFFFFFFFFFFFF
       \<Longrightarrow> snd (reserve_sequences opts (bumped cd opts env events q)) = Some e \<Longrightarrow> P (fst (seal_active q2)) (Inl e)"
    and unwritten: "\<And>e batch payload r. snd p = Inr (batch, payload, r) \<Longrightarrow> next_seq q \<noteq> 0xFFFFFFFFFFFFFFFF
       \<Longrightarrow> snd (write_record opts (next_seq q) r q2) = Inl e \<Longrightarrow> P (fst (write_record opts (next_seq q) r q2)) (Inl e)"
    and unsynced: "\<And>e batch payload r. snd p = Inr (batch, payload, r) \<Longrightarrow> next_seq q \<noteq> 0xFFFFFFFFFFFFFFFF
       \<Longrightarrow> isl (snd (write_record opts (next_seq q) r q2)) = False
       \<Longrightarrow> snd (sync_record opts (fst (write_record opts (next_seq q) r q2))) = Some e
       \<Longrightarrow> P (fst (sync_record opts (fst (write_record opts (next_seq q) r q2)))) (Inl e)"
    and finished: "\<And>batch payload r nm off. snd p = Inr (batch, payload, r) \<Longrightarrow> next_seq q \<noteq> 0xFFFFFFFFFFFFFFFF
       \<Longrightarrow> \<not> closed q \<Longrightarrow> snd (reserve_sequences opts (bumped cd opts env events q)) = None
       \<Longrightarrow> snd (write_record opts (next_seq q) r q2) = Inr (nm, off)
       \<Longrightarrow> snd (sync_record opts (fst (write_record opts (next_seq q) r q2))) = None
       \<Longrightarrow> P (enqueue (batch_desc_of batch nm off payload) (fst (sync_record opts (fst (write_record opts (next_seq q) r q2))))) (Inr batch)"
  shows "P (fst (append_batch cd opts env events q)) (snd (append_batch cd opts env events q))"
proof (cases "closed q \<or> sync_err q \<or> next_seq q = 0xFFFFFFFFFFFFFFFF")
  case True
  then show ?thesis using refused by (elim disjE) (simp_all add: append_batch_def)
next
  case False
  show ?thesis
  proof (cases "snd p")
    case (Inl e)
    then show ?thesis using False unprepared by (simp add: append_batch_def split_beta flip: p_def)
  next
    case (Inr x)
    obtain batch payload r where x: "x = (batch, payload, r)" by (cases x)
    have sq: "batch_sequence batch = next_seq q" using prepare_append_seq Inr x unfolding p_def by blast
    let ?w = "write_record opts (next_seq q) r q2"
    have q2: "fst (reserve_sequences opts ((fst p)\<lparr>next_seq := next_seq q + 1\<rparr>)) = q2"
      by (simp add: q2_def reserved_state_def bumped_def p_def)
    note pre = Inr [unfolded x] and ne = False
    show ?thesis
    proof (cases "snd (reserve_sequences opts ((fst p)\<lparr>next_seq := next_seq q + 1\<rparr>))")
      case (Some e)
      then show ?thesis using ne unreserved [OF pre, of e]
        by (simp add: bumped_def append_batch_def split_beta Let_def seal_after_burn_def sq pre q2 flip: p_def)
    next
      case None
      show ?thesis
      proof (cases "snd ?w")
        case (Inl e)
        then show ?thesis using ne None unwritten [OF pre _ Inl]
          by (simp add: append_batch_def split_beta Let_def sq pre q2 flip: p_def)
      next
        case (Inr nmoff)
        obtain nm off where no: "nmoff = (nm, off)" by fastforce
        show ?thesis
        proof (cases "snd (sync_record opts (fst ?w))")
          case (Some e)
          then show ?thesis using ne None Inr no unsynced [OF pre, of e]
            by (simp add: append_batch_def split_beta Let_def sq pre q2 flip: p_def)
        next
          case None': None
          show ?thesis using ne None None' Inr no finished [OF pre _ _ _ _ None', of nm off]
            by (simp add: append_batch_def split_beta Let_def sq pre q2 bumped_def enqueue_def flip: p_def)
        qed
      qed
    qed
  qed
qed

lemma queue_ok_bumped:
  assumes "queue_ok q" "next_seq q \<noteq> 0xFFFFFFFFFFFFFFFF"
  shows "queue_ok (bumped cd opts env events q)" "queue_ok (reserved_state cd opts env events q)"
proof -
  have n: "next_seq (fst (prepare_append cd opts env events q)) = next_seq q"
    by (rule core_eqD(2)) simp
  show b: "queue_ok (bumped cd opts env events q)"
    using queue_ok_bump [of "fst (prepare_append cd opts env events q)"] queue_ok_frame(5) [OF assms(1)] assms(2)
    by (simp add: bumped_def n)
  show "queue_ok (reserved_state cd opts env events q)"
    unfolding reserved_state_def by (rule reserve_sequences_ok(1) [OF b])
qed

lemma queue_ok_enqueue:
  assumes "queue_ok q" "desc_seq d + 1 = next_seq q" "next_seq q \<le> meta_next (meta q)" "desc_seq d < desc_seq d + 1"
    and "\<forall>x \<in> set (unacked q). desc_seq x < desc_seq d" "last_acked q < desc_seq d"
  shows "queue_ok (enqueue d q)"
  using assms unfolding queue_ok_def enqueue_def by (auto simp: sorted_wrt_append)

lemma append_batch_ok [inv_intros]:
  assumes "queue_ok q"
  shows "queue_ok (fst (append_batch cd opts env events q))"
proof (rule append_batch_rule)
  show "queue_ok q" by (rule assms)
  show "queue_ok (fst (prepare_append cd opts env events q))" by (rule queue_ok_frame(5) [OF assms])
  fix batch payload r e nm off
  assume n: "next_seq q \<noteq> 0xFFFFFFFFFFFFFFFF"
  let ?q2 = "reserved_state cd opts env events q"
  note ok2 = queue_ok_bumped(2) [OF assms n]
  show "queue_ok (fst (seal_active ?q2))" "queue_ok (fst (write_record opts (next_seq q) r ?q2))"
    "queue_ok (fst (sync_record opts (fst (write_record opts (next_seq q) r ?q2))))"
    by (intro inv_intros ok2)+
  assume pre: "snd (prepare_append cd opts env events q) = Inr (batch, payload, r)"
    and res: "snd (reserve_sequences opts (bumped cd opts env events q)) = None"
  let ?y = "fst (sync_record opts (fst (write_record opts (next_seq q) r ?q2)))"
  have c: "core ?y = core (bumped cd opts env events q)" "counters ?y = counters ?q2"
    by (simp_all add: reserved_state_def)
  have b: "core (fst (prepare_append cd opts env events q)) = core q" by simp
  have f: "next_seq ?y = next_seq q + 1" "unacked ?y = unacked q" "last_acked ?y = last_acked q"
    using core_eqD [OF c(1)] core_eqD [OF b] by (simp_all add: bumped_def)
  have m: "next_seq q + 1 \<le> meta_next (meta ?y)"
    using reserve_sequences_ok(2) [OF queue_ok_bumped(1) [OF assms n, of cd opts env events] res] counters_eqD [OF c(2)]
    by (simp add: reserved_state_def bumped_def)
  show "queue_ok (enqueue (batch_desc_of batch nm off payload) ?y)"
    using prepare_append_seq [OF pre] queue_okD(2,7) [OF assms] f m u64_succ [OF n]
    by (intro queue_ok_enqueue inv_intros ok2) (auto simp: batch_desc_of_def)
qed

section \<open>Acknowledgment and delivery keep the invariant\<close>

lemma terminal_prefix_append: "unacked q = terminal_prefix q @ drop (length (terminal_prefix q)) (unacked q)"
  unfolding terminal_prefix_def by (metis dropWhile_eq_drop takeWhile_dropWhile_id)

lemma sorted_desc_split:
  assumes "sorted_wrt (<) (map desc_seq (as @ bs))" "as \<noteq> []" "b \<in> set bs"
  shows "desc_seq (last as) < desc_seq b"
  using assms by (auto simp: sorted_wrt_append)

text \<open>The state after the durable mark moved, before segments are reclaimed.\<close>

definition drop_prefix :: "batch_desc list \<Rightarrow> queue \<Rightarrow> queue" where
  "drop_prefix ds q = q\<lparr>
     live_bytes := live_bytes q - sum_list (map desc_size ds),
     queued_events := queued_events q - sum_list (map desc_events ds),
     terminal := terminal q - desc_seq ` set ds,
     unacked := drop (length ds) (unacked q),
     deliver_idx := deliver_idx q - length ds\<rparr>"

lemma advance_terminal_eq:
  "advance_terminal q =
     (let ds = terminal_prefix q; p = persist_meta (q\<lparr>last_acked := desc_seq (last ds)\<rparr>) in
      if ds = [] then (q, None)
      else case snd p of
          Some e \<Rightarrow> ((fst p)\<lparr>last_acked := last_acked q\<rparr>, Some e)
        | None \<Rightarrow> reclaim (drop_prefix ds (fst p)))"
  by (simp add: advance_terminal_def drop_prefix_def Let_def split_beta split: option.split)

lemma queue_ok_advance_mark:
  assumes "queue_ok q" "terminal_prefix q \<noteq> []"
  shows "queue_ok (drop_prefix (terminal_prefix q) (fst (persist_meta (q\<lparr>last_acked := desc_seq (last (terminal_prefix q))\<rparr>))))"
    and "queue_ok ((fst (persist_meta (q\<lparr>last_acked := desc_seq (last (terminal_prefix q))\<rparr>)))\<lparr>last_acked := last_acked q\<rparr>)"
proof -
  define ds rest where "ds = terminal_prefix q" and "rest = drop (length ds) (unacked q)"
  have un: "unacked q = ds @ rest" unfolding ds_def rest_def by (rule terminal_prefix_append)
  let ?q = "q\<lparr>last_acked := desc_seq (last ds)\<rparr>"
  let ?p = "fst (persist_meta ?q)"
  have f: "closed ?p = closed q" "next_seq ?p = next_seq q" "last_acked ?p = desc_seq (last ds)" "unacked ?p = ds @ rest"
    "deliver_idx ?p = deliver_idx q" "live_bytes ?p = live_bytes q" "queued_events ?p = queued_events q"
    "terminal ?p = terminal q" "reserved_until ?p = reserved_until q"
    using core_eqD [OF persist_meta_frame(1) [of ?q]] un by simp_all
  have m: "meta ?p = current_meta ?q \<or> meta ?p = meta q" using persist_meta_meta(2) [of ?q] by simp
  have mn: "meta_next (meta ?p) = max (next_seq q) (reserved_until q) \<or> meta_next (meta ?p) = meta_next (meta q)"
    using m by (auto simp: current_meta_def)
  have lst: "last ds \<in> set (unacked q)" using assms(2) un by (simp add: ds_def)
  have lb: "desc_seq (last ds) < next_seq q" "desc_seq (last ds) < meta_next (meta q)"
    using queue_okD(7,8) [OF assms(1) lst] .
  have srt: "sorted_wrt (<) (map desc_seq (ds @ rest))" using queue_okD(1) [OF assms(1)] un by simp
  have above: "desc_seq (last ds) < desc_seq d" if "d \<in> set rest" for d
    using sorted_desc_split [OF srt _ that] assms(2) by (simp add: ds_def)
  have mid: "desc_seq d < next_seq q \<and> desc_seq d < meta_next (meta q)" if "d \<in> set (ds @ rest)" for d
    using queue_okD(7,8) [OF assms(1)] that un by auto
  have "deliver_idx q - length ds \<le> length rest"
    using queue_okD(3) [OF assms(1)] un by simp
  then show "queue_ok (drop_prefix (terminal_prefix q) (fst (persist_meta (q\<lparr>last_acked := desc_seq (last (terminal_prefix q))\<rparr>))))"
    unfolding ds_def [symmetric] queue_ok_def drop_prefix_def
    using srt mn above mid lb queue_okD(4,9,10) [OF assms(1)] un
    by (auto simp: f sorted_wrt_append less_max_iff_disj le_max_iff_disj)
  show "queue_ok ((fst (persist_meta (q\<lparr>last_acked := desc_seq (last (terminal_prefix q))\<rparr>)))\<lparr>last_acked := last_acked q\<rparr>)"
    unfolding ds_def [symmetric] queue_ok_def
    using srt mn mid queue_okD(2,3,4,5,6,9,10) [OF assms(1)] un
    by (auto simp: f less_max_iff_disj le_max_iff_disj)
qed

lemma queue_ok_terminal [simp]: "queue_ok (q\<lparr>terminal := x\<rparr>) \<longleftrightarrow> queue_ok q"
  by (simp add: queue_ok_def)

lemma advance_terminal_ok [inv_intros]:
  assumes "queue_ok q"
  shows "queue_ok (fst (advance_terminal q))"
  using assms queue_ok_advance_mark [OF assms] queue_ok_frame(2)
  by (simp add: advance_terminal_eq Let_def split: option.split)

lemma ack_queue_ok [inv_intros]: "queue_ok q \<Longrightarrow> queue_ok (fst (ack s q))"
  by (simp add: ack_def Let_def advance_terminal_ok)

lemma ack_through_queue_ok [inv_intros]: "queue_ok q \<Longrightarrow> queue_ok (fst (ack_through s q))"
  by (simp add: ack_through_def Let_def advance_terminal_ok)

lemma next_deliverable_idx: "snd (next_deliverable q ds i) \<le> i + length ds \<and> i \<le> snd (next_deliverable q ds i)"
  by (induction q ds i rule: next_deliverable.induct) auto

lemma next_batch_queue_ok [inv_intros]:
  assumes "queue_ok q"
  shows "queue_ok (fst (next_batch cd q))"
proof -
  let ?n = "next_deliverable q (drop (deliver_idx q) (unacked q)) (deliver_idx q)"
  have "snd ?n \<le> length (unacked q)"
    using next_deliverable_idx [of q "drop (deliver_idx q) (unacked q)" "deliver_idx q"] queue_okD(3) [OF assms] by simp
  then have "queue_ok (q\<lparr>deliver_idx := snd ?n\<rparr>)" using assms by (simp add: queue_ok_def)
  then show ?thesis using assms by (simp add: next_batch_def split_beta split: option.split)
qed

lemma rewind_queue_ok [inv_intros]: "queue_ok q \<Longrightarrow> queue_ok (rewind q)"
  by (simp add: rewind_def queue_ok_def)

lemma close_queue_ok [inv_intros]:
  assumes "queue_ok q"
  shows "queue_ok (fst (close_queue q))"
proof -
  have "queue_ok (q\<lparr>closed := True\<rparr>)" using assms by (simp add: queue_ok_def)
  then show ?thesis using assms queue_ok_frame(1) by (simp add: close_queue_def)
qed

lemma sync_tick_queue_ok [inv_intros]:
  assumes "queue_ok q"
  shows "queue_ok (sync_tick q)"
proof -
  have "core (sync_tick q) = core q" "counters (sync_tick q) = counters q"
    by (simp_all add: sync_tick_def Let_def split_beta)
  then show ?thesis using assms queue_ok_cong by blast
qed

section \<open>Capacity and refusals\<close>

lemma exceeds_iff:
  "\<not> exceeds_byte_limit cur add lim \<longleftrightarrow> unat cur + unat add \<le> unat lim"
proof (cases "cur \<le> lim")
  case True
  then have "unat (lim - cur) = unat lim - unat cur" "unat cur \<le> unat lim" by (simp_all add: unat_sub word_le_nat_alt)
  then show ?thesis using True by (auto simp: exceeds_byte_limit_def word_less_nat_alt not_less)
next
  case False
  then show ?thesis by (auto simp: exceeds_byte_limit_def word_less_nat_alt word_le_nat_alt)
qed

lemma storage_bytes_nat: "unat (storage_bytes q) = min (unat (physical_bytes q) + unat (quarantined_bytes q)) 18446744073709551615"
proof -
  have s: "unat (0xFFFFFFFFFFFFFFFF - physical_bytes q) = 18446744073709551615 - unat (physical_bytes q)"
    using unat_u64_less [of "physical_bytes q"] by (subst unat_sub) (simp_all add: word_le_nat_alt)
  show ?thesis
  proof (cases "quarantined_bytes q > 0xFFFFFFFFFFFFFFFF - physical_bytes q")
    case True
    then show ?thesis using s by (simp add: storage_bytes_def word_less_nat_alt)
  next
    case False
    then have le: "unat (physical_bytes q) + unat (quarantined_bytes q) \<le> 18446744073709551615"
      using s unat_u64_less [of "physical_bytes q"] by (simp add: word_less_nat_alt)
    then have "unat (physical_bytes q + quarantined_bytes q) = unat (physical_bytes q) + unat (quarantined_bytes q)"
      by (simp add: unat_word_ariths)
    then show ?thesis using False le by (simp add: storage_bytes_def)
  qed
qed

lemma ensure_room:
  assumes "snd (ensure_record_capacity opts env n q) = None" "opt_max_queue_bytes opts \<noteq> 0"
  shows "\<not> exceeds_byte_limit (storage_bytes (fst (ensure_record_capacity opts env n q))) n (opt_max_queue_bytes opts)"
  using assms by (auto simp: ensure_record_capacity_def Let_def split_beta split: if_splits option.splits)

lemma prepare_room:
  assumes "snd (prepare_append cd opts env events q) = Inr (batch, payload, r)" "opt_max_queue_bytes opts \<noteq> 0"
  shows "\<not> exceeds_byte_limit (storage_bytes (fst (prepare_append cd opts env events q))) (of_nat (length r)) (opt_max_queue_bytes opts)"
proof -
  obtain digest where d: "compute_event_ids_digest events = Some digest"
    using assms(1) by (auto simp: prepare_append_def split: option.splits)
  define sz where "sz = batch_size cd (new_batch cd opts env (next_seq q) events digest)"
  define e1 where "e1 = ensure_record_capacity opts env (8 + of_int sz) q"
  define e2 where "e2 = (if int (length payload) \<noteq> sz then ensure_record_capacity opts env (8 + of_nat (length payload)) (fst e1)
    else (fst e1, None))"
  have pre: "encode_record payload = Some r" "snd e1 = None" "snd e2 = None"
      "fst (prepare_append cd opts env events q) = fst e2"
    using assms(1) by (auto simp: prepare_append_def Let_def split_beta d e1_def e2_def sz_def split: if_splits option.splits)
  have r: "of_nat (length r) = (8 + of_nat (length payload) :: u64)"
    using pre(1) by (auto simp: encode_record_def split: if_splits)
  have e1: "\<not> exceeds_byte_limit (storage_bytes (fst e1)) (8 + of_int sz) (opt_max_queue_bytes opts)"
    using ensure_room [OF _ assms(2)] pre(2) unfolding e1_def by blast
  show ?thesis
  proof (cases "int (length payload) = sz")
    case True
    then have "(8 + of_int sz :: u64) = of_nat (length r)" using r by (metis of_int_of_nat_eq)
    then show ?thesis using e1 True by (simp add: pre(4) e2_def)
  next
    case False
    then show ?thesis using ensure_room [OF _ assms(2), of env _ "fst e1"] pre(3)
      unfolding pre(4) e2_def r by simp
  qed
qed

lemma io_errors:
  "snd (persist_meta q) = Some e \<Longrightarrow> e = ErrIO" "snd (reserve_sequences opts q) = Some e \<Longrightarrow> e = ErrIO"
  "snd (sync_record opts q) = Some e \<Longrightarrow> e = ErrIO" "snd (seal_active q) = Some e \<Longrightarrow> e = ErrIO"
  "snd (open_active s q) = Some e \<Longrightarrow> e = ErrIO" "snd (write_record opts s r q) = Inl e \<Longrightarrow> e = ErrIO"
proof -
  show p: "snd (persist_meta q) = Some e \<Longrightarrow> e = ErrIO" for q
    by (simp add: persist_meta_def Let_def split_beta split: io_result.splits)
  show "snd (reserve_sequences opts q) = Some e \<Longrightarrow> e = ErrIO"
    using p by (simp add: reserve_sequences_def Let_def split_beta split: option.splits if_splits)
  show "snd (sync_record opts q) = Some e \<Longrightarrow> e = ErrIO"
    by (simp add: sync_record_def Let_def split_beta split: if_splits)
  show s: "snd (seal_active q) = Some e \<Longrightarrow> e = ErrIO" for q
    by (simp add: seal_active_def Let_def split_beta split: if_splits)
  show o: "snd (open_active s q) = Some e \<Longrightarrow> e = ErrIO" for s q
    by (simp add: open_active_def Let_def split_beta split: if_splits io_result.splits)
  show "snd (write_record opts s r q) = Inl e \<Longrightarrow> e = ErrIO"
    using s o by (simp add: write_record_def Let_def split_beta split: if_splits option.splits io_result.splits)
qed

end
