(* ===== verification/Wal_Ack.thy ===== *)
theory Wal_Ack
  imports Wal_Queue
begin

text \<open>
  Acknowledgments of the queue of \<open>internal/collector/wal/queue.go\<close>: when a repacked parent is terminal, and
  that the preview computed by \<open>PrepareAck\<close> is what the acknowledgment then does.
\<close>

section \<open>Parents of repacked batches\<close>

text \<open>
  A parent is terminal only when its children are; and a child is queued until the cumulative mark
  passes it.  The flag \<open>b\<close> allows for a plan that was recorded but not installed because writing it
  failed: its children lie above everything queued.
\<close>

definition children_of :: "queue \<Rightarrow> u64 \<Rightarrow> u64 set" where
  "children_of q p = (case map_of (repacks q) p of None \<Rightarrow> {} | Some plan \<Rightarrow> child_seq ` set (plan_children plan))"

definition accounted :: "bool \<Rightarrow> queue \<Rightarrow> u64 \<Rightarrow> bool" where
  "accounted b q k \<longleftrightarrow> k \<le> last_acked q \<or> k \<in> desc_seq ` set (unacked q)
     \<or> b \<and> (\<forall>d \<in> set (unacked q). desc_seq d < k)"

definition repack_ok :: "bool \<Rightarrow> queue \<Rightarrow> bool" where
  "repack_ok b q \<longleftrightarrow>
     (\<forall>p k. p \<in> terminal q \<longrightarrow> k \<in> children_of q p \<longrightarrow> k \<in> terminal q \<or> k \<le> last_acked q)
     \<and> (\<forall>p k. k \<in> children_of q p \<longrightarrow> accounted b q k)"

lemma accounted_core:
  assumes "core q' = core q"
  shows "accounted b q' k = accounted b q k"
  unfolding accounted_def core_eqD(3,4) [OF assms] by simp

lemma accounted_drop:
  assumes "accounted b q k" "unacked q = ds @ unacked q'" "last_acked q \<le> last_acked q'"
    and "k \<in> desc_seq ` set ds \<Longrightarrow> k \<le> last_acked q'"
  shows "accounted b q' k"
  using assms unfolding accounted_def by (auto intro: order_trans)

lemma has_sequence_iff:
  "sorted_wrt (<) (map desc_seq ds) \<Longrightarrow> has_sequence s ds \<longleftrightarrow> s \<in> desc_seq ` set ds"
proof (induction ds)
  case (Cons d ds)
  then show ?case by (cases "s < desc_seq d") (auto dest: less_asym)
qed simp

lemma child_done_iff:
  "child_done q s cumulative completed c \<longleftrightarrow>
     child_seq c \<in> terminal q \<union> completed \<or> child_seq c \<le> last_acked q
     \<or> \<not> is_parent q (child_seq c) \<and> (child_seq c = s \<or> cumulative \<and> child_seq c \<le> s)"
  by (auto simp: child_done_def Let_def)

lemma child_done_mono: "completed \<subseteq> completed' \<Longrightarrow> child_done q s cumulative completed c \<Longrightarrow> child_done q s cumulative completed' c"
  by (auto simp: child_done_iff)

lemma complete_parents_mono: "completed \<subseteq> complete_parents q s cumulative ps completed"
proof (induction ps arbitrary: completed)
  case (Cons a ps)
  from Cons [of completed] Cons [of "insert a completed"] show ?case by auto
qed simp

lemma complete_parents_sub: "complete_parents q s cumulative ps completed \<subseteq> set ps \<union> completed"
proof (induction ps arbitrary: completed)
  case (Cons p ps)
  from Cons [of completed] Cons [of "insert p completed"] show ?case by auto
qed simp

lemma complete_parents_children:
  assumes "p \<in> complete_parents q s cumulative ps completed" "p \<notin> completed"
  shows "list_all (child_done q s cumulative (complete_parents q s cumulative ps completed)) (plan_children (the (map_of (repacks q) p)))"
  using assms
proof (induction ps arbitrary: completed)
  case (Cons a ps)
  let ?c = "if list_all (child_done q s cumulative completed) (plan_children (the (map_of (repacks q) a)))
        then insert a completed else completed"
  show ?case
  proof (cases "p \<in> ?c")
    case True
    then have "p = a" "list_all (child_done q s cumulative completed) (plan_children (the (map_of (repacks q) a)))"
      using Cons.prems(2) by (auto split: if_splits)
    moreover have "completed \<subseteq> complete_parents q s cumulative (a # ps) completed" by (rule complete_parents_mono)
    ultimately show ?thesis using child_done_mono by (metis (mono_tags, lifting) list.pred_mono_strong)
  next
    case False
    then show ?thesis using Cons.IH [of ?c] Cons.prems(1) by simp
  qed
qed simp

lemma complete_parents_complete:
  assumes "p \<in> set ps" "list_all (child_done q s cumulative {}) (plan_children (the (map_of (repacks q) p)))"
  shows "p \<in> complete_parents q s cumulative ps completed"
  using assms(1)
proof (induction ps arbitrary: completed)
  case (Cons a ps)
  show ?case
  proof (cases "a = p")
    case True
    then have "list_all (child_done q s cumulative completed) (plan_children (the (map_of (repacks q) a)))"
      using assms(2) child_done_mono by (metis (mono_tags, lifting) empty_subsetI list.pred_mono_strong)
    then show ?thesis using True complete_parents_mono [of "insert a completed" q s cumulative ps] by auto
  next
    case False
    then show ?thesis using Cons by simp
  qed
qed simp

lemma repack_terminal_parents_parent:
  "p \<in> repack_terminal_parents q s cumulative \<Longrightarrow> is_parent q p"
  using complete_parents_sub [of q s cumulative "rev (sort (map fst (repacks q)))" "{}"]
  by (auto simp: repack_terminal_parents_def is_parent_def map_of_eq_None_iff)

lemma parent_children:
  "is_parent q p \<Longrightarrow> children_of q p = child_seq ` set (plan_children (the (map_of (repacks q) p)))"
  by (auto simp: is_parent_def children_of_def)

lemma repack_terminal_parents_children:
  assumes "p \<in> repack_terminal_parents q s cumulative" "k \<in> children_of q p"
  shows "k \<in> terminal q \<union> repack_terminal_parents q s cumulative \<or> k \<le> last_acked q
     \<or> \<not> is_parent q k \<and> (k = s \<or> cumulative \<and> k \<le> s)"
proof -
  have "list_all (child_done q s cumulative (repack_terminal_parents q s cumulative))
      (plan_children (the (map_of (repacks q) p)))"
    using complete_parents_children [of p q s cumulative _ "{}"] assms(1)
    by (simp add: repack_terminal_parents_def)
  moreover have "k \<in> child_seq ` set (plan_children (the (map_of (repacks q) p)))"
    using assms(2) parent_children [OF repack_terminal_parents_parent [OF assms(1)]] by simp
  ultimately show ?thesis by (auto simp: list_all_iff child_done_iff)
qed

lemma terminal_parent_completed:
  assumes "repack_ok b q" "p \<in> terminal q" "is_parent q p"
  shows "p \<in> repack_terminal_parents q s cumulative"
  unfolding repack_terminal_parents_def
proof (rule complete_parents_complete)
  show "p \<in> set (rev (sort (map fst (repacks q))))"
    using assms(3) by (auto simp: is_parent_def map_of_eq_None_iff)
  have "child_seq c \<in> terminal q \<or> child_seq c \<le> last_acked q"
    if "c \<in> set (plan_children (the (map_of (repacks q) p)))" for c
  proof -
    have "child_seq c \<in> children_of q p" using that by (simp add: parent_children [OF assms(3)])
    then show ?thesis using assms(1,2) unfolding repack_ok_def by blast
  qed
  then show "list_all (child_done q s cumulative {}) (plan_children (the (map_of (repacks q) p)))"
    by (auto simp: list_all_iff child_done_iff)
qed

lemma children_of_cong: "repacks q' = repacks q \<Longrightarrow> children_of q' p = children_of q p"
  by (simp add: children_of_def)

lemma is_parent_cong: "repacks q' = repacks q \<Longrightarrow> is_parent q' p = is_parent q p"
  by (simp add: is_parent_def)

lemma complete_parents_cong:
  assumes "repacks q' = repacks q" "\<And>c completed. child_done q' s cumulative completed c = child_done q s cumulative completed c"
  shows "complete_parents q' s cumulative ps completed = complete_parents q s cumulative ps completed"
proof -
  have "child_done q' s cumulative completed = child_done q s cumulative completed" for completed
    using assms(2) by (intro ext)
  then show ?thesis using assms(1) by (induction ps arbitrary: completed) simp_all
qed

text \<open>Terminal markers that the hypothesis of the acknowledgment already covers change nothing.\<close>

lemma repack_terminal_parents_insert:
  assumes "\<And>k. k \<in> T \<Longrightarrow> k \<in> terminal q \<or> \<not> is_parent q k \<and> (k = s \<or> cumulative \<and> k \<le> s)" "terminal q \<subseteq> T"
  shows "repack_terminal_parents (q\<lparr>terminal := T\<rparr>) s cumulative = repack_terminal_parents q s cumulative"
proof -
  have "child_done (q\<lparr>terminal := T\<rparr>) s cumulative completed c = child_done q s cumulative completed c" for completed c
    using assms by (auto simp: child_done_iff is_parent_def)
  then show ?thesis using complete_parents_cong [of "q\<lparr>terminal := T\<rparr>" q] by (simp add: repack_terminal_parents_def)
qed

section \<open>The preview of an acknowledgment\<close>

text \<open>What an acknowledgment adds to the terminal set, exact or cumulative.\<close>

definition ack_terminal :: "u64 \<Rightarrow> bool \<Rightarrow> queue \<Rightarrow> u64 set" where
  "ack_terminal s cumulative q =
     terminal q \<union> {k \<in> desc_seq ` set (unacked q). \<not> is_parent q k \<and> (k = s \<or> cumulative \<and> k \<le> s)}
     \<union> repack_terminal_parents q s cumulative"

definition acknowledge :: "u64 \<Rightarrow> bool \<Rightarrow> queue \<Rightarrow> queue \<times> wal_error option" where
  "acknowledge s cumulative q = (if cumulative then ack_through s q else ack s q)"

lemma sorted_takeWhile_le:
  "sorted_wrt (<) (map desc_seq ds) \<Longrightarrow> desc_seq ` set (takeWhile (\<lambda>d. desc_seq d \<le> s) ds) = {k \<in> desc_seq ` set ds. k \<le> s}"
proof (induction ds)
  case (Cons d ds)
  then show ?case by (cases "desc_seq d \<le> s") (auto simp: not_le dest: less_trans)
qed simp

lemma acknowledge_eq:
  assumes "queue_ok q"
  shows "acknowledge s cumulative q =
     (if closed q then (q, Some ErrClosed)
      else if s \<le> last_acked q then (q, None)
      else if s \<notin> desc_seq ` set (unacked q) then (q, Some ErrInvalidAck)
      else if is_parent q s then (q, Some ErrInvalidAck)
      else advance_terminal (q\<lparr>terminal := ack_terminal s cumulative q\<rparr>))"
proof -
  note srt = queue_okD(1) [OF assms]
  have hs: "has_sequence s (unacked q) \<longleftrightarrow> s \<in> desc_seq ` set (unacked q)" by (rule has_sequence_iff [OF srt])
  have cov: "desc_seq ` set (takeWhile (\<lambda>d. desc_seq d \<le> s) (unacked q)) = {k \<in> desc_seq ` set (unacked q). k \<le> s}"
    by (rule sorted_takeWhile_le [OF srt])
  have 1: "insert s (terminal q) \<union> repack_terminal_parents (q\<lparr>terminal := insert s (terminal q)\<rparr>) s False
      = ack_terminal s False q" if "s \<in> desc_seq ` set (unacked q)" "\<not> is_parent q s"
    using repack_terminal_parents_insert [of "insert s (terminal q)" q s False] that
    by (auto simp: ack_terminal_def)
  let ?T = "terminal q \<union> {k \<in> desc_seq ` set (takeWhile (\<lambda>d. desc_seq d \<le> s) (unacked q)). \<not> is_parent q k}"
  have 2: "?T \<union> repack_terminal_parents (q\<lparr>terminal := ?T\<rparr>) s True = ack_terminal s True q"
    if "s \<in> desc_seq ` set (unacked q)" "\<not> is_parent q s"
  proof -
    have "repack_terminal_parents (q\<lparr>terminal := ?T\<rparr>) s True = repack_terminal_parents q s True"
      by (rule repack_terminal_parents_insert) (auto simp: cov)
    then show ?thesis using that by (auto simp: ack_terminal_def cov)
  qed
  show ?thesis
    using 1 2 by (auto simp: acknowledge_def ack_def ack_through_def Let_def hs)
qed

lemma hypothetical_is_actual:
  assumes "queue_ok q" "repack_ok b q" "\<not> is_parent q s" "d \<in> set (unacked q)"
  shows "hypothetically_terminal q s cumulative (repack_terminal_parents q s cumulative) d
    \<longleftrightarrow> desc_seq d \<in> ack_terminal s cumulative q"
  using assms terminal_parent_completed [OF assms(2)] repack_terminal_parents_parent [of "desc_seq d" q s cumulative]
  by (auto simp: hypothetically_terminal_def Let_def ack_terminal_def)

lemma takeWhile_cong_set: "(\<And>x. x \<in> set xs \<Longrightarrow> P x = Q x) \<Longrightarrow> takeWhile P xs = takeWhile Q xs"
  by (induction xs) auto

lemma advance_terminal_effect:
  fixes q :: queue
  defines "ds \<equiv> terminal_prefix q" and "r \<equiv> advance_terminal q"
  shows "unacked q = ds @ unacked (fst r) \<and> last_acked (fst r) = (if ds = [] then last_acked q else desc_seq (last ds))
       \<and> terminal (fst r) = terminal q - desc_seq ` set ds
     \<or> snd r \<noteq> None \<and> unacked (fst r) = unacked q \<and> last_acked (fst r) = last_acked q \<and> terminal (fst r) = terminal q"
proof (cases "ds = []")
  case True
  then show ?thesis by (simp add: r_def advance_terminal_eq Let_def flip: ds_def)
next
  case False
  let ?p = "persist_meta (q\<lparr>last_acked := desc_seq (last ds)\<rparr>)"
  note f = core_eqD [OF persist_meta_frame(1) [of "q\<lparr>last_acked := desc_seq (last ds)\<rparr>"]]
  show ?thesis
  proof (cases "snd ?p")
    case None
    then have "fst r = fst (reclaim (drop_prefix ds (fst ?p)))"
      using False by (simp add: r_def advance_terminal_eq Let_def flip: ds_def)
    then have c: "core (fst r) = core (drop_prefix ds (fst ?p))" by simp
    have "unacked q = ds @ drop (length ds) (unacked q)" unfolding ds_def by (rule terminal_prefix_append)
    then show ?thesis using core_eqD [OF c] False by (simp add: drop_prefix_def f)
  next
    case (Some e)
    then show ?thesis using False by (simp add: r_def advance_terminal_eq Let_def f flip: ds_def)
  qed
qed

lemma prepare_ack_predicts:
  fixes q :: queue and s :: u64 and cumulative :: bool
  assumes "queue_ok q" "repack_ok b q" "prepare_ack_plan s cumulative q = Inr plan"
  defines "r \<equiv> acknowledge s cumulative q"
  shows "(\<exists>ds. unacked q = ds @ unacked (fst r)
       \<and> plan = \<lparr>plan_through_seq = (if ds = [] then 0 else desc_seq (last ds)), plan_batch_count = of_nat (length ds),
            plan_mark_groups = filter (\<lambda>ms. ms \<noteq> []) (map desc_marks ds)\<rparr>
       \<and> last_acked (fst r) = (if ds = [] then last_acked q else plan_through_seq plan))
     \<or> snd r \<noteq> None \<and> unacked (fst r) = unacked q \<and> last_acked (fst r) = last_acked q"
proof -
  have hs: "has_sequence s (unacked q) \<longleftrightarrow> s \<in> desc_seq ` set (unacked q)"
    by (rule has_sequence_iff [OF queue_okD(1) [OF assms(1)]])
  show ?thesis
  proof (cases "s \<le> last_acked q")
    case True
    then have "plan = \<lparr>plan_through_seq = 0, plan_batch_count = 0, plan_mark_groups = []\<rparr>" "fst r = q"
      using assms(3) by (simp_all add: prepare_ack_plan_def Let_def r_def acknowledge_eq [OF assms(1)] split: if_splits)
    then show ?thesis by (intro disjI1 exI [of _ "[]"]) simp
  next
    case False
    let ?H = "hypothetically_terminal q s cumulative (repack_terminal_parents q s cumulative)"
    have g: "\<not> closed q" "s \<in> desc_seq ` set (unacked q)" "\<not> is_parent q s"
      and plan: "plan = \<lparr>plan_through_seq = (if takeWhile ?H (unacked q) = [] then 0 else desc_seq (last (takeWhile ?H (unacked q)))),
          plan_batch_count = of_nat (length (takeWhile ?H (unacked q))),
          plan_mark_groups = filter (\<lambda>ms. ms \<noteq> []) (map desc_marks (takeWhile ?H (unacked q)))\<rparr>"
      using assms(3) False by (simp_all add: prepare_ack_plan_def Let_def hs split: if_splits)
    let ?q = "q\<lparr>terminal := ack_terminal s cumulative q\<rparr>"
    have "takeWhile ?H (unacked q) = terminal_prefix ?q"
      using hypothetical_is_actual [OF assms(1,2) g(3)] by (simp add: terminal_prefix_def cong: takeWhile_cong)
    then have plan': "plan = \<lparr>plan_through_seq = (if terminal_prefix ?q = [] then 0 else desc_seq (last (terminal_prefix ?q))),
          plan_batch_count = of_nat (length (terminal_prefix ?q)),
          plan_mark_groups = filter (\<lambda>ms. ms \<noteq> []) (map desc_marks (terminal_prefix ?q))\<rparr>"
      using plan by simp
    have r: "r = advance_terminal ?q" using g False by (simp add: r_def acknowledge_eq [OF assms(1)])
    show ?thesis
      using advance_terminal_effect [of ?q] unfolding r by (auto simp: plan')
  qed
qed

section \<open>The parents' invariant is kept\<close>

lemma children_of_subset:
  "map_of (repacks q') \<subseteq>\<^sub>m map_of (repacks q) \<Longrightarrow> children_of q' p \<subseteq> children_of q p"
  by (auto simp: children_of_def map_le_def dom_def split: option.splits)

lemma reclaim_plans_repacks: "map_of (repacks (fst (reclaim_plans ps q c))) \<subseteq>\<^sub>m map_of (repacks q)"
proof (induction ps arbitrary: q c)
  case (Cons x ps)
  obtain p plan where x: "x = (p, plan)" by fastforce
  let ?d = "(snd (io_call q))\<lparr>manifests := AList.delete p (manifests (snd (io_call q))), repacks := AList.delete p (repacks q)\<rparr>"
  have "map_of (repacks ?d) \<subseteq>\<^sub>m map_of (repacks q)" by (simp add: map_le_def delete_conv')
  then have "map_of (repacks (fst (reclaim_plans ps ?d True))) \<subseteq>\<^sub>m map_of (repacks q)"
    using Cons.IH [of ?d True] map_le_trans by blast
  then show ?case using Cons.IH [of q c] by (simp add: x Let_def split_beta split: io_result.split)
qed simp

lemma reclaim_repacks: "map_of (repacks (fst (reclaim q))) \<subseteq>\<^sub>m map_of (repacks q)"
proof -
  have 1: "map_of (repacks (fst (reclaim_repack_plans q))) \<subseteq>\<^sub>m map_of (repacks q)" for q
    using reclaim_plans_repacks [of "repacks q" q False]
    by (simp add: reclaim_repack_plans_def split_beta split: option.split)
  show ?thesis
    using 1 [of "snd (io_call (fst (reclaim_segments q 0)))"] 1 [of "fst (reclaim_segments q 0)"]
    by (simp add: reclaim_def Let_def split_beta)
qed

lemma repack_ok_shrink:
  assumes "repack_ok b q" "map_of (repacks q') \<subseteq>\<^sub>m map_of (repacks q)" "core q' = core q"
  shows "repack_ok b q'"
proof -
  have c: "k \<in> children_of q p" if "k \<in> children_of q' p" for k p using children_of_subset [OF assms(2)] that by blast
  note e = core_eqD(3,4,8) [OF assms(3)]
  show ?thesis
    unfolding repack_ok_def e
  proof (intro conjI allI impI)
    fix p k
    show "p \<in> terminal q \<Longrightarrow> k \<in> children_of q' p \<Longrightarrow> k \<in> terminal q \<or> k \<le> last_acked q"
      using assms(1) c [of k p] unfolding repack_ok_def by blast
    show "k \<in> children_of q' p \<Longrightarrow> accounted b q' k"
      using assms(1) c [of k p] accounted_core [OF assms(3)] unfolding repack_ok_def by blast
  qed
qed

lemma repack_ok_frame [inv_intros]:
  "repack_ok b q \<Longrightarrow> repack_ok b (fst (seal_active q))"
  "repack_ok b q \<Longrightarrow> repack_ok b (fst (reclaim q))"
  "repack_ok b q \<Longrightarrow> repack_ok b (fst (write_record opts s r q))"
  "repack_ok b q \<Longrightarrow> repack_ok b (fst (sync_record opts q))"
  "repack_ok b q \<Longrightarrow> repack_ok b (fst (reserve_sequences opts q))"
  "repack_ok b q \<Longrightarrow> repack_ok b (fst (persist_meta q))"
  by (erule repack_ok_shrink; simp add: reclaim_repacks)+

lemma ensure_repacks: "map_of (repacks (fst (ensure_record_capacity opts env n q))) \<subseteq>\<^sub>m map_of (repacks q)"
proof -
  have 1: "map_of (repacks (fst (reclaim_acked_active q))) \<subseteq>\<^sub>m map_of (repacks q)" for q
    using reclaim_repacks [of "fst (seal_active q)"]
    by (simp add: reclaim_acked_active_def split_beta split: option.split)
  show ?thesis
    using 1 [of q] 1 [of "fst (refresh_quarantine_stats env q)"]
    by (simp add: ensure_record_capacity_def Let_def split_beta split: option.split)
qed

lemma prepare_append_ok [inv_intros]:
  assumes "repack_ok b q"
  shows "repack_ok b (fst (prepare_append cd opts env events q))"
proof -
  have e: "repack_ok b q \<Longrightarrow> repack_ok b (fst (ensure_record_capacity opts env n q))" for n q
    by (erule repack_ok_shrink) (simp_all add: ensure_repacks)
  show ?thesis using assms e
    by (simp add: prepare_append_def Let_def split_beta split: option.split)
qed

lemma repack_ok_next_seq [simp]: "repack_ok b (q\<lparr>next_seq := n\<rparr>) \<longleftrightarrow> repack_ok b q"
  by (simp add: repack_ok_def children_of_def accounted_def)

lemma repack_ok_enqueue: "repack_ok False q \<Longrightarrow> repack_ok False (enqueue d q)"
  by (auto simp: repack_ok_def accounted_def enqueue_def children_of_def)

lemma append_batch_repack_ok [inv_intros]:
  assumes "repack_ok False q"
  shows "repack_ok False (fst (append_batch cd opts env events q))"
proof -
  have 2: "repack_ok False (reserved_state cd opts env events q)"
    unfolding reserved_state_def bumped_def by (intro inv_intros) (simp add: prepare_append_ok assms)
  show ?thesis by (rule append_batch_rule) (intro assms 2 inv_intros repack_ok_enqueue)+
qed

lemma advance_terminal_repack_ok [inv_intros]:
  assumes "repack_ok b q" "queue_ok q"
  shows "repack_ok b (fst (advance_terminal q))"
proof -
  let ?ds = "terminal_prefix q" and ?r = "advance_terminal q"
  let ?p = "persist_meta (q\<lparr>last_acked := desc_seq (last ?ds)\<rparr>)"
  have sub: "map_of (repacks (fst ?r)) \<subseteq>\<^sub>m map_of (repacks q)"
    using reclaim_repacks [of "drop_prefix ?ds (fst ?p)"]
    by (simp add: advance_terminal_eq Let_def drop_prefix_def split: option.split)
  have c: "k \<in> children_of (fst ?r) p \<Longrightarrow> k \<in> children_of q p" for k p using children_of_subset [OF sub] by blast
  have le: "desc_seq d \<le> desc_seq (last ?ds)" if "d \<in> set ?ds" for d
  proof -
    have "sorted_wrt (<) (map desc_seq ?ds)"
      using queue_okD(1) [OF assms(2)] by (subst (asm) terminal_prefix_append) (simp add: sorted_wrt_append)
    then show ?thesis using that
      by (cases ?ds rule: rev_cases) (auto simp: sorted_wrt_append intro: less_imp_le)
  qed
  have lt: "last_acked q \<le> desc_seq (last ?ds)" if "?ds \<noteq> []"
  proof -
    have "last ?ds \<in> set (unacked q)"
      using last_in_set [OF that] unfolding terminal_prefix_def by (blast dest: set_takeWhileD)
    then show ?thesis using queue_okD(6) [OF assms(2)] by (simp add: less_imp_le)
  qed
  have p1: "k \<in> terminal q \<or> k \<le> last_acked q" if "p \<in> terminal q" "k \<in> children_of q p" for p k
    using assms(1) that unfolding repack_ok_def by blast
  have p2: "accounted b q k" if "k \<in> children_of q p" for p k
    using assms(1) that unfolding repack_ok_def by blast
  show ?thesis
    using advance_terminal_effect [of q]
  proof (elim disjE conjE)
    assume un: "unacked q = ?ds @ unacked (fst ?r)"
      and la: "last_acked (fst ?r) = (if ?ds = [] then last_acked q else desc_seq (last ?ds))"
      and te: "terminal (fst ?r) = terminal q - desc_seq ` set ?ds"
    have mono: "last_acked q \<le> last_acked (fst ?r)" using la lt by auto
    have rem: "k \<le> last_acked (fst ?r)" if "k \<in> desc_seq ` set ?ds" for k
      using that le la by auto
    show ?thesis
      unfolding repack_ok_def te
    proof (intro conjI allI impI)
      fix p k assume "p \<in> terminal q - desc_seq ` set ?ds" "k \<in> children_of (fst ?r) p"
      then have "k \<in> terminal q \<or> k \<le> last_acked q" using p1 [of p k] c [of k p] by blast
      then show "k \<in> terminal q - desc_seq ` set ?ds \<or> k \<le> last_acked (fst ?r)" using rem mono by auto
    next
      fix p k assume "k \<in> children_of (fst ?r) p"
      then have "accounted b q k" using p2 [of k p] c [of k p] by blast
      then show "accounted b (fst ?r) k" by (rule accounted_drop [OF _ un mono rem])
    qed
  next
    assume same: "unacked (fst ?r) = unacked q" "last_acked (fst ?r) = last_acked q" "terminal (fst ?r) = terminal q"
    show ?thesis
      unfolding repack_ok_def same
    proof (intro conjI allI impI)
      fix p k
      show "p \<in> terminal q \<Longrightarrow> k \<in> children_of (fst ?r) p \<Longrightarrow> k \<in> terminal q \<or> k \<le> last_acked q"
        using p1 [of p k] c [of k p] by blast
      show "k \<in> children_of (fst ?r) p \<Longrightarrow> accounted b (fst ?r) k"
        using p2 [of k p] c [of k p] same(1,2) by (simp add: accounted_def)
    qed
  qed
qed

lemma acknowledge_repack_ok [inv_intros]:
  assumes "repack_ok b q" "queue_ok q"
  shows "repack_ok b (fst (acknowledge s cumulative q))"
proof -
  let ?q = "q\<lparr>terminal := ack_terminal s cumulative q\<rparr>"
  have "repack_ok b ?q" if s: "s \<in> desc_seq ` set (unacked q)"
    unfolding repack_ok_def
  proof (intro conjI allI impI)
    fix p k assume p: "p \<in> terminal ?q" and k: "k \<in> children_of ?q p"
    have k': "k \<in> children_of q p" using k by (simp add: children_of_def)
    then have par: "is_parent q p" by (auto simp: children_of_def is_parent_def split: option.splits)
    have pres: "accounted b q k" using assms(1) k' unfolding repack_ok_def by blast
    have "p \<in> terminal q \<or> p \<in> repack_terminal_parents q s cumulative"
      using p par by (auto simp: ack_terminal_def)
    then show "k \<in> terminal ?q \<or> k \<le> last_acked ?q"
    proof
      assume "p \<in> terminal q"
      then show ?thesis using assms(1) k' unfolding repack_ok_def by (auto simp: ack_terminal_def)
    next
      assume "p \<in> repack_terminal_parents q s cumulative"
      from repack_terminal_parents_children [OF this k'] pres s show ?thesis by (auto simp: ack_terminal_def accounted_def)
    qed
  next
    fix p k assume "k \<in> children_of ?q p"
    then have "k \<in> children_of q p" by (simp add: children_of_def)
    then show "accounted b ?q k"
      using assms(1) unfolding repack_ok_def by (auto simp: accounted_def)
  qed
  then show ?thesis using assms advance_terminal_repack_ok [of b ?q] by (simp add: acknowledge_eq)
qed

end
