(* ===== verification/Wal_Disk.thy ===== *)
theory Wal_Disk
  imports Wal_Ack
begin

text \<open>
  The queue and the segment files it owns: every queued descriptor points at an intact record of a listed
  segment, and every operation of \<open>internal/collector/wal/queue.go\<close> keeps it so.
\<close>

section \<open>Every queued batch stays readable\<close>

text \<open>
  The descriptors point at intact records of segment files that are still listed, no listed segment
  shares a name, every file belongs to a sequence that was allocated, and the active file holds
  exactly the bytes the queue counted.
\<close>

definition readable :: "codec \<Rightarrow> (string \<times> bytes) list \<Rightarrow> batch_desc \<Rightarrow> bool" where
  "readable cd fs d \<longleftrightarrow> (\<exists>data b. map_of fs (desc_seg d) = Some data
     \<and> read_record_payload cd data (desc_off d) (desc_len d) (desc_crc d) = Some b
     \<and> (case desc_repacked d of
          None \<Rightarrow> batch_sequence b = desc_seq d
        | Some c \<Rightarrow> child_seq c = desc_seq d \<and> 0 \<le> child_start c \<and> child_start c < child_end c
            \<and> child_end c \<le> int (length (batch_events b))))"

definition disk_ok :: "codec \<Rightarrow> u64 \<Rightarrow> queue \<Rightarrow> bool" where
  "disk_ok cd bound q \<longleftrightarrow>
     (\<forall>d \<in> set (unacked q). readable cd (files q) d)
     \<and> (\<forall>d \<in> set (unacked q). \<exists>s \<in> set (segments q). seg_name s = desc_seg d \<and> desc_seq d \<le> seg_last s)
     \<and> distinct (map seg_name (segments q))
     \<and> (\<forall>s \<in> set (segments q). \<exists>k < bound. seg_name s = segment_name k)
     \<and> (\<forall>k. segment_name k \<in> dom (map_of (files q)) \<longrightarrow> k < bound)
     \<and> (active_open q \<longrightarrow> segments q \<noteq> [] \<and>
          (\<exists>data. map_of (files q) (seg_name (last (segments q))) = Some data \<and> length data = active_size q))
     \<and> (\<forall>s \<in> set (segments q). seg_last s < bound)"

lemma read_append:
  assumes "read_record_payload cd data off len crc = Some b"
  shows "read_record_payload cd (data @ extra) off len crc = Some b"
proof -
  have "unat len \<le> length (drop off data)"
    using assms by (auto simp: read_record_payload_def Let_def split: if_splits)
  then have t: "take (unat len) (drop off (data @ extra)) = take (unat len) (drop off data)"
    by (cases "off \<le> length data") simp_all
  show ?thesis using assms unfolding read_record_payload_def t .
qed

lemma readable_append_file:
  assumes "readable cd (files q) d"
  shows "readable cd (files (append_file n extra q)) d"
  using assms read_append unfolding readable_def
  by (fastforce simp: append_file_def update_conv)

lemma readable_delete: "readable cd fs d \<Longrightarrow> desc_seg d \<noteq> n \<Longrightarrow> readable cd (AList.delete n fs) d"
  by (auto simp: readable_def delete_conv)

lemma segment_name_inj: "segment_name a = segment_name b \<longleftrightarrow> a = b"
  by (metis option.inject parse_segment_name_eq)

lemma disk_okD:
  assumes "disk_ok cd n q"
  shows "d \<in> set (unacked q) \<Longrightarrow> readable cd (files q) d"
    and "d \<in> set (unacked q) \<Longrightarrow> \<exists>s \<in> set (segments q). seg_name s = desc_seg d \<and> desc_seq d \<le> seg_last s"
    and "distinct (map seg_name (segments q))"
    and "s \<in> set (segments q) \<Longrightarrow> \<exists>k < n. seg_name s = segment_name k"
    and "segment_name k \<in> dom (map_of (files q)) \<Longrightarrow> k < n"
    and "active_open q \<Longrightarrow> segments q \<noteq> [] \<and>
          (\<exists>data. map_of (files q) (seg_name (last (segments q))) = Some data \<and> length data = active_size q)"
    and "s \<in> set (segments q) \<Longrightarrow> seg_last s < n"
  using assms unfolding disk_ok_def by blast+

text \<open>Steps that touch neither the queue nor the disk.\<close>

lemma disk_ok_cong:
  assumes "unacked q' = unacked q" "files q' = files q" "segments q' = segments q" "active_open q' = active_open q"
    "active_size q' = active_size q"
  shows "disk_ok cd n q' \<longleftrightarrow> disk_ok cd n q"
  by (simp add: disk_ok_def assms)

lemma disk_ok_mono: "disk_ok cd n q \<Longrightarrow> n \<le> m \<Longrightarrow> disk_ok cd m q"
  unfolding disk_ok_def by (meson less_le_trans)

lemma update_last_sealed:
  "map seg_name (update_last (\<lambda>s. s\<lparr>seg_sealed := b\<rparr>) xs) = map seg_name xs"
  "map seg_last (update_last (\<lambda>s. s\<lparr>seg_sealed := b\<rparr>) xs) = map seg_last xs"
  by (cases xs rule: rev_cases; simp add: update_last_def)+

text \<open>The invariant sees a segment only through its name and its last sequence.\<close>

definition seg_view :: "queue \<Rightarrow> (string \<times> u64) list" where
  "seg_view q = map (\<lambda>s. (seg_name s, seg_last s)) (segments q)"

lemma disk_ok_view:
  "disk_ok cd bound q \<longleftrightarrow>
     (\<forall>d \<in> set (unacked q). readable cd (files q) d)
     \<and> (\<forall>d \<in> set (unacked q). \<exists>l. (desc_seg d, l) \<in> set (seg_view q) \<and> desc_seq d \<le> l)
     \<and> distinct (map fst (seg_view q))
     \<and> (\<forall>(n, l) \<in> set (seg_view q). (\<exists>k < bound. n = segment_name k) \<and> l < bound)
     \<and> (\<forall>k. segment_name k \<in> dom (map_of (files q)) \<longrightarrow> k < bound)
     \<and> (active_open q \<longrightarrow> seg_view q \<noteq> [] \<and>
          (\<exists>data. map_of (files q) (fst (last (seg_view q))) = Some data \<and> length data = active_size q))"
proof -
  have 1: "(\<exists>s \<in> set (segments q). seg_name s = n \<and> x \<le> seg_last s) \<longleftrightarrow> (\<exists>l. (n, l) \<in> set (seg_view q) \<and> x \<le> l)" for n x
    by (auto simp: seg_view_def)
  have 2: "map seg_name (segments q) = map fst (seg_view q)" by (simp add: seg_view_def comp_def)
  have 3: "seg_view q \<noteq> [] \<Longrightarrow> fst (last (seg_view q)) = seg_name (last (segments q))" "seg_view q = [] \<longleftrightarrow> segments q = []"
    by (auto simp: seg_view_def last_map)
  show ?thesis
    unfolding disk_ok_def 1 2 using 3 by (auto simp: seg_view_def)
qed

lemma seg_view_io [simp]: "seg_view (snd (io_call q)) = seg_view q"
  by (simp add: seg_view_def)

lemma seal_active_view [simp]:
  "seg_view (fst (seal_active q)) = seg_view q" "active_open (fst (seal_active q)) = False"
proof -
  have u: "map (\<lambda>s. (seg_name s, seg_last s)) (update_last (\<lambda>s. s\<lparr>seg_sealed := True\<rparr>) xs) = map (\<lambda>s. (seg_name s, seg_last s)) xs" for xs
    by (cases xs rule: rev_cases) (simp_all add: update_last_def)
  show "seg_view (fst (seal_active q)) = seg_view q" "active_open (fst (seal_active q)) = False"
    by (simp_all add: seal_active_def Let_def split_beta seg_view_def u)
qed

lemma disk_ok_seal [inv_intros]: "disk_ok cd n q \<Longrightarrow> disk_ok cd n (fst (seal_active q))"
  using core_eqD(4) [OF seal_active_frame(1) [of q]] unfolding disk_ok_view by simp


lemma disk_ok_reserve [inv_intros]: "disk_ok cd n q \<Longrightarrow> disk_ok cd n (fst (reserve_sequences opts q))"
proof -
  have "active_open (fst (reserve_sequences opts q)) = active_open q" "active_size (fst (reserve_sequences opts q)) = active_size q"
    by (simp_all add: reserve_sequences_def persist_meta_def Let_def split_beta split: option.split io_result.split)
  then show "disk_ok cd n q \<Longrightarrow> disk_ok cd n (fst (reserve_sequences opts q))"
    using core_eqD(4) [OF reserve_sequences_core [of opts q]] by (simp add: disk_ok_def)
qed

lemma disk_ok_create:
  assumes "disk_ok cd n q" "n \<le> k" "k < m"
  shows "disk_ok cd m (create_file (segment_name k) q)"
    and "map_of (files (create_file (segment_name k) q)) (segment_name k) = Some []"
proof -
  have fresh: "map_of (files q) (segment_name k) = None"
    using disk_okD(5) [OF assms(1), of k] assms(2) by (metis domIff not_le)
  have r: "readable cd (files q) d \<Longrightarrow> readable cd (AList.update (segment_name k) [] (files q)) d" for d
    using fresh by (auto simp: readable_def update_conv')
  show "map_of (files (create_file (segment_name k) q)) (segment_name k) = Some []"
    using fresh by (simp add: create_file_def update_conv')
  have a: "map_of (AList.update (segment_name k) [] (files q)) nm = Some data"
    if "map_of (files q) nm = Some data" for nm data
    using that fresh by (auto simp: update_conv')
  have v: "seg_view (create_file (segment_name k) q) = seg_view q" "unacked (create_file (segment_name k) q) = unacked q"
    "active_open (create_file (segment_name k) q) = active_open q" "active_size (create_file (segment_name k) q) = active_size q"
    "files (create_file (segment_name k) q) = AList.update (segment_name k) [] (files q)"
    using fresh by (simp_all add: create_file_def seg_view_def)
  show "disk_ok cd m (create_file (segment_name k) q)"
    using disk_ok_mono [OF assms(1) less_imp_le [OF le_less_trans [OF assms(2,3)]]] assms(3) r a fresh
    unfolding disk_ok_view v by (auto simp: update_conv' segment_name_inj)
qed

lemma open_active_ok:
  assumes "disk_ok cd n q" "n \<le> k" "k < m" "\<not> active_open q"
  shows "disk_ok cd m (fst (open_active k q))"
    and "snd (open_active k q) = None \<Longrightarrow> active_open (fst (open_active k q))"
proof -
  let ?c = "create_file (segment_name k) (snd (io_call q))"
  have io: "disk_ok cd n (snd (io_call q))" "disk_ok cd m (snd (io_call q))"
    using assms(1) disk_ok_mono [OF assms(1) less_imp_le [OF le_less_trans [OF assms(2,3)]]]
      core_eqD(4) [OF io_call_frame(1) [of q]]
    by (simp_all add: disk_ok_view)
  note c = disk_ok_create [OF io(1) assms(2,3)]
  have io2: "disk_ok cd m (snd (io_call ?c))"
    using c(1) core_eqD(4) [OF io_call_frame(1) [of ?c]] by (simp add: disk_ok_view)
  have new: "segment_name k \<notin> fst ` set (seg_view (snd (io_call ?c)))"
  proof
    assume "segment_name k \<in> fst ` set (seg_view (snd (io_call ?c)))"
    then have "segment_name k \<in> fst ` set (seg_view q)" by (simp add: seg_view_def)
    then obtain s where "s \<in> set (segments q)" "seg_name s = segment_name k" by (auto simp: seg_view_def)
    then show False using disk_okD(4) [OF assms(1)] assms(2) by (metis not_le segment_name_inj)
  qed
  let ?o = "(snd (io_call ?c))\<lparr>segments := segments (snd (io_call ?c)) @ [\<lparr>seg_name = segment_name k, seg_first = k, seg_last = k,
      seg_sealed = False, seg_size = 0\<rparr>], active_open := True, active_size := 0, active_dirty := False\<rparr>"
  have v: "seg_view ?o = seg_view (snd (io_call ?c)) @ [(segment_name k, k)]" "unacked ?o = unacked (snd (io_call ?c))"
    "files ?o = files (snd (io_call ?c))" "active_open ?o" "active_size ?o = 0"
    by (simp_all add: seg_view_def)
  have "disk_ok cd m ?o"
    using io2 new assms(3) c(2) unfolding disk_ok_view v
    by (auto simp: segment_name_inj)
  then show "disk_ok cd m (fst (open_active k q))"
    using io io2 c(1) by (simp add: open_active_def Let_def split_beta split: io_result.split)
  show "snd (open_active k q) = None \<Longrightarrow> active_open (fst (open_active k q))"
    by (simp add: open_active_def Let_def split_beta split: io_result.splits if_splits)
qed

lemma view_last_written:
  "xs \<noteq> [] \<Longrightarrow> map (\<lambda>s. (seg_name s, seg_last s)) (update_last (\<lambda>s. s\<lparr>seg_last := k, seg_size := f s\<rparr>) xs)
     = butlast (map (\<lambda>s. (seg_name s, seg_last s)) xs) @ [(seg_name (last xs), k)]"
  by (cases xs rule: rev_cases) (simp_all add: update_last_def)

lemma files_append_file: "map_of (files (append_file nm x q)) = (map_of (files q))(nm \<mapsto> case_option [] id (map_of (files q) nm) @ x)"
  by (simp add: append_file_def update_conv')

lemma disk_ok_append_closed:
  assumes "disk_ok cd n q" "map_of (files q) nm = Some data"
  shows "disk_ok cd n (fst (seal_active (append_file nm x q)))"
proof -
  have f: "files (fst (seal_active (append_file nm x q))) = files (append_file nm x q)" by simp
  have u: "unacked (fst (seal_active (append_file nm x q))) = unacked q"
    using core_eqD(4) [OF seal_active_frame(1) [of "append_file nm x q"]] core_eqD(4) [OF append_file_frame(1) [of nm x q]] by simp
  have v: "seg_view (fst (seal_active (append_file nm x q))) = seg_view q" by (simp add: seg_view_def [of "append_file nm x q"]) (simp add: seg_view_def)
  have d: "dom (map_of (files (append_file nm x q))) = dom (map_of (files q))"
    using assms(2) by (auto simp: files_append_file)
  show ?thesis
    using assms(1) readable_append_file [of cd q _ nm x] unfolding disk_ok_view f u v d by auto
qed

lemma disk_ok_append_open:
  fixes q :: queue and x :: bytes and ph :: u64 and f :: "seg_info \<Rightarrow> u64" and k n :: u64
  assumes "disk_ok cd n q" "active_open q" "k < n"
    and "\<forall>d \<in> set (unacked q). desc_seq d \<le> k"
  defines "nm \<equiv> seg_name (last (segments q))"
  defines "q' \<equiv> (append_file nm x q)\<lparr>active_size := active_size q + length x, physical_bytes := ph, active_dirty := True,
      segments := update_last (\<lambda>s. s\<lparr>seg_last := k, seg_size := f s\<rparr>) (segments q)\<rparr>"
  shows "disk_ok cd n q'" and "\<exists>data. map_of (files q') nm = Some (data @ x) \<and> length data = active_size q"
    and "(nm, k) \<in> set (seg_view q')"
proof -
  obtain data where data: "segments q \<noteq> []" "map_of (files q) nm = Some data" "length data = active_size q"
    using disk_okD(6) [OF assms(1,2)] unfolding nm_def by blast
  obtain segs sg where sg: "segments q = segs @ [sg]" using data(1) by (metis append_butlast_last_id)
  define vs where "vs = map (\<lambda>s. (seg_name s, seg_last s)) segs"
  have vq: "seg_view q = vs @ [(nm, seg_last sg)]" and vq': "seg_view q' = vs @ [(nm, k)]"
    using sg by (simp_all add: q'_def seg_view_def view_last_written nm_def vs_def)
  have u: "unacked q' = unacked q" "active_open q' = active_open q" "active_size q' = active_size q + length x"
    using core_eqD(4) [OF append_file_frame(1) [of nm x q]] by (simp_all add: q'_def append_file_def)
  have fl: "map_of (files q') = (map_of (files q))(nm \<mapsto> data @ x)"
    using files_append_file [of nm x q] data(2) by (simp add: q'_def)
  have d: "dom (map_of (files q')) = dom (map_of (files q))" using data(2) fl by auto
  have r: "readable cd (files q) d \<Longrightarrow> readable cd (files q') d" for d
    using readable_append_file [of cd q d nm x] by (simp add: q'_def)
  have dist: "distinct (map fst (seg_view q'))"
    using assms(1) unfolding disk_ok_view vq vq' by simp
  have mem: "\<exists>l'. (s, l') \<in> set (seg_view q') \<and> y \<le> l'" if "(s, l) \<in> set (seg_view q)" "y \<le> l" "y \<le> k" for s l y
    using that unfolding vq vq' by auto
  have names: "\<forall>(s, l) \<in> set (seg_view q'). (\<exists>k < n. s = segment_name k) \<and> l < n"
    using assms(1,3) unfolding disk_ok_view vq vq' by auto
  show "disk_ok cd n q'"
    unfolding disk_ok_view u(1) d
  proof (intro conjI)
    show "\<forall>d \<in> set (unacked q). readable cd (files q') d" using r disk_okD(1) [OF assms(1)] by blast
    show "\<forall>d \<in> set (unacked q). \<exists>l. (desc_seg d, l) \<in> set (seg_view q') \<and> desc_seq d \<le> l"
      using assms(1,4) mem unfolding disk_ok_view by blast
    show "\<forall>k. segment_name k \<in> dom (map_of (files q)) \<longrightarrow> k < n" using disk_okD(5) [OF assms(1)] by blast
    show "active_open q' \<longrightarrow> seg_view q' \<noteq> [] \<and>
          (\<exists>data. map_of (files q') (fst (last (seg_view q'))) = Some data \<and> length data = active_size q')"
      using vq' fl data(3) u(3) by simp
  qed (fact dist names)+
  show "\<exists>data. map_of (files q') nm = Some (data @ x) \<and> length data = active_size q" using fl data(3) by simp
  show "(nm, k) \<in> set (seg_view q')" using vq' by simp
qed

lemma write_record_ok:
  assumes "disk_ok cd n q" "n \<le> k" "k < m" "\<forall>d \<in> set (unacked q). desc_seq d \<le> k"
  shows "disk_ok cd m (fst (write_record opts k r q))"
    and "snd (write_record opts k r q) = Inr (nm, off) \<Longrightarrow>
       \<exists>data. map_of (files (fst (write_record opts k r q))) nm = Some (data @ r) \<and> off = length data + 8
         \<and> (nm, k) \<in> set (seg_view (fst (write_record opts k r q)))"
proof -
  define p1 where "p1 = (if active_open q \<and> active_size q > 0 \<and> rotate_at_limit opts (active_size q) (length r)
                      then seal_active q else (q, None))"
  define p2 where "p2 = (if \<not> active_open (fst p1) then open_active k (fst p1) else (fst p1, None))"
  define q3 where "q3 = snd (io_call (fst p2))"
  have ok1: "disk_ok cd n (fst p1)" using assms(1) disk_ok_seal by (simp add: p1_def)
  have u1: "unacked (fst p1) = unacked q" using core_eqD(4) [OF seal_active_frame(1) [of q]] by (simp add: p1_def)
  have ok2: "disk_ok cd m (fst p2)"
    using open_active_ok(1) [OF ok1 assms(2,3)] disk_ok_mono [OF ok1 less_imp_le [OF le_less_trans [OF assms(2,3)]]]
    by (simp add: p2_def)
  have u2: "unacked (fst p2) = unacked q"
    using core_eqD(4) [OF open_active_frame(1) [of k "fst p1"]] u1 by (simp add: p2_def)
  have op2: "active_open (fst p2)" if "snd p2 = None"
    using open_active_ok(2) [OF ok1 assms(2,3)] that by (auto simp: p2_def split: if_splits)
  have ok3: "disk_ok cd m q3" and u3: "unacked q3 = unacked q"
    using ok2 u2 core_eqD(4) [OF io_call_frame(1) [of "fst p2"]] by (simp_all add: q3_def disk_ok_view)
  have eq: "write_record opts k r q =
     (case snd p1 of Some e \<Rightarrow> (fst p1, Inl e) | None \<Rightarrow>
       (case snd p2 of Some e \<Rightarrow> (fst p2, Inl e) | None \<Rightarrow>
         (let nm = seg_name (last (segments q3)) in
          case fst (io_call (fst p2)) of
            IoFail n \<Rightarrow> ((fst (seal_active (append_file nm (take n r) q3)))\<lparr>sync_err := True\<rparr>, Inl ErrIO)
          | IoOk \<Rightarrow> ((append_file nm r q3)\<lparr>active_size := active_size q3 + length r,
                physical_bytes := physical_bytes q3 + of_nat (length r), active_dirty := True,
                segments := update_last (\<lambda>s. s\<lparr>seg_last := k, seg_size := seg_size s + of_nat (length r)\<rparr>) (segments q3)\<rparr>,
              Inr (nm, active_size q3 + 8)))))"
    by (simp add: write_record_def p1_def p2_def q3_def Let_def split_beta split: option.split io_result.split)
  have se: "disk_ok cd m (x\<lparr>sync_err := True\<rparr>) = disk_ok cd m x" for x by (rule disk_ok_cong) simp_all
  have u4: "\<forall>d \<in> set (unacked q3). desc_seq d \<le> k" using assms(4) u3 by simp
  show "disk_ok cd m (fst (write_record opts k r q))"
  proof (cases "snd p1 = None \<and> snd p2 = None")
    case True
    then have op3: "active_open q3" using op2 by (simp add: q3_def)
    note fl = disk_okD(6) [OF ok3 op3]
    show ?thesis
    proof (cases "fst (io_call (fst p2))")
      case IoOk
      then show ?thesis using True disk_ok_append_open(1) [OF ok3 op3 assms(3) u4] by (simp add: eq Let_def)
    next
      case (IoFail n)
      then show ?thesis using True fl disk_ok_append_closed [OF ok3] by (auto simp: eq Let_def se)
    qed
  next
    case False
    then show ?thesis
      using ok2 disk_ok_mono [OF ok1 less_imp_le [OF le_less_trans [OF assms(2,3)]]]
      by (cases "snd p1"; cases "snd p2") (simp_all add: eq)
  qed
  assume "snd (write_record opts k r q) = Inr (nm, off)"
  then have g: "snd p1 = None" "snd p2 = None" "fst (io_call (fst p2)) = IoOk" "nm = seg_name (last (segments q3))"
      "off = active_size q3 + 8"
    by (simp_all add: eq Let_def split: option.splits io_result.splits)
  then have op3: "active_open q3" using op2 by (simp add: q3_def)
  show "\<exists>data. map_of (files (fst (write_record opts k r q))) nm = Some (data @ r) \<and> off = length data + 8
         \<and> (nm, k) \<in> set (seg_view (fst (write_record opts k r q)))"
    using disk_ok_append_open(2,3) [OF ok3 op3 assms(3) u4, where x = r] g by (auto simp: eq Let_def)
qed

text \<open>The open segment is the last one and is not sealed, so reclamation never reaches it.\<close>

definition active_unsealed :: "queue \<Rightarrow> bool" where
  "active_unsealed q \<longleftrightarrow> (active_open q \<longrightarrow> segments q \<noteq> [] \<and> \<not> seg_sealed (last (segments q)))"

lemma active_unsealed_cong:
  "active_open q' = active_open q \<Longrightarrow> segments q' = segments q \<Longrightarrow> active_unsealed q' = active_unsealed q"
  by (simp add: active_unsealed_def)

lemma active_unsealed_closed: "\<not> active_open q \<Longrightarrow> active_unsealed q"
  by (simp add: active_unsealed_def)

lemma active_unsealed_seal [inv_intros, simp]: "active_unsealed (fst (seal_active q))"
  by (simp add: active_unsealed_closed)

lemma active_unsealed_open:
  assumes "active_unsealed q"
  shows "active_unsealed (fst (open_active k q))"
proof -
  have c: "active_open (create_file nm x) = active_open x" for nm x by (simp add: create_file_def)
  show ?thesis using assms
    by (simp add: open_active_def Let_def split_beta active_unsealed_def c split: io_result.split)
qed

lemma active_unsealed_written:
  "active_unsealed q \<Longrightarrow> active_unsealed ((append_file nm x q)\<lparr>active_size := sz, physical_bytes := ph, active_dirty := True,
      segments := update_last (\<lambda>s. s\<lparr>seg_last := k, seg_size := f s\<rparr>) (segments q)\<rparr>)"
  by (auto simp: active_unsealed_def update_last_def append_file_def)

lemma active_unsealed_write [inv_intros]:
  assumes "active_unsealed q"
  shows "active_unsealed (fst (write_record opts k r q))"
proof -
  define p1 where "p1 = (if active_open q \<and> active_size q > 0 \<and> rotate_at_limit opts (active_size q) (length r)
                      then seal_active q else (q, None))"
  define p2 where "p2 = (if \<not> active_open (fst p1) then open_active k (fst p1) else (fst p1, None))"
  define q3 where "q3 = snd (io_call (fst p2))"
  have 1: "active_unsealed (fst p1)" using assms by (simp add: p1_def)
  have 2: "active_unsealed (fst p2)" using 1 by (simp add: p2_def active_unsealed_open)
  have 3: "active_unsealed q3" using 2 by (simp add: q3_def active_unsealed_def)
  have s: "active_unsealed (x\<lparr>sync_err := True\<rparr>) = active_unsealed x" for x by (simp add: active_unsealed_def)
  show ?thesis
    using 1 2 3 active_unsealed_written [OF 3]
    by (simp add: write_record_def Let_def split_beta s flip: p1_def p2_def q3_def split: option.split io_result.split)
qed

lemma io_call_open: "active_open (snd (io_call q)) = active_open q" by simp

lemma sync_record_frame2 [simp]:
  "active_open (fst (sync_record opts q)) = active_open q" "active_size (fst (sync_record opts q)) = active_size q"
  "files (fst (sync_record opts q)) = files q"
  by (simp_all add: sync_record_def Let_def split_beta)

lemma persist_meta_frame2 [simp]:
  "active_open (fst (persist_meta q)) = active_open q" "active_size (fst (persist_meta q)) = active_size q"
  by (simp_all add: persist_meta_def Let_def split_beta split: io_result.split)

lemma reserve_sequences_frame2 [simp]:
  "active_open (fst (reserve_sequences opts q)) = active_open q" "active_size (fst (reserve_sequences opts q)) = active_size q"
  by (simp_all add: reserve_sequences_def Let_def split_beta split: option.split)

lemma refresh_frame2 [simp]:
  "active_open (fst (refresh_quarantine_stats env q)) = active_open q"
  "active_size (fst (refresh_quarantine_stats env q)) = active_size q"
  "files (fst (refresh_quarantine_stats env q)) = files q"
  by (simp_all add: refresh_quarantine_stats_def refresh_storage_stats_def Let_def split_beta split: option.split)

lemma reclaim_plans_frame2:
  "active_open (fst (reclaim_plans ps q c)) = active_open q \<and> active_size (fst (reclaim_plans ps q c)) = active_size q
   \<and> files (fst (reclaim_plans ps q c)) = files q"
proof (induction ps arbitrary: q c)
  case (Cons x ps)
  then show ?case by (cases x) (simp add: Let_def split_beta split: io_result.split)
qed simp

lemma reclaim_repack_plans_frame2 [simp]:
  "active_open (fst (reclaim_repack_plans q)) = active_open q" "active_size (fst (reclaim_repack_plans q)) = active_size q"
  "files (fst (reclaim_repack_plans q)) = files q"
  by (simp_all add: reclaim_repack_plans_def split_beta reclaim_plans_frame2 split: option.split)

text \<open>What reclamation relies on: nothing queued is at or below the cumulative mark.\<close>

definition above_mark :: "queue \<Rightarrow> bool" where
  "above_mark q \<longleftrightarrow> (\<forall>d \<in> set (unacked q). last_acked q < desc_seq d)"

lemma above_mark_queue_ok: "queue_ok q \<Longrightarrow> above_mark q"
  by (simp add: above_mark_def queue_ok_def)

lemma above_mark_cong: "core q' = core q \<Longrightarrow> above_mark q' = above_mark q"
  by (simp add: above_mark_def core_def)

definition disk_inv :: "codec \<Rightarrow> u64 \<Rightarrow> queue \<Rightarrow> bool" where
  "disk_inv cd n q \<longleftrightarrow> disk_ok cd n q \<and> active_unsealed q"

lemma disk_inv_cong:
  assumes "unacked q' = unacked q" "files q' = files q" "segments q' = segments q" "active_open q' = active_open q"
    "active_size q' = active_size q"
  shows "disk_inv cd n q' \<longleftrightarrow> disk_inv cd n q"
  using disk_ok_cong [OF assms] active_unsealed_cong [OF assms(4,3)] by (simp add: disk_inv_def)

lemma disk_inv_drop:
  assumes "disk_inv cd n q" "above_mark q" "segments q = s # rest" "seg_sealed s" "seg_last s \<le> last_acked q"
    and "unacked q' = unacked q" "files q' = AList.delete (seg_name s) (files q)" "segments q' = segments q \<or> segments q' = rest"
    and "active_open q' = active_open q" "active_size q' = active_size q"
  shows "disk_inv cd n q'"
proof -
  have ok: "disk_ok cd n q" and un: "active_unsealed q" using assms(1) by (simp_all add: disk_inv_def)
  have dist: "distinct (map seg_name (s # rest))" using disk_okD(3) [OF ok] assms(3) by simp
  have lst: "rest \<noteq> []" if "active_open q" using un that assms(3,4) by (auto simp: active_unsealed_def)
  have ln: "seg_name (last rest) \<noteq> seg_name s" if "rest \<noteq> []"
    using dist imageI [OF last_in_set [OF that], of seg_name] by auto
  have seg: "\<exists>x \<in> set rest. seg_name x = desc_seg d \<and> desc_seq d \<le> seg_last x \<and> desc_seg d \<noteq> seg_name s"
    if d: "d \<in> set (unacked q)" for d
  proof -
    obtain x where x: "x \<in> set (s # rest)" "seg_name x = desc_seg d" "desc_seq d \<le> seg_last x"
      using disk_okD(2) [OF ok d] assms(3) by auto
    have "last_acked q < desc_seq d" using assms(2) d by (simp add: above_mark_def)
    then have "x \<noteq> s" using x(3) assms(5) by auto
    then have "x \<in> set rest" using x(1) by simp
    moreover have "seg_name x \<noteq> seg_name s" using dist imageI [OF \<open>x \<in> set rest\<close>, of seg_name] by auto
    ultimately show ?thesis using x by auto
  qed
  have sub: "set rest \<subseteq> set (segments q')" "set (segments q') \<subseteq> set (segments q)" using assms(3,8) by auto
  have lq: "last (segments q') = last rest" "segments q' \<noteq> []" if "rest \<noteq> []" using assms(3,8) that by auto
  have "disk_ok cd n q'"
    unfolding disk_ok_def assms(6,7,9,10)
  proof (intro conjI)
    show "\<forall>d \<in> set (unacked q). readable cd (AList.delete (seg_name s) (files q)) d"
      using seg readable_delete disk_okD(1) [OF ok] by blast
    show "\<forall>d \<in> set (unacked q). \<exists>x \<in> set (segments q'). seg_name x = desc_seg d \<and> desc_seq d \<le> seg_last x"
      using seg sub(1) by blast
    show "distinct (map seg_name (segments q'))" using dist assms(3,8) by auto
    show "\<forall>x \<in> set (segments q'). \<exists>k < n. seg_name x = segment_name k" "\<forall>x \<in> set (segments q'). seg_last x < n"
      using disk_okD(4,7) [OF ok] sub(2) by blast+
    show "\<forall>k. segment_name k \<in> dom (map_of (AList.delete (seg_name s) (files q))) \<longrightarrow> k < n"
      using disk_okD(5) [OF ok] by (auto simp: delete_conv')
    show "active_open q \<longrightarrow> segments q' \<noteq> [] \<and> (\<exists>data. map_of (AList.delete (seg_name s) (files q))
        (seg_name (last (segments q'))) = Some data \<and> length data = active_size q)"
      using disk_okD(6) [OF ok] lst ln lq assms(3) by (auto simp: delete_conv')
  qed
  moreover have "active_unsealed q'"
    using un lst lq assms(3) by (auto simp: active_unsealed_def assms(9))
  ultimately show ?thesis by (simp add: disk_inv_def)
qed

lemma reclaim_segments_disk:
  assumes "disk_inv cd n q" "above_mark q"
  shows "disk_inv cd n (fst (reclaim_segments q c))"
  using assms
proof (induction "segments q" arbitrary: q c)
  case Nil
  then show ?case by (simp add: reclaim_segments_Nil)
next
  case (Cons s rest)
  note sg = Cons.hyps(2) [symmetric]
  have u: "unacked (drop_segment q s rest) = unacked q" "last_acked (drop_segment q s rest) = last_acked q"
    "unacked (snd (io_call q)) = unacked q"
    using core_eqD(3,4) [OF drop_segment_frame(1) [of q s rest]] core_eqD(4) [OF io_call_frame(1) [of q]] by simp_all
  let ?d = "(snd (io_call q))\<lparr>files := AList.delete (seg_name s) (files q)\<rparr>"
  have a: "active_open (drop_segment q s rest) = active_open q" "active_size (drop_segment q s rest) = active_size q"
    "files (drop_segment q s rest) = AList.delete (seg_name s) (files q)"
    by (simp_all add: drop_segment_def)
  have step: "disk_inv cd n (drop_segment q s rest)" "disk_inv cd n ?d"
    if "seg_sealed s" "seg_last s \<le> last_acked q"
    using disk_inv_drop [OF Cons.prems sg that, of "drop_segment q s rest"] disk_inv_drop [OF Cons.prems sg that, of ?d] u a sg
    by simp_all
  have io: "disk_inv cd n (snd (io_call q))" "disk_inv cd n (q\<lparr>physical_bytes := w\<rparr>)" for w
    using Cons.prems(1) disk_inv_cong [of "snd (io_call q)" q] disk_inv_cong [of "q\<lparr>physical_bytes := w\<rparr>" q] u by simp_all
  have ab: "above_mark (drop_segment q s rest)" using Cons.prems(2) by (simp add: above_mark_def u)
  show ?case
    using Cons.prems(1) io step Cons.hyps(1) [of "drop_segment q s rest" "c + 1"] ab
    by (simp add: reclaim_segments_Cons [OF sg] not_less split: io_result.split)
qed

lemma reclaim_disk [inv_intros]:
  assumes "disk_inv cd n q" "above_mark q"
  shows "disk_inv cd n (fst (reclaim q))"
proof -
  have 1: "disk_inv cd n (fst (reclaim_segments q 0))" by (rule reclaim_segments_disk [OF assms])
  have 2: "disk_inv cd n (snd (io_call x)) = disk_inv cd n x" for x
    by (rule disk_inv_cong) (simp_all add: core_eqD(4) [OF io_call_frame(1)])
  have 3: "disk_inv cd n (fst (reclaim_repack_plans x)) = disk_inv cd n x" for x
    by (rule disk_inv_cong) (simp_all add: core_eqD(4) [OF reclaim_repack_plans_frame(1)])
  show ?thesis using 1 by (simp add: reclaim_def Let_def split_beta 2 3)
qed

lemma disk_inv_seal [inv_intros]: "disk_inv cd n q \<Longrightarrow> disk_inv cd n (fst (seal_active q))"
  by (simp add: disk_inv_def disk_ok_seal)

lemma ensure_disk [inv_intros]:
  assumes "disk_inv cd n q" "above_mark q"
  shows "disk_inv cd n (fst (ensure_record_capacity opts env sz q))"
proof -
  have r: "disk_inv cd n (fst (reclaim_acked_active x))" if "disk_inv cd n x" "above_mark x" for x
    using that reclaim_disk [OF disk_inv_seal, of cd n x] above_mark_cong [OF seal_active_frame(1) [of x]]
    by (simp add: reclaim_acked_active_def split_beta disk_inv_seal split: option.split)
  have f: "disk_inv cd n (fst (refresh_quarantine_stats env q))" "above_mark (fst (refresh_quarantine_stats env q))"
    using assms disk_inv_cong [of "fst (refresh_quarantine_stats env q)" q] above_mark_cong [OF refresh_frame(1) [of env q]]
    by (simp_all add: core_eqD(4) [OF refresh_frame(1)])
  show ?thesis using assms f r [OF assms] r [OF f]
    by (simp add: ensure_record_capacity_def Let_def split_beta split: option.split)
qed

lemma prepare_append_disk [inv_intros]:
  assumes "disk_inv cd' n q" "above_mark q"
  shows "disk_inv cd' n (fst (prepare_append cd opts env events q))"
proof -
  have e: "disk_inv cd' n (fst (ensure_record_capacity opts env sz x)) \<and> above_mark (fst (ensure_record_capacity opts env sz x))"
    if "disk_inv cd' n x" "above_mark x" for sz x
    using ensure_disk [OF that] above_mark_cong [OF ensure_record_capacity_frame(1) [of opts env sz x]] that(2) by simp
  show ?thesis using assms e
    by (simp add: prepare_append_def Let_def split_beta split: option.split)
qed

lemma disk_inv_write [inv_intros]:
  assumes "disk_inv cd n q" "n \<le> k" "k < m" "\<forall>d \<in> set (unacked q). desc_seq d \<le> k"
  shows "disk_inv cd m (fst (write_record opts k r q))"
  using write_record_ok(1) [of cd n q k m opts r] active_unsealed_write [of q opts k r] assms by (simp add: disk_inv_def)

lemma disk_inv_same_core:
  assumes "disk_inv cd n q" "core q' = core q" "files q' = files q" "segments q' = segments q"
    "active_open q' = active_open q" "active_size q' = active_size q"
  shows "disk_inv cd n q'"
  using disk_inv_cong [OF core_eqD(4) [OF assms(2)] assms(3-6)] assms(1) by simp

lemma disk_inv_steps [inv_intros]:
  "disk_inv cd n q \<Longrightarrow> disk_inv cd n (fst (sync_record opts q))"
  "disk_inv cd n q \<Longrightarrow> disk_inv cd n (fst (persist_meta q))"
  "disk_inv cd n q \<Longrightarrow> disk_inv cd n (fst (reserve_sequences opts q))"
  by (erule disk_inv_same_core; simp)+

lemma disk_inv_next_seq [simp]: "disk_inv cd n (q\<lparr>next_seq := k\<rparr>) \<longleftrightarrow> disk_inv cd n q"
  by (rule disk_inv_cong) simp_all

lemma disk_inv_enqueue:
  assumes "disk_inv cd n q" "readable cd (files q) d" "(desc_seg d, l) \<in> set (seg_view q)" "desc_seq d \<le> l"
  shows "disk_inv cd n (enqueue d q)"
proof -
  have f: "files (enqueue d q) = files q" "seg_view (enqueue d q) = seg_view q" "active_open (enqueue d q) = active_open q"
    "active_size (enqueue d q) = active_size q" "segments (enqueue d q) = segments q" "unacked (enqueue d q) = unacked q @ [d]"
    by (simp_all add: enqueue_def seg_view_def)
  show ?thesis using assms unfolding disk_inv_def active_unsealed_def disk_ok_view f by auto
qed

text \<open>The record just written reads back as the batch.\<close>

lemma readable_written:
  assumes "codec_ok cd" "marshal cd batch = Some payload" "None \<notin> set (batch_events batch)" "encode_record payload = Some r"
    and "map_of fs nm = Some (data @ r)" "off = length data + 8"
  shows "readable cd fs (batch_desc_of batch nm off payload)"
proof -
  have len: "length payload \<le> maximum_record_payload_bytes" and r: "r = be32 (of_nat (length payload)) @ be32 (crc32c payload) @ payload"
    using assms(4) by (auto simp: encode_record_def split: if_splits)
  have d: "drop off (data @ r) = payload" using r assms(6) by simp
  have "unmarshal cd payload = Some batch" using assms(1,2,3) by (simp add: codec_ok_def)
  then have "read_record_payload cd (data @ r) off (of_nat (length payload)) (crc32c payload) = Some batch"
    using len unfolding read_record_payload_def d by (simp add: unat_length)
  then show ?thesis using assms(5) by (simp add: readable_def batch_desc_of_def)
qed

lemma reserved_state_facts:
  assumes "disk_inv cd' n q" "above_mark q"
  shows "disk_inv cd' n (reserved_state cd opts env events q)"
    and "unacked (reserved_state cd opts env events q) = unacked q"
    and "next_seq (reserved_state cd opts env events q) = next_seq q + 1"
proof -
  have c: "core (reserved_state cd opts env events q) = core (bumped cd opts env events q)" by (simp add: reserved_state_def)
  have b: "core (fst (prepare_append cd opts env events q)) = core q" by simp
  show "disk_inv cd' n (reserved_state cd opts env events q)"
    unfolding reserved_state_def bumped_def by (intro inv_intros) (simp add: prepare_append_disk assms)
  show "unacked (reserved_state cd opts env events q) = unacked q"
    "next_seq (reserved_state cd opts env events q) = next_seq q + 1"
    using core_eqD(2,4) [OF c] core_eqD(4) [OF b] by (simp_all add: bumped_def)
qed

lemma disk_inv_mono: "disk_inv cd n q \<Longrightarrow> n \<le> m \<Longrightarrow> disk_inv cd m q"
  by (auto simp: disk_inv_def intro: disk_ok_mono)

lemma append_batch_disk [inv_intros]:
  assumes "disk_inv cd (next_seq q) q" "queue_ok q" "codec_ok cd" "None \<notin> set events"
  shows "disk_inv cd (next_seq (fst (append_batch cd opts env events q))) (fst (append_batch cd opts env events q))"
proof (rule append_batch_rule [where P = "\<lambda>x _. disk_inv cd (next_seq x) x"])
  note ab = above_mark_queue_ok [OF assms(2)]
  show "disk_inv cd (next_seq q) q" by (rule assms)
  have "next_seq (fst (prepare_append cd opts env events q)) = next_seq q" by (rule core_eqD(2)) simp
  then show "disk_inv cd (next_seq (fst (prepare_append cd opts env events q))) (fst (prepare_append cd opts env events q))"
    using prepare_append_disk [OF assms(1) ab] by simp
  fix batch payload r e nm off
  assume n: "next_seq q \<noteq> 0xFFFFFFFFFFFFFFFF"
  let ?q2 = "reserved_state cd opts env events q"
  note f = reserved_state_facts [OF assms(1) ab, of cd opts env events]
  note up = u64_succ [OF n]
  let ?w = "write_record opts (next_seq q) r ?q2"
  let ?y = "fst (sync_record opts (fst ?w))"
  have below: "\<forall>d \<in> set (unacked ?q2). desc_seq d \<le> next_seq q"
    using f(2) queue_okD(7) [OF assms(2)] by (auto intro: less_imp_le)
  have w: "disk_inv cd (next_seq q + 1) (fst ?w)"
    by (rule disk_inv_write [OF f(1) order.refl up below])
  have nx: "next_seq (fst ?w) = next_seq q + 1" "next_seq ?y = next_seq q + 1" "next_seq (fst (seal_active ?q2)) = next_seq q + 1"
    using core_eqD(2) [OF write_record_frame(1) [of opts "next_seq q" r ?q2]]
      core_eqD(2) [OF sync_record_frame(1) [of opts "fst ?w"]] core_eqD(2) [OF seal_active_frame(1) [of ?q2]] f(3) by simp_all
  show "disk_inv cd (next_seq (fst (seal_active ?q2))) (fst (seal_active ?q2))"
    unfolding nx by (rule disk_inv_seal [OF disk_inv_mono [OF f(1) less_imp_le [OF up]]])
  show "disk_inv cd (next_seq (fst ?w)) (fst ?w)" using w nx(1) by simp
  show y: "disk_inv cd (next_seq ?y) ?y" using disk_inv_steps(1) [OF w] nx(2) by simp
  assume pre: "snd (prepare_append cd opts env events q) = Inr (batch, payload, r)"
    and wr: "snd ?w = Inr (nm, off)"
  note ps = prepare_append_seq [OF pre]
  obtain data where d: "map_of (files (fst ?w)) nm = Some (data @ r)" "off = length data + 8"
      "(nm, next_seq q) \<in> set (seg_view (fst ?w))"
    using write_record_ok(2) [of cd "next_seq q" ?q2 "next_seq q" "next_seq q + 1" opts r nm off] f(1) up below wr
    by (auto simp: disk_inv_def)
  have v: "seg_view ?y = seg_view (fst ?w)" "files ?y = files (fst ?w)" by (simp_all add: seg_view_def)
  have "disk_inv cd (next_seq ?y) (enqueue (batch_desc_of batch nm off payload) ?y)"
  proof (rule disk_inv_enqueue [OF y])
    show "readable cd (files ?y) (batch_desc_of batch nm off payload)"
      using readable_written [OF assms(3)] ps assms(4) d v by auto
    show "(desc_seg (batch_desc_of batch nm off payload), next_seq q) \<in> set (seg_view ?y)"
      using d(3) v by (simp add: batch_desc_of_def)
    show "desc_seq (batch_desc_of batch nm off payload) \<le> next_seq q" using ps by (simp add: batch_desc_of_def)
  qed
  then show "disk_inv cd (next_seq (enqueue (batch_desc_of batch nm off payload) ?y)) (enqueue (batch_desc_of batch nm off payload) ?y)"
    by (simp add: enqueue_def)
qed

lemma advance_terminal_disk [inv_intros]:
  assumes "disk_inv cd n q" "queue_ok q"
  shows "disk_inv cd n (fst (advance_terminal q))"
proof -
  let ?ds = "terminal_prefix q"
  let ?p = "persist_meta (q\<lparr>last_acked := desc_seq (last ?ds)\<rparr>)"
  have p: "disk_inv cd n (fst ?p)"
    using assms(1) disk_inv_cong [of "q\<lparr>last_acked := desc_seq (last ?ds)\<rparr>" q] disk_inv_steps(2) by simp
  have 1: "disk_inv cd n ((fst ?p)\<lparr>last_acked := last_acked q\<rparr>)"
    using p disk_inv_cong [of "(fst ?p)\<lparr>last_acked := last_acked q\<rparr>" "fst ?p"] by simp
  have u: "set (unacked (drop_prefix ?ds (fst ?p))) \<subseteq> set (unacked (fst ?p))"
    by (auto simp: drop_prefix_def dest: in_set_dropD)
  have f: "files (drop_prefix ?ds (fst ?p)) = files (fst ?p)" "segments (drop_prefix ?ds (fst ?p)) = segments (fst ?p)"
    "active_open (drop_prefix ?ds (fst ?p)) = active_open (fst ?p)" "active_size (drop_prefix ?ds (fst ?p)) = active_size (fst ?p)"
    by (simp_all add: drop_prefix_def)
  have 2: "disk_inv cd n (drop_prefix ?ds (fst ?p))"
    using p u unfolding disk_inv_def active_unsealed_def disk_ok_def f by blast
  have 3: "above_mark (drop_prefix ?ds (fst ?p))" if "?ds \<noteq> []"
    using above_mark_queue_ok [OF queue_ok_advance_mark(1) [OF assms(2) that]] .
  show ?thesis using assms(1) 1 reclaim_disk [OF 2 3]
    by (simp add: advance_terminal_eq Let_def split: option.split)
qed

lemma acknowledge_disk [inv_intros]:
  assumes "disk_inv cd n q" "queue_ok q"
  shows "disk_inv cd n (fst (acknowledge s cumulative q))"
proof -
  have "disk_inv cd n (q\<lparr>terminal := T\<rparr>)" for T using assms(1) disk_inv_cong [of "q\<lparr>terminal := T\<rparr>" q] by simp
  then show ?thesis using assms advance_terminal_disk [of cd n "q\<lparr>terminal := T\<rparr>" for T]
    by (simp add: acknowledge_eq)
qed

lemma delivery_disk [inv_intros]:
  assumes "disk_inv cd n q"
  shows "disk_inv cd n (fst (next_batch cd' q))" "disk_inv cd n (rewind q)" "disk_inv cd n (sync_tick q)"
    "disk_inv cd n (fst (close_queue q))"
proof -
  have i: "disk_inv cd n (q\<lparr>deliver_idx := i\<rparr>)" for i using assms disk_inv_cong [of "q\<lparr>deliver_idx := i\<rparr>" q] by simp
  have c: "disk_inv cd n (q\<lparr>closed := True\<rparr>)" using assms disk_inv_cong [of "q\<lparr>closed := True\<rparr>" q] by simp
  show "disk_inv cd n (fst (next_batch cd' q))" "disk_inv cd n (rewind q)"
    using assms i by (simp_all add: next_batch_def rewind_def split_beta split: option.split)
  show "disk_inv cd n (fst (close_queue q))" using assms disk_inv_seal [OF c] by (simp add: close_queue_def)
  show "disk_inv cd n (sync_tick q)"
    by (rule disk_inv_same_core [OF assms]) (simp_all add: sync_tick_def Let_def split_beta)
qed

end
