(* ===== verification/Protocol_Ids.thy ===== *)
theory Protocol_Ids
  imports Prelude
begin

text \<open>
  \<open>internal/protocolid/protocolid.go\<close>: the grammar of identifiers of collectors, inputs and batches.  The number that
  \<open>valid_characters\<close> counts is the index of the loop.
\<close>

definition alphanumeric :: "char \<Rightarrow> bool" where
  "alphanumeric c \<longleftrightarrow> (let n = of_char c :: nat in 97 \<le> n \<and> n \<le> 122 \<or> 65 \<le> n \<and> n \<le> 90 \<or> 48 \<le> n \<and> n \<le> 57)"

fun valid_characters :: "nat \<Rightarrow> string \<Rightarrow> bool" where
  "valid_characters i [] = True"
| "valid_characters i (c # cs) =
     (if alphanumeric c then valid_characters (i + 1) cs
      else if i = 0 \<or> c \<noteq> CHR ''.'' \<and> c \<noteq> CHR ''_'' \<and> c \<noteq> CHR '':'' \<and> c \<noteq> CHR ''-'' then False
      else valid_characters (i + 1) cs)"

definition valid_with_maximum :: "string \<Rightarrow> u32 \<Rightarrow> bool" where
  "valid_with_maximum v maximum \<longleftrightarrow>
     (let m = min maximum 128 in if length v = 0 \<or> length v > unat m then False else valid_characters 0 v)"

definition valid_protocol_id :: "string \<Rightarrow> bool" where
  "valid_protocol_id v = valid_with_maximum v 128"

end
