(* ===== verification/Wal_Repack.thy ===== *)
theory Wal_Repack
  imports Wal_Disk Protocol_Ids Go_Sha256 "HOL-Library.Multiset"
begin

text \<open>
  \<open>internal/collector/wal/repack.go\<close>: a batch the server refused as too large is replaced by virtual
  children, consecutive slices of its events with fresh identities; the original record stays the
  backing storage.  The manifest file holds the plan as JSON with its SHA-256; JSON is a library, so the
  state keeps the plan itself, and the size of its encoding is a parameter.  \<open>uuid i\<close> is the \<open>i\<close>-th
  fresh identifier drawn.
\<close>

section \<open>Splitting\<close>

text \<open>
  The loop of \<open>Repack\<close> over the parent's events: a child is closed before event \<open>i\<close> when it would
  exceed a limit, so a child holds at least one event.  Ranges are relative to the parent's view.
\<close>

definition close_child :: "u32 \<Rightarrow> u64 \<Rightarrow> nat \<Rightarrow> u64 \<Rightarrow> u64 \<Rightarrow> bool" where
  "close_child max_events max_bytes held sz b \<longleftrightarrow>
     held > 0 \<and> ((of_nat held :: u64) \<ge> ucast max_events \<or> sz > max_bytes \<or> b > max_bytes - sz)"

fun split_ranges :: "codec \<Rightarrow> u32 \<Rightarrow> u64 \<Rightarrow> log_event option list \<Rightarrow> nat \<Rightarrow> nat \<Rightarrow> u64 \<Rightarrow> (nat \<times> nat) list" where
  "split_ranges cd max_events max_bytes [] i start sz = [(start, i)]"
| "split_ranges cd max_events max_bytes (e # es) i start sz =
     (let b = of_int (event_size cd e) in
      if close_child max_events max_bytes (i - start) sz b
      then (start, i) # split_ranges cd max_events max_bytes es (i + 1) i b
      else split_ranges cd max_events max_bytes es (i + 1) start (sz + b))"

definition repack_ranges :: "codec \<Rightarrow> u32 \<Rightarrow> u64 \<Rightarrow> log_event option list \<Rightarrow> (nat \<times> nat) list" where
  "repack_ranges cd max_events max_bytes events =
     (let rs = split_ranges cd max_events max_bytes events 0 0 0
      in if length rs < 2 then [(0, length events div 2), (length events div 2, length events)] else rs)"

text \<open>The first identifier is spent on the single child that a too generous limit would give.\<close>

definition repack_children :: "(nat \<Rightarrow> string) \<Rightarrow> codec \<Rightarrow> u32 \<Rightarrow> u64 \<Rightarrow> repack_child \<Rightarrow> log_event option list \<Rightarrow> u64 \<Rightarrow> repack_child list" where
  "repack_children uuid cd max_events max_bytes view events nxt =
     (let rs = repack_ranges cd max_events max_bytes events;
          first = (if length (split_ranges cd max_events max_bytes events 0 0 0) < 2 then 1 else 0)
      in map (\<lambda>(i, a, b). \<lparr>child_seq = nxt + of_nat i, child_id = uuid (first + i),
            child_start = child_start view + int a,
            child_end = (if i + 1 = length rs then child_end view else child_start view + int b)\<rparr>)
          (enumerate 0 rs))"

section \<open>Manifests\<close>

abbreviation maximum_repack_manifest_bytes :: nat where "maximum_repack_manifest_bytes \<equiv> 1048576"

text \<open>\<open>persistRepackPlan\<close>: temporary file created, written, synced and closed, then renamed, then the directory synced.\<close>

definition persist_repack_plan :: "(repack_plan \<Rightarrow> nat) \<Rightarrow> repack_plan \<Rightarrow> queue \<Rightarrow> queue \<times> wal_error option" where
  "persist_repack_plan manifest_size plan q =
     (if manifest_size plan > maximum_repack_manifest_bytes then (q, Some ErrRepackManifest)
      else let (created, q1) = io_call q in
        if created \<noteq> IoOk then (q1, Some ErrIO)
        else let (written, q2) = io_call q1;
                 (synced, q3) = (if written = IoOk then io_call q2 else (written, q2));
                 (closed_ok, q4) = io_call q3
             in if synced \<noteq> IoOk \<or> closed_ok \<noteq> IoOk then (q4, Some ErrIO)
                else let (renamed, q5) = io_call q4;
                         stored = q5\<lparr>manifests := AList.update (child_seq (plan_parent plan)) plan (manifests q5)\<rparr>
                     in case renamed of
                          IoFail n \<Rightarrow> (if n > 0 then stored else q5, Some ErrIO)
                        | IoOk \<Rightarrow> (let (d, q6) = io_call stored in (q6, if d = IoOk then None else Some ErrIO)))"

text \<open>The checks at the end of \<open>readRepackPlan\<close>; \<open>sequence\<close> is the one in the file's name.\<close>

definition valid_manifest :: "u64 \<Rightarrow> repack_plan \<Rightarrow> bool" where
  "valid_manifest sequence plan \<longleftrightarrow> plan_version plan = 1 \<and> length (plan_children plan) \<ge> 2
     \<and> child_seq (plan_parent plan) \<noteq> 0 \<and> sequence = child_seq (plan_parent plan)"

section \<open>Installing a plan\<close>

text \<open>The loop over the children; \<open>None\<close> is success with the final position and sequence.\<close>

fun check_children ::
  "queue \<Rightarrow> repack_child \<Rightarrow> repack_child list \<Rightarrow> int \<Rightarrow> u64 \<Rightarrow> string set \<Rightarrow> (int \<times> u64) option" where
  "check_children q parent [] position sequence ids = Some (position, sequence)"
| "check_children q parent (c # cs) position sequence ids =
     (if child_start c \<noteq> position \<or> child_end c \<le> child_start c \<or> child_end c > child_end parent
         \<or> child_seq c \<le> sequence \<or> child_seq c = 0xFFFFFFFFFFFFFFFF
         \<or> \<not> valid_protocol_id (child_id c) \<or> child_id c = child_id parent
      then None
      else if child_id c \<in> ids then None
      else if has_sequence (child_seq c) (unacked q) then None
      else check_children q parent cs (child_end c) (child_seq c) (insert (child_id c) ids))"

text \<open>The parent's events are counted by its children from now on.\<close>

fun zero_parent :: "u64 \<Rightarrow> batch_desc list \<Rightarrow> batch_desc list \<times> u64" where
  "zero_parent p [] = ([], 0)"
| "zero_parent p (d # ds) =
     (if desc_seq d = p then (d\<lparr>desc_events := 0\<rparr> # ds, desc_events d)
      else (let (ds', n) = zero_parent p ds in (d # ds', n)))"

definition child_desc :: "codec \<Rightarrow> repack_plan \<Rightarrow> event_batch \<Rightarrow> repack_child \<Rightarrow> batch_desc" where
  "child_desc cd plan root c =
     (let batch = repack_batch cd root c in
      \<lparr>desc_repacked = Some c, desc_seq = child_seq c, desc_seg = plan_segment plan, desc_off = nat (plan_offset plan),
       desc_len = plan_length plan, desc_crc = plan_crc plan, desc_events = of_nat (length (batch_events batch)),
       desc_size = 0, desc_created = case_option 0 id (batch_created_at batch),
       desc_marks = checkpoint_marks_for_batch (child_seq c) (batch_events batch)\<rparr>)"

fun raise_segment :: "string \<Rightarrow> u64 \<Rightarrow> seg_info list \<Rightarrow> seg_info list" where
  "raise_segment name s [] = []"
| "raise_segment name s (x # xs) =
     (if seg_name x = name then x\<lparr>seg_last := max (seg_last x) s\<rparr> # xs else x # raise_segment name s xs)"

definition install_children :: "codec \<Rightarrow> repack_plan \<Rightarrow> event_batch \<Rightarrow> u64 \<Rightarrow> queue \<Rightarrow> queue" where
  "install_children cd plan root sequence q =
     (let p = child_seq (plan_parent plan);
          (rest, n) = zero_parent p (unacked q);
          fresh = map (child_desc cd plan root) (filter (\<lambda>c. child_seq c > last_acked q) (plan_children plan))
      in q\<lparr>segments := raise_segment (plan_segment plan) sequence (segments q),
           repacks := AList.update p plan (repacks q),
           unacked := sort_key desc_seq (rest @ fresh),
           queued_events := queued_events q - n + sum_list (map desc_events fresh),
           next_seq := max (next_seq q) (sequence + 1)\<rparr>)"

definition install_repack_plan :: "codec \<Rightarrow> wal_options \<Rightarrow> repack_plan \<Rightarrow> queue \<Rightarrow> queue \<times> wal_error option" where
  "install_repack_plan cd opts plan q =
     (let parent = plan_parent plan in
      if parse_segment_name (plan_segment plan) = None \<or> plan_offset plan < int record_header_size
         \<or> unat (plan_length plan) > maximum_record_payload_bytes then (q, Some ErrRepackInvalid)
      else case map_of (files q) (plan_segment plan) of None \<Rightarrow> (q, Some ErrIO) | Some data \<Rightarrow>
       (case read_record_payload cd data (nat (plan_offset plan)) (plan_length plan) (plan_crc plan) of
          None \<Rightarrow> (q, Some ErrCorruptSegment)
        | Some root \<Rightarrow>
            (if collector_id root \<noteq> opt_collector_id opts \<or> \<not> valid_protocol_id (child_id parent)
                \<or> child_start parent < 0 \<or> child_end parent > int (length (batch_events root))
                \<or> child_start parent \<ge> child_end parent then (q, Some ErrRepackInvalid)
             else case marshal_deterministic cd (repack_batch cd root parent) of
                 None \<Rightarrow> (q, Some ErrRepackInvalid)
               | Some encoded \<Rightarrow>
                   (if hex_encode (sha256 encoded) \<noteq> plan_parent_sha256 plan then (q, Some ErrRepackInvalid)
                    else case check_children q parent (plan_children plan) (child_start parent) (child_seq parent) {} of
                        None \<Rightarrow> (q, Some ErrRepackInvalid)
                      | Some (position, sequence) \<Rightarrow>
                          (if position \<noteq> child_end parent then (q, Some ErrRepackInvalid)
                           else if plan_segment plan \<notin> set (map seg_name (segments q)) then (q, Some ErrRepackInvalid)
                           else (install_children cd plan root sequence q, None))))))"

section \<open>Repack\<close>

fun find_desc :: "u64 \<Rightarrow> batch_desc list \<Rightarrow> batch_desc option" where
  "find_desc s [] = None"
| "find_desc s (d # ds) = (if desc_seq d = s then Some d else find_desc s ds)"

definition repack_view :: "batch_desc \<Rightarrow> event_batch \<Rightarrow> repack_child" where
  "repack_view d parent =
     (case desc_repacked d of
        Some c \<Rightarrow> c
      | None \<Rightarrow> \<lparr>child_seq = desc_seq d, child_id = batch_id parent, child_start = 0,
                 child_end = int (length (batch_events parent))\<rparr>)"

definition repack_plan_of ::
  "(nat \<Rightarrow> string) \<Rightarrow> codec \<Rightarrow> u32 \<Rightarrow> u64 \<Rightarrow> batch_desc \<Rightarrow> event_batch \<Rightarrow> bytes \<Rightarrow> u64 \<Rightarrow> repack_plan" where
  "repack_plan_of uuid cd max_events max_bytes d parent encoded nxt =
     \<lparr>plan_version = 1, plan_parent = repack_view d parent, plan_parent_sha256 = hex_encode (sha256 encoded),
      plan_segment = desc_seg d, plan_offset = int (desc_off d), plan_length = desc_len d, plan_crc = desc_crc d,
      plan_children = repack_children uuid cd max_events max_bytes (repack_view d parent) (batch_events parent) nxt\<rparr>"

text \<open>
  The code keeps the error that stopped the log in \<open>syncErr\<close> and returns it; the model keeps only that
  there is one, and returns \<open>ErrUnhealthy\<close>.
\<close>

definition failing :: "queue \<times> wal_error option \<Rightarrow> queue \<times> wal_error option" where
  "failing r = (case r of (q, None) \<Rightarrow> (q, None) | (q, Some e) \<Rightarrow> (q\<lparr>sync_err := True\<rparr>, Some e))"

definition publish_plan ::
  "(repack_plan \<Rightarrow> nat) \<Rightarrow> codec \<Rightarrow> wal_options \<Rightarrow> u64 \<Rightarrow> repack_plan \<Rightarrow> queue \<Rightarrow> queue \<times> wal_error option" where
  "publish_plan manifest_size cd opts s plan q =
     (case failing (persist_meta (q\<lparr>next_seq := next_seq q + of_nat (length (plan_children plan))\<rparr>)) of
        (q1, Some e) \<Rightarrow> (q1, Some e)
      | (q1, None) \<Rightarrow>
        (case failing (persist_repack_plan manifest_size plan q1) of
           (q2, Some e) \<Rightarrow> (q2, Some e)
         | (q2, None) \<Rightarrow>
           (case failing (persist_meta (q2\<lparr>repacks := AList.update s plan (repacks q2)\<rparr>)) of
              (q3, Some e) \<Rightarrow> (q3, Some e)
            | (q3, None) \<Rightarrow> failing (install_repack_plan cd opts plan q3))))"

definition repack ::
  "(repack_plan \<Rightarrow> nat) \<Rightarrow> (nat \<Rightarrow> string) \<Rightarrow> codec \<Rightarrow> wal_options \<Rightarrow> u64 \<Rightarrow> u32 \<Rightarrow> u64 \<Rightarrow> queue \<Rightarrow> queue \<times> wal_error option" where
  "repack manifest_size uuid cd opts s max_events max_bytes q =
     (if closed q then (q, Some ErrClosed)
      else if sync_err q then (q, Some ErrUnhealthy)
      else if max_events = 0 \<or> max_bytes = 0 then (q, Some ErrRepackLimits)
      else if is_parent q s then (q, None)
      else case find_desc s (unacked q) of None \<Rightarrow> (q, Some ErrRepackNotQueued) | Some d \<Rightarrow>
       (case read_batch cd q d of Inl e \<Rightarrow> (q, Some e) | Inr parent \<Rightarrow>
         (if length (batch_events parent) < 2 then (q, Some ErrRepackSingleton)
          else case marshal_deterministic cd parent of None \<Rightarrow> (q, Some ErrMarshal) | Some encoded \<Rightarrow>
            (let plan = repack_plan_of uuid cd max_events max_bytes d parent encoded (next_seq q) in
             if length (plan_children plan) \<ge> unat (0xFFFFFFFFFFFFFFFF - next_seq q) then (q, Some ErrRepackExhausted)
             else case seal_active q of
                 (q1, Some e) \<Rightarrow> (q1, Some e)
               | (q1, None) \<Rightarrow> publish_plan manifest_size cd opts s plan q1))))"

section \<open>The split\<close>

text \<open>Nonempty ranges that lie end to end from \<open>a\<close> to \<open>b\<close>.\<close>

fun end_to_end :: "nat \<Rightarrow> (nat \<times> nat) list \<Rightarrow> nat \<Rightarrow> bool" where
  "end_to_end a [] b \<longleftrightarrow> a = b"
| "end_to_end a ((x, y) # rs) b \<longleftrightarrow> x = a \<and> x < y \<and> end_to_end y rs b"

lemma end_to_end_bounds: "end_to_end a rs b \<Longrightarrow> a \<le> b \<and> (\<forall>(x, y) \<in> set rs. a \<le> x \<and> x < y \<and> y \<le> b)"
  by (induction a rs b rule: end_to_end.induct) force+

lemma split_ranges_end_to_end:
  "start \<le> i \<Longrightarrow> start < i \<or> es \<noteq> [] \<Longrightarrow>
     end_to_end start (split_ranges cd me mb es i start sz) (i + length es)"
proof (induction cd me mb es i start sz rule: split_ranges.induct)
  case (2 cd me mb e es i start sz)
  then show ?case
    by (cases "close_child me mb (i - start) sz (of_int (event_size cd e))") (auto simp: Let_def close_child_def)
qed simp

text \<open>The encoded size of the events of a range, without wrap-around.\<close>

definition bytes_of :: "codec \<Rightarrow> log_event option list \<Rightarrow> nat" where
  "bytes_of cd es = sum_list (map (\<lambda>e. unat (of_int (event_size cd e) :: u64)) es)"

lemma bytes_of_append [simp]: "bytes_of cd (xs @ ys) = bytes_of cd xs + bytes_of cd ys"
  by (simp add: bytes_of_def)

definition within_limits :: "codec \<Rightarrow> u32 \<Rightarrow> u64 \<Rightarrow> log_event option list \<Rightarrow> bool" where
  "within_limits cd me mb es \<longleftrightarrow> length es \<le> unat me \<and> (length es = 1 \<or> bytes_of cd es \<le> unat mb)"

lemma count_below:
  assumes "n \<le> unat (me :: u32)"
  shows "(of_nat n :: u64) \<ge> ucast me \<longleftrightarrow> n \<ge> unat me"
proof -
  have m: "unat me < 2 ^ 32" using unsigned_less [of me] by simp
  then have "unat (of_nat n :: u64) = n" using assms by (simp add: unat_of_nat)
  moreover have "unat (ucast me :: u64) = unat me" using m by (simp add: unsigned_ucast_eq take_bit_nat_eq_self)
  ultimately show ?thesis by (simp add: word_le_nat_alt)
qed

lemma size_fits:
  fixes sz b mb :: u64
  assumes "sz \<le> mb" "b \<le> mb - sz"
  shows "unat (sz + b) = unat sz + unat b" "sz + b \<le> mb"
proof -
  have m: "unat (mb - sz) = unat mb - unat sz" "unat sz \<le> unat mb" using assms(1) by (simp_all add: unat_sub word_le_nat_alt)
  have b: "unat b \<le> unat mb - unat sz" using assms(2) m(1) by (simp add: word_le_nat_alt)
  then have "unat sz + unat b < 2 ^ 64" using m(2) unat_u64_less [of mb] by simp
  then show u: "unat (sz + b) = unat sz + unat b" by (simp add: unat_word_ariths)
  show "sz + b \<le> mb" using u b m(2) by (simp add: word_le_nat_alt)
qed

text \<open>\<open>pre\<close> is the part of the current child that has been read.\<close>

lemma split_ranges_limits:
  assumes "me \<noteq> 0" "i = start + length pre" "length pre \<le> unat me" "drop start events = pre @ es"
    and "length pre \<ge> 1 \<Longrightarrow> unat sz = bytes_of cd pre" "pre = [] \<Longrightarrow> sz = 0"
    and "length pre \<le> 1 \<or> sz \<le> mb" "(a, b) \<in> set (split_ranges cd me mb es i start sz)"
  shows "within_limits cd me mb (take (b - a) (drop a events))"
  using assms(2-)
proof (induction es arbitrary: i start sz pre)
  case Nil
  then have "a = start" "b = i" by simp_all
  then have "take (b - a) (drop a events) = pre" using Nil.prems(1,3) by simp
  then show ?case using Nil.prems(2,4-6) by (cases pre) (auto simp: within_limits_def word_le_nat_alt bytes_of_def)
next
  case (Cons e es)
  define x where "x = (of_int (event_size cd e) :: u64)"
  have bx: "bytes_of cd [e] = unat x" by (simp add: bytes_of_def x_def)
  have me: "1 \<le> unat me" using assms(1) by (simp add: Suc_le_eq unat_gt_0)
  show ?case
  proof (cases "close_child me mb (i - start) sz x")
    case True
    then have r: "(a, b) = (start, i) \<or> (a, b) \<in> set (split_ranges cd me mb es (i + 1) i x)"
      using Cons.prems(7) by (simp add: Let_def x_def)
    have d: "drop i events = [e] @ es"
      using arg_cong [OF Cons.prems(3), of "drop (length pre)"] Cons.prems(1) by (simp add: add.commute)
    show ?thesis
    proof (rule disjE [OF r])
      assume "(a, b) = (start, i)"
      then have "take (b - a) (drop a events) = pre" using Cons.prems(1,3) by simp
      then show ?thesis using Cons.prems(2,4-6) by (cases pre) (auto simp: within_limits_def word_le_nat_alt bytes_of_def)
    next
      assume "(a, b) \<in> set (split_ranges cd me mb es (i + 1) i x)"
      then show ?thesis using Cons.IH [of "i + 1" i "[e]" x] d me bx by simp
    qed
  next
    case False
    have r: "(a, b) \<in> set (split_ranges cd me mb es (i + 1) start (sz + x))"
      using Cons.prems(7) False by (simp add: Let_def x_def)
    show ?thesis
    proof (cases "pre = []")
      case True
      then show ?thesis using Cons.IH [of "i + 1" start "[e]" "sz + x"] Cons.prems r me bx by simp
    next
      case ne: False
      then have gt: "i > start" using Cons.prems(1) by simp
      then have c: "length pre < unat me" "sz \<le> mb" "x \<le> mb - sz"
        using False count_below [OF Cons.prems(2)] Cons.prems(1) by (simp_all add: close_child_def not_less)
      have "unat sz = bytes_of cd pre" using Cons.prems(4) ne by (simp add: Suc_le_eq)
      then show ?thesis using Cons.IH [of "i + 1" start "pre @ [e]" "sz + x"] Cons.prems(1,3) r c size_fits [OF c(2,3)] bx
        by simp
    qed
  qed
qed

lemma within_limits_sub:
  assumes "within_limits cd me mb es" "es = xs @ ys @ zs" "ys \<noteq> []"
  shows "within_limits cd me mb ys"
proof (cases "length es = 1")
  case True
  then show ?thesis using assms by (cases ys) (auto simp: within_limits_def)
next
  case False
  then show ?thesis using assms by (simp add: within_limits_def)
qed

lemma split_ranges_not_Nil: "split_ranges cd me mb es i start sz \<noteq> []"
  by (induction cd me mb es i start sz rule: split_ranges.induct) (simp_all add: Let_def)

lemma repack_ranges_ok:
  assumes "me \<noteq> 0" "length events \<ge> 2"
  shows "end_to_end 0 (repack_ranges cd me mb events) (length events)"
    and "length (repack_ranges cd me mb events) \<ge> 2"
    and "(a, b) \<in> set (repack_ranges cd me mb events) \<Longrightarrow> within_limits cd me mb (take (b - a) (drop a events))"
proof -
  let ?rs = "split_ranges cd me mb events 0 0 0"
  have ne: "events \<noteq> []" using assms(2) by auto
  have e: "end_to_end 0 ?rs (length events)" using split_ranges_end_to_end [of 0 0 events cd me mb 0] ne by simp
  have l: "within_limits cd me mb (take (b - a) (drop a events))" if "(a, b) \<in> set ?rs" for a b
    using split_ranges_limits [of me 0 0 "[]" events events 0 cd mb a b] assms(1) that by simp
  let ?h = "length events div 2"
  have h: "0 < ?h" "?h < length events" using assms(2) by auto
  show "length (repack_ranges cd me mb events) \<ge> 2" by (simp add: repack_ranges_def Let_def)
  show "end_to_end 0 (repack_ranges cd me mb events) (length events)"
    using e h by (simp add: repack_ranges_def Let_def)
  assume ab: "(a, b) \<in> set (repack_ranges cd me mb events)"
  show "within_limits cd me mb (take (b - a) (drop a events))"
  proof (cases "length ?rs < 2")
    case False
    then show ?thesis using ab l by (simp add: repack_ranges_def)
  next
    case True
    then obtain r where "?rs = [r]" using split_ranges_not_Nil [of cd me mb events 0 0 0]
      by (metis length_0_conv length_Suc_conv less_2_cases)
    then have r: "?rs = [(0, length events)]" using e by (cases r) simp
    have w: "within_limits cd me mb events" using l [of 0 "length events"] r by simp
    consider "(a, b) = (0, ?h)" | "(a, b) = (?h, length events)"
      using ab True by (auto simp: repack_ranges_def Let_def)
    then show ?thesis
    proof cases
      case 1
      then show ?thesis using within_limits_sub [OF w, of "[]" "take ?h events" "drop ?h events"] h ne by simp
    next
      case 2
      then show ?thesis using within_limits_sub [OF w, of "take ?h events" "drop ?h events" "[]"] h by simp
    qed
  qed
qed

section \<open>A checked plan\<close>

fun tiles :: "int \<Rightarrow> repack_child list \<Rightarrow> int \<Rightarrow> bool" where
  "tiles a [] b \<longleftrightarrow> a = b"
| "tiles a (c # cs) b \<longleftrightarrow> child_start c = a \<and> a < child_end c \<and> tiles (child_end c) cs b"

lemma tiles_bounds: "tiles a cs b \<Longrightarrow> a \<le> b \<and> (\<forall>c \<in> set cs. a \<le> child_start c \<and> child_start c < child_end c \<and> child_end c \<le> b)"
  by (induction a cs b rule: tiles.induct) force+

lemma check_children_Cons:
  "check_children q parent (c # cs) position sequence ids = Some r \<longleftrightarrow>
     child_start c = position \<and> position < child_end c \<and> child_end c \<le> child_end parent \<and> sequence < child_seq c
     \<and> child_seq c \<noteq> 0xFFFFFFFFFFFFFFFF \<and> valid_protocol_id (child_id c) \<and> child_id c \<noteq> child_id parent
     \<and> child_id c \<notin> ids \<and> \<not> has_sequence (child_seq c) (unacked q)
     \<and> check_children q parent cs (child_end c) (child_seq c) (insert (child_id c) ids) = Some r"
  by (auto simp: not_le)

declare check_children.simps(2) [simp del] check_children_Cons [simp]

lemma check_children_facts:
  assumes "check_children q parent cs position sequence ids = Some (position', sequence')"
  shows "tiles position cs position'" "sorted_wrt (<) (map child_seq cs)" "\<forall>c \<in> set cs. sequence < child_seq c"
    and "sequence' = last (sequence # map child_seq cs)"
    and "\<forall>c \<in> set cs. child_seq c \<noteq> 0xFFFFFFFFFFFFFFFF \<and> \<not> has_sequence (child_seq c) (unacked q)"
proof -
  show "tiles position cs position'"
    using assms by (induction cs arbitrary: position sequence ids) auto
  show "\<forall>c \<in> set cs. sequence < child_seq c"
    using assms by (induction cs arbitrary: position sequence ids) (auto intro: less_trans)
  show "sequence' = last (sequence # map child_seq cs)"
    using assms by (induction cs arbitrary: position sequence ids) auto
  show "\<forall>c \<in> set cs. child_seq c \<noteq> 0xFFFFFFFFFFFFFFFF \<and> \<not> has_sequence (child_seq c) (unacked q)"
    using assms by (induction cs arbitrary: position sequence ids) auto
  have above: "check_children q parent cs position sequence ids = Some (position', sequence') \<Longrightarrow> c \<in> set cs \<Longrightarrow> sequence < child_seq c"
    for c cs position sequence ids
    by (induction cs arbitrary: position sequence ids) (auto intro: less_trans)
  show "sorted_wrt (<) (map child_seq cs)"
    using assms
  proof (induction cs arbitrary: position sequence ids)
    case (Cons c cs)
    then show ?case using above [of cs "child_end c" "child_seq c"] by auto
  qed simp
qed

lemma zero_parent_frame [simp]:
  "map desc_seq (fst (zero_parent p ds)) = map desc_seq ds"
  "map desc_size (fst (zero_parent p ds)) = map desc_size ds"
  "sum_list (map desc_events (fst (zero_parent p ds))) = sum_list (map desc_events ds) - snd (zero_parent p ds)"
  by (induction ds) (simp_all add: split_beta)

lemma zero_parent_length [simp]: "length (fst (zero_parent p ds)) = length ds"
  by (metis length_map zero_parent_frame(1))

lemma zero_parent_set:
  "d \<in> set (fst (zero_parent p ds)) \<Longrightarrow> \<exists>d' \<in> set ds. d = d' \<or> d = d'\<lparr>desc_events := 0\<rparr>"
  by (induction ds) (auto simp: split_beta split: if_splits)

lemma sorted_insertion:
  assumes "distinct (map desc_seq xs)"
  shows "sorted_wrt (<) (map desc_seq (sort_key desc_seq xs))"
proof -
  have "mset (map desc_seq (sort_key desc_seq xs)) = mset (map desc_seq xs)" by simp
  then have "distinct (map desc_seq (sort_key desc_seq xs))" using assms mset_eq_imp_distinct_iff by blast
  then show ?thesis by (simp add: strict_sorted_iff)
qed

lemma sum_sort_key: "sum_list (map f (sort_key g xs)) = (sum_list (map f xs) :: u64)"
  by (metis mset_map mset_sort sum_mset_sum_list)

text \<open>The invariant without the durable counter.\<close>

definition live_ok :: "queue \<Rightarrow> bool" where
  "live_ok q \<longleftrightarrow> sorted_wrt (<) (map desc_seq (unacked q))
     \<and> (\<forall>d \<in> set (unacked q). last_acked q < desc_seq d \<and> desc_seq d < next_seq q)
     \<and> last_acked q < next_seq q \<and> deliver_idx q \<le> length (unacked q)
     \<and> live_bytes q = sum_list (map desc_size (unacked q))
     \<and> queued_events q = sum_list (map desc_events (unacked q))"

lemma queue_ok_live:
  "queue_ok q \<longleftrightarrow> live_ok q \<and> (\<forall>d \<in> set (unacked q). desc_seq d < meta_next (meta q))
     \<and> last_acked q < meta_next (meta q) \<and> reserved_until q \<le> meta_next (meta q)"
  by (auto simp: queue_ok_def live_ok_def)

lemma live_ok_cong: "core q' = core q \<Longrightarrow> live_ok q' \<longleftrightarrow> live_ok q"
  by (simp add: live_ok_def core_def)

text \<open>The checks of \<open>installRepackPlan\<close> passed; \<open>root\<close> is the backing record.\<close>

definition installable :: "codec \<Rightarrow> repack_plan \<Rightarrow> event_batch \<Rightarrow> u64 \<Rightarrow> queue \<Rightarrow> bool" where
  "installable cd plan root sequence q \<longleftrightarrow>
     check_children q (plan_parent plan) (plan_children plan) (child_start (plan_parent plan))
        (child_seq (plan_parent plan)) {} = Some (child_end (plan_parent plan), sequence)
     \<and> 0 \<le> child_start (plan_parent plan) \<and> child_start (plan_parent plan) < child_end (plan_parent plan)
     \<and> child_end (plan_parent plan) \<le> int (length (batch_events root))
     \<and> (\<exists>data. map_of (files q) (plan_segment plan) = Some data
          \<and> read_record_payload cd data (nat (plan_offset plan)) (plan_length plan) (plan_crc plan) = Some root)
     \<and> plan_segment plan \<in> set (map seg_name (segments q))"

lemma install_cases:
  obtains (refused) e where "install_repack_plan cd opts plan q = (q, Some e)"
  | (installed) root sequence where "install_repack_plan cd opts plan q = (install_children cd plan root sequence q, None)"
      "installable cd plan root sequence q"
proof -
  have "(\<exists>e. install_repack_plan cd opts plan q = (q, Some e)) \<or> (\<exists>root sequence. install_repack_plan cd opts plan q
      = (install_children cd plan root sequence q, None) \<and> installable cd plan root sequence q)"
    unfolding install_repack_plan_def installable_def Let_def
    by (auto split: option.split)
  then show ?thesis using that by blast
qed

lemma installableD:
  assumes "installable cd plan root sequence q"
  shows "check_children q (plan_parent plan) (plan_children plan) (child_start (plan_parent plan))
        (child_seq (plan_parent plan)) {} = Some (child_end (plan_parent plan), sequence)"
    and "tiles (child_start (plan_parent plan)) (plan_children plan) (child_end (plan_parent plan))"
    and "sorted_wrt (<) (map child_seq (plan_children plan))"
    and "plan_children plan \<noteq> []" "sequence = child_seq (last (plan_children plan))"
    and "sequence \<noteq> 0xFFFFFFFFFFFFFFFF"
    and "live_ok q \<Longrightarrow> c \<in> set (plan_children plan) \<Longrightarrow> child_seq c \<notin> desc_seq ` set (unacked q)"
    and "c \<in> set (plan_children plan) \<Longrightarrow> child_seq c \<le> sequence"
proof -
  show ck: "check_children q (plan_parent plan) (plan_children plan) (child_start (plan_parent plan))
        (child_seq (plan_parent plan)) {} = Some (child_end (plan_parent plan), sequence)"
    using assms by (simp add: installable_def)
  note f = check_children_facts [OF ck]
  show t: "tiles (child_start (plan_parent plan)) (plan_children plan) (child_end (plan_parent plan))" by (rule f(1))
  show srt: "sorted_wrt (<) (map child_seq (plan_children plan))" by (rule f(2))
  show ne: "plan_children plan \<noteq> []" using t assms by (auto simp: installable_def)
  show l: "sequence = child_seq (last (plan_children plan))" using f(4) ne by (simp add: last_map)
  show "sequence \<noteq> 0xFFFFFFFFFFFFFFFF" using f(5) ne unfolding l by auto
  show "live_ok q \<Longrightarrow> c \<in> set (plan_children plan) \<Longrightarrow> child_seq c \<notin> desc_seq ` set (unacked q)"
    using f(5) has_sequence_iff by (auto simp: live_ok_def)
  have "sorted (map child_seq (plan_children plan))" using srt by (simp add: strict_sorted_iff)
  then show "c \<in> set (plan_children plan) \<Longrightarrow> child_seq c \<le> sequence"
    unfolding l by (cases "plan_children plan" rule: rev_cases) (auto simp: sorted_append)
qed

lemma child_desc_seq [simp]: "desc_seq (child_desc cd plan root c) = child_seq c" "desc_size (child_desc cd plan root c) = 0"
  by (simp_all add: child_desc_def Let_def)

definition fresh_descs :: "codec \<Rightarrow> repack_plan \<Rightarrow> event_batch \<Rightarrow> queue \<Rightarrow> batch_desc list" where
  "fresh_descs cd plan root q =
     map (child_desc cd plan root) (filter (\<lambda>c. child_seq c > last_acked q) (plan_children plan))"

lemma install_children_fields:
  fixes q cd plan root sequence
  defines "q' \<equiv> install_children cd plan root sequence q"
    and "rest \<equiv> zero_parent (child_seq (plan_parent plan)) (unacked q)"
  shows "unacked q' = sort_key desc_seq (fst rest @ fresh_descs cd plan root q)" "next_seq q' = max (next_seq q) (sequence + 1)"
    "last_acked q' = last_acked q" "deliver_idx q' = deliver_idx q" "live_bytes q' = live_bytes q" "closed q' = closed q"
    "terminal q' = terminal q" "files q' = files q" "active_open q' = active_open q" "active_size q' = active_size q"
    "segments q' = raise_segment (plan_segment plan) sequence (segments q)" "meta q' = meta q"
    "reserved_until q' = reserved_until q" "repacks q' = AList.update (child_seq (plan_parent plan)) plan (repacks q)"
    "sync_err q' = sync_err q"
    "queued_events q' = queued_events q - snd rest + sum_list (map desc_events (fresh_descs cd plan root q))"
  by (simp_all add: q'_def rest_def install_children_def Let_def split_beta fresh_descs_def)

lemma install_children_seqs:
  "desc_seq ` set (unacked (install_children cd plan root sequence q))
     = desc_seq ` set (unacked q) \<union> {k \<in> child_seq ` set (plan_children plan). k > last_acked q}"
proof -
  have "desc_seq ` set (fst (zero_parent (child_seq (plan_parent plan)) (unacked q))) = desc_seq ` set (unacked q)"
    by (metis set_map zero_parent_frame(1))
  then show ?thesis by (auto simp: install_children_fields fresh_descs_def image_Un image_image)
qed

lemma install_children_live:
  assumes ok: "installable cd plan root sequence q" and live: "live_ok q"
  shows "live_ok (install_children cd plan root sequence q)"
proof -
  let ?q = "install_children cd plan root sequence q" and ?fresh = "fresh_descs cd plan root q"
  let ?rest = "zero_parent (child_seq (plan_parent plan)) (unacked q)"
  note D = installableD [OF ok] and fields = install_children_fields [where q = q and cd = cd and plan = plan and root = root and sequence = sequence]
  have d: "distinct (map desc_seq (fst ?rest @ ?fresh))"
  proof -
    have "distinct (map child_seq (plan_children plan))" using D(3) by (simp add: strict_sorted_iff)
    then have "distinct (map desc_seq ?fresh)" by (simp add: fresh_descs_def comp_def distinct_map_filter)
    moreover have "distinct (map desc_seq (unacked q))" using live by (simp add: live_ok_def strict_sorted_iff)
    moreover have "set (map desc_seq ?fresh) \<inter> set (map desc_seq (unacked q)) = {}" using D(7) [OF live] by (auto simp: fresh_descs_def)
    ultimately show ?thesis
      unfolding map_append zero_parent_frame(1) distinct_append by blast
  qed
  have len: "length (unacked ?q) = length (unacked q) + length ?fresh"
    by (simp add: fields)
  have b: "last_acked q < k \<and> k < next_seq ?q" if "k \<in> desc_seq ` set (unacked ?q)" for k
  proof -
    have "k \<in> desc_seq ` set (unacked q) \<or> (\<exists>c \<in> set (plan_children plan). k = child_seq c \<and> k > last_acked q)"
      using that install_children_seqs by blast
    then show ?thesis
    proof
      assume "k \<in> desc_seq ` set (unacked q)"
      then show ?thesis using live by (auto simp: live_ok_def fields less_max_iff_disj)
    next
      assume "\<exists>c \<in> set (plan_children plan). k = child_seq c \<and> k > last_acked q"
      then have "k \<le> sequence" "k > last_acked q" using D(8) by auto
      moreover have "sequence < sequence + 1" by (rule u64_succ [OF D(6)])
      ultimately show ?thesis by (auto simp: fields less_max_iff_disj)
    qed
  qed
  have "sum_list (map desc_size ?fresh) = 0" by (simp add: comp_def fresh_descs_def)
  then show ?thesis
    using live b len sorted_insertion [OF d] unfolding live_ok_def
    by (simp add: fields sum_sort_key less_max_iff_disj)
qed

section \<open>What the children hold\<close>

definition view_events :: "event_batch \<Rightarrow> repack_child \<Rightarrow> log_event option list" where
  "view_events root c = drop (nat (child_start c)) (take (nat (child_end c)) (batch_events root))"

lemma repack_batch_events [simp]:
  "batch_events (repack_batch cd root c) = view_events root c" "batch_sequence (repack_batch cd root c) = child_seq c"
  by (simp_all add: repack_batch_def view_events_def Let_def)

lemma tiles_concat:
  assumes "tiles a cs b" "0 \<le> a" "b \<le> int (length (batch_events root))"
  shows "concat (map (view_events root) cs) = drop (nat a) (take (nat b) (batch_events root))"
  using assms
proof (induction a cs b rule: tiles.induct)
  case (2 a c cs b)
  let ?E = "batch_events root"
  have t: "child_start c = a" "a < child_end c" "tiles (child_end c) cs b" using "2.prems"(1) by simp_all
  have le: "child_end c \<le> b" using tiles_bounds [OF t(3)] by simp
  have "view_events root c = drop (nat a) (take (nat (child_end c)) ?E)" by (simp add: view_events_def t(1))
  moreover have "concat (map (view_events root) cs) = drop (nat (child_end c)) (take (nat b) ?E)"
    using "2.IH" t "2.prems"(2,3) by simp
  moreover have "drop (nat a) (take (nat b) ?E)
      = drop (nat a) (take (nat (child_end c)) (take (nat b) ?E)) @ drop (nat (child_end c)) (take (nat b) ?E)"
    using t(2) "2.prems"(2,3) le by (subst append_take_drop_id [symmetric, of "take (nat b) ?E" "nat (child_end c)"], subst drop_append) simp
  ultimately show ?case using le by (simp add: min_def nat_mono)
qed simp

lemma end_to_end_children:
  assumes "end_to_end a rs b"
  shows "tiles (s + int a) (map (\<lambda>(i, x, y). \<lparr>child_seq = f i, child_id = g i, child_start = s + int x,
      child_end = (if i + 1 = k + length rs then s + int b else s + int y)\<rparr>) (enumerate k rs)) (s + int b)"
  using assms
proof (induction a rs b arbitrary: k rule: end_to_end.induct)
  case (2 a x y rs b)
  have yb: "y \<le> b" using end_to_end_bounds [of y rs b] 2(2) by auto
  show ?case
  proof (cases rs)
    case Nil
    then show ?thesis using 2 by simp
  next
    case (Cons r rs')
    then show ?thesis using 2(1) [of "Suc k"] 2(2) by simp
  qed
qed simp

lemma repack_children_tile:
  assumes "me \<noteq> 0" "length events \<ge> 2" "child_end view = child_start view + int (length events)"
  shows "tiles (child_start view) (repack_children uuid cd me mb view events nxt) (child_end view)"
proof -
  define first where "first = (if length (split_ranges cd me mb events 0 0 0) < 2 then 1 else 0 :: nat)"
  note e = end_to_end_children [OF repack_ranges_ok(1) [OF assms(1,2), of cd mb], where s = "child_start view" and k = 0
    and f = "\<lambda>i. nxt + of_nat i" and g = "\<lambda>i. uuid (first + i)"]
  show ?thesis
    using e unfolding repack_children_def Let_def assms(3) first_def [symmetric] by simp
qed

lemma end_to_end_nth:
  "end_to_end a rs b \<Longrightarrow> i < length rs \<Longrightarrow> i + 1 = length rs \<Longrightarrow> snd (rs ! i) = b"
proof (induction a rs b arbitrary: i rule: end_to_end.induct)
  case (2 a x y rs b)
  then show ?case by (cases rs; cases i) auto
qed simp

lemma repack_children_limits:
  assumes "me \<noteq> 0" "events = view_events root view" "length events \<ge> 2" "0 \<le> child_start view"
    "child_end view = child_start view + int (length events)" "child_end view \<le> int (length (batch_events root))"
    and "c \<in> set (repack_children uuid cd me mb view events nxt)"
  shows "within_limits cd me mb (view_events root c)"
proof -
  let ?rs = "repack_ranges cd me mb events"
  note R = repack_ranges_ok [OF assms(1,3), where cd = cd and mb = mb]
  obtain i a b where i: "(i, a, b) \<in> set (enumerate 0 ?rs)" and
    c: "child_start c = child_start view + int a" "child_end c = (if i + 1 = length ?rs then child_end view else child_start view + int b)"
    using assms(7) by (auto simp: repack_children_def Let_def)
  have ab: "i < length ?rs" "?rs ! i = (a, b)" using i by (simp_all add: in_set_enumerate_eq)
  then have ab3: "(a, b) \<in> set ?rs" by (metis nth_mem)
  have bd: "a < b" "b \<le> length events" using end_to_end_bounds [OF R(1)] ab3 by auto
  have ce: "child_end c = child_start view + int b"
  proof (cases "i + 1 = length ?rs")
    case True
    then have "b = length events" using end_to_end_nth [OF R(1) ab(1) True] ab(2) by simp
    then show ?thesis using c(2) True assms(5) by simp
  next
    case False
    then show ?thesis using c(2) by simp
  qed
  obtain s where s: "child_start view = int s" using assms(4) nonneg_int_cases by blast
  have n: "nat (int s + int x) = s + x" for x by simp
  have "take (b - a) (drop a events) = take (b - a) (take (length events - a) (drop (s + a) (batch_events root)))"
    using arg_cong [OF assms(2), of "\<lambda>es. take (b - a) (drop a es)"] unfolding view_events_def assms(5) s n
    by (simp add: drop_take add.commute)
  also have "\<dots> = take (b - a) (drop (s + a) (batch_events root))" using bd by (simp add: min_def)
  also have "\<dots> = view_events root c" unfolding view_events_def c(1) ce s n by (simp add: drop_take)
  finally have "view_events root c = take (b - a) (drop a events)" ..
  then show ?thesis using R(3) [OF ab3] by simp
qed

end
