(* ===== verification/Wal_Invariant.thy ===== *)
theory Wal_Invariant
  imports Wal_Repack
begin

text \<open>
  The invariant of the whole queue, \<open>wal_inv\<close>: queue, parents of repacked batches and disk.  Here it is
  proved of repacking, the operation that touches all three, and what a successful \<open>Repack\<close> publishes.
\<close>

lemma raise_segment_view:
  assumes "distinct (map seg_name xs)"
  shows "map seg_name (raise_segment nm s xs) = map seg_name xs"
    and "map seg_sealed (raise_segment nm s xs) = map seg_sealed xs"
    and "x \<in> set xs \<Longrightarrow> \<exists>y \<in> set (raise_segment nm s xs). seg_name y = seg_name x \<and> seg_last x \<le> seg_last y
           \<and> (seg_name x = nm \<longrightarrow> s \<le> seg_last y)"
    and "y \<in> set (raise_segment nm s xs) \<Longrightarrow> \<exists>x \<in> set xs. seg_name y = seg_name x \<and> (seg_last y = seg_last x \<or> seg_last y = s)"
proof -
  show "map seg_name (raise_segment nm s xs) = map seg_name xs" "map seg_sealed (raise_segment nm s xs) = map seg_sealed xs"
    by (induction xs) simp_all
  show "x \<in> set xs \<Longrightarrow> \<exists>y \<in> set (raise_segment nm s xs). seg_name y = seg_name x \<and> seg_last x \<le> seg_last y
           \<and> (seg_name x = nm \<longrightarrow> s \<le> seg_last y)"
    using assms
  proof (induction xs)
    case (Cons a xs)
    have "seg_name x \<noteq> seg_name a" if "x \<in> set xs" using Cons.prems(2) imageI [OF that, of seg_name] by auto
    then show ?case using Cons.prems Cons.IH by (cases "x = a") (auto simp: le_max_iff_disj)
  qed simp
  show "y \<in> set (raise_segment nm s xs) \<Longrightarrow> \<exists>x \<in> set xs. seg_name y = seg_name x \<and> (seg_last y = seg_last x \<or> seg_last y = s)"
    by (induction xs) (auto simp: max_def split: if_splits)
qed

lemma readable_fewer_events: "readable cd fs (d\<lparr>desc_events := n\<rparr>) \<longleftrightarrow> readable cd fs d"
  by (cases "desc_repacked d") (simp_all add: readable_def)

lemma readable_child:
  assumes "installable cd plan root sequence q" "c \<in> set (plan_children plan)"
  shows "readable cd (files q) (child_desc cd plan root c)"
proof -
  have "0 \<le> child_start c \<and> child_start c < child_end c \<and> child_end c \<le> int (length (batch_events root))"
    using tiles_bounds [OF installableD(2) [OF assms(1)]] assms by (fastforce simp: installable_def)
  then show ?thesis using assms(1) by (auto simp: readable_def child_desc_def Let_def installable_def)
qed

lemma install_children_disk:
  assumes ok: "installable cd plan root sequence q" and inv: "disk_inv cd n q" and m: "n \<le> m" "sequence < m"
  shows "disk_inv cd m (install_children cd plan root sequence q)"
proof -
  let ?q = "install_children cd plan root sequence q"
  note fields = install_children_fields [where q = q and cd = cd and plan = plan and root = root and sequence = sequence]
  have d: "disk_ok cd m q" using inv disk_ok_mono m(1) by (auto simp: disk_inv_def)
  have un: "active_unsealed q" using inv by (simp add: disk_inv_def)
  note dist = disk_okD(3) [OF d]
  note v = raise_segment_view [OF dist, where nm = "plan_segment plan" and s = sequence, folded fields(11)]
  have set_un: "\<exists>d' \<in> set (unacked q). d = d' \<or> d = d'\<lparr>desc_events := 0\<rparr>"
    if "d \<in> set (unacked ?q)" "d \<notin> child_desc cd plan root ` set (plan_children plan)" for d
    using that zero_parent_set by (fastforce simp: fields(1) fresh_descs_def)
  have seg_c: "\<exists>s \<in> set (segments ?q). seg_name s = plan_segment plan \<and> sequence \<le> seg_last s"
  proof -
    obtain x where "x \<in> set (segments q)" "seg_name x = plan_segment plan" using ok by (auto simp: installable_def)
    then show ?thesis using v(3) [of x] by auto
  qed
  have ln: "map seg_name (segments ?q) = map seg_name (segments q)" "map seg_sealed (segments ?q) = map seg_sealed (segments q)"
    using v(1,2) by simp_all
  then have nn: "segments ?q \<noteq> [] \<longleftrightarrow> segments q \<noteq> []" by (metis map_is_Nil_conv)
  have lst: "seg_name (last (segments ?q)) = seg_name (last (segments q)) \<and> seg_sealed (last (segments ?q)) = seg_sealed (last (segments q))"
    if "segments q \<noteq> []"
    using that nn ln by (metis last_map)
  have "disk_ok cd m ?q"
    unfolding disk_ok_def
  proof (intro conjI ballI)
    fix d assume dd: "d \<in> set (unacked ?q)"
    show "readable cd (files ?q) d"
    proof (cases "d \<in> child_desc cd plan root ` set (plan_children plan)")
      case True
      then show ?thesis using readable_child [OF ok] by (auto simp: fields(8))
    next
      case False
      then show ?thesis using set_un [OF dd] disk_okD(1) [OF d] by (auto simp: fields(8) readable_fewer_events)
    qed
    show "\<exists>s \<in> set (segments ?q). seg_name s = desc_seg d \<and> desc_seq d \<le> seg_last s"
    proof (cases "d \<in> child_desc cd plan root ` set (plan_children plan)")
      case True
      then obtain c where c: "c \<in> set (plan_children plan)" "d = child_desc cd plan root c" by blast
      have s: "desc_seg d = plan_segment plan" "desc_seq d \<le> sequence"
        using c installableD(8) [OF ok c(1)] by (simp_all add: child_desc_def Let_def)
      obtain x where x: "x \<in> set (segments ?q)" "seg_name x = plan_segment plan" "sequence \<le> seg_last x"
        using seg_c by blast
      show ?thesis using x s by (intro bexI [of _ x]) (auto intro: order_trans)
    next
      case False
      then obtain d' where d': "d' \<in> set (unacked q)" "desc_seg d = desc_seg d'" "desc_seq d = desc_seq d'"
        using set_un [OF dd] by auto
      obtain x where x: "x \<in> set (segments q)" "seg_name x = desc_seg d'" "desc_seq d' \<le> seg_last x"
        using disk_okD(2) [OF d d'(1)] by blast
      obtain y where y: "y \<in> set (segments ?q)" "seg_name y = seg_name x" "seg_last x \<le> seg_last y"
        using v(3) [OF x(1)] by blast
      show ?thesis using x(2) d' order_trans [OF x(3) y(3)] y(1,2) by (intro bexI [of _ y]) simp_all
    qed
  next
    show "distinct (map seg_name (segments ?q))" using dist ln by simp
  next
    fix y assume "y \<in> set (segments ?q)"
    then obtain x where x: "x \<in> set (segments q)" "seg_name y = seg_name x" "seg_last y = seg_last x \<or> seg_last y = sequence"
      using v(4) by blast
    show "\<exists>k < m. seg_name y = segment_name k" using disk_okD(4) [OF d x(1)] x(2) by simp
    show "seg_last y < m" using disk_okD(7) [OF d x(1)] x(3) m(2) by auto
  next
    show "\<forall>k. segment_name k \<in> dom (map_of (files ?q)) \<longrightarrow> k < m" using disk_okD(5) [OF d] by (simp add: fields(8))
    show "active_open ?q \<longrightarrow> segments ?q \<noteq> [] \<and>
        (\<exists>data. map_of (files ?q) (seg_name (last (segments ?q))) = Some data \<and> length data = active_size ?q)"
      using disk_okD(6) [OF d] lst nn by (simp add: fields(8-10))
  qed
  moreover have "active_unsealed ?q" using un lst nn by (auto simp: active_unsealed_def fields(9))
  ultimately show ?thesis by (simp add: disk_inv_def)
qed

lemma children_of_install:
  "children_of (install_children cd plan root sequence q) p =
     (if p = child_seq (plan_parent plan) then child_seq ` set (plan_children plan) else children_of q p)"
  by (simp add: children_of_def install_children_fields update_conv')

text \<open>The invariant of the parents, but for the one being installed.\<close>

definition repack_ok_but :: "u64 \<Rightarrow> queue \<Rightarrow> bool" where
  "repack_ok_but s q \<longleftrightarrow> s \<notin> terminal q
     \<and> (\<forall>p k. p \<noteq> s \<longrightarrow> k \<in> children_of q p \<longrightarrow> accounted False q k \<and> (p \<in> terminal q \<longrightarrow> k \<in> terminal q \<or> k \<le> last_acked q))"

lemma repack_ok_but: "repack_ok False q \<Longrightarrow> s \<notin> terminal q \<Longrightarrow> repack_ok_but s q"
  unfolding repack_ok_def repack_ok_but_def by blast

lemma repack_ok_but_record:
  assumes "repack_ok_but s q" "core q' = core q" "repacks q' = AList.update s plan (repacks q) \<or> repacks q' = repacks q"
  shows "repack_ok_but s q'"
proof -
  have "children_of q' p = children_of q p" if "p \<noteq> s" for p
    using assms(3) that by (auto simp: children_of_def update_conv')
  then show ?thesis using assms(1) accounted_core [OF assms(2)] core_eqD(3,8) [OF assms(2)]
    unfolding repack_ok_but_def by simp
qed

lemma install_children_repack:
  assumes "installable cd plan root sequence q" "repack_ok_but (child_seq (plan_parent plan)) q"
  shows "repack_ok False (install_children cd plan root sequence q)"
proof -
  let ?q = "install_children cd plan root sequence q"
  note fields = install_children_fields [where q = q and cd = cd and plan = plan and root = root and sequence = sequence]
  show ?thesis
    unfolding repack_ok_def
  proof (intro conjI allI impI)
    fix p k assume "p \<in> terminal ?q" "k \<in> children_of ?q p"
    then have "p \<in> terminal q" "k \<in> children_of q p" "p \<noteq> child_seq (plan_parent plan)"
      using assms(2) by (auto simp: fields children_of_install repack_ok_but_def split: if_splits)
    then show "k \<in> terminal ?q \<or> k \<le> last_acked ?q" using assms(2) unfolding repack_ok_but_def by (auto simp: fields)
  next
    fix p k assume "k \<in> children_of ?q p"
    then consider "k \<in> child_seq ` set (plan_children plan)" | "k \<in> children_of q p" "p \<noteq> child_seq (plan_parent plan)"
      by (auto simp: children_of_install split: if_splits)
    then show "accounted False ?q k"
    proof cases
      case 1
      then show ?thesis by (auto simp: accounted_def install_children_seqs fields(3))
    next
      case 2
      then have "accounted False q k" using assms(2) unfolding repack_ok_but_def by blast
      then show ?thesis unfolding accounted_def install_children_seqs fields(3) by blast
    qed
  qed
qed

section \<open>Repacking keeps the invariants\<close>

text \<open>Between operations: the queue, its parents and its disk.  A log that failed while closed accepts no more batches.\<close>

definition wal_inv :: "codec \<Rightarrow> queue \<Rightarrow> bool" where
  "wal_inv cd q \<longleftrightarrow> queue_ok q \<and> repack_ok (sync_err q \<and> \<not> active_open q) q \<and> disk_inv cd (next_seq q) q"

lemma queue_ok_raise: "queue_ok q \<Longrightarrow> next_seq q \<le> k \<Longrightarrow> queue_ok (q\<lparr>next_seq := k\<rparr>)"
  unfolding queue_ok_def by (auto intro: less_le_trans)

lemma persist_repack_plan_frame [simp]:
  "core (fst (persist_repack_plan ms plan q)) = core q" "counters (fst (persist_repack_plan ms plan q)) = counters q"
  "repacks (fst (persist_repack_plan ms plan q)) = repacks q" "segments (fst (persist_repack_plan ms plan q)) = segments q"
  "files (fst (persist_repack_plan ms plan q)) = files q" "active_open (fst (persist_repack_plan ms plan q)) = active_open q"
  "active_size (fst (persist_repack_plan ms plan q)) = active_size q" "sync_err (fst (persist_repack_plan ms plan q)) = sync_err q"
  by (simp_all add: persist_repack_plan_def Let_def split_beta split: io_result.split)

lemma persist_meta_sync [simp]: "sync_err (fst (persist_meta q)) = sync_err q"
  by (simp add: persist_meta_def Let_def split_beta split: io_result.split)

lemma failing_simps [simp]:
  "snd (failing r) = snd r" "fst (failing r) = (if snd r = None then fst r else (fst r)\<lparr>sync_err := True\<rparr>)"
  by (cases r; cases "snd r"; simp add: failing_def)+

lemma failing_None: "failing r = (x, None) \<longleftrightarrow> r = (x, None)"
  by (auto simp: failing_def split: prod.splits option.splits)

lemma publish_plan_eq:
  "publish_plan ms cd opts s plan q =
     (let p1 = persist_meta (q\<lparr>next_seq := next_seq q + of_nat (length (plan_children plan))\<rparr>);
          p2 = persist_repack_plan ms plan (fst p1);
          p3 = persist_meta ((fst p2)\<lparr>repacks := AList.update s plan (repacks (fst p2))\<rparr>)
      in if snd p1 \<noteq> None then failing p1 else if snd p2 \<noteq> None then failing p2 else if snd p3 \<noteq> None then failing p3
         else failing (install_repack_plan cd opts plan (fst p3)))"
  by (simp add: publish_plan_def failing_def Let_def split_beta split: option.split)

lemma queue_ok_sync_err [simp]: "queue_ok (q\<lparr>sync_err := b\<rparr>) \<longleftrightarrow> queue_ok q"
  by (rule queue_ok_cong) simp_all

lemma repack_ok_sync_err [simp]: "repack_ok b (q\<lparr>sync_err := c\<rparr>) \<longleftrightarrow> repack_ok b q"
  by (simp add: repack_ok_def accounted_def children_of_def)

lemma disk_inv_sync_err [simp]: "disk_inv cd n (q\<lparr>sync_err := b\<rparr>) \<longleftrightarrow> disk_inv cd n q"
  by (rule disk_inv_cong) simp_all

lemma repack_ok_weaken: "repack_ok b q \<Longrightarrow> b \<longrightarrow> b' \<Longrightarrow> repack_ok b' q"
  unfolding repack_ok_def accounted_def by blast

text \<open>A plan whose children lie above everything queued may be recorded before it is installed.\<close>

lemma repack_ok_record:
  assumes "repack_ok b q" "s \<notin> terminal q" "\<forall>k \<in> child_seq ` set (plan_children plan). \<forall>d \<in> set (unacked q). desc_seq d < k"
  shows "repack_ok True (q\<lparr>repacks := AList.update s plan (repacks q)\<rparr>)"
proof -
  have c: "children_of (q\<lparr>repacks := AList.update s plan (repacks q)\<rparr>) p
      = (if p = s then child_seq ` set (plan_children plan) else children_of q p)" for p
    by (simp add: children_of_def update_conv')
  show ?thesis using assms unfolding repack_ok_def c by (auto simp: accounted_def split: if_splits) blast+
qed

lemma install_queue_ok:
  assumes "installable cd plan root sequence q" "queue_ok q" "next_seq q \<le> meta_next (meta q)" "sequence < next_seq q"
  shows "queue_ok (install_children cd plan root sequence q)"
proof -
  let ?q = "install_children cd plan root sequence q"
  note fields = install_children_fields [where q = q and cd = cd and plan = plan and root = root and sequence = sequence]
  have live: "live_ok ?q" using install_children_live [OF assms(1)] assms(2) by (simp add: queue_ok_live)
  have "desc_seq d < meta_next (meta q)" if "d \<in> set (unacked ?q)" for d
  proof -
    have "desc_seq d \<in> desc_seq ` set (unacked q) \<or> desc_seq d \<in> child_seq ` set (plan_children plan)"
      using imageI [OF that, of desc_seq] unfolding install_children_seqs by blast
    then have "desc_seq d < next_seq q"
      using queue_okD(7) [OF assms(2)] installableD(8) [OF assms(1)] assms(4) by auto (meson le_less_trans)
    then show ?thesis using assms(3) by (rule less_le_trans)
  qed
  then show ?thesis using live assms(2) by (simp add: queue_ok_live fields)
qed

lemma install_wal:
  assumes inv: "queue_ok q" "repack_ok_but (child_seq (plan_parent plan)) q" "disk_inv cd (next_seq q) q"
    and m: "next_seq q \<le> meta_next (meta q)" "child_seq (last (plan_children plan)) < next_seq q"
  shows "queue_ok (fst (install_repack_plan cd opts plan q))
     \<and> (snd (install_repack_plan cd opts plan q) = None \<longrightarrow> repack_ok False (fst (install_repack_plan cd opts plan q)))
     \<and> disk_inv cd (next_seq (fst (install_repack_plan cd opts plan q))) (fst (install_repack_plan cd opts plan q))"
proof (cases rule: install_cases [of cd opts plan q])
  case (refused e)
  then show ?thesis using inv by simp
next
  case (installed root sequence)
  have s: "sequence < next_seq q" using m(2) installableD(5) [OF installed(2)] by simp
  have n: "next_seq (install_children cd plan root sequence q) = next_seq q"
    using s by (simp add: install_children_fields max_def) (metis inc_le order.antisym)
  show ?thesis
    using installed install_queue_ok [OF installed(2) inv(1) m(1) s]
      install_children_repack [OF installed(2) inv(2)] inv(1) install_children_disk [OF installed(2) inv(3) order.refl s]
    by (simp add: n queue_ok_live)
qed

lemma repack_children_seqs:
  fixes nxt :: u64 and uuid cd me mb view events
  defines "cs \<equiv> repack_children uuid cd me mb view events nxt"
  assumes "me \<noteq> 0" "length events \<ge> 2" "length cs < unat (0xFFFFFFFFFFFFFFFF - nxt)"
  shows "i < length cs \<Longrightarrow> child_seq (cs ! i) = nxt + of_nat i" "cs \<noteq> []"
    and "i < length cs \<Longrightarrow> unat (nxt + of_nat i) = unat nxt + i"
    and "unat (nxt + of_nat (length cs)) = unat nxt + length cs"
    and "child_seq (last cs) < nxt + of_nat (length cs)" and "\<forall>k \<in> child_seq ` set cs. nxt \<le> k"
proof -
  have l: "length cs = length (repack_ranges cd me mb events)" by (simp add: cs_def repack_children_def Let_def)
  show sq: "child_seq (cs ! i) = nxt + of_nat i" if "i < length cs" for i
    using that unfolding cs_def by (simp add: repack_children_def Let_def nth_enumerate_eq split_beta)
  show ne: "cs \<noteq> []" using repack_ranges_ok(2) [OF assms(2,3), of cd mb] l by auto
  have bound: "unat nxt + length cs < 2 ^ 64"
    using assms(4) unat_u64_less [of nxt] by (subst (asm) unat_sub) (simp_all add: word_le_nat_alt)
  have nat: "unat (nxt + of_nat i) = unat nxt + i" if "i \<le> length cs" for i
    using bound that by (simp add: unat_word_ariths unat_of_nat)
  show "i < length cs \<Longrightarrow> unat (nxt + of_nat i) = unat nxt + i" using nat [of i] by simp
  show "unat (nxt + of_nat (length cs)) = unat nxt + length cs" using nat [of "length cs"] by simp
  have "last cs = cs ! (length cs - 1)" using ne by (rule last_conv_nth)
  then show "child_seq (last cs) < nxt + of_nat (length cs)"
    using sq [of "length cs - 1"] nat [of "length cs - 1"] nat [of "length cs"] ne
    unfolding word_less_nat_alt by simp
  show "\<forall>k \<in> child_seq ` set cs. nxt \<le> k"
  proof
    fix k assume "k \<in> child_seq ` set cs"
    then obtain i where "i < length cs" "k = child_seq (cs ! i)" by (auto simp: in_set_conv_nth)
    then show "nxt \<le> k" using sq [of i] nat [of i] by (simp add: word_le_nat_alt)
  qed
qed

lemma publish_plan_wal:
  assumes inv: "queue_ok q" "repack_ok False q" "disk_inv cd (next_seq q) q" and closed: "\<not> active_open q"
    and s: "s = child_seq (plan_parent plan)" "s \<notin> terminal q"
    and k: "next_seq q \<le> next_seq q + of_nat (length (plan_children plan))"
    and last: "child_seq (last (plan_children plan)) < next_seq q + of_nat (length (plan_children plan))"
    and above: "\<forall>k \<in> child_seq ` set (plan_children plan). next_seq q \<le> k"
  shows "wal_inv cd (fst (publish_plan ms cd opts s plan q))"
proof -
  define q0 where "q0 = q\<lparr>next_seq := next_seq q + of_nat (length (plan_children plan))\<rparr>"
  define p1 where "p1 = persist_meta q0"
  define p2 where "p2 = persist_repack_plan ms plan (fst p1)"
  define r2 where "r2 = (fst p2)\<lparr>repacks := AList.update s plan (repacks (fst p2))\<rparr>"
  define p3 where "p3 = persist_meta r2"
  define p4 where "p4 = install_repack_plan cd opts plan (fst p3)"
  have eq: "publish_plan ms cd opts s plan q =
     (if snd p1 \<noteq> None then failing p1 else if snd p2 \<noteq> None then failing p2 else if snd p3 \<noteq> None then failing p3 else failing p4)"
    by (simp add: publish_plan_eq Let_def p1_def p2_def p3_def p4_def r2_def q0_def)
  note c1 = core_eqD [OF persist_meta_frame(1) [of q0], folded p1_def]
  note c2 = core_eqD [OF persist_repack_plan_frame(1) [of ms plan "fst p1"], folded p2_def]
  have "core r2 = core (fst p2)" by (simp add: r2_def)
  note cr = core_eqD [OF this]
  note c3 = core_eqD [OF persist_meta_frame(1) [of r2], folded p3_def]
  have a1: "queue_ok (fst p1)" "repack_ok False (fst p1)" "disk_inv cd (next_seq (fst p1)) (fst p1)"
    using inv queue_ok_raise [OF inv(1) k] disk_inv_mono [OF inv(3) k] c1(2)
    unfolding p1_def q0_def by (auto intro!: inv_intros simp del: repack_ok_sync_err)
  have a2: "queue_ok (fst p2)" "repack_ok False (fst p2)" "disk_inv cd (next_seq (fst p2)) (fst p2)"
    using a1 queue_ok_cong [OF persist_repack_plan_frame(1,2)] repack_ok_shrink [OF a1(2), of "fst p2"]
      disk_inv_same_core [OF a1(3), of "fst p2"] c2(2)
    by (simp_all add: p2_def)
  have un: "unacked r2 = unacked q" "next_seq r2 = next_seq q0" "terminal r2 = terminal q"
    using c1 c2 cr by (simp_all add: q0_def)
  have ab: "\<forall>k \<in> child_seq ` set (plan_children plan). \<forall>d \<in> set (unacked (fst p2)). desc_seq d < k"
    using above queue_okD(7) [OF inv(1)] un cr by (auto intro: less_le_trans)
  have ar: "queue_ok r2" "repack_ok True r2" "disk_inv cd (next_seq r2) r2"
    using a2(1) queue_ok_cong [of r2 "fst p2"] repack_ok_record [OF a2(2) _ ab] s(2) un cr
      disk_inv_same_core [OF a2(3), of r2]
    by (simp_all add: r2_def)
  have a3: "queue_ok (fst p3)" "repack_ok True (fst p3)" "disk_inv cd (next_seq (fst p3)) (fst p3)"
    using ar c3(2) unfolding p3_def by (auto intro!: inv_intros)
  have op: "active_open (fst p1) = False" "active_open (fst p2) = False" "active_open (fst p3) = False"
    using closed by (simp_all add: p1_def p2_def p3_def r2_def q0_def)
  have "repack_ok_but s (fst p2)" using repack_ok_but [OF a2(2)] s(2) un cr by simp
  then have "repack_ok_but s r2" by (rule repack_ok_but_record [where plan = plan]) (simp_all add: r2_def)
  then have but: "repack_ok_but s (fst p3)" unfolding p3_def by (rule repack_ok_but_record) simp_all
  have sy: "sync_err (fst p4) = sync_err (fst p3) \<and> active_open (fst p4) = active_open (fst p3) \<and> (snd p4 \<noteq> None \<longrightarrow> fst p4 = fst p3)"
    unfolding p4_def by (rule install_cases [of cd opts plan "fst p3"]) (simp_all add: install_children_fields)
  have a4: "wal_inv cd (fst (failing p4))" if ok: "snd p3 = None"
  proof -
    have m3: "meta (fst p3) = current_meta r2" using persist_meta_meta(1) ok unfolding p3_def by blast
    have nx: "next_seq (fst p3) = next_seq r2" using c3(2) .
    have m: "next_seq (fst p3) \<le> meta_next (meta (fst p3))" unfolding m3 nx meta_next_current by simp
    have l: "child_seq (last (plan_children plan)) < next_seq (fst p3)" using last nx un by (simp add: q0_def)
    note w = install_wal [OF a3(1) but [unfolded s(1)] a3(3) m l, of opts, folded p4_def]
    show ?thesis
    proof (cases "snd p4")
      case None
      then show ?thesis using w repack_ok_weaken by (auto simp: wal_inv_def)
    next
      case (Some e)
      then have "fst p4 = fst p3" using sy by simp
      then show ?thesis using w a3(2) op Some by (simp add: wal_inv_def)
    qed
  qed
  have f1: "wal_inv cd (fst (failing p1))" if "snd p1 \<noteq> None"
    using a1 that repack_ok_weaken [OF a1(2)] by (simp add: wal_inv_def)
  have f2: "wal_inv cd (fst (failing p2))" if "snd p2 \<noteq> None"
    using a2 that repack_ok_weaken [OF a2(2)] by (simp add: wal_inv_def)
  have f3: "wal_inv cd (fst (failing p3))" if "snd p3 \<noteq> None"
    using a3 that op by (auto simp: wal_inv_def)
  show ?thesis unfolding eq using f1 f2 f3 a4 by simp
qed

lemma find_desc_iff: "find_desc s ds = Some d \<Longrightarrow> d \<in> set ds \<and> desc_seq d = s"
  by (induction ds) (auto split: if_splits)

lemma repack_view_seq:
  assumes "readable cd (files q) d"
  shows "child_seq (repack_view d parent) = desc_seq d"
  using assms by (auto simp: readable_def repack_view_def split: option.splits)

lemma repack_wal [inv_intros]:
  assumes inv: "wal_inv cd q" and t: "s \<notin> terminal q"
  shows "wal_inv cd (fst (repack ms uuid cd opts s me mb q))"
proof -
  have "wal_inv cd (fst (seal_active q))"
    if "\<not> sync_err q"
    using inv that repack_ok_weaken [OF repack_ok_frame(1) [of False q]] core_eqD(2) [OF seal_active_frame(1) [of q]]
    by (auto simp: wal_inv_def intro: inv_intros)
  moreover have "wal_inv cd (fst (publish_plan ms cd opts s plan q1))"
    if g: "\<not> sync_err q" "me \<noteq> 0" "find_desc s (unacked q) = Some d" "read_batch cd q d = Inr parent" "length (batch_events parent) \<ge> 2"
      "plan = repack_plan_of uuid cd me mb d parent encoded (next_seq q)"
      "length (plan_children plan) < unat (0xFFFFFFFFFFFFFFFF - next_seq q)" "seal_active q = (q1, None)"
    for d parent encoded plan q1
  proof -
    have q1: "q1 = fst (seal_active q)" using g by simp
    note c = core_eqD [OF seal_active_frame(1) [of q], folded q1]
    have pc: "plan_children plan = repack_children uuid cd me mb (repack_view d parent) (batch_events parent) (next_seq q)"
      "plan_parent plan = repack_view d parent"
      using g(6) by (simp_all add: repack_plan_of_def)
    note f = repack_children_seqs [OF g(2,5), where uuid = uuid and cd = cd and mb = mb and view = "repack_view d parent" and nxt = "next_seq q",
        folded pc(1), OF g(7)]
    have s: "child_seq (plan_parent plan) = s"
      using find_desc_iff [OF g(3)] inv repack_view_seq [of cd q d parent] disk_okD(1) pc(2)
      by (auto simp: wal_inv_def disk_inv_def)
    show ?thesis
    proof (rule publish_plan_wal)
      show "queue_ok q1" "repack_ok False q1" "disk_inv cd (next_seq q1) q1"
        using inv g(1) c(2) by (auto simp: wal_inv_def q1 intro!: inv_intros)
      show "\<not> active_open q1" using q1 by simp
      show "s = child_seq (plan_parent plan)" "s \<notin> terminal q1" using s t c(8) by simp_all
      show "next_seq q1 \<le> next_seq q1 + of_nat (length (plan_children plan))"
        using f(4) c(2) by (simp add: word_le_nat_alt)
      show "child_seq (last (plan_children plan)) < next_seq q1 + of_nat (length (plan_children plan))"
        "\<forall>k \<in> child_seq ` set (plan_children plan). next_seq q1 \<le> k"
        using f(5,6) c(2) by simp_all
    qed
  qed
  ultimately show ?thesis using inv
    unfolding repack_def by (cases "seal_active q") (auto simp: Let_def split: option.split sum.split)
qed

lemma publish_plan_success:
  assumes "publish_plan ms cd opts s plan q = (q', None)"
  obtains q3 root sequence where "core q3 = core (q\<lparr>next_seq := next_seq q + of_nat (length (plan_children plan))\<rparr>)"
    "files q3 = files q" "q' = install_children cd plan root sequence q3" "installable cd plan root sequence q3"
proof -
  define q0 where "q0 = q\<lparr>next_seq := next_seq q + of_nat (length (plan_children plan))\<rparr>"
  define p1 where "p1 = persist_meta q0"
  define p2 where "p2 = persist_repack_plan ms plan (fst p1)"
  define p3 where "p3 = persist_meta ((fst p2)\<lparr>repacks := AList.update s plan (repacks (fst p2))\<rparr>)"
  define q3 where "q3 = fst p3"
  have eq: "publish_plan ms cd opts s plan q =
     (if snd p1 \<noteq> None then failing p1 else if snd p2 \<noteq> None then failing p2 else if snd p3 \<noteq> None then failing p3
      else failing (install_repack_plan cd opts plan q3))"
    unfolding publish_plan_eq Let_def p1_def p2_def p3_def q0_def q3_def ..
  have "snd (publish_plan ms cd opts s plan q) = None" using assms by simp
  then have "snd p1 = None \<and> snd p2 = None \<and> snd p3 = None" unfolding eq by (auto split: if_splits)
  then have i: "install_repack_plan cd opts plan q3 = (q', None)" using assms unfolding eq by (simp add: failing_None)
  have c: "core q3 = core q0" "files q3 = files q" by (simp_all add: q3_def p3_def p2_def p1_def q0_def)
  show ?thesis
  proof (rule install_cases [of cd opts plan q3])
    fix e assume "install_repack_plan cd opts plan q3 = (q3, Some e)"
    then show ?thesis using i by simp
  next
    fix root sequence
    assume "install_repack_plan cd opts plan q3 = (install_children cd plan root sequence q3, None)"
      "installable cd plan root sequence q3"
    then show ?thesis using i c that by (simp add: q0_def)
  qed
qed

lemma readable_parent:
  assumes "readable cd (files q) d" "read_batch cd q d = Inr parent" "read_record_payload cd data (desc_off d) (desc_len d) (desc_crc d) = Some root"
    and "map_of (files q) (desc_seg d) = Some data"
  shows "batch_events parent = view_events root (repack_view d parent)" "0 \<le> child_start (repack_view d parent)"
    "child_end (repack_view d parent) = child_start (repack_view d parent) + int (length (batch_events parent))"
    "child_end (repack_view d parent) \<le> int (length (batch_events root))"
  using assms
  by (auto simp: readable_def read_batch_def repack_view_def view_events_def nat_diff_distrib split: option.splits)

lemma unacked_install_after:
  assumes "sorted_wrt (<) (map desc_seq (unacked q))" "sorted_wrt (<) (map child_seq (plan_children plan))"
    and "\<forall>k \<in> child_seq ` set (plan_children plan). last_acked q < k \<and> (\<forall>d \<in> set (unacked q). desc_seq d < k)"
  shows "unacked (install_children cd plan root sequence q)
     = fst (zero_parent (child_seq (plan_parent plan)) (unacked q)) @ map (child_desc cd plan root) (plan_children plan)"
proof -
  let ?z = "fst (zero_parent (child_seq (plan_parent plan)) (unacked q))"
  have f: "fresh_descs cd plan root q = map (child_desc cd plan root) (plan_children plan)"
    using assms(3) by (simp add: fresh_descs_def cong: filter_cong)
  have "sorted (map desc_seq (unacked q))" "sorted (map child_seq (plan_children plan))"
    using assms(1,2) strict_sorted_imp_sorted by blast+
  then have "sorted (map desc_seq (?z @ map (child_desc cd plan root) (plan_children plan)))"
    using assms(3) unfolding map_append zero_parent_frame(1) by (auto simp: sorted_append comp_def intro: less_imp_le)
  then show ?thesis using sort_key_id_if_sorted unfolding install_children_fields(1) f by blast
qed

lemma repack_publishes_aux:
  assumes inv: "wal_inv cd q" and ok: "repack ms uuid cd opts s me mb q = (q', None)" and np: "\<not> is_parent q s"
  shows "\<exists>d parent bs. find_desc s (unacked q) = Some d \<and> read_batch cd q d = Inr parent
     \<and> map desc_seq (unacked q') = map desc_seq (unacked q) @ map batch_sequence bs
     \<and> map (read_batch cd q') (drop (length (unacked q)) (unacked q')) = map Inr bs
     \<and> concat (map batch_events bs) = batch_events parent
     \<and> list_all (\<lambda>b. batch_events b \<noteq> [] \<and> within_limits cd me mb (batch_events b)) bs
     \<and> 2 \<le> length bs \<and> is_parent q' s"
proof -
  obtain d parent encoded q1 where g0: "me \<noteq> 0" "find_desc s (unacked q) = Some d" "read_batch cd q d = Inr parent"
      "length (batch_events parent) \<ge> 2"
      "length (plan_children (repack_plan_of uuid cd me mb d parent encoded (next_seq q))) < unat (0xFFFFFFFFFFFFFFFF - next_seq q)"
      "seal_active q = (q1, None)"
      "publish_plan ms cd opts s (repack_plan_of uuid cd me mb d parent encoded (next_seq q)) q1 = (q', None)"
    using ok np unfolding repack_def Let_def
    by (auto simp: not_le not_less split: if_splits option.splits sum.splits prod.splits)
  define plan where "plan = repack_plan_of uuid cd me mb d parent encoded (next_seq q)"
  note g = g0(1-4) plan_def g0(5-7) [folded plan_def]
  have q1: "q1 = fst (seal_active q)" using g by simp
  note c = core_eqD [OF seal_active_frame(1) [of q], folded q1]
  let ?view = "repack_view d parent"
  have pc: "plan_children plan = repack_children uuid cd me mb ?view (batch_events parent) (next_seq q)"
    "plan_parent plan = ?view" "plan_segment plan = desc_seg d" "plan_offset plan = int (desc_off d)" "plan_length plan = desc_len d"
    "plan_crc plan = desc_crc d"
    using g(5) by (simp_all add: repack_plan_of_def)
  let ?cs = "plan_children plan"
  note f = repack_children_seqs [OF g(1,4), where uuid = uuid and cd = cd and mb = mb and view = ?view and nxt = "next_seq q",
        folded pc(1), OF g(6)]
  obtain q3 root sequence where q3: "core q3 = core (q1\<lparr>next_seq := next_seq q1 + of_nat (length ?cs)\<rparr>)"
      "files q3 = files q" "q' = install_children cd plan root sequence q3" "installable cd plan root sequence q3"
    using publish_plan_success [OF g(8)] q1 by auto
  note c3 = core_eqD(2-4) [OF q3(1)]
  have un: "unacked q3 = unacked q" "last_acked q3 = last_acked q" using c3 c by simp_all
  have dq: "d \<in> set (unacked q)" "desc_seq d = s" using find_desc_iff [OF g(2)] by simp_all
  have rd: "readable cd (files q) d" using inv disk_okD(1) dq(1) by (auto simp: wal_inv_def disk_inv_def)
  obtain data where data: "map_of (files q) (desc_seg d) = Some data"
      "read_record_payload cd data (desc_off d) (desc_len d) (desc_crc d) = Some root"
    using q3(2,4) by (auto simp: installable_def pc)
  note rp = readable_parent [OF rd g(3) data(2,1)]
  note t = repack_children_tile [OF g(1,4) rp(3), where uuid = uuid and cd = cd and mb = mb and nxt = "next_seq q", folded pc(1)]
  have live: "sorted_wrt (<) (map desc_seq (unacked q))" "last_acked q < next_seq q"
      "\<And>x. x \<in> set (unacked q) \<Longrightarrow> desc_seq x < next_seq q"
    using inv queue_okD(1,2,7) by (auto simp: wal_inv_def)
  have un': "unacked q' = fst (zero_parent (child_seq ?view) (unacked q)) @ map (child_desc cd plan root) ?cs"
    unfolding q3(3) pc(2) [symmetric]
    using unacked_install_after [of q3 plan cd root sequence] live installableD(3) [OF q3(4)] f(6) un
    by (simp add: less_le_trans Ball_def image_iff) (meson less_le_trans)
  let ?bs = "map (repack_batch cd root) ?cs"
  have fl: "files q' = files q" using q3(2,3) by (simp add: install_children_fields)
  have rb: "read_batch cd q' (child_desc cd plan root x) = Inr (repack_batch cd root x)" for x
    using data by (simp add: read_batch_def fl child_desc_def Let_def pc)
  have "map desc_seq (unacked q') = map desc_seq (unacked q) @ map batch_sequence ?bs"
    unfolding un' map_append zero_parent_frame(1) by simp
  moreover have "map (read_batch cd q') (drop (length (unacked q)) (unacked q')) = map Inr ?bs"
    unfolding un' by (simp add: rb)
  moreover have "concat (map batch_events ?bs) = batch_events parent"
    using tiles_concat [OF t rp(2,4)] rp(1) by (simp add: comp_def view_events_def [of root "repack_view d parent"])
  moreover have "list_all (\<lambda>b. batch_events b \<noteq> [] \<and> within_limits cd me mb (batch_events b)) ?bs"
  proof -
    have "view_events root x \<noteq> []" if "x \<in> set ?cs" for x
    proof -
      have b: "0 \<le> child_start x" "child_start x < child_end x" "child_end x \<le> int (length (batch_events root))"
        using tiles_bounds [OF t] that rp(2,4) by fastforce+
      then show ?thesis by (simp add: view_events_def)
    qed
    moreover have "within_limits cd me mb (view_events root x)" if "x \<in> set ?cs" for x
      using that unfolding pc(1) by (rule repack_children_limits [OF g(1) rp(1) g(4) rp(2,3,4)])
    ultimately show ?thesis by (simp add: list_all_iff)
  qed
  moreover have "2 \<le> length ?bs"
    using repack_ranges_ok(2) [OF g(1,4)] by (simp add: pc(1) repack_children_def Let_def)
  moreover have "is_parent q' s"
    using repack_view_seq [OF rd, of parent] dq(2) by (simp add: q3(3) is_parent_def install_children_fields pc(2) update_conv')
  ultimately show ?thesis using g(2,3) by blast
qed

end
