(* ===== verification/Machine.thy ===== *)
theory Machine
  imports Prelude
begin

text \<open>
  Runs of a component: a list of operations executed from a state.  \<open>machine\<close> is the interface of a
  component whose operations keep an invariant; \<open>related_machine\<close> adds a relation between the states
  before and after that every operation respects.  What holds of one step is lifted to runs once, here.
\<close>

fun run_ops :: "('op \<Rightarrow> 's \<Rightarrow> 's) \<Rightarrow> 'op list \<Rightarrow> 's \<Rightarrow> 's" where
  "run_ops exec [] s = s"
| "run_ops exec (op # ops) s = run_ops exec ops (exec op s)"

fun allowed_run :: "('op \<Rightarrow> 's \<Rightarrow> 's) \<Rightarrow> ('op \<Rightarrow> 's \<Rightarrow> bool) \<Rightarrow> 'op list \<Rightarrow> 's \<Rightarrow> bool" where
  "allowed_run exec allowed [] s \<longleftrightarrow> True"
| "allowed_run exec allowed (op # ops) s \<longleftrightarrow> allowed op s \<and> allowed_run exec allowed ops (exec op s)"

lemma run_ops_append [simp]: "run_ops exec (xs @ ys) s = run_ops exec ys (run_ops exec xs s)"
  by (induction xs arbitrary: s) simp_all

lemma allowed_run_append [simp]:
  "allowed_run exec allowed (xs @ ys) s \<longleftrightarrow>
     allowed_run exec allowed xs s \<and> allowed_run exec allowed ys (run_ops exec xs s)"
  by (induction xs arbitrary: s) simp_all

lemma allowed_run_mono:
  "allowed_run exec p ops s \<Longrightarrow> (\<And>op s. op \<in> set ops \<Longrightarrow> p op s \<Longrightarrow> q op s) \<Longrightarrow> allowed_run exec q ops s"
  by (induction ops arbitrary: s) simp_all

locale machine =
  fixes exec :: "'op \<Rightarrow> 's \<Rightarrow> 's" and allowed :: "'op \<Rightarrow> 's \<Rightarrow> bool" and holds :: "'s \<Rightarrow> bool"
  assumes step_holds: "holds s \<Longrightarrow> allowed op s \<Longrightarrow> holds (exec op s)"
begin

lemma run_holds: "holds s \<Longrightarrow> allowed_run exec allowed ops s \<Longrightarrow> holds (run_ops exec ops s)"
  by (induction ops arbitrary: s) (simp_all add: step_holds)

lemma run_prefix_holds:
  "holds s \<Longrightarrow> allowed_run exec allowed (xs @ ys) s \<Longrightarrow> holds (run_ops exec xs s)"
  by (simp add: run_holds)

end

locale related_machine = machine +
  fixes rel :: "'b \<Rightarrow> 'b \<Rightarrow> bool"
  assumes rel_refl: "rel s s"
    and rel_trans: "rel s t \<Longrightarrow> rel t u \<Longrightarrow> rel s u"
    and rel_step: "holds s \<Longrightarrow> allowed op s \<Longrightarrow> rel s (exec op s)"
begin

lemma run_rel: "holds s \<Longrightarrow> allowed_run exec allowed ops s \<Longrightarrow> rel s (run_ops exec ops s)"
proof (induction ops arbitrary: s)
  case Nil
  show ?case by (simp add: rel_refl)
next
  case (Cons op ops)
  then have "rel s (exec op s)" "rel (exec op s) (run_ops exec ops (exec op s))"
    by (simp_all add: rel_step step_holds)
  then show ?case by (simp add: rel_trans)
qed

end

end
