(* ===== verification/Wal_Runs.thy ===== *)
theory Wal_Runs
  imports Wal_Invariant Machine
begin

text \<open>
  Runs of the queue of \<open>internal/collector/wal\<close>: any sequence of its operations, with any pattern of file-system
  failures.  A run keeps the invariant (\<open>wal\<close>), burns the sequences it hands out (\<open>wal_burn\<close>) and keeps
  every batch nobody settled (\<open>wal_keep\<close>): three interpretations of the run locales of \<open>Machine\<close>.
\<close>

section \<open>Records are never overwritten\<close>

definition grows :: "string \<Rightarrow> queue \<Rightarrow> queue \<Rightarrow> bool" where
  "grows nm q q' \<longleftrightarrow> (\<forall>data. map_of (files q) nm = Some data \<longrightarrow> (\<exists>x. map_of (files q') nm = Some (data @ x)))"

lemma grows_refl [intro, simp]: "files q' = files q \<Longrightarrow> grows nm q q'"
  by (simp add: grows_def)

lemma grows_trans [trans]: "grows nm q r \<Longrightarrow> grows nm r t \<Longrightarrow> grows nm q t"
  unfolding grows_def by (metis append.assoc)

lemma grows_create: "grows nm q (create_file n q)"
  by (auto simp: grows_def create_file_def update_conv')

lemma grows_append: "grows nm q (append_file n x q)"
  by (auto simp: grows_def files_append_file)

lemma grows_open: "grows nm q (fst (open_active k q))"
proof -
  have 1: "grows nm q (create_file n (snd (io_call q)))" for n
    using grows_trans [OF _ grows_create, of nm q "snd (io_call q)"] by simp
  have "files (fst (open_active k q)) = files q \<or> files (fst (open_active k q)) = files (create_file (segment_name k) (snd (io_call q)))"
    by (simp add: open_active_def Let_def split_beta split: io_result.split)
  then show ?thesis using 1 [of "segment_name k"] by (auto simp: grows_def)
qed

lemma grows_write: "grows nm q (fst (write_record opts k r q))"
proof -
  define p1 where "p1 = (if active_open q \<and> active_size q > 0 \<and> rotate_at_limit opts (active_size q) (length r)
                      then seal_active q else (q, None))"
  define p2 where "p2 = (if \<not> active_open (fst p1) then open_active k (fst p1) else (fst p1, None))"
  define q3 where "q3 = snd (io_call (fst p2))"
  have 1: "grows nm q (fst p1)" by (simp add: p1_def)
  have 2: "grows nm (fst p1) (fst p2)" by (simp add: p2_def grows_open)
  have 3: "grows nm q q3" using grows_trans [OF 1 2] by (simp add: q3_def grows_def)
  have 4: "grows nm q (append_file n x q3)" for n x using grows_trans [OF 3 grows_append] .
  have "files (fst (write_record opts k r q)) \<in> {files (fst p1), files (fst p2)}
      \<or> (\<exists>n x. files (fst (write_record opts k r q)) = files (append_file n x q3))"
    by (auto simp: write_record_def Let_def split_beta simp flip: p1_def p2_def q3_def split: option.split io_result.split)
  then show ?thesis using 1 grows_trans [OF 1 2] 4 unfolding grows_def by auto
qed

text \<open>Reclamation removes only segments at or below the cumulative mark.\<close>

lemma grows_delete: "nm \<noteq> n \<Longrightarrow> files q' = AList.delete n (files q) \<Longrightarrow> grows nm q q'"
  by (simp add: grows_def delete_conv')

lemma grows_reclaim_segments:
  assumes "distinct (map seg_name (segments q))" "s \<in> set (segments q)" "last_acked q < seg_last s" "seg_name s = nm"
  shows "grows nm q (fst (reclaim_segments q c))"
  using assms
proof (induction "segments q" arbitrary: q c)
  case Nil
  then show ?case by (simp add: reclaim_segments_Nil)
next
  case (Cons a rest)
  note sg = Cons.hyps(2) [symmetric]
  show ?case
  proof (cases "seg_last a \<le> last_acked q")
    case True
    then have ne: "s \<noteq> a" using Cons.prems(3) by auto
    then have m: "s \<in> set rest" using Cons.prems(2) sg by simp
    then have nn: "nm \<noteq> seg_name a" using Cons.prems(1,4) sg imageI [OF m, of seg_name] by auto
    have la: "last_acked (drop_segment q a rest) = last_acked q" by (rule core_eqD(3)) simp
    have f: "files (drop_segment q a rest) = AList.delete (seg_name a) (files q)" by (simp add: drop_segment_def)
    have 1: "grows nm q (drop_segment q a rest)" by (rule grows_delete [OF nn f])
    have 2: "grows nm (drop_segment q a rest) (fst (reclaim_segments (drop_segment q a rest) (c + 1)))"
      using Cons.hyps(1) [of "drop_segment q a rest" "c + 1"] Cons.prems m la sg by simp
    have 3: "grows nm q ((snd (io_call q))\<lparr>files := AList.delete (seg_name a) (files q)\<rparr>)" by (rule grows_delete [OF nn]) simp
    show ?thesis using grows_trans [OF 1 2] 3 by (simp add: reclaim_segments_Cons [OF sg] split: io_result.split)
  next
    case False
    then show ?thesis by (simp add: reclaim_segments_Cons [OF sg] not_le)
  qed
qed

text \<open>The segment of a queued batch is safe from reclamation.\<close>

lemma grows_reclaim:
  assumes "disk_inv cd n q" "d \<in> set (unacked q)" "last_acked q < desc_seq d"
  shows "grows (desc_seg d) q (fst (reclaim q))"
proof -
  have ok: "disk_ok cd n q" using assms(1) by (simp add: disk_inv_def)
  obtain s where s: "s \<in> set (segments q)" "seg_name s = desc_seg d" "desc_seq d \<le> seg_last s"
    using disk_okD(2) [OF ok assms(2)] by blast
  have "grows (desc_seg d) q (fst (reclaim_segments q 0))"
    using grows_reclaim_segments [OF disk_okD(3) [OF ok] s(1) less_le_trans [OF assms(3) s(3)] s(2)] .
  then show ?thesis by (simp add: reclaim_def Let_def split_beta grows_def)
qed

lemma grows_ensure:
  assumes "disk_inv cd n q" "d \<in> set (unacked q)" "last_acked q < desc_seq d"
  shows "grows (desc_seg d) q (fst (ensure_record_capacity opts env sz q))"
proof -
  have r: "grows (desc_seg d) x (fst (reclaim_acked_active x))"
    if x: "disk_inv cd n x" "unacked x = unacked q" "last_acked x = last_acked q" for x
  proof -
    note c = core_eqD(3,4) [OF seal_active_frame(1) [of x]]
    have "grows (desc_seg d) (fst (seal_active x)) (fst (reclaim (fst (seal_active x))))"
      by (rule grows_reclaim [OF disk_inv_seal [OF x(1)]]) (use assms(2,3) x(2,3) c in simp_all)
    then show ?thesis by (simp add: reclaim_acked_active_def split_beta grows_def split: option.split)
  qed
  note f = core_eqD(3,4) [OF refresh_frame(1) [of env q]]
  have 1: "disk_inv cd n (fst (refresh_quarantine_stats env q))"
    using assms(1) disk_inv_same_core [of cd n q "fst (refresh_quarantine_stats env q)"] by simp
  show ?thesis using r [OF assms(1)] r [OF 1] f
    by (simp add: ensure_record_capacity_def Let_def split_beta grows_def split: option.split)
qed

lemma grows_prepare:
  assumes "disk_inv cd' n q" "d \<in> set (unacked q)" "last_acked q < desc_seq d" "above_mark q"
  shows "grows (desc_seg d) q (fst (prepare_append cd opts env events q))"
proof -
  have e: "grows (desc_seg d) q (fst (ensure_record_capacity opts env sz q))" for sz by (rule grows_ensure [OF assms(1-3)])
  have e2: "grows (desc_seg d) q (fst (ensure_record_capacity opts env sz' (fst (ensure_record_capacity opts env sz q))))" for sz sz'
  proof -
    let ?x = "fst (ensure_record_capacity opts env sz q)"
    note c = core_eqD(3,4) [OF ensure_record_capacity_frame(1) [of opts env sz q]]
    have "grows (desc_seg d) ?x (fst (ensure_record_capacity opts env sz' ?x))"
      by (rule grows_ensure [OF ensure_disk [OF assms(1,4)]]) (use assms(2,3) c in simp_all)
    then show ?thesis using grows_trans [OF e] by blast
  qed
  show ?thesis using e e2 by (simp add: prepare_append_def Let_def split_beta split: option.split)
qed

text \<open>A queued batch that no operation has settled stays queued, with its descriptor, over a file that only grows.\<close>

definition unsettled :: "batch_desc \<Rightarrow> queue \<Rightarrow> bool" where
  "unsettled d q \<longleftrightarrow> d \<in> set (unacked q) \<and> desc_seq d \<notin> terminal q \<and> \<not> is_parent q (desc_seq d)"

definition kept :: "batch_desc \<Rightarrow> queue \<Rightarrow> queue \<Rightarrow> bool" where
  "kept d q q' \<longleftrightarrow> unsettled d q' \<and> grows (desc_seg d) q q'"

lemma keptI:
  assumes "unsettled d q" "grows (desc_seg d) q q'" "set (unacked q) \<subseteq> set (unacked q')" "terminal q' = terminal q"
    "map_of (repacks q') \<subseteq>\<^sub>m map_of (repacks q)"
  shows "kept d q q'"
proof -
  have "\<not> is_parent q' (desc_seq d)"
    using assms(1,5) by (auto simp: unsettled_def is_parent_def map_le_def dom_def)
  then show ?thesis using assms by (auto simp: kept_def unsettled_def)
qed

lemma kept_refl: "unsettled d q \<Longrightarrow> kept d q q"
  by (simp add: kept_def)

lemma kept_trans: "kept d q r \<Longrightarrow> kept d r t \<Longrightarrow> kept d q t"
  unfolding kept_def using grows_trans by blast

lemma kept_frame:
  assumes "unsettled d q" "core q' = core q" "files q' = files q" "repacks q' = repacks q"
  shows "kept d q q'"
  using core_eqD(4,8) [OF assms(2)] by (intro keptI [OF assms(1)]) (simp_all add: assms)

lemma prepare_repacks: "map_of (repacks (fst (prepare_append cd opts env events q))) \<subseteq>\<^sub>m map_of (repacks q)"
proof -
  have "map_of (repacks (fst (ensure_record_capacity opts env sz' (fst (ensure_record_capacity opts env sz q))))) \<subseteq>\<^sub>m map_of (repacks q)"
    for sz sz' using ensure_repacks map_le_trans by blast
  then show ?thesis using ensure_repacks [of opts env _ q]
    by (simp add: prepare_append_def Let_def split_beta split: option.split)
qed

lemma append_kept:
  assumes "disk_inv cd' n q" "queue_ok q" "unsettled d q"
  shows "kept d q (fst (append_batch cd opts env events q))"
proof (rule append_batch_rule [where P = "\<lambda>x _. kept d q x"])
  have d: "d \<in> set (unacked q)" "last_acked q < desc_seq d" using assms queue_okD(6) by (auto simp: unsettled_def)
  let ?p = "fst (prepare_append cd opts env events q)"
  have g: "grows (desc_seg d) q ?p" by (rule grows_prepare [OF assms(1) d above_mark_queue_ok [OF assms(2)]])
  note c = core_eqD [OF prepare_append_frame(1) [of cd opts env events q]]
  show "kept d q q" by (rule kept_refl [OF assms(3)])
  show kp: "kept d q ?p" by (rule keptI [OF assms(3) g]) (simp_all add: c prepare_repacks)
  let ?q2 = "reserved_state cd opts env events q"
  have up: "unsettled d ?p" using kp by (simp add: kept_def)
  note c2 = core_eqD [OF reserve_sequences_core [of opts "bumped cd opts env events q"]]
  have u2: "unacked ?q2 = unacked ?p" "terminal ?q2 = terminal ?p"
    unfolding reserved_state_def c2 by (simp_all add: bumped_def)
  have "kept d ?p ?q2"
    by (rule keptI [OF up]) (simp_all add: u2, simp_all add: reserved_state_def bumped_def)
  then have k2: "kept d q ?q2" by (rule kept_trans [OF kp])
  then have u2: "unsettled d ?q2" by (simp add: kept_def)
  have "kept d ?q2 (fst (seal_active ?q2))" by (rule kept_frame [OF u2]) simp_all
  then show "kept d q (fst (seal_active ?q2))" by (rule kept_trans [OF k2])
  fix r batch payload nm off
  let ?w = "fst (write_record opts (next_seq q) r ?q2)"
  note cw = core_eqD(4,8) [OF write_record_frame(1) [of opts "next_seq q" r ?q2]]
  have "kept d ?q2 ?w" by (rule keptI [OF u2 grows_write]) (simp_all add: cw)
  then show kw: "kept d q ?w" by (rule kept_trans [OF k2])
  then have uw: "unsettled d ?w" by (simp add: kept_def)
  have "kept d ?w (fst (sync_record opts ?w))" by (rule kept_frame [OF uw]) simp_all
  then show ks: "kept d q (fst (sync_record opts ?w))" by (rule kept_trans [OF kw])
  then have us: "unsettled d (fst (sync_record opts ?w))" by (simp add: kept_def)
  have "kept d (fst (sync_record opts ?w)) (enqueue (batch_desc_of batch nm off payload) (fst (sync_record opts ?w)))"
    by (rule keptI [OF us]) (auto simp: enqueue_def)
  then show "kept d q (enqueue (batch_desc_of batch nm off payload) (fst (sync_record opts ?w)))"
    by (rule kept_trans [OF ks])
qed

lemma advance_kept:
  assumes "disk_inv cd n q" "queue_ok q" "unsettled d q"
  shows "kept d q (fst (advance_terminal q))"
proof -
  let ?ds = "terminal_prefix q" and ?r = "advance_terminal q"
  let ?m = "q\<lparr>last_acked := desc_seq (last ?ds)\<rparr>"
  let ?p = "persist_meta ?m"
  let ?x = "drop_prefix ?ds (fst ?p)"
  have nd: "d \<notin> set ?ds" using assms(3) set_takeWhileD unfolding terminal_prefix_def unsettled_def by fastforce
  have fm: "files (fst ?p) = files q" by simp
  note cp = core_eqD [OF persist_meta_frame(1) [of ?m]]
  have un: "d \<in> set (drop (length ?ds) (unacked q))"
    using assms(3) nd terminal_prefix_append [of q] unfolding unsettled_def by (metis Un_iff set_append)
  have sub: "map_of (repacks (fst ?r)) \<subseteq>\<^sub>m map_of (repacks q)"
    using reclaim_repacks [of ?x] by (simp add: advance_terminal_eq Let_def drop_prefix_def split: option.split)
  have g: "grows (desc_seg d) q (fst ?r)"
  proof (cases "?ds = [] \<or> snd ?p \<noteq> None")
    case True
    then have "files (fst ?r) = files q" using fm by (auto simp: advance_terminal_eq Let_def)
    then show ?thesis by simp
  next
    case False
    have inv: "disk_inv cd n ?x"
    proof -
      have p: "disk_inv cd n (fst ?p)"
        using assms(1) disk_inv_cong [of ?m q] disk_inv_steps(2) by simp
      have u: "set (unacked ?x) \<subseteq> set (unacked (fst ?p))" by (auto simp: drop_prefix_def dest: in_set_dropD)
      have f: "files ?x = files (fst ?p)" "segments ?x = segments (fst ?p)" "active_open ?x = active_open (fst ?p)"
        "active_size ?x = active_size (fst ?p)" by (simp_all add: drop_prefix_def)
      show ?thesis using p u unfolding disk_inv_def active_unsealed_def disk_ok_def f by blast
    qed
    have dx: "d \<in> set (unacked ?x)" using un cp by (simp add: drop_prefix_def)
    have ab: "above_mark ?x" using above_mark_queue_ok [OF queue_ok_advance_mark(1) [OF assms(2)]] False by simp
    have "grows (desc_seg d) ?x (fst (reclaim ?x))"
      by (rule grows_reclaim [OF inv dx]) (use ab dx in \<open>simp add: above_mark_def\<close>)
    moreover have "files ?x = files q" using fm by (simp add: drop_prefix_def)
    moreover have "fst ?r = fst (reclaim ?x)" using False by (auto simp: advance_terminal_eq Let_def)
    ultimately show ?thesis by (simp add: grows_def)
  qed
  have "unsettled d (fst ?r)"
  proof -
    have "\<not> is_parent (fst ?r) (desc_seq d)"
      using assms(3) sub by (auto simp: unsettled_def is_parent_def map_le_def dom_def)
    moreover have "d \<in> set (unacked (fst ?r)) \<and> desc_seq d \<notin> terminal (fst ?r)"
      using advance_terminal_effect [of q] assms(3) nd unfolding unsettled_def by (metis DiffD1 Un_iff set_append)
    ultimately show ?thesis by (simp add: unsettled_def)
  qed
  then show ?thesis using g by (simp add: kept_def)
qed

lemma acknowledge_kept:
  assumes "disk_inv cd n q" "queue_ok q" "unsettled d q" "desc_seq d \<noteq> s" "cumulative \<Longrightarrow> s < desc_seq d"
  shows "kept d q (fst (acknowledge s cumulative q))"
proof -
  let ?q = "q\<lparr>terminal := ack_terminal s cumulative q\<rparr>"
  have "unsettled d ?q"
    using assms(3-5) repack_terminal_parents_parent [of "desc_seq d" q s cumulative]
    by (auto simp: unsettled_def ack_terminal_def is_parent_def)
  moreover have "disk_inv cd n ?q" using assms(1) disk_inv_cong [of ?q q] by simp
  ultimately have "kept d ?q (fst (advance_terminal ?q))" using assms(2) by (intro advance_kept) simp_all
  then have "kept d q (fst (advance_terminal ?q))" by (simp add: kept_def grows_def)
  then show ?thesis using kept_refl [OF assms(3)] by (simp add: acknowledge_eq [OF assms(2)])
qed

lemma zero_parent_other: "d \<in> set ds \<Longrightarrow> desc_seq d \<noteq> p \<Longrightarrow> d \<in> set (fst (zero_parent p ds))"
  by (induction ds) (auto simp: split_beta)

lemma kept_step:
  assumes "kept d q r" "files r' = files r" "set (unacked r) \<subseteq> set (unacked r')" "terminal r' = terminal r"
    "repacks r' = repacks r \<or> (\<exists>p plan. p \<noteq> desc_seq d \<and> repacks r' = AList.update p plan (repacks r))"
  shows "kept d q r'"
  using assms by (auto simp: kept_def unsettled_def is_parent_def update_conv' grows_def)

lemma install_kept:
  assumes "kept d q r" "child_seq (plan_parent plan) \<noteq> desc_seq d"
  shows "kept d q (fst (install_repack_plan cd opts plan r))"
proof (rule install_cases [of cd opts plan r])
  fix root sequence
  assume i: "install_repack_plan cd opts plan r = (install_children cd plan root sequence r, None)"
  let ?r = "install_children cd plan root sequence r"
  note fields = install_children_fields [where q = r and cd = cd and plan = plan and root = root and sequence = sequence]
  have "d \<in> set (unacked ?r)" using assms zero_parent_other unfolding fields(1) by (auto simp: kept_def unsettled_def)
  then have "kept d q ?r"
    using assms by (auto simp: kept_def unsettled_def is_parent_def update_conv' grows_def fields)
  then show ?thesis using i by simp
next
  fix e assume "install_repack_plan cd opts plan r = (r, Some e)"
  then show ?thesis using assms by simp
qed

lemma publish_kept:
  assumes "unsettled d q" "s \<noteq> desc_seq d" "child_seq (plan_parent plan) = s"
  shows "kept d q (fst (publish_plan ms cd opts s plan q))"
proof -
  define q0 where "q0 = q\<lparr>next_seq := next_seq q + of_nat (length (plan_children plan))\<rparr>"
  define p1 where "p1 = persist_meta q0"
  define p2 where "p2 = persist_repack_plan ms plan (fst p1)"
  define r2 where "r2 = (fst p2)\<lparr>repacks := AList.update s plan (repacks (fst p2))\<rparr>"
  define p3 where "p3 = persist_meta r2"
  note c1 = core_eqD(4,8) [OF persist_meta_frame(1) [of q0]] and c2 = core_eqD(4,8) [OF persist_repack_plan_frame(1) [of ms plan "fst p1"]]
    and c3 = core_eqD(4,8) [OF persist_meta_frame(1) [of r2]]
  have k0: "kept d q q0" by (rule kept_step [OF kept_refl [OF assms(1)]]) (simp_all add: q0_def)
  have k1: "kept d q (fst p1)" by (rule kept_step [OF k0]) (simp_all add: p1_def c1)
  have k2: "kept d q (fst p2)" by (rule kept_step [OF k1]) (simp_all add: p2_def c2)
  have kr: "kept d q r2" by (rule kept_step [OF k2]) (use assms(2) in \<open>auto simp: r2_def\<close>)
  have k3: "kept d q (fst p3)" by (rule kept_step [OF kr]) (simp_all add: p3_def c3)
  have k4: "kept d q (fst (install_repack_plan cd opts plan (fst p3)))" using install_kept [OF k3] assms(2,3) by simp
  have se: "kept d q (x\<lparr>sync_err := b\<rparr>) = kept d q x" for x b by (simp add: kept_def unsettled_def is_parent_def grows_def)
  have eq: "publish_plan ms cd opts s plan q =
     (if snd p1 \<noteq> None then failing p1 else if snd p2 \<noteq> None then failing p2 else if snd p3 \<noteq> None then failing p3
      else failing (install_repack_plan cd opts plan (fst p3)))"
    unfolding publish_plan_eq Let_def p1_def p2_def p3_def q0_def r2_def ..
  show ?thesis unfolding eq using k1 k2 k3 k4 by (simp add: se)
qed

lemma repack_kept:
  assumes "unsettled d q" "s \<noteq> desc_seq d" "disk_inv cd n q"
  shows "kept d q (fst (repack ms uuid cd opts s me mb q))"
proof -
  let ?s = "fst (seal_active q)"
  have ks: "kept d q ?s" by (rule kept_frame [OF assms(1)]) simp_all
  have pub: "kept d q (fst (publish_plan ms cd opts s (repack_plan_of uuid cd me mb x parent encoded (next_seq q)) ?s))"
    if x: "find_desc s (unacked q) = Some x" for x parent encoded
  proof -
    have "readable cd (files q) x" using find_desc_iff [OF x] disk_okD(1) assms(3) by (auto simp: disk_inv_def)
    then have "child_seq (repack_view x parent) = s" using repack_view_seq find_desc_iff [OF x] by blast
    then have "kept d ?s (fst (publish_plan ms cd opts s (repack_plan_of uuid cd me mb x parent encoded (next_seq q)) ?s))"
      using ks assms(2) by (intro publish_kept) (simp_all add: kept_def repack_plan_of_def)
    then show ?thesis by (rule kept_trans [OF ks])
  qed
  have sa: "kept d q (fst (case seal_active q of (q1, None) \<Rightarrow> publish_plan ms cd opts s (repack_plan_of uuid cd me mb x parent encoded (next_seq q)) q1
      | (q1, Some e) \<Rightarrow> (q1, Some e)))" if "find_desc s (unacked q) = Some x" for x parent encoded
    using ks pub [OF that] by (simp add: split_beta split: option.split)
  show ?thesis using kept_refl [OF assms(1)] sa
    by (simp add: repack_def Let_def split: option.split sum.split)
qed

section \<open>Runs of the queue\<close>

datatype wal_op =
    DoAppend append_env "log_event option list"
  | DoNext
  | DoRewind
  | DoAck u64
  | DoAckThrough u64
  | DoRepack "nat \<Rightarrow> string" u64 u32 u64
  | DoSyncTick
  | DoClose

datatype wal_out =
    Appended "wal_error + event_batch"
  | Delivered "wal_error + event_batch option"
  | Outcome "wal_error option"

text \<open>What a queue is opened with: the codec, the options, and the size of a manifest.\<close>

record wal_config =
  cfg_codec :: codec
  cfg_opts :: wal_options
  cfg_manifest :: "repack_plan \<Rightarrow> nat"

fun wal_step :: "wal_config \<Rightarrow> wal_op \<Rightarrow> queue \<Rightarrow> queue \<times> wal_out" where
  "wal_step c (DoAppend env events) q = map_prod id Appended (append_batch (cfg_codec c) (cfg_opts c) env events q)"
| "wal_step c DoNext q = map_prod id Delivered (next_batch (cfg_codec c) q)"
| "wal_step c DoRewind q = (rewind q, Outcome None)"
| "wal_step c (DoAck s) q = map_prod id Outcome (ack s q)"
| "wal_step c (DoAckThrough s) q = map_prod id Outcome (ack_through s q)"
| "wal_step c (DoRepack uuid s me mb) q = map_prod id Outcome (repack (cfg_manifest c) uuid (cfg_codec c) (cfg_opts c) s me mb q)"
| "wal_step c DoSyncTick q = (sync_tick q, Outcome None)"
| "wal_step c DoClose q = map_prod id Outcome (close_queue q)"

text \<open>The state carries the outputs so far, latest first.\<close>

type_synonym wal_trace = "queue \<times> wal_out list"

definition wal_exec :: "wal_config \<Rightarrow> wal_op \<Rightarrow> wal_trace \<Rightarrow> wal_trace" where
  "wal_exec c op st = (let (q, out) = wal_step c op (fst st) in (q, out # snd st))"

text \<open>What the callers keep to: events are present, and a batch already acknowledged is not repacked.\<close>

definition wal_allowed :: "wal_op \<Rightarrow> wal_trace \<Rightarrow> bool" where
  "wal_allowed op st = (case op of
       DoAppend env events \<Rightarrow> None \<notin> set events
     | DoRepack uuid s me mb \<Rightarrow> s \<notin> terminal (fst st)
     | _ \<Rightarrow> True)"

lemma fst_map_prod_id [simp]: "fst (map_prod id f x) = fst x" "snd (map_prod id f x) = f (snd x)"
  by (cases x; simp)+

lemma wal_exec_simps [simp]:
  "fst (wal_exec c op st) = fst (wal_step c op (fst st))"
  "snd (wal_exec c op st) = snd (wal_step c op (fst st)) # snd st"
  by (simp_all add: wal_exec_def split_beta)

lemma stuck_kept:
  "repack_ok (sync_err q \<and> \<not> active_open q) q' \<Longrightarrow> sync_err q \<and> \<not> active_open q \<longrightarrow> sync_err q' \<and> \<not> active_open q'
     \<Longrightarrow> repack_ok (sync_err q' \<and> \<not> active_open q') q'"
  by (rule repack_ok_weaken)

lemma advance_open:
  "active_open (fst (advance_terminal q)) = active_open q \<and> sync_err (fst (advance_terminal q)) = sync_err q"
proof -
  have 1: "active_open (fst (reclaim_segments q n)) = active_open q \<and> sync_err (fst (reclaim_segments q n)) = sync_err q" for q n
  proof (induction "segments q" arbitrary: q n)
    case Nil
    then show ?case by (simp add: reclaim_segments_Nil)
  next
    case (Cons s rest)
    have d: "active_open (drop_segment q s rest) = active_open q" "sync_err (drop_segment q s rest) = sync_err q"
      by (simp_all add: drop_segment_def)
    show ?case using Cons.hyps(1) [of "drop_segment q s rest" "n + 1"] d
      by (simp add: reclaim_segments_Cons [OF Cons.hyps(2) [symmetric]] split: io_result.split)
  qed
  have 2: "active_open (fst (reclaim_plans ps q c)) = active_open q \<and> sync_err (fst (reclaim_plans ps q c)) = sync_err q" for ps q c
  proof (induction ps arbitrary: q c)
    case (Cons x ps)
    then show ?case by (cases x) (simp add: Let_def split_beta split: io_result.split)
  qed simp
  have 3: "active_open (fst (reclaim_repack_plans q)) = active_open q \<and> sync_err (fst (reclaim_repack_plans q)) = sync_err q" for q
    using 2 [of "repacks q" q False] by (simp add: reclaim_repack_plans_def split_beta split: option.split)
  have "active_open (fst (reclaim q)) = active_open q \<and> sync_err (fst (reclaim q)) = sync_err q" for q
    using 1 [of q 0] 3 by (simp add: reclaim_def Let_def split_beta)
  then show ?thesis by (simp add: advance_terminal_eq Let_def drop_prefix_def split: option.split)
qed

lemma core_next_seq: "core q' = core q \<Longrightarrow> next_seq q' = next_seq q" by (rule core_eqD(2))

lemma advance_next_seq: "next_seq (fst (advance_terminal q)) = next_seq q"
proof -
  let ?p = "persist_meta (q\<lparr>last_acked := desc_seq (last (terminal_prefix q))\<rparr>)"
  note c = core_eqD(2) [OF persist_meta_frame(1) [of "q\<lparr>last_acked := desc_seq (last (terminal_prefix q))\<rparr>"]]
  have "next_seq (fst (reclaim (drop_prefix (terminal_prefix q) (fst ?p)))) = next_seq q"
    using core_eqD(2) [OF reclaim_frame(1)] c by (simp add: drop_prefix_def)
  then show ?thesis using c by (simp add: advance_terminal_eq Let_def split: option.split)
qed

lemma acknowledge_wal [inv_intros]:
  assumes "wal_inv cd q"
  shows "wal_inv cd (fst (acknowledge s cumulative q))"
proof -
  have q: "queue_ok q" "repack_ok (sync_err q \<and> \<not> active_open q) q" "disk_inv cd (next_seq q) q"
    using assms by (simp_all add: wal_inv_def)
  let ?r = "fst (acknowledge s cumulative q)"
  have "active_open ?r = active_open q \<and> sync_err ?r = sync_err q \<and> next_seq ?r = next_seq q"
    using advance_open [of "q\<lparr>terminal := ack_terminal s cumulative q\<rparr>"] advance_next_seq [of "q\<lparr>terminal := ack_terminal s cumulative q\<rparr>"]
    by (simp add: acknowledge_eq [OF q(1)])
  moreover have "queue_ok ?r" using ack_queue_ok [OF q(1)] ack_through_queue_ok [OF q(1)] by (simp add: acknowledge_def)
  ultimately show ?thesis using acknowledge_repack_ok [OF q(2,1)] acknowledge_disk [OF q(3,1)] by (simp add: wal_inv_def)
qed

lemma delivery_wal [inv_intros]:
  assumes "wal_inv cd q"
  shows "wal_inv cd (fst (next_batch cd' q))" "wal_inv cd (rewind q)" "wal_inv cd (sync_tick q)" "wal_inv cd (fst (close_queue q))"
proof -
  have q: "queue_ok q" "repack_ok (sync_err q \<and> \<not> active_open q) q" "disk_inv cd (next_seq q) q"
    using assms by (simp_all add: wal_inv_def)
  have di: "repack_ok b (q\<lparr>deliver_idx := i\<rparr>) = repack_ok b q" "repack_ok b (q\<lparr>closed := x\<rparr>) = repack_ok b q" for i b x
    by (simp_all add: repack_ok_def accounted_def children_of_def)
  have n: "\<exists>i. fst (next_batch cd' q) = q \<or> fst (next_batch cd' q) = q\<lparr>deliver_idx := i\<rparr>"
    by (auto simp: next_batch_def split_beta split: option.split)
  then show "wal_inv cd (fst (next_batch cd' q))"
    using q next_batch_queue_ok [OF q(1), of cd'] delivery_disk(1) [OF q(3), of cd'] by (auto simp: wal_inv_def di)
  show "wal_inv cd (rewind q)"
    using q rewind_queue_ok [OF q(1)] delivery_disk(2) [OF q(3)] by (auto simp: wal_inv_def rewind_def di)
  have t: "core (sync_tick q) = core q" "repacks (sync_tick q) = repacks q" "active_open (sync_tick q) = active_open q"
    "\<not> active_open q \<longrightarrow> sync_err (sync_tick q) = sync_err q"
    by (simp_all add: sync_tick_def Let_def split_beta)
  have "repack_ok (sync_err q \<and> \<not> active_open q) (sync_tick q)" by (rule repack_ok_shrink [OF q(2)]) (simp_all add: t)
  then have "repack_ok (sync_err (sync_tick q) \<and> \<not> active_open (sync_tick q)) (sync_tick q)"
    using t(3,4) by (intro stuck_kept) auto
  then show "wal_inv cd (sync_tick q)"
    using sync_tick_queue_ok [OF q(1)] delivery_disk(3) [OF q(3)] core_eqD(2) [OF t(1)] by (simp add: wal_inv_def)
  let ?c = "q\<lparr>closed := True\<rparr>"
  have c: "core (fst (seal_active ?c)) = core ?c" "\<not> active_open q \<longrightarrow> sync_err (fst (seal_active ?c)) = sync_err q"
    by simp (simp add: seal_active_def)
  have "repack_ok (sync_err q \<and> \<not> active_open q) (fst (seal_active ?c))"
    using q(2) by (intro repack_ok_frame(1)) (simp add: di)
  then have "repack_ok (sync_err (fst (seal_active ?c)) \<and> \<not> active_open (fst (seal_active ?c))) (fst (seal_active ?c))"
    using c(2) by (intro stuck_kept) auto
  then show "wal_inv cd (fst (close_queue q))"
    using assms close_queue_ok [OF q(1)] delivery_disk(4) [OF q(3)] core_eqD(2) [OF c(1)]
    by (simp add: wal_inv_def close_queue_def split: if_splits)
qed

lemma append_wal [inv_intros]:
  assumes "wal_inv cd q" "codec_ok cd" "None \<notin> set events"
  shows "wal_inv cd (fst (append_batch cd opts env events q))"
proof (cases "sync_err q")
  case True
  then have "fst (append_batch cd opts env events q) = q" by (simp add: append_batch_def)
  then show ?thesis using assms(1) by simp
next
  case False
  have q: "queue_ok q" "repack_ok False q" "disk_inv cd (next_seq q) q" using assms(1) False by (simp_all add: wal_inv_def)
  show ?thesis
    using append_batch_ok [OF q(1)] append_batch_repack_ok [OF q(2)] append_batch_disk [OF q(3,1) assms(2,3)]
      repack_ok_weaken [OF append_batch_repack_ok [OF q(2)]]
    by (simp add: wal_inv_def)
qed

lemma wal_exec_inv:
  assumes "codec_ok (cfg_codec c)" "wal_inv (cfg_codec c) (fst st)" "wal_allowed op st"
  shows "wal_inv (cfg_codec c) (fst (wal_exec c op st))"
  using assms acknowledge_wal [OF assms(2), of _ False] acknowledge_wal [OF assms(2), of _ True]
  by (cases op) (auto simp: wal_allowed_def acknowledge_def intro!: inv_intros)

section \<open>Sequences handed out\<close>

text \<open>The next sequence only grows, and a metadata write covers everything below the next sequence before it.\<close>

definition meta_step :: "queue \<Rightarrow> queue \<Rightarrow> bool" where
  "meta_step q q' \<longleftrightarrow> next_seq q \<le> next_seq q' \<and> (meta q' = meta q \<or> next_seq q \<le> meta_next (meta q'))"

lemma meta_step_trans: "meta_step q r \<Longrightarrow> meta_step r t \<Longrightarrow> meta_step q t"
  unfolding meta_step_def by (metis order_trans)

lemma meta_step_frame:
  assumes "core q' = core q" "counters q' = counters q"
  shows "meta_step q q'"
  using core_eqD(2) [OF assms(1)] counters_eqD(2) [OF assms(2)] by (simp add: meta_step_def)

lemma meta_step_persist:
  assumes "next_seq q \<le> next_seq r" "meta r = meta q"
  shows "meta_step q (fst (persist_meta r))"
proof -
  have "next_seq r \<le> meta_next (current_meta r)" by (simp add: meta_next_current)
  then show ?thesis
    using assms persist_meta_meta(2) [of r] core_eqD(2) [OF persist_meta_frame(1) [of r]]
    unfolding meta_step_def by (metis order_trans)
qed

lemma meta_step_reserve:
  assumes "next_seq q \<le> next_seq r" "meta r = meta q"
  shows "meta_step q (fst (reserve_sequences opts r))"
proof -
  let ?res = "next_seq r + min (max 1 (opt_reservation opts) - 1) (0xFFFFFFFFFFFFFFFF - next_seq r)"
  have "meta_step q (fst (persist_meta (r\<lparr>reserved_until := ?res\<rparr>)))" using assms by (intro meta_step_persist) simp_all
  moreover have "meta_step q (x\<lparr>reserved_until := y\<rparr>) = meta_step q x" for x y by (simp add: meta_step_def)
  ultimately show ?thesis
    using assms by (simp add: reserve_sequences_def Let_def split_beta meta_step_def split: option.split)
qed

lemma meta_step_append:
  assumes "queue_ok q"
  shows "meta_step q (fst (append_batch cd opts env events q))"
    and "snd (append_batch cd opts env events q) = Inr batch \<Longrightarrow>
       batch_sequence batch = next_seq q \<and> next_seq q < next_seq (fst (append_batch cd opts env events q))
       \<and> next_seq q < meta_next (meta (fst (append_batch cd opts env events q)))"
proof -
  define P where "P x r \<longleftrightarrow> meta_step q x \<and> (\<forall>b. r = Inr b \<longrightarrow> batch_sequence b = next_seq q \<and> next_seq q < next_seq x
      \<and> next_seq q < meta_next (meta x))" for x and r :: "wal_error + event_batch"
  have "P (fst (append_batch cd opts env events q)) (snd (append_batch cd opts env events q))"
  proof (rule append_batch_rule)
    show "P q (Inl e)" for e by (simp add: P_def meta_step_def)
    let ?p = "fst (prepare_append cd opts env events q)"
    show "P ?p (Inl e)" for e using meta_step_frame [OF prepare_append_frame] by (simp add: P_def)
    fix batch payload r nm off
    fix e :: wal_error
    assume n: "next_seq q \<noteq> 0xFFFFFFFFFFFFFFFF"
    let ?b = "bumped cd opts env events q" and ?q2 = "reserved_state cd opts env events q"
    have b: "next_seq ?b = next_seq q + 1" "meta ?b = meta q"
      using counters_eqD(2) [OF prepare_append_frame(2) [of cd opts env events q]] by (simp_all add: bumped_def)
    note up = u64_succ [OF n]
    have m2: "meta_step q ?q2" unfolding reserved_state_def by (rule meta_step_reserve) (use b up in simp_all)
    have s: "meta_step ?q2 (fst (seal_active ?q2))" by (rule meta_step_frame) simp_all
    let ?w = "fst (write_record opts (next_seq q) r ?q2)"
    have w: "meta_step ?q2 ?w" by (rule meta_step_frame) simp_all
    have y: "meta_step ?w (fst (sync_record opts ?w))" by (rule meta_step_frame) simp_all
    show "P (fst (seal_active ?q2)) (Inl e)" "P ?w (Inl e)" "P (fst (sync_record opts ?w)) (Inl e)"
      using meta_step_trans [OF m2 s] meta_step_trans [OF m2 w] meta_step_trans [OF meta_step_trans [OF m2 w] y]
      by (simp_all add: P_def)
    assume pre: "snd (prepare_append cd opts env events q) = Inr (batch, payload, r)"
      and res: "snd (reserve_sequences opts ?b) = None"
    let ?y = "fst (sync_record opts ?w)"
    have c: "core ?y = core ?b" "counters ?y = counters ?q2" by (simp_all add: reserved_state_def)
    have "next_seq q + 1 \<le> meta_next (meta ?q2)"
      using reserve_sequences_ok(2) [OF queue_ok_bumped(1) [OF assms n] res] b(1) by (simp add: reserved_state_def)
    then have "next_seq q < meta_next (meta ?y)" using counters_eqD(2) [OF c(2)] less_le_trans [OF up] by simp
    moreover have "next_seq ?y = next_seq q + 1" using core_eqD(2) [OF c(1)] b(1) by simp
    moreover have "meta_step q ?y" by (rule meta_step_trans [OF meta_step_trans [OF m2 w] y])
    moreover have "batch_sequence batch = next_seq q" using prepare_append_seq [OF pre] by simp
    ultimately show "P (enqueue (batch_desc_of batch nm off payload) ?y) (Inr batch)"
      using up by (simp add: P_def enqueue_def meta_step_def)
  qed
  then show "meta_step q (fst (append_batch cd opts env events q))"
    "snd (append_batch cd opts env events q) = Inr batch \<Longrightarrow>
       batch_sequence batch = next_seq q \<and> next_seq q < next_seq (fst (append_batch cd opts env events q))
       \<and> next_seq q < meta_next (meta (fst (append_batch cd opts env events q)))"
    by (simp_all add: P_def)
qed

lemma meta_step_advance: "meta_step q (fst (advance_terminal q))"
proof -
  let ?p = "persist_meta (q\<lparr>last_acked := desc_seq (last (terminal_prefix q))\<rparr>)"
  have 1: "meta_step q (fst ?p)" by (rule meta_step_persist) simp_all
  have 2: "meta_step q (drop_prefix (terminal_prefix q) (fst ?p))" "meta_step q ((fst ?p)\<lparr>last_acked := x\<rparr>)" for x
    using 1 by (simp_all add: meta_step_def drop_prefix_def)
  have 3: "meta_step (drop_prefix (terminal_prefix q) (fst ?p)) (fst (reclaim (drop_prefix (terminal_prefix q) (fst ?p))))"
    by (rule meta_step_frame) simp_all
  have 4: "meta_step q q" by (simp add: meta_step_def)
  show ?thesis using 2 meta_step_trans [OF 2(1) 3] 4 by (simp add: advance_terminal_eq Let_def split: option.split)
qed

lemma meta_step_acknowledge: "queue_ok q \<Longrightarrow> meta_step q (fst (acknowledge s cumulative q))"
  using meta_step_advance [of "q\<lparr>terminal := ack_terminal s cumulative q\<rparr>"]
  by (simp add: acknowledge_eq) (simp add: meta_step_def)

lemma meta_step_publish:
  assumes "next_seq q \<le> next_seq q + of_nat (length (plan_children plan))"
  shows "meta_step q (fst (publish_plan ms cd opts s plan q))"
proof -
  define q0 where "q0 = q\<lparr>next_seq := next_seq q + of_nat (length (plan_children plan))\<rparr>"
  define p1 where "p1 = persist_meta q0"
  define p2 where "p2 = persist_repack_plan ms plan (fst p1)"
  define r2 where "r2 = (fst p2)\<lparr>repacks := AList.update s plan (repacks (fst p2))\<rparr>"
  define p3 where "p3 = persist_meta r2"
  define p4 where "p4 = install_repack_plan cd opts plan (fst p3)"
  have 1: "meta_step q (fst p1)" unfolding p1_def by (rule meta_step_persist) (use assms in \<open>simp_all add: q0_def\<close>)
  have 2: "meta_step (fst p1) (fst p2)" unfolding p2_def by (rule meta_step_frame) simp_all
  have "next_seq (fst p2) = next_seq r2" "meta (fst p2) = meta r2" by (simp_all add: r2_def)
  then have 3: "meta_step (fst p2) (fst p3)" unfolding p3_def by (intro meta_step_persist) simp_all
  have 4: "meta_step (fst p3) (fst p4)"
    unfolding p4_def by (rule install_cases [of cd opts plan "fst p3"]) (simp_all add: meta_step_def install_children_fields)
  have eq: "publish_plan ms cd opts s plan q =
     (if snd p1 \<noteq> None then failing p1 else if snd p2 \<noteq> None then failing p2 else if snd p3 \<noteq> None then failing p3 else failing p4)"
    unfolding publish_plan_eq Let_def p1_def p2_def p3_def p4_def q0_def r2_def ..
  have se: "meta_step q (x\<lparr>sync_err := b\<rparr>) = meta_step q x" for x b by (simp add: meta_step_def)
  note m2 = meta_step_trans [OF 1 2]
  note m3 = meta_step_trans [OF m2 3]
  show ?thesis unfolding eq using 1 m2 m3 meta_step_trans [OF m3 4] by (simp add: se)
qed

lemma meta_step_repack: "meta_step q (fst (repack ms uuid cd opts s me mb q))"
proof -
  let ?s = "fst (seal_active q)"
  have s: "meta_step q ?s" by (rule meta_step_frame) simp_all
  have ns: "next_seq ?s = next_seq q" by (rule core_eqD(2)) simp
  have r: "meta_step q q" by (simp add: meta_step_def)
  have pub: "meta_step q (fst (publish_plan ms cd opts s plan ?s))"
    if "length (plan_children plan) < unat (0xFFFFFFFFFFFFFFFF - next_seq q)" for plan
  proof (rule meta_step_trans [OF s meta_step_publish])
    have "unat (next_seq q) + length (plan_children plan) < 2 ^ 64"
      using that unat_u64_less [of "next_seq q"] by (subst (asm) unat_sub) (simp_all add: word_le_nat_alt)
    then show "next_seq ?s \<le> next_seq ?s + of_nat (length (plan_children plan))"
      by (simp add: word_le_nat_alt unat_word_ariths unat_of_nat ns)
  qed
  have "meta_step q (fst (case seal_active q of (q1, None) \<Rightarrow> publish_plan ms cd opts s plan q1 | (q1, Some e) \<Rightarrow> (q1, Some e)))"
    if "length (plan_children plan) < unat (0xFFFFFFFFFFFFFFFF - next_seq q)" for plan
    using s pub [OF that] by (simp add: split_beta split: option.split)
  then show ?thesis using r by (simp add: repack_def Let_def split: option.split sum.split)
qed

text \<open>Sequences of the successful appends among some outputs.\<close>

fun appended_sequences :: "wal_out list \<Rightarrow> u64 list" where
  "appended_sequences [] = []"
| "appended_sequences (Appended (Inr b) # outs) = batch_sequence b # appended_sequences outs"
| "appended_sequences (out # outs) = appended_sequences outs"

lemma appended_sequences_one:
  "appended_sequences [out] = (case out of Appended (Inr b) \<Rightarrow> [batch_sequence b] | _ \<Rightarrow> [])"
proof (cases out)
  case (Appended x)
  then show ?thesis by (cases x) simp_all
qed simp_all

lemma appended_sequences_append [simp]:
  "appended_sequences (xs @ ys) = appended_sequences xs @ appended_sequences ys"
  by (induction xs rule: appended_sequences.induct) simp_all

definition durable :: "u64 \<Rightarrow> queue \<Rightarrow> bool" where
  "durable k q \<longleftrightarrow> k < next_seq q \<and> k < meta_next (meta q)"

lemma durable_step: "meta_step q q' \<Longrightarrow> durable k q \<Longrightarrow> durable k q'"
  unfolding meta_step_def durable_def by (metis less_le_trans)

text \<open>Between two points of a run: everything appended in between is new, increasing, and durably burned.\<close>

definition burned :: "wal_trace \<Rightarrow> wal_trace \<Rightarrow> bool" where
  "burned st st' \<longleftrightarrow> meta_step (fst st) (fst st')
     \<and> (\<exists>new. snd st' = new @ snd st \<and> sorted_wrt (>) (appended_sequences new)
          \<and> (\<forall>k \<in> set (appended_sequences new). next_seq (fst st) \<le> k \<and> durable k (fst st')))"

lemma burned_trans:
  assumes "burned st st'" "burned st' st''"
  shows "burned st st''"
proof -
  obtain a where a: "snd st' = a @ snd st" "sorted_wrt (>) (appended_sequences a)"
      "\<forall>k \<in> set (appended_sequences a). next_seq (fst st) \<le> k \<and> durable k (fst st')"
    using assms(1) unfolding burned_def by blast
  obtain b where b: "snd st'' = b @ snd st'" "sorted_wrt (>) (appended_sequences b)"
      "\<forall>k \<in> set (appended_sequences b). next_seq (fst st') \<le> k \<and> durable k (fst st'')"
    using assms(2) unfolding burned_def by blast
  have m: "meta_step (fst st) (fst st')" "meta_step (fst st') (fst st'')" using assms unfolding burned_def by blast+
  have le: "next_seq (fst st) \<le> next_seq (fst st')" using m(1) by (simp add: meta_step_def)
  have "k' < k" if "k \<in> set (appended_sequences b)" "k' \<in> set (appended_sequences a)" for k k'
    using that a(3) b(3) unfolding durable_def by (meson less_le_trans)
  then have "sorted_wrt (>) (appended_sequences (b @ a))" using a(2) b(2) by (simp add: sorted_wrt_append)
  moreover have "\<forall>k \<in> set (appended_sequences (b @ a)). next_seq (fst st) \<le> k \<and> durable k (fst st'')"
    using a(3) b(3) durable_step [OF m(2)] le by (auto intro: order_trans)
  ultimately show ?thesis
    unfolding burned_def using meta_step_trans [OF m] a(1) b(1) by (intro conjI exI [of _ "b @ a"]) simp_all
qed

lemma burned_refl: "burned st st"
  by (simp add: burned_def meta_step_def)

lemma wal_exec_burned:
  assumes "wal_inv cd (fst st)"
  shows "burned st (wal_exec c op st)"
proof -
  let ?q = "fst st"
  have ok: "queue_ok ?q" using assms by (simp add: wal_inv_def)
  have frame: "meta_step ?q (fst (wal_step c op ?q))"
    using meta_step_append(1) [OF ok] meta_step_acknowledge [OF ok, of _ False] meta_step_acknowledge [OF ok, of _ True] meta_step_repack
  proof (cases op)
    case DoNext
    have "next_seq (fst (next_batch cd' ?q)) = next_seq ?q \<and> meta (fst (next_batch cd' ?q)) = meta ?q" for cd'
      by (simp add: next_batch_def split_beta split: option.split)
    then show ?thesis by (simp add: DoNext meta_step_def)
  next
    case DoSyncTick
    have "core (sync_tick ?q) = core ?q" "counters (sync_tick ?q) = counters ?q" by (simp_all add: sync_tick_def Let_def split_beta)
    then show ?thesis by (simp add: DoSyncTick meta_step_frame)
  next
    case DoClose
    have "core (fst (seal_active (?q\<lparr>closed := True\<rparr>))) = core (?q\<lparr>closed := True\<rparr>)"
      "counters (fst (seal_active (?q\<lparr>closed := True\<rparr>))) = counters (?q\<lparr>closed := True\<rparr>)" by simp_all
    from core_eqD(2) [OF this(1)] counters_eqD(2) [OF this(2)] show ?thesis
      by (simp add: DoClose meta_step_def close_queue_def counters_def)
  qed (simp_all add: acknowledge_def rewind_def meta_step_def)
  have new: "next_seq ?q \<le> k \<and> durable k (fst (wal_step c op ?q))"
    if k: "k \<in> set (appended_sequences [snd (wal_step c op ?q)])" for k
  proof -
    obtain env events b where "op = DoAppend env events" "snd (append_batch (cfg_codec c) (cfg_opts c) env events ?q) = Inr b"
        "k = batch_sequence b"
      using k unfolding appended_sequences_one by (cases op) (auto split: sum.splits dest: sym)
    then show ?thesis using meta_step_append(2) [OF ok] by (simp add: durable_def)
  qed
  have "sorted_wrt (>) (appended_sequences [out])" for out
    unfolding appended_sequences_one by (simp split: wal_out.split sum.split)
  then show ?thesis unfolding burned_def using frame new
    by (intro conjI exI [of _ "[snd (wal_step c op ?q)]"]) simp_all
qed

section \<open>The queue as a machine\<close>

definition wal_holds :: "wal_config \<Rightarrow> wal_trace \<Rightarrow> bool" where
  "wal_holds c st \<longleftrightarrow> codec_ok (cfg_codec c) \<and> wal_inv (cfg_codec c) (fst st)"

interpretation wal: machine "wal_exec c" wal_allowed "wal_holds c" for c
  by unfold_locales (auto simp: wal_holds_def intro: wal_exec_inv simp del: wal_exec_simps)

interpretation wal_burn: related_machine "wal_exec c" wal_allowed "wal_holds c" burned for c
  by unfold_locales (auto simp: wal_holds_def intro: wal_exec_burned burned_refl burned_trans simp del: wal_exec_simps)

text \<open>The operations that settle a batch: its acknowledgment, a cumulative one at or above it, its repacking.\<close>

definition settles :: "u64 \<Rightarrow> wal_op \<Rightarrow> bool" where
  "settles k op = (case op of DoAck s \<Rightarrow> s = k | DoAckThrough s \<Rightarrow> k \<le> s | DoRepack uuid s me mb \<Rightarrow> s = k | _ \<Rightarrow> False)"

lemma wal_exec_kept:
  assumes inv: "wal_inv (cfg_codec c) (fst st)" and u: "unsettled d (fst st)" and ns: "\<not> settles (desc_seq d) op"
  shows "kept d (fst st) (fst (wal_exec c op st))"
proof -
  let ?q = "fst st"
  have q: "queue_ok ?q" "disk_inv (cfg_codec c) (next_seq ?q) ?q" using inv by (simp_all add: wal_inv_def)
  show ?thesis
  proof (cases op)
    case (DoAppend env events)
    then show ?thesis using append_kept [OF q(2,1) u] by simp
  next
    case DoNext
    have "fst (next_batch (cfg_codec c) ?q) = ?q \<or> (\<exists>i. fst (next_batch (cfg_codec c) ?q) = ?q\<lparr>deliver_idx := i\<rparr>)"
      by (auto simp: next_batch_def split_beta split: option.split)
    then show ?thesis using kept_refl [OF u] by (auto simp: DoNext kept_def unsettled_def is_parent_def grows_def)
  next
    case DoRewind
    then show ?thesis using kept_refl [OF u] by (simp add: rewind_def kept_def unsettled_def is_parent_def grows_def)
  next
    case (DoAck s)
    then show ?thesis using acknowledge_kept [OF q(2,1) u, of s False] ns by (auto simp: settles_def acknowledge_def)
  next
    case (DoAckThrough s)
    then show ?thesis using acknowledge_kept [OF q(2,1) u, of s True] ns by (auto simp: settles_def acknowledge_def)
  next
    case (DoRepack uuid s me mb)
    then show ?thesis using repack_kept [OF u _ q(2), of s] ns by (auto simp: settles_def)
  next
    case DoSyncTick
    have "core (sync_tick ?q) = core ?q" "files (sync_tick ?q) = files ?q" "repacks (sync_tick ?q) = repacks ?q"
      by (simp_all add: sync_tick_def Let_def split_beta)
    then show ?thesis using kept_frame [OF u] by (simp add: DoSyncTick)
  next
    case DoClose
    let ?c = "?q\<lparr>closed := True\<rparr>"
    have "unsettled d ?c" using u by (simp add: unsettled_def is_parent_def)
    then have "kept d ?c (fst (seal_active ?c))" by (rule kept_frame) simp_all
    then have "kept d ?q (fst (seal_active ?c))" by (simp add: kept_def grows_def)
    then show ?thesis using kept_refl [OF u] by (simp add: DoClose close_queue_def)
  qed
qed

interpretation wal_keep: related_machine "wal_exec c" "\<lambda>op st. wal_allowed op st \<and> \<not> settles (desc_seq d) op" "wal_holds c"
    "\<lambda>st st'. unsettled d (fst st) \<longrightarrow> kept d (fst st) (fst st')" for c d
proof unfold_locales
  fix st st' st'' :: wal_trace
  assume "unsettled d (fst st) \<longrightarrow> kept d (fst st) (fst st')" "unsettled d (fst st') \<longrightarrow> kept d (fst st') (fst st'')"
  then show "unsettled d (fst st) \<longrightarrow> kept d (fst st) (fst st'')"
    using kept_trans by (auto simp: kept_def)
qed (auto simp: wal_holds_def intro: wal_exec_inv wal_exec_kept kept_refl simp del: wal_exec_simps)

lemma kept_read:
  assumes "kept d q q'" "readable cd (files q) d"
  shows "read_batch cd q' d = read_batch cd q d" "\<exists>b. read_batch cd q d = Inr b \<and> batch_sequence b = desc_seq d"
proof -
  obtain data b where r: "map_of (files q) (desc_seg d) = Some data"
      "read_record_payload cd data (desc_off d) (desc_len d) (desc_crc d) = Some b"
      "case desc_repacked d of None \<Rightarrow> batch_sequence b = desc_seq d | Some c \<Rightarrow> child_seq c = desc_seq d"
    using assms(2) by (auto simp: readable_def split: option.splits)
  obtain x where "map_of (files q') (desc_seg d) = Some (data @ x)" using assms(1) r(1) by (auto simp: kept_def grows_def)
  then show "read_batch cd q' d = read_batch cd q d" using r read_append [OF r(2)] by (simp add: read_batch_def)
  show "\<exists>b. read_batch cd q d = Inr b \<and> batch_sequence b = desc_seq d"
    using r by (auto simp: read_batch_def split: option.splits)
qed

lemma wal_inv_read:
  assumes "wal_inv cd q" "d \<in> set (unacked q)"
  shows "readable cd (files q) d" "\<exists>b. read_batch cd q d = Inr b \<and> batch_sequence b = desc_seq d"
proof -
  show "readable cd (files q) d" using assms disk_okD(1) by (auto simp: wal_inv_def disk_inv_def)
  then show "\<exists>b. read_batch cd q d = Inr b \<and> batch_sequence b = desc_seq d"
    by (auto simp: readable_def read_batch_def split: option.splits)
qed

section \<open>What runs guarantee\<close>

text \<open>An empty queue in a fresh directory, as \<open>openQueue\<close> leaves it.\<close>

definition fresh_queue :: "io_result list \<Rightarrow> queue" where
  "fresh_queue io = \<lparr>closed = False, next_seq = 1, reserved_until = 0, last_acked = 0, unacked = [], deliver_idx = 0,
     live_bytes = 0, physical_bytes = 0, quarantined_bytes = 0, queued_events = 0, terminal = {}, repacks = [],
     segments = [], active_open = False, active_size = 0, active_dirty = False, sync_err = False, quarantined = 0,
     refresh_at = None, refresh_err = False,
     meta = \<lparr>meta_format = 2, meta_next = 1, meta_acked = 0, meta_refs = []\<rparr>, files = [], manifests = [], io_left = io\<rparr>"

lemma fresh_queue_inv: "wal_inv cd (fresh_queue io)"
  by (simp add: wal_inv_def queue_ok_def repack_ok_def accounted_def children_of_def disk_inv_def disk_ok_def
      active_unsealed_def fresh_queue_def)

definition demo_config :: wal_config where
  "demo_config = \<lparr>cfg_codec = demo_codec, cfg_opts = \<lparr>opt_max_queue_bytes = 0, opt_segment_max_bytes = 0, opt_sync = SyncAlways,
     opt_reservation = 2, opt_collector_id = ''c''\<rparr>, cfg_manifest = (\<lambda>_. 0)\<rparr>"

definition demo_env :: append_env where
  "demo_env = \<lparr>env_now = 5, env_uuid = ''u'', env_scan = None\<rparr>"

text \<open>C4: every queued batch stays deliverable. Whatever sequence of appends, deliveries, acknowledgments,
  repackings, rewinds, syncs and closes runs on a consistent queue, and whatever calls to the file system
  fail on the way, each batch still queued reads back from its segment with its own sequence, the queue is
  strictly ordered above the acknowledged mark, and the durable counter is beyond every queued sequence.\<close>

theorem wal_run_deliverable:
  assumes "codec_ok (cfg_codec c)" "wal_inv (cfg_codec c) q" "allowed_run (wal_exec c) wal_allowed ops (q, [])"
  defines "q' \<equiv> fst (run_ops (wal_exec c) ops (q, []))"
  shows "list_all (\<lambda>d. (\<exists>b. read_batch (cfg_codec c) q' d = Inr b \<and> batch_sequence b = desc_seq d)
       \<and> last_acked q' < desc_seq d \<and> desc_seq d < next_seq q' \<and> desc_seq d < meta_next (meta q')) (unacked q')
     \<and> sorted_wrt (<) (map desc_seq (unacked q'))"
proof -
  have "wal_holds c (run_ops (wal_exec c) ops (q, []))"
    by (rule wal.run_holds [OF _ assms(3)]) (simp add: wal_holds_def assms(1,2))
  then have inv: "wal_inv (cfg_codec c) q'" by (simp add: wal_holds_def q'_def)
  then have "queue_ok q'" by (simp add: wal_inv_def)
  then show ?thesis using wal_inv_read(2) [OF inv] queue_okD by (auto simp: list_all_iff)
qed

lemma demo_run_allowed:
  "allowed_run (wal_exec demo_config) wal_allowed [DoAppend demo_env [demo_event 10], DoNext, DoAck 1] (fresh_queue [], [])"
  by (simp add: wal_allowed_def)

theorem wal_run_deliverable_witness:
  "sorted_wrt (<) (map desc_seq (unacked (fst (run_ops (wal_exec demo_config)
     [DoAppend demo_env [demo_event 10], DoNext, DoAck 1] (fresh_queue [], [])))))"
  using wal_run_deliverable [OF _ _ demo_run_allowed] demo_codec_ok fresh_queue_inv by (simp add: demo_config_def)

text \<open>C1: no batch is dropped before it is settled. A queued batch that is neither acknowledged, nor covered
  by a cumulative acknowledgment, nor repacked by any operation of a run, is still queued at the end of it,
  and reads back exactly the batch it read back before, through every failure of the file system.\<close>

theorem wal_unsettled_kept:
  assumes "codec_ok (cfg_codec c)" "wal_inv (cfg_codec c) q" "d \<in> set (unacked q)"
    and "desc_seq d \<notin> terminal q" "\<not> is_parent q (desc_seq d)"
    and "allowed_run (wal_exec c) wal_allowed ops (q, [])" "list_all (\<lambda>op. \<not> settles (desc_seq d) op) ops"
  defines "q' \<equiv> fst (run_ops (wal_exec c) ops (q, []))"
  shows "d \<in> set (unacked q') \<and> read_batch (cfg_codec c) q' d = read_batch (cfg_codec c) q d
     \<and> (\<exists>b. read_batch (cfg_codec c) q d = Inr b \<and> batch_sequence b = desc_seq d)"
proof -
  have run: "allowed_run (wal_exec c) (\<lambda>op st. wal_allowed op st \<and> \<not> settles (desc_seq d) op) ops (q, [])"
    using allowed_run_mono [OF assms(6)] assms(7) by (auto simp: list_all_iff)
  have "unsettled d q" using assms(3-5) by (simp add: unsettled_def)
  then have k: "kept d q q'"
    using wal_keep.run_rel [OF _ run] assms(1,2) by (simp add: wal_holds_def q'_def)
  then show ?thesis
    using kept_read [OF k wal_inv_read(1) [OF assms(2,3)]] by (simp add: kept_def unsettled_def)
qed

text \<open>C5: sequences are never reused. The batches appended in a run carry strictly increasing sequences from
  the next sequence on, and the durable counter, from which a restart numbers on, has passed every one
  of them, whatever calls to the file system failed.\<close>

theorem wal_sequences_burned:
  assumes "codec_ok (cfg_codec c)" "wal_inv (cfg_codec c) q" "allowed_run (wal_exec c) wal_allowed ops (q, [])"
  defines "st \<equiv> run_ops (wal_exec c) ops (q, [])"
  shows "sorted_wrt (<) (rev (appended_sequences (snd st)))
     \<and> list_all (\<lambda>k. next_seq q \<le> k \<and> k < next_seq (fst st) \<and> k < meta_next (meta (fst st))) (appended_sequences (snd st))"
proof -
  have "burned (q, []) st"
    unfolding st_def by (rule wal_burn.run_rel [OF _ assms(3)]) (simp add: wal_holds_def assms(1,2))
  then show ?thesis by (auto simp: burned_def durable_def list_all_iff sorted_wrt_rev)
qed

theorem wal_sequences_burned_witness:
  "sorted_wrt (<) (rev (appended_sequences (snd (run_ops (wal_exec demo_config)
     [DoAppend demo_env [demo_event 10], DoNext, DoAck 1] (fresh_queue [], [])))))"
  using wal_sequences_burned [OF _ _ demo_run_allowed] demo_codec_ok fresh_queue_inv by (simp add: demo_config_def)

text \<open>A queue holding one batch, to instantiate the statements on.\<close>

definition loaded_queue :: queue where
  "loaded_queue = (fresh_queue [])\<lparr>next_seq := 2, unacked := [batch_desc_of demo_batch (segment_name 1) 8 ''x''],
     live_bytes := 9, physical_bytes := 9,
     segments := [\<lparr>seg_name = segment_name 1, seg_first = 1, seg_last = 1, seg_sealed = True, seg_size = 9\<rparr>],
     meta := \<lparr>meta_format = 2, meta_next = 2, meta_acked = 0, meta_refs = []\<rparr>, files := [(segment_name 1, record_bytes ''x'')]\<rparr>"

lemma loaded_queue_inv: "wal_inv demo_codec loaded_queue"
proof -
  have enc: "encode_record ''x'' = Some (record_bytes ''x'')" by (simp add: encode_record_def record_bytes_def)
  have "readable demo_codec [(segment_name 1, record_bytes ''x'')] (batch_desc_of demo_batch (segment_name 1) 8 ''x'')"
    using readable_written [of demo_codec demo_batch "''x''" "record_bytes ''x''" _ "segment_name 1" "[]" 8] demo_codec_ok enc
    by (simp add: demo_codec_def demo_batch_def)
  moreover have "desc_seg (batch_desc_of demo_batch (segment_name 1) 8 ''x'') = segment_name 1"
    "desc_seq (batch_desc_of demo_batch (segment_name 1) 8 ''x'') = 1" "desc_size (batch_desc_of demo_batch (segment_name 1) 8 ''x'') = 9"
    "desc_events (batch_desc_of demo_batch (segment_name 1) 8 ''x'') = 0"
    by (simp_all add: batch_desc_of_def demo_batch_def)
  ultimately show ?thesis
    by (auto simp: wal_inv_def queue_ok_def repack_ok_def accounted_def children_of_def disk_inv_def disk_ok_def
        active_unsealed_def fresh_queue_def loaded_queue_def segment_name_inj)
qed

theorem wal_unsettled_kept_witness:
  "batch_desc_of demo_batch (segment_name 1) 8 ''x'' \<in> set (unacked (fst (run_ops (wal_exec demo_config)
     [DoNext, DoAppend demo_env [demo_event 10], DoRewind, DoSyncTick, DoAck 2] (loaded_queue, []))))"
proof -
  let ?ops = "[DoNext, DoAppend demo_env [demo_event 10], DoRewind, DoSyncTick, DoAck 2]"
  have a: "allowed_run (wal_exec demo_config) wal_allowed ?ops (loaded_queue, [])" by (simp add: wal_allowed_def)
  have n: "list_all (\<lambda>op. \<not> settles (desc_seq (batch_desc_of demo_batch (segment_name 1) 8 ''x'')) op) ?ops"
    by (simp add: settles_def batch_desc_of_def demo_batch_def)
  show ?thesis
    using wal_unsettled_kept [OF _ _ _ _ _ a n] demo_codec_ok loaded_queue_inv
    by (simp add: demo_config_def loaded_queue_def fresh_queue_def is_parent_def)
qed

end
