(* ===== verification/Wal_Service.thy ===== *)
theory Wal_Service
  imports Wal_Runs
begin

text \<open>
  What the callers of the queue of \<open>internal/collector/wal\<close> rely on, operation by operation: the preview of an
  acknowledgment, the outcome of an append, the order of delivery, and what repacking publishes.
\<close>

section \<open>The preview, the outcome of an append, and the order of delivery\<close>

text \<open>C7: the preview of an acknowledgment is what the acknowledgment does. The batches \<open>PrepareAck\<close> counts,
  the mark it reports and the source checkpoints it aggregates are those of exactly the batches the following
  \<open>Ack\<close> (or \<open>AckThrough\<close>) removes, repacked parents included; if the acknowledgment fails to persist
  the mark, nothing is removed.\<close>

theorem ack_preview_exact:
  fixes q :: queue
  assumes "wal_inv cd q" "prepare_ack s cumulative q = Inr preview"
  defines "r \<equiv> acknowledge s cumulative q"
  shows "(\<exists>ds. unacked q = ds @ unacked (fst r) \<and> preview_count preview = of_nat (length ds)
       \<and> preview_marks preview = aggregate_marks (concat (map desc_marks ds))
       \<and> preview_through preview = (if ds = [] then 0 else desc_seq (last ds))
       \<and> last_acked (fst r) = (if ds = [] then last_acked q else desc_seq (last ds)))
     \<or> snd r \<noteq> None \<and> unacked (fst r) = unacked q \<and> last_acked (fst r) = last_acked q"
proof -
  obtain plan where plan: "prepare_ack_plan s cumulative q = Inr plan" "preview = aggregate_ack_plan plan"
    using assms(2) by (cases "prepare_ack_plan s cumulative q") (auto simp: prepare_ack_def)
  have ok: "queue_ok q" "repack_ok (sync_err q \<and> \<not> active_open q) q" using assms(1) by (simp_all add: wal_inv_def)
  have cf: "concat (filter (\<lambda>ms. ms \<noteq> []) xs) = concat xs" for xs :: "source_mark list list" by (induction xs) simp_all
  have "preview_through preview = plan_through_seq plan \<and> preview_count preview = plan_batch_count plan
      \<and> preview_marks preview = aggregate_marks (concat (plan_mark_groups plan))"
    unfolding plan(2) aggregate_ack_plan_def by simp
  then show ?thesis
    using prepare_ack_predicts [OF ok plan(1)] unfolding r_def [symmetric] by (elim disjE exE conjE) (simp_all add: cf)
qed

theorem ack_preview_exact_witness:
  "prepare_ack 1 False loaded_queue = Inr \<lparr>preview_through = 1, preview_count = 1,
       preview_marks = aggregate_marks (desc_marks (batch_desc_of demo_batch (segment_name 1) 8 ''x''))\<rparr>
     \<and> ((\<exists>ds. unacked loaded_queue = ds @ unacked (fst (acknowledge 1 False loaded_queue)) \<and> (1 :: u64) = of_nat (length ds))
        \<or> snd (acknowledge 1 False loaded_queue) \<noteq> None
           \<and> unacked (fst (acknowledge 1 False loaded_queue)) = unacked loaded_queue)"
proof -
  have d: "desc_seq (batch_desc_of demo_batch (segment_name 1) 8 ''x'') = 1" by (simp add: batch_desc_of_def demo_batch_def)
  have p: "prepare_ack 1 False loaded_queue = Inr \<lparr>preview_through = 1, preview_count = 1,
       preview_marks = aggregate_marks (desc_marks (batch_desc_of demo_batch (segment_name 1) 8 ''x''))\<rparr>"
    by (simp add: prepare_ack_def prepare_ack_plan_def loaded_queue_def fresh_queue_def is_parent_def hypothetically_terminal_def
        d repack_terminal_parents_def aggregate_ack_plan_def)
  show ?thesis using p ack_preview_exact [OF loaded_queue_inv p] by (elim disjE exE conjE) auto
qed

text \<open>What an append may leave in the files: nothing new, or the bytes \<open>p\<close> at the end of one file (a new one, if the
  segment was opened for it); reclamation under pressure may have removed files before.\<close>

definition wrote :: "bytes \<Rightarrow> (string \<rightharpoonup> bytes) \<Rightarrow> (string \<rightharpoonup> bytes) \<Rightarrow> bool" where
  "wrote p before after \<longleftrightarrow>
     (\<exists>nm. after = before(nm \<mapsto> (case before nm of None \<Rightarrow> [] | Some b \<Rightarrow> b) @ p)) \<or> p = [] \<and> after = before"

lemma wrote_nothing [intro]: "wrote [] m m"
  by (simp add: wrote_def)

lemma wrote_created: "wrote [] (map_of (files q)) (map_of (files (create_file n q)))"
proof (cases "map_of (files q) n")
  case None
  then show ?thesis by (auto simp: wrote_def create_file_def update_conv' intro!: exI [of _ n])
qed (simp add: create_file_def wrote_nothing)

lemma wrote_appended:
  "wrote x (map_of (files q)) (map_of (files (append_file n x q)))"
  "wrote x (map_of (files q)) (map_of (files (append_file n x (create_file n q))))"
  by (auto simp: wrote_def append_file_def create_file_def update_conv' split: option.split intro!: exI [of _ n])

lemma open_active_wrote:
  "snd (open_active k q) \<noteq> None \<Longrightarrow> wrote [] (map_of (files q)) (map_of (files (fst (open_active k q))))
     \<and> active_open (fst (open_active k q)) = active_open q"
  "snd (open_active k q) = None \<Longrightarrow> files (fst (open_active k q)) = files (create_file (segment_name k) q)
     \<and> seg_name (last (segments (fst (open_active k q)))) = segment_name k"
  using wrote_created [of "snd (io_call q)" "segment_name k"]
  by (auto simp: open_active_def Let_def split_beta create_file_def split: io_result.splits if_splits)

lemma append_file_files: "files q = files q' \<Longrightarrow> files (append_file n x q) = files (append_file n x q')"
  by (simp add: append_file_def)

lemma write_record_wrote:
  fixes opts k r q
  defines "w \<equiv> write_record opts k r q"
  shows "\<exists>p. prefix p r \<and> wrote p (map_of (files q)) (map_of (files (fst w)))
     \<and> (case snd w of Inl _ \<Rightarrow> (p \<noteq> [] \<longrightarrow> sync_err (fst w)) \<and> (sync_err (fst w) \<or> \<not> active_open (fst w)) | Inr _ \<Rightarrow> p = r)"
proof -
  define p1 where "p1 = (if active_open q \<and> active_size q > 0 \<and> rotate_at_limit opts (active_size q) (length r)
                      then seal_active q else (q, None))"
  define p2 where "p2 = (if \<not> active_open (fst p1) then open_active k (fst p1) else (fst p1, None))"
  define nm where "nm = seg_name (last (segments (fst p2)))"
  have f1: "files (fst p1) = files q" by (simp add: p1_def)
  have w: "fst w = (if snd p1 \<noteq> None then fst p1 else if snd p2 \<noteq> None then fst p2
      else case fst (io_call (fst p2)) of
          IoFail n \<Rightarrow> (fst (seal_active (append_file nm (take n r) (snd (io_call (fst p2))))))\<lparr>sync_err := True\<rparr>
        | IoOk \<Rightarrow> fst w)"
    "isl (snd w) \<longleftrightarrow> snd p1 \<noteq> None \<or> snd p2 \<noteq> None \<or> fst (io_call (fst p2)) \<noteq> IoOk"
    "snd p1 = None \<Longrightarrow> snd p2 = None \<Longrightarrow> fst (io_call (fst p2)) = IoOk \<Longrightarrow> files (fst w) = files (append_file nm r (fst p2))"
    unfolding w_def write_record_def Let_def split_beta p1_def [symmetric] p2_def [symmetric] nm_def
    by (auto simp: append_file_def split: option.splits io_result.splits)
  have ap: "wrote x (map_of (files q)) (map_of (files (append_file nm x (fst p2))))" if "snd p2 = None" for x
  proof (cases "active_open (fst p1)")
    case True
    then show ?thesis using wrote_appended(1) [of x q nm] f1 by (simp add: p2_def append_file_def)
  next
    case False
    then have o: "p2 = open_active k (fst p1)" by (simp add: p2_def)
    show ?thesis using wrote_appended(2) [of x q "segment_name k"] open_active_wrote(2) [of k "fst p1"] that f1
      by (cases "map_of (files q) (segment_name k)") (simp_all add: o nm_def append_file_def create_file_def)
  qed
  consider "snd p1 \<noteq> None" | "snd p1 = None" "snd p2 \<noteq> None"
    | n where "snd p1 = None" "snd p2 = None" "fst (io_call (fst p2)) = IoFail n"
    | "snd p1 = None" "snd p2 = None" "fst (io_call (fst p2)) = IoOk"
    by (cases "fst (io_call (fst p2))") auto
  then show ?thesis
  proof cases
    case 1
    then have "\<not> active_open (fst p1)" by (auto simp: p1_def seal_active_def Let_def split_beta split: if_splits)
    then show ?thesis using 1 w f1 by (intro exI [of _ "[]"]) (auto split: sum.split)
  next
    case 2
    then have o: "\<not> active_open (fst p1)" "p2 = open_active k (fst p1)" by (auto simp: p2_def split: if_splits)
    then show ?thesis using 2 w f1 open_active_wrote(1) [of k "fst p1"]
      by (intro exI [of _ "[]"]) (auto split: sum.split)
  next
    case 3
    then show ?thesis using w ap [OF 3(2), of "take n r"]
      by (intro exI [of _ "take n r"]) (auto simp: take_is_prefix append_file_def split: sum.split)
  next
    case 4
    then show ?thesis using w ap [OF 4(2), of r] by (intro exI [of _ r]) (auto split: sum.split)
  qed
qed

text \<open>Making room removes files and writes none.\<close>

lemma map_of_delete_le: "map_of (AList.delete n xs) \<subseteq>\<^sub>m map_of xs"
  by (auto simp: map_le_def delete_conv')

lemma reclaim_segments_files: "map_of (files (fst (reclaim_segments q n))) \<subseteq>\<^sub>m map_of (files q)"
proof (induction "segments q" arbitrary: q n)
  case Nil
  then show ?case by (simp add: reclaim_segments_Nil)
next
  case (Cons s rest)
  have "map_of (files (fst (reclaim_segments (drop_segment q s rest) (n + 1)))) \<subseteq>\<^sub>m map_of (files q)"
    using map_le_trans [OF Cons.hyps(1) [of "drop_segment q s rest" "n + 1"]] map_of_delete_le [of "seg_name s" "files q"]
    by (simp add: drop_segment_def)
  then show ?case by (simp add: reclaim_segments_Cons [OF Cons.hyps(2) [symmetric]] map_of_delete_le split: io_result.split)
qed

lemma reclaim_plans_files: "files (fst (reclaim_plans ps q c)) = files q"
proof (induction ps arbitrary: q c)
  case (Cons x ps)
  then show ?case by (cases x) (simp add: Let_def split_beta split: io_result.split)
qed simp

lemma reclaim_files: "map_of (files (fst (reclaim q))) \<subseteq>\<^sub>m map_of (files q)"
  using reclaim_segments_files [of q 0]
  by (simp add: reclaim_def reclaim_repack_plans_def reclaim_plans_files Let_def split_beta split: option.split)

lemma capacity_files: "map_of (files (fst (ensure_record_capacity opts env n q))) \<subseteq>\<^sub>m map_of (files q)"
proof -
  have r: "files (fst (refresh_quarantine_stats env q)) = files q"
    by (simp add: refresh_quarantine_stats_def refresh_storage_stats_def Let_def split_beta split: option.split)
  have a: "map_of (files (fst (reclaim_acked_active x))) \<subseteq>\<^sub>m map_of (files x)" for x
    using reclaim_files [of "fst (seal_active x)"] by (simp add: reclaim_acked_active_def split_beta split: option.split)
  show ?thesis using a r
    by (simp add: ensure_record_capacity_def Let_def split_beta split: option.split) (metis r)
qed

lemma prepare_append_files: "map_of (files (fst (prepare_append cd opts env events q))) \<subseteq>\<^sub>m map_of (files q)"
  using capacity_files map_le_trans [OF capacity_files capacity_files]
  by (simp add: prepare_append_def Let_def split_beta split: option.split)

text \<open>
  How an append is refused.  Before the reservation no sequence is consumed, the counters in memory and in the metadata
  are as they were, and nothing is written.  After it the sequence is burned, whatever failed, and part of the record may
  be in a file; then appends are refused until a sync succeeds.  In any case they are, or no segment is left open.
\<close>

definition refused_unreserved :: "queue \<Rightarrow> queue \<Rightarrow> bool" where
  "refused_unreserved q q' \<longleftrightarrow>
     next_seq q' = next_seq q \<and> reserved_until q' = reserved_until q \<and> meta q' = meta q
     \<and> map_of (files q') \<subseteq>\<^sub>m map_of (files q)"

definition refused_burned :: "codec \<Rightarrow> log_event option list \<Rightarrow> queue \<Rightarrow> queue \<Rightarrow> bool" where
  "refused_burned cd events q q' \<longleftrightarrow>
     next_seq q' = next_seq q + 1 \<and> next_seq q < next_seq q'
     \<and> (sync_err q' \<or> \<not> active_open q')
     \<and> (\<exists>batch payload r p kept. batch_sequence batch = next_seq q \<and> batch_events batch = events
          \<and> marshal cd batch = Some payload \<and> encode_record payload = Some r \<and> prefix p r
          \<and> kept \<subseteq>\<^sub>m map_of (files q) \<and> wrote p kept (map_of (files q')) \<and> (p \<noteq> [] \<longrightarrow> sync_err q'))"

definition append_refused :: "codec \<Rightarrow> log_event option list \<Rightarrow> queue \<Rightarrow> queue \<Rightarrow> wal_error \<Rightarrow> bool" where
  "append_refused cd events q q' e \<longleftrightarrow> closed q' = closed q \<and> unacked q' = unacked q \<and> deliver_idx q' = deliver_idx q
     \<and> last_acked q' = last_acked q \<and> terminal q' = terminal q
     \<and> live_bytes q' = live_bytes q \<and> queued_events q' = queued_events q
     \<and> (refused_unreserved q q' \<or> e = ErrIO \<and> refused_burned cd events q q')"

definition append_done :: "codec \<Rightarrow> wal_options \<Rightarrow> log_event option list \<Rightarrow> queue \<Rightarrow> queue \<Rightarrow> event_batch \<Rightarrow> bool" where
  "append_done cd opts events q q' batch \<longleftrightarrow>
     batch_sequence batch = next_seq q \<and> batch_events batch = events \<and> next_seq q' = next_seq q + 1
     \<and> (\<exists>nm off payload r kept. marshal cd batch = Some payload \<and> unacked q' = unacked q @ [batch_desc_of batch nm off payload]
          \<and> encode_record payload = Some r \<and> kept \<subseteq>\<^sub>m map_of (files q) \<and> wrote r kept (map_of (files q')))
     \<and> (opt_max_queue_bytes opts = 0 \<or> unat (storage_bytes q') \<le> unat (opt_max_queue_bytes opts))"

lemma storage_after_write:
  assumes "\<not> exceeds_byte_limit (storage_bytes p) (of_nat n) lim" "physical_bytes y = physical_bytes p + of_nat n"
    "quarantined_bytes y = quarantined_bytes p" "0 < n" "n < 2 ^ 64"
  shows "unat (storage_bytes y) \<le> unat lim"
proof -
  have n: "unat (of_nat n :: u64) = n" using assms(5) by (simp add: unat_of_nat)
  have le: "unat (storage_bytes p) + n \<le> unat lim" using assms(1) n by (simp add: exceeds_iff)
  then have s: "unat (storage_bytes p) = unat (physical_bytes p) + unat (quarantined_bytes p)"
    using assms(4) unat_u64_less [of lim] by (simp add: storage_bytes_nat min_def split: if_splits)
  then have "unat (physical_bytes y) = unat (physical_bytes p) + n"
    using le n unat_u64_less [of lim] unfolding assms(2) by (simp add: unat_word_ariths)
  then show ?thesis using s le assms(3) by (simp add: storage_bytes_nat)
qed

lemma append_batch_effect:
  "case snd (append_batch cd opts env events q) of
      Inl e \<Rightarrow> append_refused cd events q (fst (append_batch cd opts env events q)) e
    | Inr batch \<Rightarrow> append_done cd opts events q (fst (append_batch cd opts env events q)) batch"
proof -
  define P where "P x r \<longleftrightarrow> (case r of Inl e \<Rightarrow> append_refused cd events q x e | Inr batch \<Rightarrow> append_done cd opts events q x batch)" for x r
  have "P (fst (append_batch cd opts env events q)) (snd (append_batch cd opts env events q))"
  proof (rule append_batch_rule)
    show "P q (Inl e)" for e by (simp add: P_def append_refused_def refused_unreserved_def)
    let ?p = "fst (prepare_append cd opts env events q)"
    note cp = core_eqD [OF prepare_append_frame(1) [of cd opts env events q]]
    have kept: "map_of (files ?p) \<subseteq>\<^sub>m map_of (files q)" by (rule prepare_append_files)
    show "P ?p (Inl e)" for e
      using kept counters_eqD [OF prepare_append_frame(2) [of cd opts env events q]]
      by (simp add: P_def append_refused_def refused_unreserved_def cp)
    let ?b = "bumped cd opts env events q" and ?q2 = "reserved_state cd opts env events q"
    have c2: "core ?q2 = core ?b" "files ?q2 = files ?p" by (simp_all add: reserved_state_def bumped_def)
    have cb: "closed ?b = closed q" "unacked ?b = unacked q" "deliver_idx ?b = deliver_idx q" "last_acked ?b = last_acked q"
      "terminal ?b = terminal q" "live_bytes ?b = live_bytes q" "queued_events ?b = queued_events q" "next_seq ?b = next_seq q + 1"
      using cp by (simp_all add: bumped_def)
    fix e batch payload r nm off
    let ?w = "write_record opts (next_seq q) r ?q2"
    let ?y = "fst (sync_record opts (fst ?w))"
    have cs: "core (fst (seal_active ?q2)) = core ?b" "core (fst ?w) = core ?b" "core ?y = core ?b" using c2(1) by simp_all
    assume pre: "snd (prepare_append cd opts env events q) = Inr (batch, payload, r)"
    note ps = prepare_append_seq [OF pre]
    have refused: "P x (Inl ErrIO)"
      if "core x = core ?b" "next_seq q \<noteq> 0xFFFFFFFFFFFFFFFF" "sync_err x \<or> \<not> active_open x" "prefix p r" "p \<noteq> [] \<longrightarrow> sync_err x"
        "wrote p (map_of (files ?p)) (map_of (files x))" for x p
    proof -
      have "refused_burned cd events q x"
        unfolding refused_burned_def
      proof (intro conjI exI)
        show "next_seq x = next_seq q + 1" using core_eqD(2) [OF that(1)] cb(8) by simp
        then show "next_seq q < next_seq x" using u64_succ [OF that(2)] by simp
        show "batch_sequence batch = next_seq q" "batch_events batch = events" "marshal cd batch = Some payload"
          "encode_record payload = Some r" using ps by simp_all
      qed (rule that kept)+
      then show ?thesis using core_eqD [OF that(1)] cb by (simp add: P_def append_refused_def)
    qed
    have sealed: "sync_err (fst (seal_active x)) \<or> \<not> active_open (fst (seal_active x))" for x
      by (simp add: seal_active_def Let_def split_beta)
    show "next_seq q \<noteq> 0xFFFFFFFFFFFFFFFF \<Longrightarrow> snd (reserve_sequences opts ?b) = Some e \<Longrightarrow> P (fst (seal_active ?q2)) (Inl e)"
      using io_errors(2) refused [OF cs(1) _ sealed, of "[]"] c2(2) wrote_nothing by fastforce
    obtain p where p: "prefix p r" "wrote p (map_of (files ?p)) (map_of (files (fst ?w)))"
      "case snd ?w of Inl _ \<Rightarrow> (p \<noteq> [] \<longrightarrow> sync_err (fst ?w)) \<and> (sync_err (fst ?w) \<or> \<not> active_open (fst ?w)) | Inr _ \<Rightarrow> p = r"
      using write_record_wrote [of r ?q2 opts "next_seq q"] c2(2) by auto
    show "next_seq q \<noteq> 0xFFFFFFFFFFFFFFFF \<Longrightarrow> snd ?w = Inl e \<Longrightarrow> P (fst ?w) (Inl e)"
      using io_errors(6) refused [OF cs(2) _ _ p(1) _ p(2)] p(3) by fastforce
    have fy: "files ?y = files (fst ?w)" by (simp add: sync_record_def Let_def split_beta)
    have sy: "sync_err ?y" if "snd (sync_record opts (fst ?w)) = Some e"
      using that by (simp add: sync_record_def Let_def split_beta split: if_splits)
    show "next_seq q \<noteq> 0xFFFFFFFFFFFFFFFF \<Longrightarrow> isl (snd ?w) = False \<Longrightarrow> snd (sync_record opts (fst ?w)) = Some e \<Longrightarrow> P ?y (Inl e)"
      using io_errors(3) refused [OF cs(3) _ _ p(1), unfolded fy, OF _ _ _ p(2)] sy by fastforce
    assume w: "snd ?w = Inr (nm, off)"
    have len: "0 < length r" "length r < 2 ^ 64" using ps by (auto simp: encode_record_def be32_def split: if_splits)
    have phys: "physical_bytes ?y = physical_bytes ?p + of_nat (length r)" "quarantined_bytes ?y = quarantined_bytes ?p"
      using w by (simp_all add: reserved_state_def bumped_def)
    have lim: "opt_max_queue_bytes opts = 0 \<or> unat (storage_bytes ?y) \<le> unat (opt_max_queue_bytes opts)"
      using storage_after_write [OF prepare_room [OF pre] phys len] by blast
    let ?d = "batch_desc_of batch nm off payload"
    have wr: "wrote r (map_of (files ?p)) (map_of (files (enqueue ?d ?y)))" using p(2,3) w fy by (simp add: enqueue_def)
    have "storage_bytes (enqueue ?d ?y) = storage_bytes ?y" "unacked (enqueue ?d ?y) = unacked q @ [?d]"
      "next_seq (enqueue ?d ?y) = next_seq q + 1"
      using core_eqD [OF cs(3)] cb by (simp_all add: enqueue_def storage_bytes_def)
    then show "P (enqueue ?d ?y) (Inr batch)"
      using ps lim kept wr by (auto simp: P_def append_done_def)
  qed
  then show ?thesis by (simp add: P_def)
qed

text \<open>C9: an append either queues the batch or queues nothing. If it succeeds, exactly one descriptor is queued, for the
  next sequence and the given events, its record is at the end of one segment, and the storage in use (segments and
  quarantine together) is within the configured limit. If it fails, the queued batches, their totals, the delivery cursor
  and the acknowledgments are unchanged, and one of two things holds (\<open>refused_unreserved\<close>, \<open>refused_burned\<close> above).
  Either nothing was reserved: the counter and its durable bound are unchanged, and no byte was written (files of acknowledged
  segments may have been reclaimed). Or the file system failed after the reservation: the sequence is burned and never
  rolled back, and a part of the record, up to all of it when only its sync failed, may be at the end of one file; if so,
  appends are refused until a sync succeeds, and if not, they are or the segment is sealed.\<close>

theorem append_all_or_nothing:
  "case append_batch cd opts env events q of
      (q', Inl e) \<Rightarrow> closed q' = closed q \<and> unacked q' = unacked q \<and> deliver_idx q' = deliver_idx q
        \<and> last_acked q' = last_acked q \<and> terminal q' = terminal q
        \<and> live_bytes q' = live_bytes q \<and> queued_events q' = queued_events q
        \<and> (refused_unreserved q q' \<or> e = ErrIO \<and> refused_burned cd events q q')
    | (q', Inr batch) \<Rightarrow> batch_sequence batch = next_seq q \<and> batch_events batch = events \<and> next_seq q' = next_seq q + 1
        \<and> (\<exists>nm off payload r kept. marshal cd batch = Some payload \<and> unacked q' = unacked q @ [batch_desc_of batch nm off payload]
             \<and> encode_record payload = Some r \<and> kept \<subseteq>\<^sub>m map_of (files q) \<and> wrote r kept (map_of (files q')))
        \<and> (opt_max_queue_bytes opts = 0 \<or> unat (storage_bytes q') \<le> unat (opt_max_queue_bytes opts))"
  using append_batch_effect [where cd = cd and opts = opts and env = env and events = events and q = q]
  by (cases "append_batch cd opts env events q"; cases "snd (append_batch cd opts env events q)")
    (simp_all add: append_refused_def append_done_def)

text \<open>What is left to deliver: from the cursor on, without the parents of repacked children.\<close>

definition pending :: "queue \<Rightarrow> batch_desc list" where
  "pending q = filter (\<lambda>d. \<not> is_parent q (desc_seq d)) (drop (deliver_idx q) (unacked q))"

lemma next_deliverable_pending:
  "next_deliverable q ds i =
     (case dropWhile (\<lambda>d. is_parent q (desc_seq d)) ds of [] \<Rightarrow> (None, i + length ds)
      | d # rest \<Rightarrow> (Some d, i + length ds - length rest))"
proof (induction ds arbitrary: i)
  case (Cons d ds)
  show ?case
  proof (cases "is_parent q (desc_seq d)")
    case True
    then show ?thesis using Cons [of "i + 1"]
      by (cases "dropWhile (\<lambda>d. is_parent q (desc_seq d)) ds") (simp_all del: dropWhile_eq_Nil_conv)
  qed simp
qed simp

lemma dropWhile_parents1: "dropWhile P ds = [] \<longleftrightarrow> filter (\<lambda>x. \<not> P x) ds = []"
  by (simp add: filter_empty_conv)

lemma dropWhile_parents2: "dropWhile P ds = d # rest \<Longrightarrow> filter (\<lambda>x. \<not> P x) ds = d # filter (\<lambda>x. \<not> P x) rest"
proof (induction ds)
  case (Cons x ds)
  then show ?case by (cases "P x") simp_all
qed simp

lemma next_batch_pending:
  fixes q :: queue
  assumes op: "\<not> closed q" and idx: "deliver_idx q \<le> length (unacked q)"
  shows "\<exists>i \<le> length (unacked q). fst (next_batch cd q) = q\<lparr>deliver_idx := i\<rparr>
     \<and> filter (\<lambda>d. \<not> is_parent q (desc_seq d)) (drop i (unacked q)) = tl (pending q)
     \<and> snd (next_batch cd q) = (case pending q of [] \<Rightarrow> Inr None | d # _ \<Rightarrow> map_sum id Some (read_batch cd q d))"
proof -
  define P where "P = (\<lambda>d :: batch_desc. is_parent q (desc_seq d))"
  define ds where "ds = drop (deliver_idx q) (unacked q)"
  have pe: "pending q = filter (\<lambda>d. \<not> P d) ds" by (simp add: pending_def P_def ds_def)
  have nb: "fst (next_batch cd q) = q\<lparr>deliver_idx := snd (next_deliverable q ds (deliver_idx q))\<rparr>"
    "snd (next_batch cd q) = (case fst (next_deliverable q ds (deliver_idx q)) of None \<Rightarrow> Inr None
       | Some d \<Rightarrow> map_sum id Some (read_batch cd q d))"
    using op by (simp_all add: next_batch_def ds_def split_beta split: option.split sum.split)
  have nd: "next_deliverable q ds (deliver_idx q) = (case dropWhile P ds of [] \<Rightarrow> (None, length (unacked q))
      | d # rest \<Rightarrow> (Some d, length (unacked q) - length rest))"
    using idx unfolding next_deliverable_pending P_def [symmetric] by (simp add: ds_def del: dropWhile_eq_Nil_conv cong: list.case_cong)
  show ?thesis
  proof (cases "dropWhile P ds")
    case Nil
    then have f: "filter (\<lambda>d. \<not> P d) ds = []" using dropWhile_parents1 by blast
    show ?thesis unfolding nb nd pe f Nil P_def [symmetric]
      by (intro exI [of _ "length (unacked q)"]) simp
  next
    case (Cons d rest)
    obtain pre where "ds = pre @ d # rest" using Cons takeWhile_dropWhile_id [of P ds] by metis
    then have "unacked q = (take (deliver_idx q) (unacked q) @ pre @ [d]) @ rest"
      using append_take_drop_id [of "deliver_idx q" "unacked q"] by (simp add: ds_def)
    then obtain xs where xs: "unacked q = xs @ rest" by blast
    have i: "drop (length (unacked q) - length rest) (unacked q) = rest" unfolding xs by simp
    have f: "filter (\<lambda>d. \<not> P d) ds = d # filter (\<lambda>d. \<not> P d) rest" by (rule dropWhile_parents2 [OF Cons])
    show ?thesis unfolding nb nd pe f Cons P_def [symmetric]
      by (intro exI [of _ "length (unacked q) - length rest"]) (simp add: i P_def)
  qed
qed

lemma deliveries_aux:
  assumes "\<not> closed q" "deliver_idx q \<le> length (unacked q)"
  shows "rev (snd (run_ops (wal_exec c) (replicate n DoNext) (q, outs))) = rev outs
     @ map (\<lambda>d. Delivered (map_sum id Some (read_batch (cfg_codec c) q d))) (take n (pending q))
     @ replicate (n - length (pending q)) (Delivered (Inr None))"
  using assms
proof (induction n arbitrary: q outs)
  case (Suc n)
  define out where "out = Delivered (snd (next_batch (cfg_codec c) q))"
  obtain i where i: "i \<le> length (unacked q)" "fst (next_batch (cfg_codec c) q) = q\<lparr>deliver_idx := i\<rparr>"
      "filter (\<lambda>d. \<not> is_parent q (desc_seq d)) (drop i (unacked q)) = tl (pending q)"
      "snd (next_batch (cfg_codec c) q) = (case pending q of [] \<Rightarrow> Inr None | d # _ \<Rightarrow> map_sum id Some (read_batch (cfg_codec c) q d))"
    using next_batch_pending [OF Suc.prems, of "cfg_codec c"] by blast
  let ?q = "q\<lparr>deliver_idx := i\<rparr>"
  have e: "wal_exec c DoNext (q, outs) = (?q, out # outs)"
    by (simp add: wal_exec_def split_beta i(2) out_def)
  have p: "pending ?q = tl (pending q)" using i(3) by (simp add: pending_def is_parent_def)
  have rd: "read_batch (cfg_codec c) ?q = read_batch (cfg_codec c) q" by (rule ext) (simp add: read_batch_def)
  have "rev (snd (run_ops (wal_exec c) (replicate n DoNext) (?q, out # outs))) = rev (out # outs)
     @ map (\<lambda>d. Delivered (map_sum id Some (read_batch (cfg_codec c) q d))) (take n (tl (pending q)))
     @ replicate (n - length (tl (pending q))) (Delivered (Inr None))"
  proof -
    have "\<not> closed ?q" "deliver_idx ?q \<le> length (unacked ?q)" using Suc.prems i(1) by simp_all
    from Suc.IH [OF this, of "out # outs"] show ?thesis unfolding p rd .
  qed
  then show ?case by (cases "pending q") (simp_all add: e out_def i(4) id_def)
qed simp

text \<open>C15: delivery is complete and in order. In any consistent open queue, \<open>n\<close> calls of \<open>NextBatch\<close> hand out the
  first \<open>n\<close> batches from the cursor in ascending sequence, skipping exactly the parents of repacked children, then
  report that there is nothing left; each is read back from its record. After a rewind they start at the lowest
  unacknowledged batch that is no parent.\<close>

theorem delivery_in_order:
  assumes "wal_inv (cfg_codec c) q" "\<not> closed q"
  defines "ds \<equiv> filter (\<lambda>d. \<not> is_parent q (desc_seq d)) (unacked q)"
    and "rest \<equiv> filter (\<lambda>d. \<not> is_parent q (desc_seq d)) (drop (deliver_idx q) (unacked q))"
  shows "rev (snd (run_ops (wal_exec c) (replicate n DoNext) (q, []))) =
       map (\<lambda>d. Delivered (map_sum id Some (read_batch (cfg_codec c) q d))) (take n rest)
       @ replicate (n - length rest) (Delivered (Inr None))
     \<and> rev (snd (run_ops (wal_exec c) (DoRewind # replicate n DoNext) (q, []))) =
       [Outcome None]
       @ map (\<lambda>d. Delivered (map_sum id Some (read_batch (cfg_codec c) q d))) (take n ds)
       @ replicate (n - length ds) (Delivered (Inr None))
     \<and> sorted_wrt (<) (map desc_seq ds) \<and> suffix rest ds"
proof (intro conjI)
  have "deliver_idx q \<le> length (unacked q)" using assms(1) queue_okD(3) by (simp add: wal_inv_def)
  then show "rev (snd (run_ops (wal_exec c) (replicate n DoNext) (q, []))) =
       map (\<lambda>d. Delivered (map_sum id Some (read_batch (cfg_codec c) q d))) (take n rest)
       @ replicate (n - length rest) (Delivered (Inr None))"
    using deliveries_aux [of q c n "[]"] assms(2) by (simp add: rest_def pending_def)
  have r: "wal_exec c DoRewind (q, []) = (q\<lparr>deliver_idx := 0\<rparr>, [Outcome None])" using assms(2) by (simp add: wal_exec_def rewind_def)
  have p: "pending (q\<lparr>deliver_idx := 0\<rparr>) = ds" by (simp add: pending_def is_parent_def ds_def)
  have rd: "read_batch cd (q\<lparr>deliver_idx := 0\<rparr>) d = read_batch cd q d" for cd d by (simp add: read_batch_def)
  show "rev (snd (run_ops (wal_exec c) (DoRewind # replicate n DoNext) (q, []))) =
       [Outcome None]
       @ map (\<lambda>d. Delivered (map_sum id Some (read_batch (cfg_codec c) q d))) (take n ds)
       @ replicate (n - length ds) (Delivered (Inr None))"
    using deliveries_aux [of "q\<lparr>deliver_idx := 0\<rparr>" c n "[Outcome None]"] assms(2) by (simp add: r p rd)
  have "sorted_wrt (<) (map desc_seq (unacked q))" using assms(1) queue_okD(1) by (simp add: wal_inv_def)
  then show "sorted_wrt (<) (map desc_seq ds)" by (simp add: ds_def sorted_wrt_map sorted_wrt_filter)
  have "ds = filter (\<lambda>d. \<not> is_parent q (desc_seq d)) (take (deliver_idx q) (unacked q)) @ rest"
    unfolding ds_def rest_def by (metis append_take_drop_id filter_append)
  then show "suffix rest ds" by (simp add: suffix_def)
qed

theorem delivery_in_order_witness:
  "rev (snd (run_ops (wal_exec demo_config) (DoRewind # replicate 2 DoNext) (loaded_queue, []))) =
     [Outcome None, Delivered (Inr (Some demo_batch)), Delivered (Inr None)]"
proof -
  have rd: "read_batch demo_codec loaded_queue (batch_desc_of demo_batch (segment_name 1) 8 ''x'') = Inr demo_batch"
    by (simp add: read_batch_def loaded_queue_def batch_desc_of_def read_record_payload_def record_bytes_def be32_def demo_codec_def)
  have f: "filter (\<lambda>d. \<not> is_parent loaded_queue (desc_seq d)) (unacked loaded_queue) = [batch_desc_of demo_batch (segment_name 1) 8 ''x'']"
    by (simp add: loaded_queue_def fresh_queue_def is_parent_def)
  have "\<not> closed loaded_queue" by (simp add: loaded_queue_def fresh_queue_def)
  then show ?thesis using delivery_in_order [of demo_config loaded_queue 2] loaded_queue_inv rd
    by (simp add: f demo_config_def del: run_ops.simps)
qed

section \<open>What repacking does\<close>

lemma publish_refused:
  assumes "snd (publish_plan ms cd opts s plan q) = Some e"
  shows "unacked (fst (publish_plan ms cd opts s plan q)) = unacked q \<and> last_acked (fst (publish_plan ms cd opts s plan q)) = last_acked q"
proof -
  define q0 where "q0 = q\<lparr>next_seq := next_seq q + of_nat (length (plan_children plan))\<rparr>"
  define p1 where "p1 = persist_meta q0"
  define p2 where "p2 = persist_repack_plan ms plan (fst p1)"
  define r2 where "r2 = (fst p2)\<lparr>repacks := AList.update s plan (repacks (fst p2))\<rparr>"
  define p3 where "p3 = persist_meta r2"
  define p4 where "p4 = install_repack_plan cd opts plan (fst p3)"
  have eq: "publish_plan ms cd opts s plan q =
     (if snd p1 \<noteq> None then failing p1 else if snd p2 \<noteq> None then failing p2 else if snd p3 \<noteq> None then failing p3 else failing p4)"
    unfolding publish_plan_eq Let_def p1_def p2_def p3_def p4_def q0_def r2_def ..
  have c0: "core (fst p1) = core q0" "core (fst p2) = core q0" "core (fst p3) = core q0" by (simp_all add: p1_def p2_def p3_def r2_def)
  have q0: "unacked q0 = unacked q" "last_acked q0 = last_acked q" by (simp_all add: q0_def)
  have u: "unacked (fst p1) = unacked q" "last_acked (fst p1) = last_acked q" "unacked (fst p2) = unacked q" "last_acked (fst p2) = last_acked q"
    "unacked (fst p3) = unacked q" "last_acked (fst p3) = last_acked q"
    using core_eqD(3,4) [OF c0(1)] core_eqD(3,4) [OF c0(2)] core_eqD(3,4) [OF c0(3)] q0 by simp_all
  have "fst p4 = fst p3" if "snd p4 \<noteq> None"
    using that unfolding p4_def by (cases rule: install_cases [of cd opts plan "fst p3"]) simp_all
  then show ?thesis using u assms unfolding eq by (simp split: if_splits)
qed

lemma repack_refused:
  assumes "snd (repack ms uuid cd opts s me mb q) = Some e"
  shows "unacked (fst (repack ms uuid cd opts s me mb q)) = unacked q \<and> last_acked (fst (repack ms uuid cd opts s me mb q)) = last_acked q"
proof -
  have s: "unacked (fst (seal_active q)) = unacked q" "last_acked (fst (seal_active q)) = last_acked q"
    using core_eqD(3,4) [OF seal_active_frame(1) [of q]] by simp_all
  have "unacked (fst (case seal_active q of (q1, None) \<Rightarrow> publish_plan ms cd opts s plan q1 | (q1, Some e) \<Rightarrow> (q1, Some e))) = unacked q
     \<and> last_acked (fst (case seal_active q of (q1, None) \<Rightarrow> publish_plan ms cd opts s plan q1 | (q1, Some e) \<Rightarrow> (q1, Some e))) = last_acked q"
    if "snd (case seal_active q of (q1, None) \<Rightarrow> publish_plan ms cd opts s plan q1 | (q1, Some e) \<Rightarrow> (q1, Some e)) = Some e" for plan
    using that publish_refused [of ms cd opts s plan "fst (seal_active q)" e] s
    by (simp add: split_beta split: option.splits)
  then show ?thesis using assms by (auto simp: repack_def Let_def split: option.splits sum.splits if_splits)
qed

text \<open>C8: repacking replaces a refused batch by children that are the same events. When \<open>Repack\<close> succeeds on a
  batch, the queue gains at its end at least two children with fresh higher sequences; each is delivered
  as a nonempty batch within the given limits (or a single event), the events of the children in order are
  exactly the events of the batch, and the batch itself is a parent from then on. When it fails, nothing
  that is queued changes.\<close>

theorem repack_partitions_batch:
  assumes "wal_inv cd q"
  shows "case repack ms uuid cd opts s me mb q of
      (q', Some e) \<Rightarrow> unacked q' = unacked q \<and> last_acked q' = last_acked q
    | (q', None) \<Rightarrow> is_parent q s \<and> q' = q
        \<or> (\<exists>d parent bs. find_desc s (unacked q) = Some d \<and> read_batch cd q d = Inr parent
           \<and> map desc_seq (unacked q') = map desc_seq (unacked q) @ map batch_sequence bs
           \<and> map (read_batch cd q') (drop (length (unacked q)) (unacked q')) = map Inr bs
           \<and> concat (map batch_events bs) = batch_events parent
           \<and> list_all (\<lambda>b. batch_events b \<noteq> [] \<and> within_limits cd me mb (batch_events b)) bs
           \<and> 2 \<le> length bs \<and> is_parent q' s)"
proof -
  obtain q' r where r: "repack ms uuid cd opts s me mb q = (q', r)" by fastforce
  show ?thesis
  proof (cases r)
    case None
    show ?thesis
    proof (cases "is_parent q s")
      case True
      then have "q' = q" using r None by (auto simp: repack_def split: if_splits)
      then show ?thesis using r None True by simp
    next
      case False
      from repack_publishes_aux [OF assms r [unfolded None] False] show ?thesis using r None by simp
    qed
  next
    case (Some e)
    then show ?thesis using repack_refused [of ms uuid cd opts s me mb q e] r by simp
  qed
qed

text \<open>A batch of two events, split in two.\<close>

definition pair_batch :: event_batch where
  "pair_batch = demo_batch\<lparr>batch_events := [demo_event 1, demo_event 2]\<rparr>"

definition pair_codec :: codec where
  "pair_codec = \<lparr>marshal = (\<lambda>b. if b = pair_batch then Some ''x'' else None), marshal_deterministic = (\<lambda>b. Some ''d''),
     unmarshal = (\<lambda>p. if p = ''x'' then Some pair_batch else None), batch_size = (\<lambda>b. 1),
     event_size = (\<lambda>e. 1), timestamp_valid = (\<lambda>t. True), is_uuid_v4 = (\<lambda>s. True)\<rparr>"

definition pair_desc :: batch_desc where
  "pair_desc = batch_desc_of pair_batch (segment_name 1) 8 ''x''"

definition pair_queue :: queue where
  "pair_queue = (fresh_queue [])\<lparr>next_seq := 2, unacked := [pair_desc], live_bytes := 9, queued_events := 2, physical_bytes := 9,
     segments := [\<lparr>seg_name = segment_name 1, seg_first = 1, seg_last = 1, seg_sealed = True, seg_size = 9\<rparr>],
     meta := \<lparr>meta_format = 2, meta_next = 2, meta_acked = 0, meta_refs = []\<rparr>, files := [(segment_name 1, record_bytes ''x'')]\<rparr>"

lemma pair_desc_simps [simp]:
  "desc_seg pair_desc = segment_name 1" "desc_seq pair_desc = 1" "desc_size pair_desc = 9" "desc_events pair_desc = 2"
  "desc_repacked pair_desc = None" "desc_off pair_desc = 8" "desc_len pair_desc = 1" "desc_crc pair_desc = crc32c ''x''"
  by (simp_all add: pair_desc_def batch_desc_of_def pair_batch_def demo_batch_def)

lemma pair_queue_inv: "wal_inv pair_codec pair_queue"
proof -
  have enc: "encode_record ''x'' = Some (record_bytes ''x'')" by (simp add: encode_record_def record_bytes_def)
  have ok: "codec_ok pair_codec" by (simp add: codec_ok_def pair_codec_def)
  have "readable pair_codec [(segment_name 1, record_bytes ''x'')] pair_desc"
    using readable_written [of pair_codec pair_batch "''x''" "record_bytes ''x''" _ "segment_name 1" "[]" 8] ok enc
    by (simp add: pair_codec_def pair_batch_def pair_desc_def)
  then show ?thesis
    by (auto simp: wal_inv_def queue_ok_def repack_ok_def accounted_def children_of_def disk_inv_def disk_ok_def
        active_unsealed_def fresh_queue_def pair_queue_def segment_name_inj)
qed

lemma quiet_calls:
  assumes "io_left q = []"
  shows "io_call q = (IoOk, q)" "persist_meta q = (q\<lparr>meta := current_meta q\<rparr>, None)"
    "persist_repack_plan (\<lambda>_. 0) plan q = (q\<lparr>manifests := AList.update (child_seq (plan_parent plan)) plan (manifests q)\<rparr>, None)"
proof -
  show 1: "io_call q = (IoOk, q)" by (simp add: io_call_def assms)
  show "persist_meta q = (q\<lparr>meta := current_meta q\<rparr>, None)" by (simp add: persist_meta_def 1)
  have "io_call (q\<lparr>manifests := m\<rparr>) = (IoOk, q\<lparr>manifests := m\<rparr>)" for m by (simp add: io_call_def assms)
  then show "persist_repack_plan (\<lambda>_. 0) plan q = (q\<lparr>manifests := AList.update (child_seq (plan_parent plan)) plan (manifests q)\<rparr>, None)"
    by (simp add: persist_repack_plan_def 1 Let_def)
qed

lemma pair_queue_repack:
  "snd (repack (\<lambda>_. 0) (\<lambda>i. if i = 0 then ''a'' else ''e'') pair_codec (cfg_opts demo_config) 1 1 5 pair_queue) = None"
proof -
  have rd: "read_record_payload pair_codec (record_bytes ''x'') 8 1 (crc32c ''x'') = Some pair_batch"
    by (simp add: read_record_payload_def record_bytes_def be32_def pair_codec_def)
  have bs: "batch_events pair_batch = [demo_event 1, demo_event 2]" "collector_id pair_batch = ''c''" "batch_id pair_batch = ''b''"
    by (simp_all add: pair_batch_def demo_batch_def)
  have rb: "read_batch pair_codec pair_queue pair_desc = Inr pair_batch"
    by (simp add: read_batch_def pair_queue_def rd)
  have md: "marshal_deterministic pair_codec b = Some ''d''" for b by (simp add: pair_codec_def)
  define plan where "plan = repack_plan_of (\<lambda>i. if i = 0 then ''a'' else ''e'') pair_codec 1 5 pair_desc pair_batch ''d'' 2"
  have cs: "plan_children plan = [\<lparr>child_seq = 2, child_id = ''a'', child_start = 0, child_end = 1\<rparr>,
      \<lparr>child_seq = 3, child_id = ''e'', child_start = 1, child_end = 2\<rparr>]"
    by (simp add: plan_def repack_plan_of_def repack_children_def repack_ranges_def Let_def close_child_def pair_codec_def bs
        repack_view_def numeral_2_eq_2)
  have find: "find_desc 1 (unacked pair_queue) = Some pair_desc" by (simp add: pair_queue_def)
  have sa: "seal_active pair_queue = (pair_queue, None)" by (simp add: seal_active_def pair_queue_def fresh_queue_def)
  have sn: "parse_segment_name (segment_name 1) = Some 1" by (simp add: parse_segment_name_eq)
  have pf: "plan_parent plan = \<lparr>child_seq = 1, child_id = ''b'', child_start = 0, child_end = 2\<rparr>" "plan_segment plan = segment_name 1"
    "plan_offset plan = 8" "plan_length plan = 1" "plan_crc plan = crc32c ''x''" "plan_parent_sha256 plan = hex_encode (sha256 ''d'')"
    by (simp_all add: plan_def repack_plan_of_def repack_view_def bs)
  have inst: "snd (install_repack_plan pair_codec (cfg_opts demo_config) plan x) = None"
    if "files x = [(segment_name 1, record_bytes ''x'')]" "unacked x = [pair_desc]" "map seg_name (segments x) = [segment_name 1]" for x
  proof -
    have v: "valid_protocol_id ''a''" "valid_protocol_id ''b''" "valid_protocol_id ''e''"
      by (simp_all add: valid_protocol_id_def valid_with_maximum_def alphanumeric_def)
    have ck: "check_children x (plan_parent plan) (plan_children plan) 0 1 {} = Some (2, 3)"
      by (simp add: cs pf that v)
    show ?thesis unfolding install_repack_plan_def Let_def pf(2-6)
      using that v ck by (simp add: sn rd md bs pf(1) demo_config_def)
  qed
  have pub: "snd (publish_plan (\<lambda>_. 0) pair_codec (cfg_opts demo_config) 1 plan pair_queue) = None"
  proof -
    define q0 where "q0 = pair_queue\<lparr>next_seq := next_seq pair_queue + of_nat (length (plan_children plan))\<rparr>"
    have io: "io_left q0 = []" by (simp add: q0_def pair_queue_def fresh_queue_def)
    define r2 where "r2 = q0\<lparr>meta := current_meta q0, manifests := AList.update (child_seq (plan_parent plan)) plan (manifests q0),
      repacks := AList.update 1 plan (repacks q0)\<rparr>"
    have io2: "io_left (q0\<lparr>meta := current_meta q0\<rparr>) = []" "io_left r2 = []" by (simp_all add: r2_def io)
    have "snd (publish_plan (\<lambda>_. 0) pair_codec (cfg_opts demo_config) 1 plan pair_queue)
       = snd (install_repack_plan pair_codec (cfg_opts demo_config) plan (r2\<lparr>meta := current_meta r2\<rparr>))"
      unfolding publish_plan_eq q0_def [symmetric] quiet_calls(2) [OF io] fst_conv quiet_calls(3) [OF io2(1)] Let_def
      using quiet_calls(2) [OF io2(2)] by (simp add: r2_def)
    then show ?thesis using inst by (simp add: r2_def q0_def pair_queue_def)
  qed
  have g: "\<not> closed pair_queue" "\<not> sync_err pair_queue" "\<not> is_parent pair_queue 1" "next_seq pair_queue = 2"
    by (simp_all add: pair_queue_def fresh_queue_def is_parent_def)
  show ?thesis unfolding repack_def find sa
    by (simp add: rb md bs g Let_def pub cs flip: plan_def)
qed

theorem repack_partitions_batch_witness:
  "snd (repack (\<lambda>_. 0) (\<lambda>i. if i = 0 then ''a'' else ''e'') pair_codec (cfg_opts demo_config) 1 1 5 pair_queue) = None
   \<and> is_parent (fst (repack (\<lambda>_. 0) (\<lambda>i. if i = 0 then ''a'' else ''e'') pair_codec (cfg_opts demo_config) 1 1 5 pair_queue)) 1"
proof -
  have "\<not> is_parent pair_queue 1" by (simp add: pair_queue_def fresh_queue_def is_parent_def)
  then show ?thesis
    using repack_partitions_batch [OF pair_queue_inv, where ms = "\<lambda>_. 0" and uuid = "\<lambda>i. if i = 0 then ''a'' else ''e''"
        and opts = "cfg_opts demo_config" and s = 1 and me = 1 and mb = 5]
      pair_queue_repack
    by (auto simp: split_beta)
qed

end
