(* ===== verification/Wal_Quarantine.thy ===== *)
theory Wal_Quarantine
  imports Wal_Service
begin

text \<open>
  The queue's directory and its repair: \<open>quarantineTail\<close> and \<open>recoverInterruptedQuarantines\<close> of
  \<open>internal/collector/wal/segment.go\<close>.

  The directory is modelled with its hard links: a name leads to a file number, a file number to bytes,
  so that \<open>os.SameFile\<close>, \<open>os.Link\<close> and the atomic \<open>os.Rename\<close> mean what they mean in the code.  Every
  change is a \<open>disk_op\<close>; an operation that changes the disk is the list of its changes, one byte at a
  time for a copy, so a crash or a failed call leaves the disk after some prefix of the list.  The
  flushes to stable storage order these changes; they are not changes themselves.
\<close>

section \<open>The directory\<close>

record disk =
  entries :: "(string \<times> nat) list"
  inodes :: "bytes list"
  meta_file :: "wal_meta option"
  manifest_files :: "(u64 \<times> repack_plan option) list"

datatype disk_op =
    CreateFile string
  | WriteByte string char
  | LinkFile string string
  | RenameFile string string
  | RemoveFile string
  | PutMeta wal_meta
  | RemoveManifest u64

text \<open>\<open>O_TRUNC\<close> empties the file the name leads to; renaming a name onto another link of its file does nothing.\<close>

fun exec_op :: "disk_op \<Rightarrow> disk \<Rightarrow> disk" where
  "exec_op (CreateFile n) d =
     (case map_of (entries d) n of
        None \<Rightarrow> d\<lparr>entries := AList.update n (length (inodes d)) (entries d), inodes := inodes d @ [[]]\<rparr>
      | Some i \<Rightarrow> d\<lparr>inodes := (inodes d)[i := []]\<rparr>)"
| "exec_op (WriteByte n b) d =
     (case map_of (entries d) n of None \<Rightarrow> d | Some i \<Rightarrow> d\<lparr>inodes := (inodes d)[i := inodes d ! i @ [b]]\<rparr>)"
| "exec_op (LinkFile a b) d =
     (case map_of (entries d) a of None \<Rightarrow> d | Some i \<Rightarrow> d\<lparr>entries := AList.update b i (entries d)\<rparr>)"
| "exec_op (RenameFile a b) d =
     (case map_of (entries d) a of
        None \<Rightarrow> d
      | Some i \<Rightarrow> if map_of (entries d) b = Some i then d
                  else d\<lparr>entries := AList.update b i (AList.delete a (entries d))\<rparr>)"
| "exec_op (RemoveFile a) d = d\<lparr>entries := AList.delete a (entries d)\<rparr>"
| "exec_op (PutMeta m) d = d\<lparr>meta_file := Some m\<rparr>"
| "exec_op (RemoveManifest k) d = d\<lparr>manifest_files := AList.delete k (manifest_files d)\<rparr>"

definition exec_ops :: "disk_op list \<Rightarrow> disk \<Rightarrow> disk" where
  "exec_ops ops d = fold exec_op ops d"

definition contents :: "disk \<Rightarrow> string \<Rightarrow> bytes option" where
  "contents d n = map_option (\<lambda>i. inodes d ! i) (map_of (entries d) n)"

definition exists_file :: "disk \<Rightarrow> string \<Rightarrow> bool" where
  "exists_file d n \<longleftrightarrow> map_of (entries d) n \<noteq> None"

text \<open>\<open>os.ReadDir\<close>: the names, sorted.\<close>

definition read_dir :: "disk \<Rightarrow> string list" where
  "read_dir d = sort (remdups (map fst (entries d)))"

text \<open>\<open>os.SameFile\<close>.\<close>

definition same_file :: "disk \<Rightarrow> string \<Rightarrow> string \<Rightarrow> bool" where
  "same_file d a b \<longleftrightarrow> map_of (entries d) a \<noteq> None \<and> map_of (entries d) a = map_of (entries d) b"

section \<open>A fresh name\<close>

definition numbered :: "string \<Rightarrow> nat \<Rightarrow> string" where
  "numbered base i = base @ ''.'' @ decimal i"

lemma numbered_inj: "numbered base i = numbered base j \<longleftrightarrow> i = j"
  by (simp add: numbered_def decimal_inj)

text \<open>
  The loop of \<open>uniqueCorruptName\<close>.  Each turn finds one more name of the directory taken, so the loop
  ends: the names taken from here on are finitely many.
\<close>

lemma finite_taken: "finite {j. i \<le> j \<and> numbered base j \<in> set names}"
proof (rule finite_subset)
  show "{j. i \<le> j \<and> numbered base j \<in> set names} \<subseteq> numbered base -` set names" by auto
  show "finite (numbered base -` set names)" by (rule finite_vimageI) (auto simp: inj_def numbered_inj)
qed

function first_free :: "string list \<Rightarrow> string \<Rightarrow> nat \<Rightarrow> string" where
  "first_free names base i =
     (if numbered base i \<in> set names then first_free names base (i + 1) else numbered base i)"
  by pat_completeness auto
termination
proof (relation "measure (\<lambda>(names, base, i). card {j. i \<le> j \<and> numbered base j \<in> set names})")
  fix names base i
  assume "numbered base i \<in> set names"
  then have "i \<in> {j. i \<le> j \<and> numbered base j \<in> set names}" by simp
  moreover have "i \<notin> {j. i + 1 \<le> j \<and> numbered base j \<in> set names}" by simp
  ultimately have "{j. i + 1 \<le> j \<and> numbered base j \<in> set names} \<subset> {j. i \<le> j \<and> numbered base j \<in> set names}" by fastforce
  then show "((names, base, i + 1), (names, base, i))
      \<in> measure (\<lambda>(names, base, i). card {j. i \<le> j \<and> numbered base j \<in> set names})"
    using finite_taken by (auto intro: psubset_card_mono)
qed simp

declare first_free.simps [simp del]

definition unique_corrupt_name :: "disk \<Rightarrow> string \<Rightarrow> string" where
  "unique_corrupt_name d base =
     (if \<not> exists_file d base then base else first_free (map fst (entries d)) base 1)"

lemma first_free_fresh: "first_free names base i \<notin> set names"
  by (induction names base i rule: first_free.induct) (subst first_free.simps, simp)

lemma first_free_numbered: "\<exists>j. first_free names base i = numbered base j"
  by (induction names base i rule: first_free.induct) (subst first_free.simps, auto)

lemma exists_file_iff: "exists_file d n \<longleftrightarrow> n \<in> fst ` set (entries d)"
  by (simp add: exists_file_def map_of_eq_None_iff)

lemma unique_corrupt_name_fresh: "\<not> exists_file d (unique_corrupt_name d base)"
  using first_free_fresh [of "map fst (entries d)" base 1]
  by (auto simp: unique_corrupt_name_def exists_file_iff)

lemma unique_corrupt_name_form:
  "unique_corrupt_name d base = base \<or> (\<exists>j. unique_corrupt_name d base = base @ ''.'' @ decimal j)"
  using first_free_numbered [of "map fst (entries d)" base 1] by (auto simp: unique_corrupt_name_def numbered_def)

section \<open>Quarantine\<close>

text \<open>
  \<open>quarantineTail\<close>: the calls it makes, in order.  \<open>writeSyncedPrefix\<close> copies byte by byte here; a
  source shorter than the prefix ends the copy, and the quarantine, with an error.
\<close>

definition write_synced_prefix :: "bytes \<Rightarrow> string \<Rightarrow> nat \<Rightarrow> disk_op list" where
  "write_synced_prefix data destination n = CreateFile destination # map (WriteByte destination) (take n data)"

definition quarantine_tail :: "disk \<Rightarrow> string \<Rightarrow> nat \<Rightarrow> disk_op list" where
  "quarantine_tail d name off =
     (let artifact = unique_corrupt_name d (name @ ''.corrupt'') in
      if off = 0 then [RenameFile name artifact]
      else case contents d name of
          None \<Rightarrow> []
        | Some data \<Rightarrow>
            (let tmp = name @ ''.rewrite''; copy = write_synced_prefix data tmp off in
             if length data < off then copy
             else copy @ [LinkFile name artifact, RenameFile tmp name]))"

section \<open>Recovery of an interrupted quarantine\<close>

text \<open>\<open>filePrefixEqual\<close>: blocks of 32 KiB; \<open>None\<close> is a short read.\<close>

abbreviation compare_block_bytes :: nat where "compare_block_bytes \<equiv> 32768"

function file_prefix_equal :: "bytes \<Rightarrow> bytes \<Rightarrow> nat \<Rightarrow> bool option" where
  "file_prefix_equal data prefix_data remaining =
     (if remaining = 0 then Some True
      else let chunk = min compare_block_bytes remaining in
        if length data < chunk \<or> length prefix_data < chunk then None
        else if take chunk data \<noteq> take chunk prefix_data then Some False
        else file_prefix_equal (drop chunk data) (drop chunk prefix_data) (remaining - chunk))"
  by pat_completeness auto
termination by (relation "measure (\<lambda>(a, b, n). n)") auto

declare file_prefix_equal.simps [simp del]

lemma file_prefix_equal_eq:
  "n \<le> length data \<Longrightarrow> n \<le> length pre \<Longrightarrow> file_prefix_equal data pre n = Some (take n data = take n pre)"
proof (induction data pre n rule: file_prefix_equal.induct)
  case (1 data pre n)
  show ?case
  proof (cases "n = 0")
    case False
    define c where "c = min compare_block_bytes n"
    have c: "c \<le> n" "c \<le> length data" "c \<le> length pre" using 1(2,3) by (auto simp: c_def)
    have split: "take n xs = take c xs @ take (n - c) (drop c xs)" for xs :: bytes
      using take_add [of c "n - c" xs] c by simp
    have "take n data = take n pre \<longleftrightarrow> take c data = take c pre \<and> take (n - c) (drop c data) = take (n - c) (drop c pre)"
      unfolding split [of data] split [of pre] using c by (intro append_eq_append_conv) simp
    then show ?thesis
      using 1(1) [OF False c_def] 1(2,3) c False
      by (subst file_prefix_equal.simps) (simp add: Let_def diff_le_mono flip: c_def)
  qed (simp add: file_prefix_equal.simps)
qed

text \<open>
  \<open>preparedRewriteHasDurableOriginal\<close>; \<open>names\<close> is the directory listing made before the loop.  The first
  artifact that is a link to the live segment decides; a listed artifact that is gone is an error.
\<close>

fun find_artifact :: "disk \<Rightarrow> string \<Rightarrow> string list \<Rightarrow> bool option" where
  "find_artifact d live [] = Some False"
| "find_artifact d live (e # es) =
     (if \<not> prefix (live @ ''.corrupt'') e then find_artifact d live es
      else if \<not> exists_file d e then None
      else if same_file d live e then Some True else find_artifact d live es)"

definition prepared_rewrite :: "codec \<Rightarrow> disk \<Rightarrow> string \<Rightarrow> string \<Rightarrow> string list \<Rightarrow> bool option" where
  "prepared_rewrite cd d live rewrite names =
     (case (contents d live, contents d rewrite) of
        (Some data, Some pre) \<Rightarrow>
          (if length pre = 0 \<or> length data \<le> length pre then Some False
           else let res = fst (scan_segment cd pre) in
             if corrupt res \<or> record_count res = 0 then Some False
             else case find_artifact d live names of
                 None \<Rightarrow> None
               | Some False \<Rightarrow> Some False
               | Some True \<Rightarrow> file_prefix_equal data pre (length pre))
      | _ \<Rightarrow> None)"

text \<open>One turn of the loop of \<open>recoverInterruptedQuarantines\<close>, for one listed name; \<open>None\<close> is an error.\<close>

definition recover_entry :: "codec \<Rightarrow> string list \<Rightarrow> string \<Rightarrow> disk \<Rightarrow> disk_op list option" where
  "recover_entry cd names rewrite d =
     (if \<not> suffix ''.wal.rewrite'' rewrite then Some []
      else let live = strip_suffix ''.rewrite'' rewrite in
        if exists_file d live then
          (case prepared_rewrite cd d live rewrite names of
             None \<Rightarrow> None
           | Some True \<Rightarrow> Some [RenameFile rewrite live]
           | Some False \<Rightarrow> Some [RemoveFile rewrite])
        else case contents d rewrite of
            None \<Rightarrow> None
          | Some data \<Rightarrow>
              (let res = fst (scan_segment cd data) in
               if \<not> corrupt res \<and> record_count res > 0 then Some [RenameFile rewrite live]
               else Some [RenameFile rewrite (unique_corrupt_name d (live @ ''.corrupt.rewrite''))]))"

text \<open>The loop: the changes made, and whether it came to its end.\<close>

fun recover_entries :: "codec \<Rightarrow> string list \<Rightarrow> string list \<Rightarrow> disk \<Rightarrow> disk_op list \<times> bool" where
  "recover_entries cd names [] d = ([], True)"
| "recover_entries cd names (e # es) d =
     (case recover_entry cd names e d of
        None \<Rightarrow> ([], False)
      | Some ops \<Rightarrow> apfst (\<lambda>more. ops @ more) (recover_entries cd names es (exec_ops ops d)))"

definition recover_interrupted :: "codec \<Rightarrow> disk \<Rightarrow> disk_op list \<times> bool" where
  "recover_interrupted cd d = recover_entries cd (read_dir d) (read_dir d) d"

section \<open>What each change does to the contents\<close>

definition disk_wf :: "disk \<Rightarrow> bool" where
  "disk_wf d \<longleftrightarrow> (\<forall>i \<in> ran (map_of (entries d)). i < length (inodes d))"

definition unshared :: "disk \<Rightarrow> string \<Rightarrow> bool" where
  "unshared d n \<longleftrightarrow> (\<forall>m. m \<noteq> n \<longrightarrow> \<not> same_file d n m)"

lemma unshared_distinct:
  assumes "unshared d n" "m \<noteq> n" "map_of (entries d) m = Some i"
  shows "map_of (entries d) n \<noteq> Some i"
  using assms(1) [unfolded unshared_def, rule_format, OF assms(2)] assms(3) by (auto simp: same_file_def)

text \<open>No name of a prepared rewrite is in the directory.\<close>

definition no_rewrites :: "disk \<Rightarrow> bool" where
  "no_rewrites d \<longleftrightarrow> (\<forall>n. suffix ''.wal.rewrite'' n \<longrightarrow> \<not> exists_file d n)"

lemma exec_ops_simps [simp]:
  "exec_ops [] d = d" "exec_ops (op # ops) d = exec_ops ops (exec_op op d)"
  "exec_ops (xs @ ys) d = exec_ops ys (exec_ops xs d)"
  by (simp_all add: exec_ops_def)

lemma disk_wfD: "disk_wf d \<Longrightarrow> map_of (entries d) n = Some i \<Longrightarrow> i < length (inodes d)"
  by (auto simp: disk_wf_def ran_def)

lemma exists_contents: "exists_file d n \<longleftrightarrow> contents d n \<noteq> None"
  by (simp add: exists_file_def contents_def)

lemma in_read_dir [simp]: "n \<in> set (read_dir d) \<longleftrightarrow> exists_file d n"
  by (simp add: read_dir_def exists_file_iff)

lemma distinct_read_dir [simp]: "distinct (read_dir d)"
  by (simp add: read_dir_def)

lemma exec_writes:
  assumes "map_of (entries d) n = Some i" "i < length (inodes d)"
  shows "exec_ops (map (WriteByte n) bs) d = d\<lparr>inodes := (inodes d)[i := inodes d ! i @ bs]\<rparr>"
  using assms by (induction bs arbitrary: d) simp_all

text \<open>A copy under a new name, and what it looks like.\<close>

definition with_copy :: "disk \<Rightarrow> string \<Rightarrow> bytes \<Rightarrow> disk" where
  "with_copy d n data = d\<lparr>entries := AList.update n (length (inodes d)) (entries d), inodes := inodes d @ [data]\<rparr>"

lemma exec_copy:
  assumes "\<not> exists_file d n"
  shows "exec_ops (take (Suc j) (write_synced_prefix data n off)) d = with_copy d n (take (min j off) data)"
proof -
  let ?c = "with_copy d n []"
  have c: "exec_op (CreateFile n) d = ?c" using assms by (simp add: exists_file_def with_copy_def)
  have "map_of (entries ?c) n = Some (length (inodes d))" "length (inodes d) < length (inodes ?c)"
    by (simp_all add: with_copy_def update_conv')
  from exec_writes [OF this, of "take (min j off) data"]
  show ?thesis by (simp add: write_synced_prefix_def c take_map del: exec_op.simps) (simp add: with_copy_def)
qed

lemma map_of_with_copy [simp]:
  "map_of (entries (with_copy d n x)) = (map_of (entries d))(n \<mapsto> length (inodes d))"
  by (simp add: with_copy_def update_conv')

lemma contents_with_copy [simp]:
  assumes "disk_wf d"
  shows "contents (with_copy d n x) = (contents d)(n \<mapsto> x)"
proof
  fix m show "contents (with_copy d n x) m = ((contents d)(n \<mapsto> x)) m"
    using disk_wfD [OF assms, of m]
    by (cases "map_of (entries d) m") (simp_all add: contents_def with_copy_def update_conv' nth_append)
qed

lemma contents_link:
  "contents (exec_op (LinkFile a b) d) = (if exists_file d a then (contents d)(b := contents d a) else contents d)"
  by (auto simp: contents_def exists_file_def update_conv' split: option.split)

lemma contents_rename:
  assumes "\<not> same_file d a b"
  shows "contents (exec_op (RenameFile a b) d) =
    (if exists_file d a then (contents d)(a := None, b := contents d a) else contents d)"
  using assms by (auto simp: contents_def exists_file_def same_file_def update_conv' delete_conv' split: option.split)

lemma contents_remove [simp]: "contents (exec_op (RemoveFile a) d) = (contents d)(a := None)"
  by (auto simp: contents_def delete_conv')

section \<open>Recovery touches only prepared rewrites\<close>

lemma recover_entries_other:
  assumes "\<forall>e \<in> set es. \<not> suffix ''.wal.rewrite'' e"
  shows "recover_entries cd names es d = ([], True)"
  using assms by (induction es arbitrary: d) (simp_all add: recover_entry_def)

lemma recover_entries_single:
  assumes "distinct es" "\<forall>e \<in> set es. e \<noteq> n \<longrightarrow> \<not> suffix ''.wal.rewrite'' e" "n \<in> set es"
  shows "recover_entries cd names es d = (case recover_entry cd names n d of None \<Rightarrow> ([], False) | Some ops \<Rightarrow> (ops, True))"
  using assms
proof (induction es arbitrary: d)
  case (Cons e es)
  show ?case
  proof (cases "e = n")
    case True
    then have "recover_entries cd names es d' = ([], True)" for d' using Cons.prems by (intro recover_entries_other) auto
    then show ?thesis using True by (simp split: option.split)
  next
    case False
    then have "recover_entry cd names e d = Some []" using Cons.prems by (simp add: recover_entry_def)
    then show ?thesis using False Cons by (cases "recover_entry cd names n d") simp_all
  qed
qed simp

lemma recover_interrupted_tidy: "no_rewrites d \<Longrightarrow> recover_interrupted cd d = ([], True)"
  unfolding recover_interrupted_def by (rule recover_entries_other) (auto simp: no_rewrites_def)

section \<open>Quarantine is atomic\<close>

text \<open>Between operations no rewrite is pending and a segment is the only name of its file.\<close>

definition disk_quiet :: "disk \<Rightarrow> bool" where
  "disk_quiet d \<longleftrightarrow> disk_wf d \<and> no_rewrites d \<and> (\<forall>s. unshared d (segment_name s))"

text \<open>Where a quarantine may cut: at the start, or behind at least one intact record and before the end.\<close>

definition cut_point :: "codec \<Rightarrow> bytes \<Rightarrow> nat \<Rightarrow> bool" where
  "cut_point cd data off \<longleftrightarrow> off = 0 \<or> off < length data \<and>
     \<not> corrupt (fst (scan_segment cd (take off data))) \<and> record_count (fst (scan_segment cd (take off data))) \<noteq> 0"

lemma suffix_clash: "length x = length y \<Longrightarrow> suffix (x @ z) n \<Longrightarrow> suffix (y @ z) n \<Longrightarrow> x = y"
  by (auto simp: suffix_def)

lemma last_segment_name [simp]: "last (segment_name s) = CHR ''l''" "segment_name s \<noteq> []"
  by (simp_all add: segment_name_def)

lemma artifact_form:
  assumes "c = unique_corrupt_name d (segment_name s @ ''.corrupt'')"
  shows "\<not> exists_file d c" "\<not> suffix ''.wal.rewrite'' c" "prefix (segment_name s @ ''.corrupt'') c" "c \<noteq> segment_name t"
    "c \<noteq> segment_name s @ ''.rewrite''"
proof -
  have "c = segment_name s @ ''.corrupt'' \<or> (\<exists>j. c = (segment_name s @ ''.corrupt'') @ ''.'' @ decimal j)"
    using unique_corrupt_name_form assms by blast
  then have c: "prefix (segment_name s @ ''.corrupt'') c" "last c = CHR ''t'' \<or> is_digit (last c)" "c \<noteq> []"
    using last_digit by (auto simp: prefix_def)
  show "\<not> exists_file d c" using assms unique_corrupt_name_fresh by simp
  have "\<not> is_digit CHR ''e''" "\<not> is_digit CHR ''l''" by (simp_all add: is_digit_def)
  then have l: "last c \<noteq> CHR ''e''" "last c \<noteq> CHR ''l''" using c(2) by auto
  have "last n = CHR ''e''" if "suffix ''.wal.rewrite'' n" for n using that by (auto simp: suffix_def)
  then show "\<not> suffix ''.wal.rewrite'' c" using l by auto
  show "prefix (segment_name s @ ''.corrupt'') c" by (rule c)
  show "c \<noteq> segment_name t" using l last_segment_name by metis
  show "c \<noteq> segment_name s @ ''.rewrite''" using l by auto
qed

lemma rewrite_form:
  "suffix ''.wal.rewrite'' (segment_name s @ ''.rewrite'')" "strip_suffix ''.rewrite'' (segment_name s @ ''.rewrite'') = segment_name s"
  "segment_name s @ ''.rewrite'' \<noteq> segment_name t" "\<not> prefix (segment_name s @ ''.corrupt'') (segment_name s @ ''.rewrite'')"
  "\<not> suffix ''.wal.rewrite'' (segment_name t)"
proof -
  show "suffix ''.wal.rewrite'' (segment_name s @ ''.rewrite'')" by (simp add: segment_name_def suffix_def)
  show "strip_suffix ''.rewrite'' (segment_name s @ ''.rewrite'') = segment_name s" by (simp add: strip_suffix_def suffix_def)
  show "segment_name s @ ''.rewrite'' \<noteq> segment_name t"
  proof
    assume "segment_name s @ ''.rewrite'' = segment_name t"
    then have "last (segment_name s @ ''.rewrite'') = last (segment_name t)" by (rule arg_cong)
    then show False by simp
  qed
  show "\<not> prefix (segment_name s @ ''.corrupt'') (segment_name s @ ''.rewrite'')" by simp
  have e: "last n = CHR ''e''" if "suffix ''.wal.rewrite'' n" for n using that by (auto simp: suffix_def)
  show "\<not> suffix ''.wal.rewrite'' (segment_name t)" using e [of "segment_name t"] by auto
qed

text \<open>The four states a quarantine with a cut passes through, and what recovery does in each.\<close>

lemma take_quarantine:
  assumes "contents d name = Some data" "0 < off" "off < length data" "\<not> exists_file d (name @ ''.rewrite'')"
  defines "ops \<equiv> quarantine_tail d name off" and "c \<equiv> unique_corrupt_name d (name @ ''.corrupt'')"
  defines "full \<equiv> with_copy d (name @ ''.rewrite'') (take off data)"
  shows "exec_ops (take k ops) d \<in> {d, exec_op (LinkFile name c) full,
      exec_op (RenameFile (name @ ''.rewrite'') name) (exec_op (LinkFile name c) full)}
      \<union> {with_copy d (name @ ''.rewrite'') x |x. True}"
    and "exec_ops ops d = exec_op (RenameFile (name @ ''.rewrite'') name) (exec_op (LinkFile name c) full)"
proof -
  let ?copy = "write_synced_prefix data (name @ ''.rewrite'') off"
  have ops: "ops = ?copy @ [LinkFile name c, RenameFile (name @ ''.rewrite'') name]"
    using assms(1-3) by (simp add: ops_def quarantine_tail_def c_def Let_def)
  have lc: "length ?copy = Suc off" using assms(3) by (simp add: write_synced_prefix_def)
  have full: "exec_ops ?copy d = full"
    using exec_copy [OF assms(4), of off data off] by (simp add: full_def lc)
  show "exec_ops ops d = exec_op (RenameFile (name @ ''.rewrite'') name) (exec_op (LinkFile name c) full)"
    by (simp only: ops exec_ops_simps full)
  consider "k = 0" | j where "k = Suc j" "j \<le> off" | "k = off + 2" | "k \<ge> off + 3" by (cases k) force+
  then show "exec_ops (take k ops) d \<in> {d, exec_op (LinkFile name c) full,
      exec_op (RenameFile (name @ ''.rewrite'') name) (exec_op (LinkFile name c) full)}
      \<union> {with_copy d (name @ ''.rewrite'') x |x. True}"
  proof cases
    case 2
    then have "take k ops = take (Suc j) ?copy" by (simp add: ops lc)
    then show ?thesis using exec_copy [OF assms(4), of j data off] by auto
  next
    case 3
    then have "take k ops = ?copy @ [LinkFile name c]" by (simp add: ops lc)
    then show ?thesis by (simp only: exec_ops_simps full) simp
  next
    case 4
    then have "take k ops = ops" by (simp add: ops lc)
    then show ?thesis using \<open>exec_ops ops d = _\<close> by simp
  qed simp
qed

lemma recover_interrupted_one:
  assumes "exists_file d n" "\<forall>m. m \<noteq> n \<longrightarrow> suffix ''.wal.rewrite'' m \<longrightarrow> \<not> exists_file d m"
  shows "recover_interrupted cd d =
    (case recover_entry cd (read_dir d) n d of None \<Rightarrow> ([], False) | Some ops \<Rightarrow> (ops, True))"
  unfolding recover_interrupted_def using assms by (intro recover_entries_single) auto

lemma find_artifact_some:
  assumes "\<forall>e \<in> set es. exists_file d e"
  shows "find_artifact d live es = Some (\<exists>e \<in> set es. prefix (live @ ''.corrupt'') e \<and> same_file d live e)"
  using assms by (induction es) auto

text \<open>Two disks with the same links are alike in everything but the bytes.\<close>

lemma quiet_by_links:
  assumes "map_of (entries d') = map_of (entries d)" "length (inodes d) \<le> length (inodes d')" "disk_quiet d"
  shows "disk_quiet d'"
  using assms(2,3)
  by (auto simp: disk_quiet_def disk_wf_def no_rewrites_def exists_file_def unshared_def same_file_def assms(1))

lemma undo_copy:
  fixes x :: bytes
  assumes "disk_quiet d" "\<not> exists_file d n"
  defines "d' \<equiv> exec_op (RemoveFile n) (with_copy d n x)"
  shows "disk_quiet d'" "contents d' = contents d"
proof -
  have wf: "disk_wf d" using assms(1) by (simp add: disk_quiet_def)
  have n: "map_of (entries d) n = None" "contents d n = None"
    using assms(2) by (simp_all add: exists_file_def contents_def)
  then have m: "map_of (entries d') = map_of (entries d)"
    by (auto simp: d'_def delete_conv' fun_eq_iff)
  then show "disk_quiet d'" by (rule quiet_by_links) (simp_all add: d'_def with_copy_def assms(1))
  show "contents d' = contents d" using n by (auto simp: d'_def contents_with_copy [OF wf] fun_eq_iff simp del: exec_op.simps)
qed

lemma copy_not_prepared:
  assumes q: "disk_quiet d" and data: "contents d (segment_name s) = Some data"
  defines "tmp \<equiv> segment_name s @ ''.rewrite''"
  shows "recover_interrupted cd (with_copy d tmp x) = ([RemoveFile tmp], True)"
proof -
  let ?d = "with_copy d tmp x" let ?n = "segment_name s"
  note rf = rewrite_form [of s]
  have wf: "disk_wf d" and nr: "no_rewrites d" and un: "unshared d ?n" using q by (auto simp: disk_quiet_def)
  have E: "map_of (entries ?d) = (map_of (entries d))(tmp \<mapsto> length (inodes d))" by simp
  have C: "contents ?d = (contents d)(tmp \<mapsto> x)" by (rule contents_with_copy [OF wf])
  obtain i where i: "map_of (entries d) ?n = Some i" "i < length (inodes d)"
    using data disk_wfD [OF wf] by (auto simp: contents_def)
  have ne: "tmp \<noteq> ?n" using rf(3) [of s] by (simp add: tmp_def)
  have fa: "find_artifact ?d ?n (read_dir ?d) = Some False"
  proof -
    have "\<not> same_file ?d ?n e" if "prefix (?n @ ''.corrupt'') e" for e
    proof (cases "e = tmp")
      case True
      then show ?thesis using that rf(4) by (simp add: tmp_def)
    next
      case False
      moreover have "e \<noteq> ?n" using that by (auto simp: prefix_def)
      ultimately show ?thesis using un ne by (auto simp: same_file_def E unshared_def)
    qed
    then show ?thesis by (subst find_artifact_some) auto
  qed
  have "prepared_rewrite cd ?d ?n tmp (read_dir ?d) = Some False"
    using data ne by (simp add: prepared_rewrite_def C fa Let_def)
  moreover have "exists_file ?d ?n" "exists_file ?d tmp" using data ne by (simp_all add: exists_contents C)
  moreover have "\<forall>m. m \<noteq> tmp \<longrightarrow> suffix ''.wal.rewrite'' m \<longrightarrow> \<not> exists_file ?d m"
    using nr by (simp add: no_rewrites_def exists_contents C)
  ultimately show ?thesis
    using rf(1,2) recover_interrupted_one [of ?d tmp cd]
    by (simp add: recover_entry_def tmp_def)
qed

text \<open>The copy is complete and the original has its second name: the rewrite is published.\<close>

lemma linked_is_prepared:
  assumes q: "disk_quiet d" and data: "contents d (segment_name s) = Some data"
    and cut: "0 < off" "cut_point cd data off"
  defines "tmp \<equiv> segment_name s @ ''.rewrite''" and "c \<equiv> unique_corrupt_name d (segment_name s @ ''.corrupt'')"
  defines "linked \<equiv> exec_op (LinkFile (segment_name s) c) (with_copy d tmp (take off data))"
  defines "final \<equiv> exec_op (RenameFile tmp (segment_name s)) linked"
  shows "recover_interrupted cd linked = ([RenameFile tmp (segment_name s)], True)"
    and "contents final = (contents d)(c \<mapsto> data, segment_name s \<mapsto> take off data)"
    and "disk_quiet final"
proof -
  let ?n = "segment_name s" let ?L = "length (inodes d)"
  note rf = rewrite_form [of s] note cf = artifact_form [OF c_def [THEN meta_eq_to_obj_eq]]
  have wf: "disk_wf d" and nr: "no_rewrites d" and un: "\<And>t. unshared d (segment_name t)"
    using q by (auto simp: disk_quiet_def)
  obtain i where i: "map_of (entries d) ?n = Some i" "i < ?L" "inodes d ! i = data"
    using data disk_wfD [OF wf] by (auto simp: contents_def)
  have ne: "tmp \<noteq> ?n" "c \<noteq> tmp" "c \<noteq> ?n" using rf(3) [of s] cf(4,5) by (auto simp: tmp_def)
  have tmp0: "map_of (entries d) tmp = None" and c0: "map_of (entries d) c = None"
    using nr rf(1) cf(1) by (auto simp: no_rewrites_def exists_file_def tmp_def)
  have E: "map_of (entries linked) = (map_of (entries d))(tmp \<mapsto> ?L, c \<mapsto> i)"
    using i ne by (simp add: linked_def update_conv')
  have I: "inodes linked = inodes d @ [take off data]"
    using i ne by (simp add: linked_def with_copy_def update_conv')
  have ex: "exists_file (with_copy d tmp (take off data)) ?n"
    using data ne by (simp add: exists_contents contents_with_copy [OF wf])
  have C: "contents linked = (contents d)(tmp \<mapsto> take off data, c \<mapsto> data)"
    using ex data ne unfolding linked_def
    by (simp add: contents_link contents_with_copy [OF wf] del: exec_op.simps)
  have ns: "\<not> same_file linked tmp ?n" using i ne by (simp add: same_file_def E)
  have ext: "exists_file linked tmp" using ne by (simp add: exists_contents C)
  show fin: "contents final = (contents d)(c \<mapsto> data, ?n \<mapsto> take off data)"
    using ns ext ne tmp0 unfolding final_def
    by (auto simp: contents_rename C fun_eq_iff contents_def simp del: exec_op.simps)
  have Ef: "map_of (entries final) = (map_of (entries d))(c \<mapsto> i, ?n \<mapsto> ?L)"
    using i ne tmp0 by (auto simp: final_def E update_conv' delete_conv' fun_eq_iff)
  have If: "inodes final = inodes d @ [take off data]" using i ne by (simp add: final_def E I)
  show "disk_quiet final"
  proof -
    have "disk_wf final" using wf i by (auto simp: disk_wf_def Ef If ran_def less_SucI)
    moreover have "no_rewrites final"
      using nr cf(2) rf(5) by (auto simp: no_rewrites_def exists_file_def Ef)
    moreover have "unshared final (segment_name t)" for t
    proof (cases "t = s")
      case True
      have "Some ?L \<noteq> map_of (entries d) m" for m using disk_wfD [OF wf, of m ?L] by auto
      then show ?thesis using i ne True by (simp add: unshared_def same_file_def Ef)
    next
      case False
      then have "segment_name t \<noteq> ?n" "c \<noteq> segment_name t" using cf(4) by (auto simp: segment_name_inj)
      moreover have "map_of (entries d) (segment_name t) \<noteq> Some ?L" using disk_wfD [OF wf, of "segment_name t" ?L] by auto
      moreover have "map_of (entries d) (segment_name t) \<noteq> Some i"
        using unshared_distinct [OF un \<open>segment_name t \<noteq> ?n\<close> [symmetric]] i(1) by simp
      ultimately show ?thesis using un [of t] by (auto simp: unshared_def same_file_def Ef)
    qed
    ultimately show ?thesis by (simp add: disk_quiet_def)
  qed
  have off: "off < length data" "\<not> corrupt (fst (scan_segment cd (take off data)))"
    "record_count (fst (scan_segment cd (take off data))) \<noteq> 0" using cut by (auto simp: cut_point_def)
  have "same_file linked ?n c" "c \<in> set (read_dir linked)"
    using i ne by (simp_all add: same_file_def E exists_contents C)
  then have fa: "find_artifact linked ?n (read_dir linked) = Some True"
    using cf(3) by (subst find_artifact_some) auto
  have "prepared_rewrite cd linked ?n tmp (read_dir linked) = Some True"
    using data ne off cut(1) fa by (simp add: prepared_rewrite_def C Let_def file_prefix_equal_eq)
  moreover have "exists_file linked ?n" using data ne by (simp add: exists_contents C)
  moreover have "\<forall>m. m \<noteq> tmp \<longrightarrow> suffix ''.wal.rewrite'' m \<longrightarrow> \<not> exists_file linked m"
    using nr cf(2) by (auto simp: no_rewrites_def exists_contents C)
  ultimately show "recover_interrupted cd linked = ([RenameFile tmp ?n], True)"
    using rf(1,2) ext recover_interrupted_one [of linked tmp cd] by (simp add: recover_entry_def tmp_def Let_def)
qed

text \<open>
  Whatever prefix of the quarantine's calls took effect, the recovery of the next start completes it or
  undoes it: the files are those before the quarantine or those after it, never in between.
\<close>

lemma quarantine_cut_recovers:
  assumes q: "disk_quiet d" and data: "contents d (segment_name s) = Some data"
    and cut: "0 < off" "cut_point cd data off"
  defines "ops \<equiv> quarantine_tail d (segment_name s) off"
  shows "\<exists>rec. recover_interrupted cd (exec_ops (take k ops) d) = (rec, True)
    \<and> disk_quiet (exec_ops rec (exec_ops (take k ops) d))
    \<and> contents (exec_ops rec (exec_ops (take k ops) d)) \<in> {contents d, contents (exec_ops ops d)}"
proof -
  let ?n = "segment_name s"
  define tmp where "tmp = segment_name s @ ''.rewrite''"
  define c where "c = unique_corrupt_name d (?n @ ''.corrupt'')"
  define linked where "linked = exec_op (LinkFile ?n c) (with_copy d tmp (take off data))"
  define final where "final = exec_op (RenameFile tmp ?n) linked"
  have nr: "no_rewrites d" using q by (auto simp: disk_quiet_def)
  have off: "off < length data" using cut by (auto simp: cut_point_def)
  have ntmp: "\<not> exists_file d tmp" using nr rewrite_form(1) by (simp add: no_rewrites_def tmp_def)
  note fin = linked_is_prepared [OF q data cut, folded tmp_def c_def, folded linked_def, folded final_def]
  note st = take_quarantine [OF data cut(1) off ntmp [unfolded tmp_def], folded tmp_def c_def ops_def, folded linked_def, folded final_def]
  have "exec_ops (take k ops) d \<in> {d, linked, final} \<union> {with_copy d tmp x |x. True}" using st(1) .
  then consider "exec_ops (take k ops) d = d" | "exec_ops (take k ops) d = linked" | "exec_ops (take k ops) d = final"
    | x where "exec_ops (take k ops) d = with_copy d tmp x" by auto
  then show ?thesis
  proof cases
    case 1
    then show ?thesis using q recover_interrupted_tidy [OF nr] by simp
  next
    case 2
    then show ?thesis using fin st(2) by (simp add: final_def [symmetric] del: exec_op.simps)
  next
    case 3
    then show ?thesis using fin(3) st(2) recover_interrupted_tidy [of final cd] by (simp add: disk_quiet_def)
  next
    case 4
    then show ?thesis using copy_not_prepared [OF q data, of cd x] undo_copy [OF q ntmp, of x]
      by (simp add: tmp_def del: exec_op.simps)
  qed
qed

lemma disk_wf_exec: "disk_wf d \<Longrightarrow> disk_wf (exec_op (RenameFile a b) d)"
  by (auto simp: disk_wf_def ran_def update_conv' delete_conv' split: option.splits if_splits)

text \<open>A segment moved aside whole.\<close>

lemma quarantine_whole:
  assumes q: "disk_quiet d" and data: "contents d (segment_name s) = Some data"
  defines "c \<equiv> unique_corrupt_name d (segment_name s @ ''.corrupt'')"
  shows "quarantine_tail d (segment_name s) 0 = [RenameFile (segment_name s) c]"
    and "contents (exec_op (RenameFile (segment_name s) c) d) = (contents d)(segment_name s := None, c \<mapsto> data)"
    and "disk_quiet (exec_op (RenameFile (segment_name s) c) d)"
proof -
  let ?n = "segment_name s"
  note cf = artifact_form [OF c_def [THEN meta_eq_to_obj_eq]]
  show "quarantine_tail d ?n 0 = [RenameFile ?n c]" by (simp add: quarantine_tail_def c_def)
  obtain i where i: "map_of (entries d) ?n = Some i" using data by (auto simp: contents_def)
  have c0: "map_of (entries d) c = None" using cf(1) by (simp add: exists_file_def)
  then have "\<not> same_file d ?n c" by (simp add: same_file_def i)
  moreover have "exists_file d ?n" using i by (simp add: exists_file_def)
  ultimately show "contents (exec_op (RenameFile ?n c) d) = (contents d)(?n := None, c \<mapsto> data)"
    using data by (simp add: contents_rename del: exec_op.simps)
  have E: "map_of (entries (exec_op (RenameFile ?n c) d)) = (map_of (entries d))(?n := None, c \<mapsto> i)"
    using i c0 by (auto simp: update_conv' delete_conv')
  have "disk_wf (exec_op (RenameFile ?n c) d)" using q by (simp add: disk_quiet_def disk_wf_exec del: exec_op.simps)
  moreover have "no_rewrites (exec_op (RenameFile ?n c) d)"
    using q cf(2) by (auto simp: disk_quiet_def no_rewrites_def exists_file_def E simp del: exec_op.simps)
  moreover have "unshared (exec_op (RenameFile ?n c) d) (segment_name t)" for t
  proof (cases "t = s")
    case True
    then show ?thesis using cf(4) [of s] by (simp add: unshared_def same_file_def E del: exec_op.simps)
  next
    case False
    then have ne: "segment_name t \<noteq> ?n" "c \<noteq> segment_name t" using cf(4) by (auto simp: segment_name_inj)
    moreover have "Some i \<noteq> map_of (entries d) (segment_name t)"
      using unshared_distinct [of d "segment_name t" ?n i] q i ne by (auto simp: disk_quiet_def)
    ultimately show ?thesis using q
      by (auto simp: disk_quiet_def unshared_def same_file_def E simp del: exec_op.simps)
  qed
  ultimately show "disk_quiet (exec_op (RenameFile ?n c) d)" by (simp add: disk_quiet_def)
qed

lemma quarantine_recovers:
  assumes q: "disk_quiet d" and data: "contents d (segment_name s) = Some data" and cut: "cut_point cd data off"
  defines "ops \<equiv> quarantine_tail d (segment_name s) off"
  shows "\<exists>rec. recover_interrupted cd (exec_ops (take k ops) d) = (rec, True)
    \<and> disk_quiet (exec_ops rec (exec_ops (take k ops) d))
    \<and> contents (exec_ops rec (exec_ops (take k ops) d)) \<in> {contents d, contents (exec_ops ops d)}"
proof (cases "off = 0")
  case True
  note w = quarantine_whole [OF q data]
  have nr: "recover_interrupted cd x = ([], True)" if "disk_quiet x" for x
    using that by (simp add: disk_quiet_def recover_interrupted_tidy)
  have "exec_ops (take k ops) d = d \<or> exec_ops (take k ops) d = exec_ops ops d"
    unfolding ops_def True w(1) by (cases k) simp_all
  moreover have "disk_quiet (exec_ops ops d)" using w(3) by (simp add: ops_def True w(1) del: exec_op.simps)
  ultimately show ?thesis using nr q by auto
next
  case False
  then show ?thesis unfolding ops_def using quarantine_cut_recovers [OF q data _ cut] by simp
qed

text \<open>What a completed quarantine leaves: the prefix under the live name, the whole file under a fresh one.\<close>

lemma quarantine_result:
  assumes q: "disk_quiet d" and data: "contents d (segment_name s) = Some data" and cut: "cut_point cd data off"
  defines "d' \<equiv> exec_ops (quarantine_tail d (segment_name s) off) d"
  shows "contents d' = (contents d)(unique_corrupt_name d (segment_name s @ ''.corrupt'') \<mapsto> data,
      segment_name s := (if off = 0 then None else Some (take off data)))"
    and "disk_quiet d'"
proof -
  have ne: "unique_corrupt_name d (segment_name s @ ''.corrupt'') \<noteq> segment_name s" using artifact_form(4) by blast
  have ntmp: "\<not> exists_file d (segment_name s @ ''.rewrite'')"
    using q rewrite_form(1) by (simp add: disk_quiet_def no_rewrites_def)
  note w = quarantine_whole [OF q data] note f = linked_is_prepared(2,3) [OF q data _ cut]
  note t = take_quarantine(2) [OF data _ _ ntmp]
  show "contents d' = (contents d)(unique_corrupt_name d (segment_name s @ ''.corrupt'') \<mapsto> data,
      segment_name s := (if off = 0 then None else Some (take off data)))"
    using w(1,2) f(1) t cut ne
    by (cases "off = 0") (auto simp: d'_def cut_point_def fun_upd_twist simp del: exec_op.simps)
  show "disk_quiet d'" using w(1,3) f(2) t cut
    by (cases "off = 0") (auto simp: d'_def cut_point_def simp del: exec_op.simps)
qed

end
