(* ===== verification/Wal_Recovery.thy ===== *)
theory Wal_Recovery
  imports Wal_Quarantine
begin

text \<open>
  Starting the queue: \<open>openQueue\<close>, \<open>recover\<close> and what they call in \<open>internal/collector/wal/queue.go\<close>,
  \<open>recoverRepacks\<close> of \<open>repack.go\<close>, \<open>listSegments\<close> of \<open>segment.go\<close> and \<open>HasPendingRecords\<close> of \<open>inspect.go\<close>.

  The recovery is a function of the directory; the changes it makes to it are logged in \<open>rv_log\<close>.  A
  crash, or a call that fails and so ends the start, leaves the directory after some prefix of the log.
  Not modelled: the warning text, the creation and the permissions of the directory, the sync loop's start.
\<close>

section \<open>Validating a record\<close>

datatype barrier_reason =
    ZeroSequence | NameMismatch | NotIncreasing | NotUuidV4 | DuplicateId u64 | DigestMismatch | SizeMismatch | InvalidCreatedAt

text \<open>What the scan carries from record to record: \<open>lastSequence\<close>, \<open>batchIDs\<close> and \<open>maxSeq\<close>.\<close>

record scan_marks =
  last_sequence :: u64
  batch_ids :: "(string \<times> u64) list"
  maximum_sequence :: u64

definition validate_recovered_record ::
  "codec \<Rightarrow> u64 \<Rightarrow> nat \<Rightarrow> event_batch \<Rightarrow> scan_marks \<Rightarrow> barrier_reason + scan_marks" where
  "validate_recovered_record cd first_sequence index batch m =
     (let sequence = batch_sequence batch; bid = batch_id batch in
      if sequence = 0 then Inl ZeroSequence
      else if index = 0 \<and> sequence \<noteq> first_sequence then Inl NameMismatch
      else if sequence \<le> last_sequence m then Inl NotIncreasing
      else if \<not> is_uuid_v4 cd bid then Inl NotUuidV4
      else case map_of (batch_ids m) bid of Some previous \<Rightarrow> Inl (DuplicateId previous) | None \<Rightarrow>
        (if event_ids_sha256 batch \<noteq> case_option [] id (compute_event_ids_digest (batch_events batch)) then Inl DigestMismatch
         else if uncompressed_size_bytes batch \<noteq> uncompressed_event_bytes cd (batch_events batch) then Inl SizeMismatch
         else case batch_created_at batch of None \<Rightarrow> Inl InvalidCreatedAt | Some t \<Rightarrow>
           (if \<not> timestamp_valid cd t then Inl InvalidCreatedAt
            else Inr (m\<lparr>last_sequence := sequence, batch_ids := (bid, sequence) # batch_ids m\<rparr>))))"

definition validate_recovered_ownership :: "wal_options \<Rightarrow> event_batch \<Rightarrow> wal_error option" where
  "validate_recovered_ownership opts batch =
     (if collector_id batch \<noteq> opt_collector_id opts then Some ErrRecovery else None)"

definition raise_maximum :: "u64 \<Rightarrow> scan_marks \<Rightarrow> scan_marks" where
  "raise_maximum s m = (if s > maximum_sequence m then m\<lparr>maximum_sequence := s\<rparr> else m)"

text \<open>\<open>observeAllocatedSequenceFloor\<close>; \<open>None\<close> is an error.\<close>

definition minimum_record_bytes :: u64 where "minimum_record_bytes = 9"

definition observe_allocated_sequence_floor :: "u64 \<Rightarrow> scan_result \<Rightarrow> scan_marks \<Rightarrow> scan_marks option" where
  "observe_allocated_sequence_floor first_sequence res m =
     (let additional =
        (if corrupt res then
           (if file_size res \<le> bad_offset res then None
            else let tail = of_nat (file_size res - bad_offset res) :: u64;
                     allocations = tail div minimum_record_bytes + (if tail mod minimum_record_bytes \<noteq> 0 then 1 else 0)
                 in if record_count res > 0xFFFFFFFFFFFFFFFF - allocations then None
                    else Some (record_count res + allocations - 1))
         else if record_count res > 0 then Some (record_count res - 1)
         else Some 0)
      in case additional of None \<Rightarrow> None | Some a \<Rightarrow>
        (if a > 0xFFFFFFFFFFFFFFFF - first_sequence then None
         else Some (raise_maximum (first_sequence + a) m)))"

section \<open>Scanning one segment\<close>

record segment_scan =
  sc_marks :: scan_marks
  sc_index :: nat
  sc_barrier :: "(nat \<times> barrier_reason) option"
  sc_valid :: u64
  sc_last :: u64
  sc_descs :: "batch_desc list"

definition recovered_desc :: "string \<Rightarrow> scanned_record \<Rightarrow> batch_desc" where
  "recovered_desc name r =
     (let batch = record_batch r; sequence = batch_sequence batch in
      \<lparr>desc_repacked = None, desc_seq = sequence, desc_seg = name, desc_off = payload_off r, desc_len = payload_len r,
       desc_crc = record_crc r, desc_events = of_nat (length (batch_events batch)), desc_size = 8 + of_nat (unat (payload_len r)),
       desc_created = case_option 0 id (batch_created_at batch),
       desc_marks = checkpoint_marks_for_batch sequence (batch_events batch)\<rparr>)"

text \<open>The visitor of \<open>scanRecoverableSegment\<close>.\<close>

definition visit_recoverable ::
  "codec \<Rightarrow> wal_options \<Rightarrow> u64 \<Rightarrow> string \<Rightarrow> u64 \<Rightarrow> scanned_record \<Rightarrow> segment_scan \<Rightarrow> wal_error + segment_scan" where
  "visit_recoverable cd opts acked name first_sequence r sc =
     (let index = sc_index sc; sc1 = sc\<lparr>sc_index := index + 1\<rparr>; batch = record_batch r; sequence = batch_sequence batch in
      case validate_recovered_ownership opts batch of Some e \<Rightarrow> Inl e | None \<Rightarrow>
        (if sc_barrier sc \<noteq> None then Inr sc1
         else case validate_recovered_record cd first_sequence index batch (sc_marks sc) of
             Inl reason \<Rightarrow> Inr (sc1\<lparr>sc_barrier := Some (payload_off r - record_header_size, reason)\<rparr>)
           | Inr m \<Rightarrow>
               Inr (sc1\<lparr>sc_marks := raise_maximum sequence m, sc_valid := sc_valid sc + 1, sc_last := sequence,
                        sc_descs := sc_descs sc @ (if sequence \<le> acked then [] else [recovered_desc name r])\<rparr>)))"

definition start_scan :: "scan_marks \<Rightarrow> segment_scan" where
  "start_scan m = \<lparr>sc_marks = m, sc_index = 0, sc_barrier = None, sc_valid = 0, sc_last = 0, sc_descs = []\<rparr>"

definition scan_recoverable_segment ::
  "codec \<Rightarrow> wal_options \<Rightarrow> u64 \<Rightarrow> string \<Rightarrow> bytes \<Rightarrow> scan_marks \<Rightarrow> wal_error + scan_result \<times> segment_scan" where
  "scan_recoverable_segment cd opts acked name data m =
     (let first_sequence = the (parse_segment_name name) in
      case walk_segment cd (visit_recoverable cd opts acked name first_sequence) data (start_scan m) of
        Inl e \<Rightarrow> Inl e
      | Inr (res, sc) \<Rightarrow>
          (case observe_allocated_sequence_floor first_sequence res (sc_marks sc) of
             None \<Rightarrow> Inl ErrRecovery
           | Some m' \<Rightarrow>
               Inr (case sc_barrier sc of
                      None \<Rightarrow> res
                    | Some (off, _) \<Rightarrow> res\<lparr>bad_offset := off, corrupt := True\<rparr>, sc\<lparr>sc_marks := m'\<rparr>)))"

text \<open>\<open>observeSegmentRecords\<close>: the visitor's state is the marks, the index and whether a barrier was met.\<close>

definition visit_observed ::
  "codec \<Rightarrow> wal_options \<Rightarrow> u64 \<Rightarrow> scanned_record \<Rightarrow> scan_marks \<times> nat \<times> bool \<Rightarrow> wal_error + scan_marks \<times> nat \<times> bool" where
  "visit_observed cd opts first_sequence r st =
     (let (m, index, barrier) = st; batch = record_batch r in
      case validate_recovered_ownership opts batch of Some e \<Rightarrow> Inl e | None \<Rightarrow>
        (if barrier then Inr (m, index + 1, True)
         else case validate_recovered_record cd first_sequence index batch m of
             Inl reason \<Rightarrow> Inr (m, index + 1, True)
           | Inr m' \<Rightarrow> Inr (raise_maximum (batch_sequence batch) m', index + 1, False)))"

definition observe_segment_records ::
  "codec \<Rightarrow> wal_options \<Rightarrow> string \<Rightarrow> bytes \<Rightarrow> scan_marks \<Rightarrow> wal_error + scan_marks" where
  "observe_segment_records cd opts name data m =
     (let first_sequence = the (parse_segment_name name) in
      case walk_segment cd (visit_observed cd opts first_sequence) data (m, 0, False) of
        Inl e \<Rightarrow> Inl e
      | Inr (res, m', _) \<Rightarrow>
          (case observe_allocated_sequence_floor first_sequence res m' of None \<Rightarrow> Inl ErrRecovery | Some m'' \<Rightarrow> Inr m''))"

section \<open>Recovering the segments\<close>

record recovery =
  rv_disk :: disk
  rv_log :: "disk_op list"
  rv_queue :: queue

definition perform :: "disk_op list \<Rightarrow> recovery \<Rightarrow> recovery" where
  "perform ops rv = rv\<lparr>rv_disk := exec_ops ops (rv_disk rv), rv_log := rv_log rv @ ops\<rparr>"

definition list_segments :: "disk \<Rightarrow> string list" where
  "list_segments d =
     sort_key (\<lambda>n. the (parse_segment_name n)) (filter (\<lambda>n. parse_segment_name n \<noteq> None) (read_dir d))"

text \<open>\<open>persistMetaLocked\<close> during a start.\<close>

definition persist_recovered_meta :: "recovery \<Rightarrow> recovery" where
  "persist_recovered_meta rv =
     (let m = current_meta (rv_queue rv) in (perform [PutMeta m] rv)\<lparr>rv_queue := (rv_queue rv)\<lparr>meta := m\<rparr>\<rparr>)"

definition persist_recovered_sequence_floor :: "u64 \<Rightarrow> recovery \<Rightarrow> recovery \<times> wal_error option" where
  "persist_recovered_sequence_floor max_seq rv =
     (if max_seq = 0xFFFFFFFFFFFFFFFF then (rv, Some ErrRecovery)
      else if max_seq + 1 > next_seq (rv_queue rv)
      then (persist_recovered_meta (rv\<lparr>rv_queue := (rv_queue rv)\<lparr>next_seq := max_seq + 1\<rparr>\<rparr>), None)
      else (rv, None))"

text \<open>The successors of a corrupt segment: first looked at, all of them, then moved aside, all of them.\<close>

fun observe_successors :: "codec \<Rightarrow> wal_options \<Rightarrow> disk \<Rightarrow> string list \<Rightarrow> scan_marks \<Rightarrow> wal_error + scan_marks" where
  "observe_successors cd opts d [] m = Inr m"
| "observe_successors cd opts d (n # ns) m =
     (case contents d n of None \<Rightarrow> Inl ErrIO | Some data \<Rightarrow>
       (case observe_segment_records cd opts n data (raise_maximum (the (parse_segment_name n)) m) of
          Inl e \<Rightarrow> Inl e
        | Inr m' \<Rightarrow> observe_successors cd opts d ns m'))"

definition quarantine_segment :: "string \<Rightarrow> nat \<Rightarrow> recovery \<Rightarrow> recovery" where
  "quarantine_segment name off rv =
     (let rv1 = perform (quarantine_tail (rv_disk rv) name off) rv
      in rv1\<lparr>rv_queue := (rv_queue rv1)\<lparr>quarantined := quarantined (rv_queue rv1) + 1\<rparr>\<rparr>)"

fun quarantine_successors :: "string list \<Rightarrow> recovery \<Rightarrow> recovery" where
  "quarantine_successors [] rv = rv"
| "quarantine_successors (n # ns) rv = quarantine_successors ns (quarantine_segment n 0 rv)"

text \<open>A segment with valid records is listed, and its unacknowledged records are queued.\<close>

definition track_segment :: "string \<Rightarrow> segment_scan \<Rightarrow> recovery \<Rightarrow> recovery" where
  "track_segment name sc rv =
     (let q = rv_queue rv; ds = sc_descs sc in
      rv\<lparr>rv_queue := q\<lparr>
        unacked := unacked q @ ds,
        live_bytes := live_bytes q + sum_list (map desc_size ds),
        queued_events := queued_events q + sum_list (map desc_events ds),
        segments := segments q @ [\<lparr>seg_name = name, seg_first = the (parse_segment_name name), seg_last = sc_last sc,
            seg_sealed = True, seg_size = of_nat (length (the (contents (rv_disk rv) name)))\<rparr>]\<rparr>\<rparr>)"

fun recover_segments ::
  "codec \<Rightarrow> wal_options \<Rightarrow> string list \<Rightarrow> scan_marks \<Rightarrow> recovery \<Rightarrow> recovery \<times> (wal_error + scan_marks)" where
  "recover_segments cd opts [] m rv = (rv, Inr m)"
| "recover_segments cd opts (name # rest) m rv =
     (case contents (rv_disk rv) name of None \<Rightarrow> (rv, Inl ErrIO) | Some data \<Rightarrow>
       (case scan_recoverable_segment cd opts (last_acked (rv_queue rv)) name data
               (raise_maximum (the (parse_segment_name name)) m) of
          Inl e \<Rightarrow> (rv, Inl e)
        | Inr (res, sc) \<Rightarrow>
            (if corrupt res then
               (case observe_successors cd opts (rv_disk rv) rest (sc_marks sc) of
                  Inl e \<Rightarrow> (rv, Inl e)
                | Inr m' \<Rightarrow>
                    (case persist_recovered_sequence_floor (maximum_sequence m') rv of
                       (rv1, Some e) \<Rightarrow> (rv1, Inl e)
                     | (rv1, None) \<Rightarrow>
                         (let rv2 = quarantine_segment name (bad_offset res) (quarantine_successors rest rv1)
                          in (if sc_valid sc = 0 then rv2 else track_segment name sc rv2, Inr m'))))
             else if sc_valid sc = 0 then recover_segments cd opts rest (sc_marks sc) rv
             else recover_segments cd opts rest (sc_marks sc) (track_segment name sc rv))))"

definition recover_queue :: "codec \<Rightarrow> wal_options \<Rightarrow> recovery \<Rightarrow> recovery \<times> wal_error option" where
  "recover_queue cd opts rv =
     (case recover_segments cd opts (list_segments (rv_disk rv))
             \<lparr>last_sequence = 0, batch_ids = [], maximum_sequence = 0\<rparr> rv of
        (rv1, Inl e) \<Rightarrow> (rv1, Some e)
      | (rv1, Inr m) \<Rightarrow> persist_recovered_sequence_floor (maximum_sequence m) rv1)"

section \<open>Starting the queue\<close>

text \<open>The files of the directory as the running queue sees them.\<close>

definition live_files :: "disk \<Rightarrow> (string \<times> bytes) list" where
  "live_files d = map (\<lambda>n. (n, the (contents d n))) (read_dir d)"

text \<open>\<open>strings.Contains\<close>.\<close>

fun contains :: "string \<Rightarrow> string \<Rightarrow> bool" where
  "contains sub [] \<longleftrightarrow> sub = []"
| "contains sub (c # cs) \<longleftrightarrow> prefix sub (c # cs) \<or> contains sub cs"

definition artifact_stats :: "(string \<times> bytes) list \<Rightarrow> u64 \<times> u64" where
  "artifact_stats fs =
     (let as = filter (\<lambda>(n, _). parse_segment_name n = None \<and> contains ''.wal.corrupt'' n) fs
      in (sum_list (map (\<lambda>(_, b). of_nat (length b)) as), of_nat (length as)))"

text \<open>\<open>readRepackPlan\<close>: \<open>None\<close> covers an unreadable file, a checksum mismatch and a plan that fails its checks.\<close>

definition read_repack_plan :: "disk \<Rightarrow> u64 \<Rightarrow> repack_plan option" where
  "read_repack_plan d k =
     (case map_of (manifest_files d) k of
        Some (Some plan) \<Rightarrow> if valid_manifest k plan then Some plan else None
      | _ \<Rightarrow> None)"

text \<open>The inventory of the metadata: every pending plan must be there and end where the metadata says.\<close>

fun check_inventory :: "disk \<Rightarrow> u64 \<Rightarrow> repack_reference list \<Rightarrow> bool" where
  "check_inventory d acked [] = True"
| "check_inventory d acked (ref # refs) =
     (if ref_through ref \<le> acked then check_inventory d acked refs
      else case read_repack_plan d (ref_parent ref) of
          None \<Rightarrow> False
        | Some plan \<Rightarrow> if plan_through plan \<noteq> ref_through ref then False else check_inventory d acked refs)"

fun install_manifests :: "codec \<Rightarrow> wal_options \<Rightarrow> u64 list \<Rightarrow> recovery \<Rightarrow> recovery \<times> wal_error option" where
  "install_manifests cd opts [] rv = (rv, None)"
| "install_manifests cd opts (k # ks) rv =
     (case read_repack_plan (rv_disk rv) k of None \<Rightarrow> (rv, Some ErrRecovery) | Some plan \<Rightarrow>
       (if plan_through plan \<le> last_acked (rv_queue rv)
        then install_manifests cd opts ks
               ((perform [RemoveManifest k] rv)\<lparr>rv_queue := (rv_queue rv)\<lparr>manifests := AList.delete k (manifests (rv_queue rv))\<rparr>\<rparr>)
        else case install_repack_plan cd opts plan (rv_queue rv) of
            (q, Some e) \<Rightarrow> (rv\<lparr>rv_queue := q\<rparr>, Some e)
          | (q, None) \<Rightarrow> install_manifests cd opts ks (rv\<lparr>rv_queue := q\<rparr>)))"

definition recover_repacks :: "codec \<Rightarrow> wal_options \<Rightarrow> recovery \<Rightarrow> recovery \<times> wal_error option" where
  "recover_repacks cd opts rv =
     (let initial_next = next_seq (rv_queue rv) in
      case install_manifests cd opts (sort (remdups (map fst (manifest_files (rv_disk rv))))) rv of
        (rv1, Some e) \<Rightarrow> (rv1, Some e)
      | (rv1, None) \<Rightarrow>
          (let rv2 = rv1\<lparr>rv_queue := (rv_queue rv1)\<lparr>unacked := sort_key desc_seq (unacked (rv_queue rv1))\<rparr>\<rparr>
           in (if next_seq (rv_queue rv2) \<noteq> initial_next \<or> repacks (rv_queue rv2) \<noteq> []
               then persist_recovered_meta rv2 else rv2, None)))"

definition initial_meta :: wal_meta where
  "initial_meta = \<lparr>meta_format = 2, meta_next = 1, meta_acked = 0, meta_refs = []\<rparr>"

text \<open>The queue before the scan, and the disk after \<open>readMeta\<close> or the first \<open>writeMeta\<close>.\<close>

definition start_recovery :: "disk \<Rightarrow> disk_op list \<Rightarrow> io_result list \<Rightarrow> recovery \<times> wal_error option" where
  "start_recovery d ops io =
     (let rv = \<lparr>rv_disk = exec_ops ops d, rv_log = ops, rv_queue = fresh_queue io\<rparr> in
      case meta_file (rv_disk rv) of
        None \<Rightarrow> (perform [PutMeta initial_meta] rv, None)
      | Some m \<Rightarrow>
          (if \<not> valid_meta m then (rv, Some ErrRecovery)
           else if \<not> check_inventory (rv_disk rv) (meta_acked m) (meta_refs m) then (rv, Some ErrRecovery)
           else (rv\<lparr>rv_queue := (rv_queue rv)\<lparr>next_seq := meta_next m, last_acked := meta_acked m, meta := m\<rparr>\<rparr>, None)))"

definition attach_files :: "recovery \<Rightarrow> recovery" where
  "attach_files rv = rv\<lparr>rv_queue := (rv_queue rv)\<lparr>files := live_files (rv_disk rv),
     manifests := List.map_filter (\<lambda>(k, p). map_option (\<lambda>plan. (k, plan)) p) (manifest_files (rv_disk rv))\<rparr>\<rparr>"

definition open_queue :: "codec \<Rightarrow> wal_options \<Rightarrow> io_result list \<Rightarrow> disk \<Rightarrow> recovery \<times> wal_error option" where
  "open_queue cd opts io d =
     (case recover_interrupted cd d of
        (ops, False) \<Rightarrow> (\<lparr>rv_disk = exec_ops ops d, rv_log = ops, rv_queue = fresh_queue io\<rparr>, Some ErrRecovery)
      | (ops, True) \<Rightarrow>
          (case start_recovery d ops io of (rv0, Some e) \<Rightarrow> (rv0, Some e) | (rv0, None) \<Rightarrow>
            (case recover_queue cd opts rv0 of (rv1, Some e) \<Rightarrow> (rv1, Some e) | (rv1, None) \<Rightarrow>
              (case recover_repacks cd opts (attach_files rv1) of (rv2, Some e) \<Rightarrow> (rv2, Some e) | (rv2, None) \<Rightarrow>
                (let env = \<lparr>env_now = 0, env_uuid = [], env_scan = Some (artifact_stats (files (rv_queue rv2)))\<rparr>;
                     q = fst (refresh_storage_stats env (rv_queue rv2))
                 in case reclaim q of (q', e) \<Rightarrow> (rv2\<lparr>rv_queue := q'\<rparr>, e))))))"

text \<open>\<open>HasPendingRecords\<close>.\<close>

fun pending_in_segments :: "codec \<Rightarrow> disk \<Rightarrow> u64 \<Rightarrow> string list \<Rightarrow> bool \<Rightarrow> wal_error + bool" where
  "pending_in_segments cd d acked [] found = Inr found"
| "pending_in_segments cd d acked (n # ns) found =
     (case contents d n of None \<Rightarrow> Inl ErrIO | Some data \<Rightarrow>
       (case walk_segment cd (\<lambda>r p. Inr (p \<or> batch_sequence (record_batch r) > acked)) data found of
          Inl e \<Rightarrow> Inl e
        | Inr (res, found') \<Rightarrow>
            if corrupt res then Inl ErrCorruptSegment else pending_in_segments cd d acked ns found'))"

definition has_pending_records :: "codec \<Rightarrow> disk \<Rightarrow> wal_error + bool" where
  "has_pending_records cd d =
     (case meta_file d of
        None \<Rightarrow> Inl ErrRecovery
      | Some m \<Rightarrow>
          (if \<not> valid_meta m then Inl ErrRecovery
           else if list_ex (\<lambda>ref. ref_through ref > meta_acked m) (meta_refs m) then Inr True
           else pending_in_segments cd d (meta_acked m) (list_segments d) False))"



section \<open>What the scan of a segment keeps\<close>

lemma visit_all_append:
  "visit_all v (as @ bs) st = (case visit_all v as st of Inl e \<Rightarrow> Inl e | Inr st' \<Rightarrow> visit_all v bs st')"
  by (induction as arbitrary: st) (simp_all split: sum.split)

text \<open>A record that passes, and the scan behind a barrier.\<close>

lemma visit_recoverable_Inr:
  assumes "visit_recoverable cd opts acked name fs r sc = Inr sc'"
  shows "collector_id (record_batch r) = opt_collector_id opts"
  using assms by (auto simp: visit_recoverable_def validate_recovered_ownership_def Let_def split: if_splits)

lemma visit_behind_barrier:
  assumes "visit_all (visit_recoverable cd opts acked name fs) rs sc = Inr sc'" "sc_barrier sc \<noteq> None"
  shows "sc_barrier sc' = sc_barrier sc \<and> sc_marks sc' = sc_marks sc \<and> sc_valid sc' = sc_valid sc
    \<and> sc_last sc' = sc_last sc \<and> sc_descs sc' = sc_descs sc"
  using assms
proof (induction rs arbitrary: sc)
  case (Cons r rs)
  obtain sc1 where s: "visit_recoverable cd opts acked name fs r sc = Inr sc1"
    "visit_all (visit_recoverable cd opts acked name fs) rs sc1 = Inr sc'" using Cons.prems by (auto split: sum.splits)
  then have "sc1 = sc\<lparr>sc_index := sc_index sc + 1\<rparr>"
    using Cons.prems(2) by (auto simp: visit_recoverable_def Let_def split: option.splits)
  then show ?case using Cons.IH [OF s(2)] Cons.prems(2) by simp
qed simp

lemma visit_recoverable_cases:
  assumes "visit_all (visit_recoverable cd opts acked name fs) rs sc = Inr sc'" "sc_barrier sc = None"
  shows "\<exists>as bs sc1. rs = as @ bs \<and> visit_all (visit_recoverable cd opts acked name fs) as sc = Inr sc1 \<and> sc_barrier sc1 = None
    \<and> sc_marks sc' = sc_marks sc1 \<and> sc_valid sc' = sc_valid sc1 \<and> sc_last sc' = sc_last sc1 \<and> sc_descs sc' = sc_descs sc1
    \<and> (case sc_barrier sc' of None \<Rightarrow> bs = [] | Some (off, _) \<Rightarrow> bs \<noteq> [] \<and> off = payload_off (hd bs) - 8)"
  using assms
proof (induction rs arbitrary: sc)
  case (Cons r rs)
  let ?V = "visit_recoverable cd opts acked name fs"
  obtain sc1 where s: "?V r sc = Inr sc1" "visit_all ?V rs sc1 = Inr sc'" using Cons.prems by (auto split: sum.splits)
  show ?case
  proof (cases "sc_barrier sc1")
    case None
    obtain as bs sc2 where "rs = as @ bs" "visit_all ?V as sc1 = Inr sc2" "sc_barrier sc2 = None"
      "sc_marks sc' = sc_marks sc2 \<and> sc_valid sc' = sc_valid sc2 \<and> sc_last sc' = sc_last sc2 \<and> sc_descs sc' = sc_descs sc2"
      "case sc_barrier sc' of None \<Rightarrow> bs = [] | Some (off, _) \<Rightarrow> bs \<noteq> [] \<and> off = payload_off (hd bs) - 8"
      using Cons.IH [OF s(2) None] by blast
    then show ?thesis using s(1) by (intro exI [of _ "r # as"] exI [of _ bs] exI [of _ sc2]) simp
  next
    case (Some b)
    then have "\<exists>w. b = (payload_off r - 8, w)" "sc_marks sc1 = sc_marks sc" "sc_valid sc1 = sc_valid sc" "sc_last sc1 = sc_last sc"
      "sc_descs sc1 = sc_descs sc"
      using s(1) Cons.prems(2) by (auto simp: visit_recoverable_def Let_def split: option.splits sum.splits if_splits)
    moreover note visit_behind_barrier [OF s(2)]
    ultimately show ?thesis using Some Cons.prems(2)
      by (intro exI [of _ "[]"] exI [of _ "r # rs"] exI [of _ sc]) auto
  qed
qed (intro exI [of _ "[]"], simp)

abbreviation rseq :: "scanned_record \<Rightarrow> u64" where "rseq r \<equiv> batch_sequence (record_batch r)"

lemma raise_maximum_fields [simp]:
  "last_sequence (raise_maximum s m) = last_sequence m" "batch_ids (raise_maximum s m) = batch_ids m"
  "maximum_sequence (raise_maximum s m) = max s (maximum_sequence m)"
  by (auto simp: raise_maximum_def max_def)

lemma validate_Inr:
  assumes "validate_recovered_record cd fs i b m = Inr m'"
  shows "m' = m\<lparr>last_sequence := batch_sequence b, batch_ids := (batch_id b, batch_sequence b) # batch_ids m\<rparr>"
    "last_sequence m < batch_sequence b" "batch_sequence b \<noteq> 0" "i = 0 \<Longrightarrow> batch_sequence b = fs"
    "map_of (batch_ids m) (batch_id b) = None" "is_uuid_v4 cd (batch_id b)"
  using assms by (auto simp: validate_recovered_record_def Let_def not_le split: if_splits option.splits)

lemma visit_passed_step:
  assumes "visit_recoverable cd opts acked name fs r sc = Inr sc1" "sc_barrier sc = None" "sc_barrier sc1 = None"
  obtains m where "validate_recovered_record cd fs (sc_index sc) (record_batch r) (sc_marks sc) = Inr m"
    and "sc1 = sc\<lparr>sc_marks := raise_maximum (rseq r) m, sc_index := sc_index sc + 1, sc_valid := sc_valid sc + 1, sc_last := rseq r,
        sc_descs := sc_descs sc @ (if rseq r \<le> acked then [] else [recovered_desc name r])\<rparr>"
  using assms by (auto simp: visit_recoverable_def Let_def split: option.splits sum.splits)

lemma visit_recoverable_barrier_mono:
  "visit_all (visit_recoverable cd opts acked name fs) rs sc = Inr sc' \<Longrightarrow> sc_barrier sc' = None \<Longrightarrow> sc_barrier sc = None"
  using visit_behind_barrier by fastforce

text \<open>The records that pass are strictly increasing, from beyond the last sequence, and become the descriptors.\<close>

lemma visit_passed:
  assumes "visit_all (visit_recoverable cd opts acked name fs) rs sc = Inr sc1" "sc_barrier sc1 = None"
  shows "sc_valid sc1 = sc_valid sc + of_nat (length rs)
    \<and> sc_descs sc1 = sc_descs sc @ map (recovered_desc name) (filter (\<lambda>r. acked < rseq r) rs)
    \<and> sorted_wrt (<) (last_sequence (sc_marks sc) # map rseq rs)
    \<and> last_sequence (sc_marks sc1) = last (last_sequence (sc_marks sc) # map rseq rs)
    \<and> sc_last sc1 = last (sc_last sc # map rseq rs)
    \<and> maximum_sequence (sc_marks sc1) = fold max (map rseq rs) (maximum_sequence (sc_marks sc))"
  using assms
proof (induction rs arbitrary: sc)
  case (Cons r rs)
  obtain sc2 where s: "visit_recoverable cd opts acked name fs r sc = Inr sc2"
    "visit_all (visit_recoverable cd opts acked name fs) rs sc2 = Inr sc1" using Cons.prems(1) by (auto split: sum.splits)
  have b: "sc_barrier sc2 = None" "sc_barrier sc = None"
    using visit_recoverable_barrier_mono [OF s(2) Cons.prems(2)] visit_recoverable_barrier_mono [OF Cons.prems(1,2)] by auto
  obtain m where m: "validate_recovered_record cd fs (sc_index sc) (record_batch r) (sc_marks sc) = Inr m"
    "sc2 = sc\<lparr>sc_marks := raise_maximum (rseq r) m, sc_index := sc_index sc + 1, sc_valid := sc_valid sc + 1, sc_last := rseq r,
        sc_descs := sc_descs sc @ (if rseq r \<le> acked then [] else [recovered_desc name r])\<rparr>"
    using visit_passed_step [OF s(1) b(2,1)] by blast
  note v = validate_Inr(1,2) [OF m(1)]
  have "sorted_wrt (<) (rseq r # map rseq rs)" using Cons.IH [OF s(2) Cons.prems(2)] m(2) v by simp
  moreover from this have "\<forall>x \<in> set rs. last_sequence (sc_marks sc) < rseq x" using v(2) by auto
  ultimately show ?case using Cons.IH [OF s(2) Cons.prems(2)] m(2) v by (auto simp: max.commute)
qed simp

lemma fold_max_ge: "(x :: u64) \<le> fold max xs x \<and> (\<forall>y \<in> set xs. y \<le> fold max xs x)"
proof (induction xs arbitrary: x)
  case (Cons a xs)
  from Cons [of "max a x"] show ?case by auto
qed simp

lemma fold_max_in: "fold max xs (x :: u64) \<in> insert x (set xs)"
proof (induction xs arbitrary: x)
  case (Cons a xs)
  from Cons [of "max a x"] show ?case by (auto simp: max_def split: if_splits)
qed simp


text \<open>The floor: how far a segment may have allocated beyond its first sequence.\<close>

definition floor_addition :: "scan_result \<Rightarrow> u64 option" where
  "floor_addition res =
     (if corrupt res then
        (if file_size res \<le> bad_offset res then None
         else let tail = of_nat (file_size res - bad_offset res) :: u64;
                  allocations = tail div minimum_record_bytes + (if tail mod minimum_record_bytes \<noteq> 0 then 1 else 0)
              in if record_count res > 0xFFFFFFFFFFFFFFFF - allocations then None
                 else Some (record_count res + allocations - 1))
      else if record_count res > 0 then Some (record_count res - 1)
      else Some 0)"

lemma observe_floor_eq:
  "observe_allocated_sequence_floor fs res m =
     (case floor_addition res of None \<Rightarrow> None
      | Some a \<Rightarrow> if a > 0xFFFFFFFFFFFFFFFF - fs then None else Some (raise_maximum (fs + a) m))"
  by (simp add: observe_allocated_sequence_floor_def floor_addition_def Let_def)

lemma observe_floor_Some:
  "observe_allocated_sequence_floor fs res m = Some m' \<longleftrightarrow>
     (\<exists>a. floor_addition res = Some a \<and> a \<le> 0xFFFFFFFFFFFFFFFF - fs \<and> m' = raise_maximum (fs + a) m)"
  by (auto simp: observe_floor_eq not_less split: option.split)

lemma allocations_pos:
  assumes "(0 :: u64) < t"
  shows "t div 9 + (if t mod 9 \<noteq> 0 then 1 else 0) \<noteq> 0"
proof (cases "t mod 9 = 0")
  case True
  have "unat (t mod 9) = unat t mod 9" "unat (t div 9) = unat t div 9" by (simp_all add: unat_mod unat_div)
  then have "unat t mod 9 = 0" "t div 9 = 0 \<Longrightarrow> unat t div 9 = 0" using True by simp_all
  moreover have "0 < unat t" using assms by (simp add: word_less_nat_alt)
  ultimately have "t div 9 \<noteq> 0" using div_mult_mod_eq [of "unat t" 9] by auto
  then show ?thesis using True by simp
next
  case False
  have "unat (t div 9) = unat t div 9" by (simp add: unat_div)
  then have "unat (t div 9) < 2 ^ 64 - 1" using unat_u64_less [of t] by simp
  then have "unat (t div 9 + 1) = unat (t div 9) + 1" by (simp add: unat_word_ariths)
  then have "t div 9 + 1 \<noteq> 0" by auto
  then show ?thesis using False by simp
qed

lemma le_max_minus: "(a :: u64) \<le> 0xFFFFFFFFFFFFFFFF - b \<longleftrightarrow> unat a + unat b < 2 ^ 64"
proof -
  have "b \<le> 0xFFFFFFFFFFFFFFFF" using unat_u64_less [of b] by (simp add: word_le_nat_alt)
  then have "unat (0xFFFFFFFFFFFFFFFF - b) = 2 ^ 64 - 1 - unat b" by (simp add: unat_sub)
  then show ?thesis using unat_u64_less [of b] by (auto simp: word_le_nat_alt)
qed

text \<open>Fewer records, and no tail, allocate no further.\<close>

lemma floor_addition_prefix:
  assumes a: "floor_addition res = Some a" and n: "record_count res = of_nat n" "c \<le> n" "n < 2 ^ 63"
    and sz: "corrupt res \<Longrightarrow> file_size res - bad_offset res < 2 ^ 63"
    and res': "\<not> corrupt res'" "record_count res' = of_nat c"
  shows "\<exists>a'. floor_addition res' = Some a' \<and> a' \<le> a"
proof -
  have un: "unat (of_nat n :: u64) = n" "unat (of_nat c :: u64) = c"
    using n by (simp_all add: unat_of_nat take_bit_nat_eq_self)
  have pos: "(0 :: u64) < of_nat k \<longleftrightarrow> 0 < k" if "k < 2 ^ 63" for k
    using that by (simp add: word_less_nat_alt unat_of_nat take_bit_nat_eq_self)
  have d: "unat ((of_nat k :: u64) - 1) = k - 1" if "0 < k" "k < 2 ^ 63" for k
    using that pos [of k] by (simp add: unat_minus_one unat_of_nat take_bit_nat_eq_self word_greater_zero_iff)
  have a': "floor_addition res' = Some (if 0 < c then of_nat c - 1 else 0)"
    using res' n pos [of c] by (simp add: floor_addition_def)
  show ?thesis
  proof (cases "corrupt res")
    case False
    then have "a = (if 0 < n then of_nat n - 1 else 0)" using a n pos [of n] by (simp add: floor_addition_def split: if_splits)
    then show ?thesis using a' n d [of n] d [of c] by (auto simp: word_le_nat_alt)
  next
    case True
    define t where "t = (of_nat (file_size res - bad_offset res) :: u64)"
    define al where "al = t div 9 + (if t mod 9 \<noteq> 0 then 1 else 0)"
    have fl: "\<not> file_size res \<le> bad_offset res" "of_nat n \<le> 0xFFFFFFFFFFFFFFFF - al" "a = of_nat n + al - 1"
      using a True n by (auto simp: floor_addition_def Let_def minimum_record_bytes_def t_def al_def not_less split: if_splits)
    have "0 < t" using fl(1) sz [OF True] pos [of "file_size res - bad_offset res"] by (simp add: t_def)
    then have al: "al \<noteq> 0" unfolding al_def by (rule allocations_pos)
    have "unat (of_nat n + al) = n + unat al" using fl(2) un by (simp add: le_max_minus unat_word_ariths)
    moreover have "of_nat n + al \<noteq> 0" using calculation al by (metis add_is_0 unat_eq_zero unat_0)
    ultimately have "unat a = n + unat al - 1" by (simp add: fl(3) unat_minus_one)
    moreover have "unat al \<ge> 1" using al by (simp add: unat_eq_0 Suc_leI unat_gt_0)
    ultimately show ?thesis using a' n d [of c] by (auto simp: word_le_nat_alt)
  qed
qed


lemma segment_bytes_length: "9 * length as \<le> length (segment_bytes as)" if "list_all (payload_ok cd) as" for as
  using that
proof (induction as)
  case (Cons pb as)
  then have "1 \<le> length (fst pb)" by (cases "fst pb") (simp_all add: payload_ok_def)
  moreover have "9 * length as \<le> length (segment_bytes as)" using Cons by simp
  ultimately show ?case by simp
qed simp

lemma records_at_split:
  assumes "records_at off pbs = xs @ ys"
  shows "xs = records_at off (take (length xs) pbs)"
    and "ys = records_at (off + length (segment_bytes (take (length xs) pbs))) (drop (length xs) pbs)"
proof -
  have "length pbs = length xs + length ys" using arg_cong [OF assms, of length] by simp
  then have "length (records_at off (take (length xs) pbs)) = length xs" by simp
  moreover have "xs @ ys = records_at off (take (length xs) pbs)
      @ records_at (off + length (segment_bytes (take (length xs) pbs))) (drop (length xs) pbs)"
    using assms records_at_append [of off "take (length xs) pbs" "drop (length xs) pbs"] by simp
  ultimately show "xs = records_at off (take (length xs) pbs)"
    and "ys = records_at (off + length (segment_bytes (take (length xs) pbs))) (drop (length xs) pbs)"
    by (metis append_eq_append_conv)+
qed

lemma scan_whole:
  "list_all (payload_ok cd) as \<Longrightarrow> scan_segment cd (segment_bytes as) =
     (\<lparr>file_size = length (segment_bytes as), record_count = of_nat (length as), bad_offset = 0, corrupt = False\<rparr>, records_at 0 as)"
  using scan_segment_intact [of as cd "segment_bytes as" "[]"] by (simp add: list_all_iff)

lemma floor_mono: "(a' :: u64) \<le> a \<Longrightarrow> a \<le> 0xFFFFFFFFFFFFFFFF - f \<Longrightarrow> a' \<le> 0xFFFFFFFFFFFFFFFF - f \<and> f + a' \<le> f + a"
  using le_max_minus [of a f] le_max_minus [of a' f] by (simp add: word_le_nat_alt unat_word_ariths)

lemma floor_above: "(a :: u64) \<le> 0xFFFFFFFFFFFFFFFF - f \<Longrightarrow> f \<le> f + a"
  using le_max_minus [of a f] by (simp add: word_le_nat_alt unat_word_ariths)

text \<open>
  What the scan of a segment finds: an intact prefix of the file, whose records pass, and the rest.  The
  rest is empty exactly when the scan reports no corruption, and otherwise starts at the offset reported.
  Scanning the prefix alone finds the same records.
\<close>

lemma scan_recoverable_facts:
  assumes s: "scan_recoverable_segment cd opts acked name data m = Inr (res, sc)" and sz: "length data < 2 ^ 63"
  obtains as rest res' sc' where "data = segment_bytes as @ rest" "list_all (payload_ok cd) as"
    "corrupt res \<longleftrightarrow> rest \<noteq> []" "corrupt res \<Longrightarrow> bad_offset res = length (segment_bytes as)"
    "sc_valid sc = of_nat (length as)" "sc_last sc = last (0 # map rseq (records_at 0 as))"
    "sc_descs sc = map (recovered_desc name) (filter (\<lambda>r. acked < rseq r) (records_at 0 as))"
    "sorted_wrt (<) (last_sequence m # map rseq (records_at 0 as))"
    "last_sequence (sc_marks sc) = last (last_sequence m # map rseq (records_at 0 as))"
    "fold max (map rseq (records_at 0 as)) (maximum_sequence m) \<le> maximum_sequence (sc_marks sc)"
    "the (parse_segment_name name) \<le> maximum_sequence (sc_marks sc)"
    "scan_recoverable_segment cd opts acked name (segment_bytes as) m = Inr (res', sc')" "\<not> corrupt res'"
    "sc_valid sc' = sc_valid sc" "sc_last sc' = sc_last sc" "sc_descs sc' = sc_descs sc"
    "maximum_sequence (sc_marks sc') \<le> maximum_sequence (sc_marks sc)"
proof -
  let ?f = "the (parse_segment_name name)"
  let ?V = "visit_recoverable cd opts acked name ?f"
  obtain pbs tail where sp: "data = segment_bytes pbs @ tail" "list_all (payload_ok cd) pbs"
    "scan_segment cd data =
       (\<lparr>file_size = length data, record_count = of_nat (length pbs),
         bad_offset = (if tail = [] then 0 else length (segment_bytes pbs)), corrupt = (tail \<noteq> [])\<rparr>, records_at 0 pbs)"
    using scan_segment_splits by blast
  obtain sc0 m' where v: "visit_all ?V (records_at 0 pbs) (start_scan m) = Inr sc0"
    "observe_allocated_sequence_floor ?f (fst (scan_segment cd data)) (sc_marks sc0) = Some m'"
    "res = (case sc_barrier sc0 of None \<Rightarrow> fst (scan_segment cd data)
              | Some (off, w) \<Rightarrow> (fst (scan_segment cd data))\<lparr>bad_offset := off, corrupt := True\<rparr>)"
    "sc = sc0\<lparr>sc_marks := m'\<rparr>"
    using s by (auto simp: scan_recoverable_segment_def Let_def walk_segment_visits sp(3) split: sum.splits option.splits)
  obtain xs ys sc1 where c: "records_at 0 pbs = xs @ ys" "visit_all ?V xs (start_scan m) = Inr sc1" "sc_barrier sc1 = None"
    "sc_marks sc0 = sc_marks sc1" "sc_valid sc0 = sc_valid sc1" "sc_last sc0 = sc_last sc1" "sc_descs sc0 = sc_descs sc1"
    "case sc_barrier sc0 of None \<Rightarrow> ys = [] | Some (off, _) \<Rightarrow> ys \<noteq> [] \<and> off = payload_off (hd ys) - 8"
    using visit_recoverable_cases [OF v(1)] by (auto simp: start_scan_def)
  define as where "as = take (length xs) pbs"
  define bs where "bs = drop (length xs) pbs"
  note rsp = records_at_split [OF c(1), folded as_def bs_def]
  have pbs: "pbs = as @ bs" by (simp add: as_def bs_def)
  have oka: "list_all (payload_ok cd) as" and okb: "list_all (payload_ok cd) bs" using sp(2) by (simp_all add: pbs)
  define rest where "rest = segment_bytes bs @ tail"
  have bs0: "segment_bytes bs = [] \<longleftrightarrow> bs = []" using segment_bytes_length [OF okb] by auto
  have ys0: "ys = [] \<longleftrightarrow> bs = []" using arg_cong [OF rsp(2), of length] by auto
  have hd: "payload_off (hd ys) = length (segment_bytes as) + 8" if "bs \<noteq> []"
    using that by (cases bs) (auto simp: rsp(2))
  have data: "data = segment_bytes as @ rest" by (simp add: sp(1) pbs rest_def)
  have cr: "corrupt res \<longleftrightarrow> rest \<noteq> []" "corrupt res \<Longrightarrow> bad_offset res = length (segment_bytes as)"
    using c(8) ys0 hd bs0 by (auto simp: v(3) sp(3) rest_def pbs split: option.splits)
  note p = visit_passed [OF c(2,3), folded rsp(1)]
  obtain a where a: "floor_addition (fst (scan_segment cd data)) = Some a" "a \<le> 0xFFFFFFFFFFFFFFFF - ?f"
    "m' = raise_maximum (?f + a) (sc_marks sc0)" using v(2) by (auto simp: observe_floor_Some)
  have len: "length as \<le> length pbs" "length pbs < 2 ^ 63"
    using segment_bytes_length [OF sp(2)] sz by (simp_all add: pbs sp(1))
  obtain a' where a': "floor_addition (fst (scan_segment cd (segment_bytes as))) = Some a'" "a' \<le> a"
    using floor_addition_prefix [OF a(1), of "length pbs" "length as" "fst (scan_segment cd (segment_bytes as))"] len
      less_le_trans [OF le_less_trans [OF diff_le_self sz] order_refl]
    by (auto simp: sp(3) scan_whole [OF oka])
  note fm = floor_mono [OF a'(2) a(2)]
  define sc' where "sc' = sc1\<lparr>sc_marks := raise_maximum (?f + a') (sc_marks sc1)\<rparr>"
  have re: "scan_recoverable_segment cd opts acked name (segment_bytes as) m = Inr (fst (scan_segment cd (segment_bytes as)), sc')"
    using c(2,3) a'(1) fm by (simp add: scan_recoverable_segment_def walk_segment_visits scan_whole [OF oka] rsp(1) [symmetric]
        observe_floor_eq sc'_def Let_def leD)
  have lx: "length xs = length as" by (subst rsp(1)) simp
  show thesis
  proof (rule that [OF data oka cr])
    show "scan_recoverable_segment cd opts acked name (segment_bytes as) m = Inr (fst (scan_segment cd (segment_bytes as)), sc')"
      by (rule re)
    show "\<not> corrupt (fst (scan_segment cd (segment_bytes as)))" by (simp add: scan_whole [OF oka])
    show "maximum_sequence (sc_marks sc') \<le> maximum_sequence (sc_marks sc)"
      using fm by (simp add: sc'_def v(4) a(3) c(4) max.coboundedI1)
    show "?f \<le> maximum_sequence (sc_marks sc)" using floor_above [OF a(2)] by (simp add: v(4) a(3) le_max_iff_disj)
    show "fold max (map rseq (records_at 0 as)) (maximum_sequence m) \<le> maximum_sequence (sc_marks sc)"
      using p by (simp add: v(4) a(3) c(4) start_scan_def rsp(1) [symmetric])
  qed (use p c(4-7) in \<open>simp_all add: v(4) a(3) sc'_def start_scan_def lx rsp(1) [symmetric]\<close>)
qed

end
