(* ===== verification/Wal_Restart.thy ===== *)
theory Wal_Restart
  imports Wal_Recovery
begin

text \<open>
  Starting after a crash: whatever part of a recovery of \<open>internal/collector/wal\<close> took effect, the next start
  recovers the same batches.  The recovery is followed up to its first barrier (\<open>clean_scan\<close>), through the repair
  of the barrier (\<open>repair_barrier\<close>) and over every prefix of the changes it makes (\<open>restarts\<close>).
\<close>


section \<open>The passes before and behind the first barrier\<close>

definition tracked :: "batch_desc list \<Rightarrow> seg_info list \<Rightarrow> recovery \<Rightarrow> recovery" where
  "tracked ds ss rv =
     (let q = rv_queue rv in
      rv\<lparr>rv_queue := q\<lparr>unacked := unacked q @ ds, live_bytes := live_bytes q + sum_list (map desc_size ds),
        queued_events := queued_events q + sum_list (map desc_events ds), segments := segments q @ ss\<rparr>\<rparr>)"

definition recovered_seg :: "disk \<Rightarrow> string \<Rightarrow> segment_scan \<Rightarrow> seg_info" where
  "recovered_seg d n sc = \<lparr>seg_name = n, seg_first = the (parse_segment_name n), seg_last = sc_last sc,
     seg_sealed = True, seg_size = of_nat (length (the (contents d n)))\<rparr>"

lemma track_segment_tracked: "track_segment n sc rv = tracked (sc_descs sc) [recovered_seg (rv_disk rv) n sc] rv"
  by (simp add: track_segment_def tracked_def recovered_seg_def Let_def)

lemma tracked_nil [simp]: "tracked [] [] rv = rv"
  by (simp add: tracked_def Let_def)

lemma tracked_append: "tracked ds2 ss2 (tracked ds1 ss1 rv) = tracked (ds1 @ ds2) (ss1 @ ss2) rv"
  by (simp add: tracked_def Let_def add.assoc)

lemma tracked_fields [simp]:
  "rv_disk (tracked ds ss rv) = rv_disk rv" "rv_log (tracked ds ss rv) = rv_log rv"
  "last_acked (rv_queue (tracked ds ss rv)) = last_acked (rv_queue rv)"
  "next_seq (rv_queue (tracked ds ss rv)) = next_seq (rv_queue rv)"
  "unacked (rv_queue (tracked ds ss rv)) = unacked (rv_queue rv) @ ds"
  "segments (rv_queue (tracked ds ss rv)) = segments (rv_queue rv) @ ss"
  by (simp_all add: tracked_def Let_def)

text \<open>Segments up to a barrier, as far as they are clean: what they queue, what they list, what they saw.\<close>

fun clean_scan ::
  "codec \<Rightarrow> wal_options \<Rightarrow> u64 \<Rightarrow> disk \<Rightarrow> string list \<Rightarrow> scan_marks \<Rightarrow> (batch_desc list \<times> seg_info list \<times> scan_marks) option" where
  "clean_scan cd opts acked d [] m = Some ([], [], m)"
| "clean_scan cd opts acked d (n # ns) m =
     (case contents d n of None \<Rightarrow> None | Some data \<Rightarrow>
       (case scan_recoverable_segment cd opts acked n data (raise_maximum (the (parse_segment_name n)) m) of
          Inl e \<Rightarrow> None
        | Inr (res, sc) \<Rightarrow>
            (if corrupt res then None
             else case clean_scan cd opts acked d ns (sc_marks sc) of
                 None \<Rightarrow> None
               | Some (ds, ss, m') \<Rightarrow>
                   (if sc_valid sc = 0 then Some (ds, ss, m')
                    else Some (sc_descs sc @ ds, recovered_seg d n sc # ss, m')))))"

lemma clean_scan_recover:
  assumes "clean_scan cd opts (last_acked (rv_queue rv)) (rv_disk rv) ns m = Some (ds, ss, m1)"
  shows "recover_segments cd opts (ns @ xs) m rv = recover_segments cd opts xs m1 (tracked ds ss rv)"
  using assms
proof (induction ns arbitrary: m rv ds ss)
  case (Cons n ns)
  from Cons.prems obtain data res sc ds' ss' where h: "contents (rv_disk rv) n = Some data"
    "scan_recoverable_segment cd opts (last_acked (rv_queue rv)) n data (raise_maximum (the (parse_segment_name n)) m) = Inr (res, sc)"
    "\<not> corrupt res" "clean_scan cd opts (last_acked (rv_queue rv)) (rv_disk rv) ns (sc_marks sc) = Some (ds', ss', m1)"
    "(ds, ss) = (if sc_valid sc = 0 then (ds', ss') else (sc_descs sc @ ds', recovered_seg (rv_disk rv) n sc # ss'))"
    by (auto split: option.splits sum.splits if_splits)
  show ?case
  proof (cases "sc_valid sc = 0")
    case True
    then show ?thesis using Cons.IH [OF h(4)] h by simp
  next
    case False
    let ?rv = "track_segment n sc rv"
    have "clean_scan cd opts (last_acked (rv_queue ?rv)) (rv_disk ?rv) ns (sc_marks sc) = Some (ds', ss', m1)"
      using h(4) by (simp add: track_segment_tracked)
    from Cons.IH [OF this] show ?thesis using h False by (simp add: track_segment_tracked tracked_append)
  qed
qed simp

lemma clean_scan_cong:
  assumes "\<forall>n \<in> set ns. contents d2 n = contents d n"
  shows "clean_scan cd opts acked d2 ns m = clean_scan cd opts acked d ns m"
  using assms
proof (induction ns arbitrary: m)
  case (Cons n ns)
  then show ?case by (simp add: recovered_seg_def split: option.split sum.split)
qed simp

text \<open>The segment with the barrier, and what is done about it.\<close>

definition barrier_at ::
  "codec \<Rightarrow> wal_options \<Rightarrow> recovery \<Rightarrow> string \<Rightarrow> string list \<Rightarrow> scan_marks \<Rightarrow> bytes \<Rightarrow> scan_result \<Rightarrow> segment_scan \<Rightarrow> scan_marks
     \<Rightarrow> recovery \<Rightarrow> bool" where
  "barrier_at cd opts rv t ns m data res sc m' rvp \<longleftrightarrow>
     contents (rv_disk rv) t = Some data
     \<and> scan_recoverable_segment cd opts (last_acked (rv_queue rv)) t data (raise_maximum (the (parse_segment_name t)) m) = Inr (res, sc)
     \<and> corrupt res \<and> observe_successors cd opts (rv_disk rv) ns (sc_marks sc) = Inr m'
     \<and> persist_recovered_sequence_floor (maximum_sequence m') rv = (rvp, None)"

definition repair_barrier :: "string \<Rightarrow> string list \<Rightarrow> scan_result \<Rightarrow> segment_scan \<Rightarrow> recovery \<Rightarrow> recovery" where
  "repair_barrier t ns res sc rvp =
     (let rv2 = quarantine_segment t (bad_offset res) (quarantine_successors ns rvp)
      in if sc_valid sc = 0 then rv2 else track_segment t sc rv2)"

lemma barrier_recover:
  "barrier_at cd opts rv t ns m data res sc m' rvp \<Longrightarrow>
    recover_segments cd opts (t # ns) m rv = (repair_barrier t ns res sc rvp, Inr m')"
  by (simp add: barrier_at_def repair_barrier_def Let_def)

lemma recover_segments_split:
  assumes "recover_segments cd opts names m rv = (rv', Inr m')"
  shows "(\<exists>ds ss. clean_scan cd opts (last_acked (rv_queue rv)) (rv_disk rv) names m = Some (ds, ss, m') \<and> rv' = tracked ds ss rv)
    \<or> (\<exists>ns1 t ns2 ds ss m1 data res sc rvp. names = ns1 @ t # ns2
        \<and> clean_scan cd opts (last_acked (rv_queue rv)) (rv_disk rv) ns1 m = Some (ds, ss, m1)
        \<and> barrier_at cd opts (tracked ds ss rv) t ns2 m1 data res sc m' rvp \<and> rv' = repair_barrier t ns2 res sc rvp)"
  using assms
proof (induction names arbitrary: m rv)
  case (Cons n ns)
  let ?a = "last_acked (rv_queue rv)"
  from Cons.prems obtain data res sc where h: "contents (rv_disk rv) n = Some data"
    "scan_recoverable_segment cd opts ?a n data (raise_maximum (the (parse_segment_name n)) m) = Inr (res, sc)"
    by (auto split: option.splits sum.splits)
  show ?case
  proof (cases "corrupt res")
    case True
    then obtain rvp where "barrier_at cd opts rv n ns m data res sc m' rvp" "rv' = repair_barrier n ns res sc rvp"
      using Cons.prems h by (auto simp: barrier_at_def repair_barrier_def Let_def split: sum.splits option.splits prod.splits)
    then show ?thesis
      by (intro disjI2 exI [of _ "[]"] exI [of _ n] exI [of _ ns] exI [of _ "[] :: batch_desc list"] exI [of _ "[] :: seg_info list"]
          exI [of _ m] exI [of _ data] exI [of _ res] exI [of _ sc] exI [of _ rvp]) simp
  next
    case False
    define rv1 where "rv1 = (if sc_valid sc = 0 then rv else track_segment n sc rv)"
    define ds1 where "ds1 = (if sc_valid sc = 0 then [] else sc_descs sc)"
    define ss1 where "ss1 = (if sc_valid sc = 0 then [] else [recovered_seg (rv_disk rv) n sc])"
    have rv1: "rv1 = tracked ds1 ss1 rv" by (simp add: rv1_def ds1_def ss1_def track_segment_tracked)
    have step: "clean_scan cd opts ?a (rv_disk rv) (n # xs) m = Some (ds1 @ ds, ss1 @ ss, m1)"
      if "clean_scan cd opts ?a (rv_disk rv) xs (sc_marks sc) = Some (ds, ss, m1)" for xs ds ss m1
      using that h False by (simp add: ds1_def ss1_def)
    have "recover_segments cd opts ns (sc_marks sc) rv1 = (rv', Inr m')"
      using Cons.prems h False by (simp add: rv1_def split: if_splits)
    from Cons.IH [OF this] consider
      (clean) ds ss where "clean_scan cd opts ?a (rv_disk rv) ns (sc_marks sc) = Some (ds, ss, m')" "rv' = tracked ds ss rv1"
    | (barrier) ns1 t ns2 ds ss m1 data' res' sc' rvp where "ns = ns1 @ t # ns2"
        "clean_scan cd opts ?a (rv_disk rv) ns1 (sc_marks sc) = Some (ds, ss, m1)"
        "barrier_at cd opts (tracked ds ss rv1) t ns2 m1 data' res' sc' m' rvp" "rv' = repair_barrier t ns2 res' sc' rvp"
      by (auto simp: rv1)
    then show ?thesis
    proof cases
      case clean
      then show ?thesis using step [OF clean(1)] by (auto simp: rv1 tracked_append)
    next
      case barrier
      then show ?thesis using step [OF barrier(2)] rv1 tracked_append [of ds ss ds1 ss1 rv]
        by (intro disjI2 exI [of _ "n # ns1"] exI [of _ t] exI [of _ ns2] exI [of _ "ds1 @ ds"] exI [of _ "ss1 @ ss"]
            exI [of _ m1] exI [of _ data'] exI [of _ res'] exI [of _ sc'] exI [of _ rvp]) simp
    qed
  qed
qed simp


section \<open>Looking at the successors\<close>

definition last_of_all :: u64 where "last_of_all = 0xFFFFFFFFFFFFFFFF"

lemma le_last_of_all [simp]: "x \<le> last_of_all"
  using unat_u64_less [of x] by (simp add: last_of_all_def word_le_nat_alt)

lemma below_last: "x \<le> y \<Longrightarrow> y \<noteq> last_of_all \<Longrightarrow> x \<noteq> last_of_all"
  using le_last_of_all antisym by blast

text \<open>No intact record of the file carries the last sequence of all, which the counter never hands out.\<close>

definition below_top :: "codec \<Rightarrow> bytes \<Rightarrow> bool" where
  "below_top cd data \<longleftrightarrow> list_all (\<lambda>r. rseq r \<noteq> last_of_all) (snd (scan_segment cd data))"

lemma visit_observed_Inr:
  assumes "visit_observed cd opts fs r (m, i, b) = Inr (m', i', b')"
  shows "i' = i + 1" "collector_id (record_batch r) = opt_collector_id opts" "maximum_sequence m \<le> maximum_sequence m'"
    "maximum_sequence m' \<in> {maximum_sequence m, rseq r}"
  using assms
  by (auto simp: visit_observed_def validate_recovered_ownership_def Let_def max_def
      split: if_splits sum.splits dest!: validate_Inr(1))

lemma visit_observed_owned:
  assumes "collector_id (record_batch r) = opt_collector_id opts"
  shows "\<exists>m' b'. visit_observed cd opts fs r (m, i, b) = Inr (m', i + 1, b')"
  using assms by (cases b; cases "validate_recovered_record cd fs i (record_batch r) m")
    (auto simp: visit_observed_def validate_recovered_ownership_def Let_def)

lemma visit_all_observed:
  assumes "visit_all (visit_observed cd opts fs) rs (m, i, b) = Inr (m', i', b')"
  shows "maximum_sequence m \<le> maximum_sequence m' \<and> (\<forall>r \<in> set rs. collector_id (record_batch r) = opt_collector_id opts)
    \<and> maximum_sequence m' \<in> insert (maximum_sequence m) (rseq ` set rs)"
  using assms
proof (induction rs arbitrary: m i b)
  case (Cons r rs)
  obtain st where st: "visit_observed cd opts fs r (m, i, b) = Inr st" "visit_all (visit_observed cd opts fs) rs st = Inr (m', i', b')"
    using Cons.prems by (auto split: sum.splits)
  obtain m1 i1 b1 where p: "st = (m1, i1, b1)" by (cases st)
  note v = visit_observed_Inr [OF st(1) [unfolded p]]
  show ?case using Cons.IH [OF st(2) [unfolded p]] v by auto
qed simp

lemma visit_all_owned:
  assumes "\<forall>r \<in> set rs. collector_id (record_batch r) = opt_collector_id opts"
  shows "\<exists>m' i' b'. visit_all (visit_observed cd opts fs) rs (m, i, b) = Inr (m', i', b')"
  using assms
proof (induction rs arbitrary: m i b)
  case (Cons r rs)
  obtain m1 b1 where "visit_observed cd opts fs r (m, i, b) = Inr (m1, i + 1, b1)"
    using visit_observed_owned [of r opts cd fs m i b] Cons.prems by auto
  then show ?case using Cons by simp
qed simp

lemma observe_segment_records_facts:
  assumes o: "observe_segment_records cd opts n data m = Inr m'"
  shows "maximum_sequence m \<le> maximum_sequence m'"
    and "the (parse_segment_name n) \<le> maximum_sequence m'"
    and "\<exists>m2'. observe_segment_records cd opts n data m2 = Inr m2' \<and>
      maximum_sequence m2' \<in> {maximum_sequence m2, maximum_sequence m'} \<union> {x. x \<le> maximum_sequence m'} \<union> rseq ` set (snd (scan_segment cd data))"
proof -
  let ?f = "the (parse_segment_name n)" let ?rs = "snd (scan_segment cd data)" let ?r = "fst (scan_segment cd data)"
  obtain m1 i1 b1 where v: "visit_all (visit_observed cd opts ?f) ?rs (m, 0, False) = Inr (m1, i1, b1)"
    "observe_allocated_sequence_floor ?f ?r m1 = Some m'"
    using o by (auto simp: observe_segment_records_def walk_segment_visits Let_def split: sum.splits option.splits prod.splits)
  obtain a where a: "floor_addition ?r = Some a" "a \<le> 0xFFFFFFFFFFFFFFFF - ?f" "m' = raise_maximum (?f + a) m1"
    using v(2) by (auto simp: observe_floor_Some)
  note f = visit_all_observed [OF v(1)]
  show "maximum_sequence m \<le> maximum_sequence m'" using f by (auto simp: a(3) le_max_iff_disj)
  show "?f \<le> maximum_sequence m'" using floor_above [OF a(2)] by (simp add: a(3) le_max_iff_disj)
  show "\<exists>m2'. observe_segment_records cd opts n data m2 = Inr m2' \<and>
      maximum_sequence m2' \<in> {maximum_sequence m2, maximum_sequence m'} \<union> {x. x \<le> maximum_sequence m'} \<union> rseq ` set ?rs" for m2
  proof -
    obtain m3 i3 b3 where w: "visit_all (visit_observed cd opts ?f) ?rs (m2, 0, False) = Inr (m3, i3, b3)"
      using visit_all_owned f by blast
    have "observe_segment_records cd opts n data m2 = Inr (raise_maximum (?f + a) m3)"
      using w a(1,2) by (simp add: observe_segment_records_def walk_segment_visits Let_def observe_floor_eq leD)
    moreover have "?f + a \<le> maximum_sequence m'" by (simp add: a(3))
    ultimately show ?thesis using visit_all_observed [OF w] by (auto simp: max_def)
  qed
qed

lemma observe_successors_max:
  "observe_successors cd opts d ns m = Inr m' \<Longrightarrow> maximum_sequence m \<le> maximum_sequence m'
     \<and> (\<forall>n \<in> set ns. the (parse_segment_name n) \<le> maximum_sequence m')"
proof (induction ns arbitrary: m)
  case (Cons n ns)
  obtain data m1 where h: "contents d n = Some data"
    "observe_segment_records cd opts n data (raise_maximum (the (parse_segment_name n)) m) = Inr m1"
    "observe_successors cd opts d ns m1 = Inr m'" using Cons.prems by (auto split: option.splits sum.splits)
  show ?case using Cons.IH [OF h(3)] observe_segment_records_facts(1) [OF h(2)] by (auto intro: order_trans)
qed simp

text \<open>Fewer successors, and other marks to start from, leave nothing to refuse.\<close>

lemma observe_successors_again:
  assumes "observe_successors cd opts d (xs @ ys) m = Inr m'" "maximum_sequence m' \<noteq> last_of_all"
    and "\<forall>n \<in> set ys. contents d2 n = contents d n" "\<forall>n \<in> set ys. \<forall>data. contents d n = Some data \<longrightarrow> below_top cd data"
    and "maximum_sequence m2 \<noteq> last_of_all"
  shows "\<exists>m2'. observe_successors cd opts d2 ys m2 = Inr m2' \<and> maximum_sequence m2' \<noteq> last_of_all"
  using assms
proof (induction "xs @ ys" arbitrary: xs ys m m2)
  case Nil
  then show ?case by simp
next
  case (Cons n ns)
  have "observe_successors cd opts d (n # ns) m = Inr m'" using Cons.prems(1) by (simp only: Cons.hyps(2))
  then obtain data m1 where h: "contents d n = Some data"
    "observe_segment_records cd opts n data (raise_maximum (the (parse_segment_name n)) m) = Inr m1"
    "observe_successors cd opts d ns m1 = Inr m'"
    by (auto split: option.splits sum.splits)
  show ?case
  proof (cases xs)
    case (Cons x xs')
    then have "ns = xs' @ ys" using Cons.hyps(2) by simp
    then show ?thesis using Cons.hyps(1) [of xs' ys m1 m2] h(3) Cons.prems(2-5) by simp
  next
    case Nil
    then have ys: "ys = n # ns" using Cons.hyps(2) by simp
    let ?m2 = "raise_maximum (the (parse_segment_name n)) m2"
    note mm = observe_successors_max [OF h(3)]
    obtain m3 where m3: "observe_segment_records cd opts n data ?m2 = Inr m3"
      "maximum_sequence m3 \<in> {maximum_sequence ?m2, maximum_sequence m1} \<union> {x. x \<le> maximum_sequence m1} \<union> rseq ` set (snd (scan_segment cd data))"
      using observe_segment_records_facts(3) [OF h(2)] by blast
    have m1: "maximum_sequence m1 \<noteq> last_of_all" using below_last mm Cons.prems(2) by blast
    moreover have "the (parse_segment_name n) \<noteq> last_of_all"
      using below_last [OF observe_segment_records_facts(2) [OF h(2)]] calculation .
    then have "maximum_sequence ?m2 \<noteq> last_of_all" using Cons.prems(5) by (simp add: max_def)
    moreover have "rseq r \<noteq> last_of_all" if "r \<in> set (snd (scan_segment cd data))" for r
      using Cons.prems(4) h(1) that by (auto simp: ys below_top_def list_all_iff)
    ultimately have "maximum_sequence m3 \<noteq> last_of_all" using m3(2) below_last [OF _ m1]
      by (elim UnE insertE emptyE CollectE imageE) simp_all
    then obtain m2' where "observe_successors cd opts d2 ns m3 = Inr m2'" "maximum_sequence m2' \<noteq> last_of_all"
      using Cons.hyps(1) [of "[]" ns m1 m3] h(3) Cons.prems(2-5) ys by auto
    then show ?thesis using h(1) m3(1) Cons.prems(3) by (simp add: ys)
  qed
qed


section \<open>Moving the successors aside\<close>

fun successor_ops :: "string list \<Rightarrow> disk \<Rightarrow> disk_op list" where
  "successor_ops [] d = []"
| "successor_ops (n # ns) d = quarantine_tail d n 0 @ successor_ops ns (exec_ops (quarantine_tail d n 0) d)"

lemma quarantine_segment_fields [simp]:
  "rv_disk (quarantine_segment n off rv) = exec_ops (quarantine_tail (rv_disk rv) n off) (rv_disk rv)"
  "rv_log (quarantine_segment n off rv) = rv_log rv @ quarantine_tail (rv_disk rv) n off"
  "unacked (rv_queue (quarantine_segment n off rv)) = unacked (rv_queue rv)"
  "next_seq (rv_queue (quarantine_segment n off rv)) = next_seq (rv_queue rv)"
  "last_acked (rv_queue (quarantine_segment n off rv)) = last_acked (rv_queue rv)"
  "rv_queue (quarantine_segment n off rv) = (rv_queue rv)\<lparr>quarantined := quarantined (rv_queue rv) + 1\<rparr>"
  by (simp_all add: quarantine_segment_def perform_def Let_def)

lemma quarantine_successors_fields [simp]:
  "rv_disk (quarantine_successors ns rv) = exec_ops (successor_ops ns (rv_disk rv)) (rv_disk rv)"
  "rv_log (quarantine_successors ns rv) = rv_log rv @ successor_ops ns (rv_disk rv)"
  "\<exists>k. rv_queue (quarantine_successors ns rv) = (rv_queue rv)\<lparr>quarantined := k\<rparr>"
proof -
  show "rv_disk (quarantine_successors ns rv) = exec_ops (successor_ops ns (rv_disk rv)) (rv_disk rv)"
    by (induction ns arbitrary: rv) simp_all
  show "rv_log (quarantine_successors ns rv) = rv_log rv @ successor_ops ns (rv_disk rv)"
    by (induction ns arbitrary: rv) simp_all
  show "\<exists>k. rv_queue (quarantine_successors ns rv) = (rv_queue rv)\<lparr>quarantined := k\<rparr>"
  proof (induction ns arbitrary: rv)
    case Nil
    show ?case by (intro exI [of _ "quarantined (rv_queue rv)"]) simp
  next
    case (Cons n ns)
    from Cons [of "quarantine_segment n 0 rv"] show ?case by auto
  qed
qed

text \<open>The files under segment names, which are all that a recovery reads.\<close>

definition seg_files :: "disk \<Rightarrow> u64 \<Rightarrow> bytes option" where
  "seg_files d s = contents d (segment_name s)"

lemma whole_quarantine_seg:
  assumes "disk_quiet d" "seg_files d s \<noteq> None"
  shows "disk_quiet (exec_ops (quarantine_tail d (segment_name s) 0) d)"
    "seg_files (exec_ops (quarantine_tail d (segment_name s) 0) d) = (seg_files d)(s := None)"
    "length (quarantine_tail d (segment_name s) 0) = 1"
    "meta_file (exec_ops (quarantine_tail d (segment_name s) 0) d) = meta_file d"
    "manifest_files (exec_ops (quarantine_tail d (segment_name s) 0) d) = manifest_files d"
proof -
  obtain data where data: "contents d (segment_name s) = Some data" using assms(2) by (auto simp: seg_files_def)
  note w = quarantine_whole [OF assms(1) data]
  show "disk_quiet (exec_ops (quarantine_tail d (segment_name s) 0) d)" using w(1,3) by (simp del: exec_op.simps)
  show "seg_files (exec_ops (quarantine_tail d (segment_name s) 0) d) = (seg_files d)(s := None)"
  proof
    fix t
    have ne: "unique_corrupt_name d (segment_name s @ ''.corrupt'') \<noteq> segment_name t" by (rule artifact_form(4) [OF refl])
    show "seg_files (exec_ops (quarantine_tail d (segment_name s) 0) d) t = ((seg_files d)(s := None)) t"
      using ne by (simp add: seg_files_def w(1,2) segment_name_inj ne [symmetric] del: exec_op.simps)
  qed
  show "length (quarantine_tail d (segment_name s) 0) = 1" using w(1) by simp
  show "meta_file (exec_ops (quarantine_tail d (segment_name s) 0) d) = meta_file d"
    "manifest_files (exec_ops (quarantine_tail d (segment_name s) 0) d) = manifest_files d"
    using w(1) by (simp_all split: option.split)
qed

lemma successor_ops_facts:
  assumes "disk_quiet d" "distinct ss" "\<forall>s \<in> set ss. seg_files d s \<noteq> None"
  defines "ops \<equiv> successor_ops (map segment_name ss) d"
  shows "length ops = length ss"
    and "disk_quiet (exec_ops (take k ops) d)"
    and "seg_files (exec_ops (take k ops) d) = (\<lambda>s. if s \<in> set (take k ss) then None else seg_files d s)"
    and "meta_file (exec_ops (take k ops) d) = meta_file d" and "manifest_files (exec_ops (take k ops) d) = manifest_files d"
proof -
  have "length ops = length ss \<and> disk_quiet (exec_ops (take k ops) d)
      \<and> seg_files (exec_ops (take k ops) d) = (\<lambda>s. if s \<in> set (take k ss) then None else seg_files d s)
      \<and> meta_file (exec_ops (take k ops) d) = meta_file d \<and> manifest_files (exec_ops (take k ops) d) = manifest_files d"
    unfolding ops_def using assms(1-3)
  proof (induction ss arbitrary: d k)
    case (Cons s ss)
    let ?q = "quarantine_tail d (segment_name s) 0" let ?d = "exec_ops ?q d"
    note w = whole_quarantine_seg [OF Cons.prems(1), of s]
    have s: "seg_files d s \<noteq> None" using Cons.prems by simp
    note w = w [OF s]
    have "\<forall>t \<in> set ss. seg_files ?d t \<noteq> None" using Cons.prems w(2) by auto
    from Cons.IH [OF w(1) _ this] Cons.prems have ih: "length (successor_ops (map segment_name ss) ?d) = length ss"
      "disk_quiet (exec_ops (take j (successor_ops (map segment_name ss) ?d)) ?d)"
      "seg_files (exec_ops (take j (successor_ops (map segment_name ss) ?d)) ?d) = (\<lambda>s. if s \<in> set (take j ss) then None else seg_files ?d s)"
      "meta_file (exec_ops (take j (successor_ops (map segment_name ss) ?d)) ?d) = meta_file ?d"
      "manifest_files (exec_ops (take j (successor_ops (map segment_name ss) ?d)) ?d) = manifest_files ?d" for j by auto
    obtain op where q: "?q = [op]" using w(3) by (cases ?q) auto
    have d': "exec_ops [op] d = ?d" by (simp add: q)
    show ?case
    proof (cases k)
      case 0
      then show ?thesis using Cons.prems ih(1) q by simp
    next
      case (Suc j)
      have "take k (successor_ops (map segment_name (s # ss)) d) = ?q @ take j (successor_ops (map segment_name ss) ?d)"
        using Suc q by simp
      then show ?thesis using ih(1) ih(2-5) [of j] w(2,4,5) Cons.prems(2) w(3) Suc by (auto simp: fun_eq_iff)
    qed
  qed simp
  then show "length ops = length ss" "disk_quiet (exec_ops (take k ops) d)"
    "seg_files (exec_ops (take k ops) d) = (\<lambda>s. if s \<in> set (take k ss) then None else seg_files d s)"
    "meta_file (exec_ops (take k ops) d) = meta_file d" "manifest_files (exec_ops (take k ops) d) = manifest_files d" by auto
qed

section \<open>The listing\<close>

lemma parse_name [simp]: "parse_segment_name (segment_name s) = Some s"
  by (simp add: parse_segment_name_eq)

lemma list_segments_unique:
  assumes "sorted ss" "distinct ss" "set ss = dom (seg_files d)"
  shows "list_segments d = map segment_name ss"
proof -
  let ?k = "\<lambda>n. the (parse_segment_name n)"
  let ?l = "filter (\<lambda>n. parse_segment_name n \<noteq> None) (read_dir d)"
  have nm: "parse_segment_name n \<noteq> None \<Longrightarrow> segment_name (?k n) = n" for n
    by (metis option.collapse parse_segment_name_eq)
  have inj: "inj_on ?k (set ?l)" 
  proof (rule inj_onI)
    fix x y assume a: "x \<in> set ?l" "y \<in> set ?l" "?k x = ?k y"
    have "x = segment_name (?k x)" using nm [of x] a(1) by simp
    also have "\<dots> = segment_name (?k y)" by (simp only: a(3))
    also have "\<dots> = y" using nm [of y] a(2) by simp
    finally show "x = y" .
  qed
  have "sorted (map ?k (sort_key ?k ?l))" by simp
  moreover have "distinct (map ?k (sort_key ?k ?l))" using inj by (simp add: distinct_map)
  moreover have "set (map ?k (sort_key ?k ?l)) = set ss"
  proof (intro equalityI subsetI)
    fix s assume "s \<in> set (map ?k (sort_key ?k ?l))"
    then obtain n where n: "exists_file d n" "parse_segment_name n \<noteq> None" "s = ?k n" by auto
    then show "s \<in> set ss" using nm [OF n(2)] by (auto simp: assms(3) seg_files_def exists_contents)
  next
    fix s assume "s \<in> set ss"
    then have "segment_name s \<in> set ?l" by (auto simp: assms(3) seg_files_def exists_contents)
    then have "?k (segment_name s) \<in> ?k ` set ?l" by (rule imageI)
    then show "s \<in> set (map ?k (sort_key ?k ?l))" by simp
  qed
  ultimately have k: "map ?k (sort_key ?k ?l) = ss" using assms(1,2) sorted_distinct_set_unique by blast
  have "list_segments d = map segment_name (map ?k (sort_key ?k ?l))"
    unfolding list_segments_def map_map using nm by (intro map_idI [symmetric]) auto
  then show ?thesis by (simp only: k)
qed

lemma list_segments_form:
  obtains ss where "list_segments d = map segment_name ss" "sorted ss" "distinct ss" "set ss = dom (seg_files d)"
proof -
  have "finite (dom (seg_files d))"
  proof (rule finite_subset)
    show "dom (seg_files d) \<subseteq> segment_name -` set (read_dir d)" by (auto simp: seg_files_def exists_contents)
    show "finite (segment_name -` set (read_dir d))" by (rule finite_vimageI) (auto simp: inj_def segment_name_inj)
  qed
  then have "set (sorted_list_of_set (dom (seg_files d))) = dom (seg_files d)" by simp
  moreover have "sorted (sorted_list_of_set (dom (seg_files d)))" "distinct (sorted_list_of_set (dom (seg_files d)))" by simp_all
  ultimately show thesis using that list_segments_unique by blast
qed


section \<open>Changes that leave the metadata alone\<close>

fun file_op :: "disk_op \<Rightarrow> bool" where
  "file_op (PutMeta m) = False"
| "file_op (RemoveManifest k) = False"
| "file_op _ = True"

lemma file_ops_meta:
  "list_all file_op ops \<Longrightarrow> meta_file (exec_ops ops d) = meta_file d \<and> manifest_files (exec_ops ops d) = manifest_files d"
proof (induction ops arbitrary: d)
  case (Cons op ops)
  have "meta_file (exec_op op d) = meta_file d \<and> manifest_files (exec_op op d) = manifest_files d"
    using Cons.prems by (cases op) (simp_all split: option.split)
  then show ?case using Cons by simp
qed simp

lemma quarantine_tail_file_ops: "list_all file_op (quarantine_tail d n off)"
  by (auto simp: quarantine_tail_def write_synced_prefix_def Let_def list_all_iff split: option.split)

lemma recover_entries_file_ops: "list_all file_op (fst (recover_entries cd names es d))"
proof (induction es arbitrary: d)
  case (Cons e es)
  have "recover_entry cd names e d = Some ops \<Longrightarrow> list_all file_op ops" for ops
    by (auto simp: recover_entry_def Let_def split: if_splits option.splits bool.splits)
  then show ?case using Cons by (auto split: option.split)
qed simp

lemma recover_interrupted_file_ops: "recover_interrupted cd d = (ops, ok) \<Longrightarrow> list_all file_op ops"
  unfolding recover_interrupted_def using recover_entries_file_ops by (metis fst_conv)

lemma put_meta [simp]:
  "contents (exec_op (PutMeta m) d) = contents d" "disk_quiet (exec_op (PutMeta m) d) \<longleftrightarrow> disk_quiet d"
  "seg_files (exec_op (PutMeta m) d) = seg_files d" "meta_file (exec_op (PutMeta m) d) = Some m"
  "manifest_files (exec_op (PutMeta m) d) = manifest_files d"
  by (simp_all add: contents_def fun_eq_iff seg_files_def disk_quiet_def disk_wf_def no_rewrites_def exists_file_def
      unshared_def same_file_def)

section \<open>The sequence floor\<close>

lemma persist_floor_facts:
  assumes "persist_recovered_sequence_floor x rv = (rv', None)"
  obtains ops where "x \<noteq> last_of_all" "rv_log rv' = rv_log rv @ ops" "rv_disk rv' = exec_ops ops (rv_disk rv)"
    "ops = [] \<or> ops = [PutMeta (current_meta (rv_queue rv'))]"
    "next_seq (rv_queue rv') = max (next_seq (rv_queue rv)) (x + 1)" "ops = [] \<Longrightarrow> rv' = rv"
    "\<exists>mt. rv_queue rv' = (rv_queue rv)\<lparr>next_seq := max (next_seq (rv_queue rv)) (x + 1), meta := mt\<rparr>"
proof (cases "x + 1 > next_seq (rv_queue rv)")
  case True
  have "rv' = persist_recovered_meta (rv\<lparr>rv_queue := (rv_queue rv)\<lparr>next_seq := x + 1\<rparr>\<rparr>)" and t: "x \<noteq> last_of_all"
    using assms True by (auto simp: persist_recovered_sequence_floor_def last_of_all_def split: if_splits)
  then have r: "rv' = rv\<lparr>rv_disk := exec_ops [PutMeta m] (rv_disk rv), rv_log := rv_log rv @ [PutMeta m],
      rv_queue := (rv_queue rv)\<lparr>next_seq := x + 1, meta := m\<rparr>\<rparr>"
    if "m = current_meta ((rv_queue rv)\<lparr>next_seq := x + 1\<rparr>)" for m
    using that by (simp add: persist_recovered_meta_def perform_def Let_def)
  have mt: "current_meta (q\<lparr>meta := m\<rparr>) = current_meta q" for q m by (simp add: current_meta_def repack_references_def)
  have mx: "max (next_seq (rv_queue rv)) (x + 1) = x + 1" using less_imp_le [OF True] by (simp add: max_def)
  show ?thesis
  proof (rule that [of "[PutMeta (current_meta (rv_queue rv'))]"])
    show "\<exists>mt. rv_queue rv' = (rv_queue rv)\<lparr>next_seq := max (next_seq (rv_queue rv)) (x + 1), meta := mt\<rparr>"
      unfolding mx r [OF refl] by (rule exI) simp
  qed (use t in \<open>simp_all add: r [OF refl] mt mx\<close>)
next
  case False
  then have "rv' = rv" "x \<noteq> last_of_all"
    using assms by (auto simp: persist_recovered_sequence_floor_def last_of_all_def split: if_splits)
  moreover have "max (next_seq (rv_queue rv)) (x + 1) = next_seq (rv_queue rv)" using False by (simp add: max_absorb1)
  ultimately show ?thesis
    by (intro that [of "[]"]) (auto intro: exI [of _ "meta (rv_queue rv)"])
qed

lemma persist_floor_ok:
  "x \<noteq> last_of_all \<Longrightarrow> \<exists>rv'. persist_recovered_sequence_floor x rv = (rv', None)"
  by (auto simp: persist_recovered_sequence_floor_def last_of_all_def)

lemma persist_floor_noop:
  "x \<noteq> last_of_all \<Longrightarrow> x + 1 \<le> next_seq (rv_queue rv) \<Longrightarrow> persist_recovered_sequence_floor x rv = (rv, None)"
  by (auto simp: persist_recovered_sequence_floor_def last_of_all_def)

lemma observe_successors_cong:
  "\<forall>n \<in> set ns. contents d2 n = contents d n \<Longrightarrow> observe_successors cd opts d2 ns m = observe_successors cd opts d ns m"
proof (induction ns arbitrary: m)
  case (Cons n ns)
  then show ?case by (simp split: option.split sum.split)
qed simp

lemma repair_fields:
  "unacked (rv_queue (repair_barrier t ns res sc rv)) = unacked (rv_queue rv) @ (if sc_valid sc = 0 then [] else sc_descs sc)"
  "next_seq (rv_queue (repair_barrier t ns res sc rv)) = next_seq (rv_queue rv)"
  "rv_disk (repair_barrier t ns res sc rv) =
     exec_ops (successor_ops ns (rv_disk rv) @ quarantine_tail (exec_ops (successor_ops ns (rv_disk rv)) (rv_disk rv)) t (bad_offset res)) (rv_disk rv)"
  "rv_log (repair_barrier t ns res sc rv) =
     rv_log rv @ successor_ops ns (rv_disk rv) @ quarantine_tail (exec_ops (successor_ops ns (rv_disk rv)) (rv_disk rv)) t (bad_offset res)"
proof -
  obtain k where "rv_queue (quarantine_successors ns rv) = (rv_queue rv)\<lparr>quarantined := k\<rparr>"
    using quarantine_successors_fields(3) by blast
  then show "unacked (rv_queue (repair_barrier t ns res sc rv)) = unacked (rv_queue rv) @ (if sc_valid sc = 0 then [] else sc_descs sc)"
    "next_seq (rv_queue (repair_barrier t ns res sc rv)) = next_seq (rv_queue rv)"
    by (simp_all add: repair_barrier_def Let_def track_segment_tracked)
qed (simp_all add: repair_barrier_def Let_def track_segment_tracked)

section \<open>Recovering again\<close>

text \<open>The scan up to the barrier, with all or some of the successors still there.\<close>

lemma recover_again_before:
  assumes c: "clean_scan cd opts (last_acked (rv_queue rv)) d ns1 m0 = Some (ds, ss, m1)"
    and b: "contents d t = Some data"
      "scan_recoverable_segment cd opts (last_acked (rv_queue rv)) t data (raise_maximum (the (parse_segment_name t)) m1) = Inr (res, sc)"
      "corrupt res" "observe_successors cd opts d (xs @ ys) (sc_marks sc) = Inr m'" "maximum_sequence m' \<noteq> last_of_all"
    and d2: "\<forall>n \<in> set (ns1 @ t # ys). contents (rv_disk rv) n = contents d n"
    and top: "\<forall>n \<in> set ys. \<forall>data. contents d n = Some data \<longrightarrow> below_top cd data"
  shows "\<exists>rv' m2. recover_segments cd opts (ns1 @ t # ys) m0 rv = (rv', Inr m2) \<and> maximum_sequence m2 \<noteq> last_of_all
    \<and> unacked (rv_queue rv') = unacked (rv_queue rv) @ ds @ (if sc_valid sc = 0 then [] else sc_descs sc)
    \<and> next_seq (rv_queue rv) \<le> next_seq (rv_queue rv') \<and> (xs = [] \<longrightarrow> m2 = m')"
proof -
  have c2: "clean_scan cd opts (last_acked (rv_queue rv)) (rv_disk rv) ns1 m0 = Some (ds', ss', m1')
      \<longleftrightarrow> (ds, ss, m1) = (ds', ss', m1')" for ds' ss' m1'
    using clean_scan_cong [of ns1 "rv_disk rv" d cd opts "last_acked (rv_queue rv)" m0] d2 c by auto
  then have c3: "clean_scan cd opts (last_acked (rv_queue rv)) (rv_disk rv) ns1 m0 = Some (ds, ss, m1)" by simp
  have "maximum_sequence (sc_marks sc) \<noteq> last_of_all" using observe_successors_max [OF b(4)] below_last b(5) by blast
  then obtain m2 where m2: "observe_successors cd opts (rv_disk rv) ys (sc_marks sc) = Inr m2" "maximum_sequence m2 \<noteq> last_of_all"
    using observe_successors_again [OF b(4,5), of "rv_disk rv" "sc_marks sc"] d2 top by auto
  have eq: "m2 = m'" if "xs = []"
    using observe_successors_cong [of ys "rv_disk rv" d cd opts "sc_marks sc"] d2 m2(1) b(4) that by simp
  obtain rvp where p: "persist_recovered_sequence_floor (maximum_sequence m2) (tracked ds ss rv) = (rvp, None)"
    using persist_floor_ok [OF m2(2)] by blast
  have "barrier_at cd opts (tracked ds ss rv) t ys m1 data res sc m2 rvp" using b d2 m2 p by (simp add: barrier_at_def)
  from barrier_recover [OF this] clean_scan_recover [OF c3, of "t # ys"]
  have r: "recover_segments cd opts (ns1 @ t # ys) m0 rv = (repair_barrier t ys res sc rvp, Inr m2)" by simp
  obtain mt where "rv_queue rvp = (rv_queue (tracked ds ss rv))\<lparr>next_seq := max (next_seq (rv_queue (tracked ds ss rv))) (maximum_sequence m2 + 1), meta := mt\<rparr>"
    by (rule persist_floor_facts [OF p]) blast
  then show ?thesis using r m2(2) eq by (simp add: repair_fields)
qed

text \<open>The scan of what a repaired barrier leaves.\<close>

lemma recover_again_after:
  assumes c: "clean_scan cd opts (last_acked (rv_queue rv)) d ns1 m0 = Some (ds, ss, m1)"
    and b: "scan_recoverable_segment cd opts (last_acked (rv_queue rv)) t data (raise_maximum (the (parse_segment_name t)) m1) = Inr (res, sc)"
      "corrupt res" "maximum_sequence (sc_marks sc) \<noteq> last_of_all" "length data < 2 ^ 63"
    and d2: "\<forall>n \<in> set ns1. contents (rv_disk rv) n = contents d n"
      "bad_offset res \<noteq> 0 \<Longrightarrow> contents (rv_disk rv) t = Some (take (bad_offset res) data)"
  shows "\<exists>rv' m2. recover_segments cd opts (ns1 @ (if bad_offset res = 0 then [] else [t])) m0 rv = (rv', Inr m2)
    \<and> maximum_sequence m2 \<noteq> last_of_all
    \<and> unacked (rv_queue rv') = unacked (rv_queue rv) @ ds @ (if sc_valid sc = 0 then [] else sc_descs sc)
    \<and> next_seq (rv_queue rv) \<le> next_seq (rv_queue rv')"
proof -
  have c3: "clean_scan cd opts (last_acked (rv_queue rv)) (rv_disk rv) ns1 m0 = Some (ds, ss, m1)"
    using clean_scan_cong [of ns1 "rv_disk rv" d] d2 c by auto
  obtain as rest res' sc' where f: "data = segment_bytes as @ rest" "list_all (payload_ok cd) as"
    "corrupt res \<Longrightarrow> bad_offset res = length (segment_bytes as)" "sc_valid sc = of_nat (length as)"
    "fold max (map rseq (records_at 0 as)) (maximum_sequence (raise_maximum (the (parse_segment_name t)) m1)) \<le> maximum_sequence (sc_marks sc)"
    "scan_recoverable_segment cd opts (last_acked (rv_queue rv)) t (segment_bytes as) (raise_maximum (the (parse_segment_name t)) m1) = Inr (res', sc')"
    "\<not> corrupt res'" "sc_valid sc' = sc_valid sc" "sc_descs sc' = sc_descs sc"
    "maximum_sequence (sc_marks sc') \<le> maximum_sequence (sc_marks sc)"
    by (rule scan_recoverable_facts [OF b(1,4)]) blast
  note off = f(3) [OF b(2)]
  have la: "length as < 2 ^ 63" using segment_bytes_length [OF f(2)] b(4) by (simp add: f(1))
  have v0: "sc_valid sc = 0 \<longleftrightarrow> as = []" 
  proof -
    have "unat (of_nat (length as) :: u64) = length as" using la by (simp add: unat_of_nat take_bit_nat_eq_self)
    then have "unat (sc_valid sc) = length as" using f(4) by simp
    then show ?thesis using unat_eq_0 [of "sc_valid sc"] by auto
  qed
  note tr = clean_scan_recover [OF c3]
  show ?thesis
  proof (cases "bad_offset res = 0")
    case True
    then have "as = []" using off segment_bytes_length [OF f(2)] by simp
    moreover from this have "maximum_sequence m1 \<le> maximum_sequence (sc_marks sc)" using f(5) by simp
    then have "maximum_sequence m1 \<noteq> last_of_all" by (rule below_last [OF _ b(3)])
    ultimately show ?thesis using True tr [of "[]"] v0 by simp
  next
    case False
    then have "contents (rv_disk rv) t = Some (segment_bytes as)" using d2(2) off by (simp add: f(1))
    moreover have "sc_valid sc \<noteq> 0" using False off v0 by auto
    moreover have "maximum_sequence (sc_marks sc') \<noteq> last_of_all" using below_last [OF f(10) b(3)] .
    ultimately show ?thesis using tr [of "[t]"] f(6-9) False
      by (simp add: track_segment_tracked)
  qed
qed


section \<open>A crash during recovery changes nothing\<close>

abbreviation no_marks :: scan_marks where
  "no_marks \<equiv> \<lparr>last_sequence = 0, batch_ids = [], maximum_sequence = 0\<rparr>"

text \<open>Sizes a file can have, and sequences a queue hands out.\<close>

definition plausible :: "codec \<Rightarrow> disk \<Rightarrow> bool" where
  "plausible cd d \<longleftrightarrow> (\<forall>s data. seg_files d s = Some data \<longrightarrow> length data < 2 ^ 63 \<and> below_top cd data)"

lemma recover_queue_segments:
  assumes "recover_segments cd opts (list_segments (rv_disk rv)) no_marks rv = (rv', Inr m)" "maximum_sequence m \<noteq> last_of_all"
  shows "\<exists>rv3. recover_queue cd opts rv = (rv3, None) \<and> unacked (rv_queue rv3) = unacked (rv_queue rv')
    \<and> next_seq (rv_queue rv') \<le> next_seq (rv_queue rv3) \<and> maximum_sequence m + 1 \<le> next_seq (rv_queue rv3)"
proof -
  obtain rv3 where p: "persist_recovered_sequence_floor (maximum_sequence m) rv' = (rv3, None)"
    using persist_floor_ok [OF assms(2)] by blast
  obtain mt where "rv_queue rv3 = (rv_queue rv')\<lparr>next_seq := max (next_seq (rv_queue rv')) (maximum_sequence m + 1), meta := mt\<rparr>"
    by (rule persist_floor_facts [OF p]) blast
  then show ?thesis using assms(1) p by (simp add: recover_queue_def)
qed

lemma scan_cut_point:
  assumes "scan_recoverable_segment cd opts acked name data m = Inr (res, sc)" "length data < 2 ^ 63" "corrupt res"
  shows "cut_point cd data (bad_offset res)"
proof -
  obtain as rest where f: "data = segment_bytes as @ rest" "list_all (payload_ok cd) as"
    "corrupt res \<longleftrightarrow> rest \<noteq> []" "corrupt res \<Longrightarrow> bad_offset res = length (segment_bytes as)"
    by (rule scan_recoverable_facts [OF assms(1,2)]) blast
  have off: "bad_offset res = length (segment_bytes as)" and rest: "rest \<noteq> []" using f(3,4) assms(3) by auto
  have "length as < 2 ^ 63" using segment_bytes_length [OF f(2)] assms(2) by (simp add: f(1))
  then have "unat (of_nat (length as) :: u64) = length as" by (simp add: unat_of_nat take_bit_nat_eq_self)
  moreover have "as \<noteq> []" if "bad_offset res \<noteq> 0" using that off by auto
  ultimately have "(of_nat (length as) :: u64) \<noteq> 0" if "bad_offset res \<noteq> 0" using that by (metis length_0_conv unat_0)
  then show ?thesis using off rest by (auto simp: cut_point_def f(1) scan_whole [OF f(2)])
qed

text \<open>What a restart finds after the first calls of a recovery took effect.\<close>

definition restarts ::
  "codec \<Rightarrow> wal_options \<Rightarrow> recovery \<Rightarrow> recovery \<Rightarrow> disk \<Rightarrow> bool" where
  "restarts cd opts rv0 rv1 dk \<longleftrightarrow>
     (\<exists>rec. recover_interrupted cd dk = (rec, True) \<and>
        (let d' = exec_ops rec dk in
         manifest_files d' = manifest_files (rv_disk rv0)
         \<and> meta_file d' \<in> {meta_file (rv_disk rv0), Some (current_meta ((rv_queue rv0)\<lparr>next_seq := next_seq (rv_queue rv1)\<rparr>))}
         \<and> (\<forall>rv2. rv_disk rv2 = d' \<longrightarrow> last_acked (rv_queue rv2) = last_acked (rv_queue rv0) \<longrightarrow> unacked (rv_queue rv2) = []
              \<longrightarrow> next_seq (rv_queue rv0) \<le> next_seq (rv_queue rv2)
              \<longrightarrow> (\<forall>m. meta_file d' = Some m \<longrightarrow> meta_next m \<le> next_seq (rv_queue rv2))
              \<longrightarrow> (\<exists>rv3. recover_queue cd opts rv2 = (rv3, None) \<and> unacked (rv_queue rv3) = unacked (rv_queue rv1)
                    \<and> next_seq (rv_queue rv1) \<le> next_seq (rv_queue rv3)))))"

lemma restartsI:
  assumes "recover_interrupted cd dk = (rec, True)" "manifest_files (exec_ops rec dk) = manifest_files (rv_disk rv0)"
    "meta_file (exec_ops rec dk) = meta_file (rv_disk rv0) \<or>
     meta_file (exec_ops rec dk) = Some (current_meta ((rv_queue rv0)\<lparr>next_seq := next_seq (rv_queue rv1)\<rparr>))"
    "\<And>rv2. rv_disk rv2 = exec_ops rec dk \<Longrightarrow> last_acked (rv_queue rv2) = last_acked (rv_queue rv0) \<Longrightarrow> unacked (rv_queue rv2) = []
        \<Longrightarrow> next_seq (rv_queue rv0) \<le> next_seq (rv_queue rv2)
        \<Longrightarrow> (\<And>m. meta_file (exec_ops rec dk) = Some m \<Longrightarrow> meta_next m \<le> next_seq (rv_queue rv2))
        \<Longrightarrow> \<exists>rv' m. recover_segments cd opts (list_segments (rv_disk rv2)) no_marks rv2 = (rv', Inr m) \<and> maximum_sequence m \<noteq> last_of_all
             \<and> unacked (rv_queue rv') = unacked (rv_queue rv1)
             \<and> (next_seq (rv_queue rv1) \<le> next_seq (rv_queue rv') \<or>
                next_seq (rv_queue rv1) \<le> max (next_seq (rv_queue rv')) (maximum_sequence m + 1))"
  shows "restarts cd opts rv0 rv1 dk"
proof -
  have "\<exists>rv3. recover_queue cd opts rv2 = (rv3, None) \<and> unacked (rv_queue rv3) = unacked (rv_queue rv1)
                    \<and> next_seq (rv_queue rv1) \<le> next_seq (rv_queue rv3)"
    if h: "rv_disk rv2 = exec_ops rec dk" "last_acked (rv_queue rv2) = last_acked (rv_queue rv0)" "unacked (rv_queue rv2) = []"
      "next_seq (rv_queue rv0) \<le> next_seq (rv_queue rv2)"
      "\<forall>m. meta_file (exec_ops rec dk) = Some m \<longrightarrow> meta_next m \<le> next_seq (rv_queue rv2)" for rv2
  proof -
    obtain rv' m where r: "recover_segments cd opts (list_segments (rv_disk rv2)) no_marks rv2 = (rv', Inr m)"
      "maximum_sequence m \<noteq> last_of_all" "unacked (rv_queue rv') = unacked (rv_queue rv1)"
      "next_seq (rv_queue rv1) \<le> next_seq (rv_queue rv') \<or>
       next_seq (rv_queue rv1) \<le> max (next_seq (rv_queue rv')) (maximum_sequence m + 1)"
      using assms(4) [OF h(1-4)] h(5) by blast
    obtain rv3 where "recover_queue cd opts rv2 = (rv3, None)" "unacked (rv_queue rv3) = unacked (rv_queue rv')"
      "next_seq (rv_queue rv') \<le> next_seq (rv_queue rv3)" "maximum_sequence m + 1 \<le> next_seq (rv_queue rv3)"
      using recover_queue_segments [OF r(1,2)] by blast
    moreover from this have "next_seq (rv_queue rv1) \<le> next_seq (rv_queue rv3)" using r(4) by (auto simp: le_max_iff_disj)
    ultimately show ?thesis using r(3) by auto
  qed
  then show ?thesis using assms(1-3) unfolding restarts_def Let_def by blast
qed


lemma list_segments_cong: "seg_files d2 = seg_files d \<Longrightarrow> list_segments d2 = list_segments d"
  using list_segments_form [of d2] list_segments_unique [of _ d] by metis

lemma contents_seg: "contents d (segment_name s) = seg_files d s"
  by (simp add: seg_files_def)

lemma exec_meta:
  assumes "ops = [] \<or> ops = [PutMeta m]"
  shows "contents (exec_ops (take k ops) d) = contents d" "disk_quiet (exec_ops (take k ops) d) \<longleftrightarrow> disk_quiet d"
    "seg_files (exec_ops (take k ops) d) = seg_files d" "manifest_files (exec_ops (take k ops) d) = manifest_files d"
    "meta_file (exec_ops (take k ops) d) = (if k = 0 \<or> ops = [] then meta_file d else Some m)"
proof -
  have "exec_ops (take k ops) d = d \<and> (k = 0 \<or> ops = []) \<or> exec_ops (take k ops) d = exec_op (PutMeta m) d \<and> \<not> (k = 0 \<or> ops = [])"
    using assms by (cases k) auto
  then show "contents (exec_ops (take k ops) d) = contents d" "disk_quiet (exec_ops (take k ops) d) \<longleftrightarrow> disk_quiet d"
    "seg_files (exec_ops (take k ops) d) = seg_files d" "manifest_files (exec_ops (take k ops) d) = manifest_files d"
    "meta_file (exec_ops (take k ops) d) = (if k = 0 \<or> ops = [] then meta_file d else Some m)"
    by (auto simp del: exec_op.simps)
qed

lemma quiet_recovers: "disk_quiet d \<Longrightarrow> recover_interrupted cd d = ([], True)"
  by (simp add: disk_quiet_def recover_interrupted_tidy)

text \<open>No barrier: the only change is the counter.\<close>

lemma clean_restarts:
  assumes q: "disk_quiet (rv_disk rv0)"
    and c: "clean_scan cd opts (last_acked (rv_queue rv0)) (rv_disk rv0) (list_segments (rv_disk rv0)) no_marks = Some (ds, ss, m)"
    and top: "maximum_sequence m \<noteq> last_of_all"
    and ops: "ops = [] \<or> ops = [PutMeta (current_meta ((rv_queue rv0)\<lparr>next_seq := next_seq (rv_queue rv1)\<rparr>))]"
    and rv1: "unacked (rv_queue rv1) = ds" "next_seq (rv_queue rv1) = max (next_seq (rv_queue rv0)) (maximum_sequence m + 1)"
  shows "restarts cd opts rv0 rv1 (exec_ops (take k ops) (rv_disk rv0))"
proof (rule restartsI [where rec = "[]"])
  let ?d = "exec_ops (take k ops) (rv_disk rv0)"
  note e = exec_meta [OF ops, of k "rv_disk rv0"]
  show "recover_interrupted cd ?d = ([], True)" by (rule quiet_recovers) (simp add: e q)
  show "manifest_files (exec_ops [] ?d) = manifest_files (rv_disk rv0)" by (simp add: e)
  show "meta_file (exec_ops [] ?d) = meta_file (rv_disk rv0) \<or>
     meta_file (exec_ops [] ?d) = Some (current_meta ((rv_queue rv0)\<lparr>next_seq := next_seq (rv_queue rv1)\<rparr>))" by (simp add: e)
  fix rv2 :: recovery
  assume rv2: "rv_disk rv2 = exec_ops [] ?d" "last_acked (rv_queue rv2) = last_acked (rv_queue rv0)" "unacked (rv_queue rv2) = []"
    "next_seq (rv_queue rv0) \<le> next_seq (rv_queue rv2)"
  have ls: "list_segments (rv_disk rv2) = list_segments (rv_disk rv0)" by (rule list_segments_cong) (simp add: rv2(1) e)
  have "clean_scan cd opts (last_acked (rv_queue rv2)) (rv_disk rv2) (list_segments (rv_disk rv2)) no_marks = Some (ds, ss, m)"
    unfolding ls using clean_scan_cong [of "list_segments (rv_disk rv0)" "rv_disk rv2" "rv_disk rv0"] c by (simp add: rv2 e)
  from clean_scan_recover [OF this, of "[]"]
  have "recover_segments cd opts (list_segments (rv_disk rv2)) no_marks rv2 = (tracked ds ss rv2, Inr m)" by simp
  moreover have "next_seq (rv_queue rv1) \<le> max (next_seq (rv_queue rv2)) (maximum_sequence m + 1)"
    unfolding rv1(2) using rv2(4) by (rule max.mono) simp
  ultimately show "\<exists>rv' m. recover_segments cd opts (list_segments (rv_disk rv2)) no_marks rv2 = (rv', Inr m) \<and> maximum_sequence m \<noteq> last_of_all
             \<and> unacked (rv_queue rv') = unacked (rv_queue rv1)
             \<and> (next_seq (rv_queue rv1) \<le> next_seq (rv_queue rv') \<or>
                next_seq (rv_queue rv1) \<le> max (next_seq (rv_queue rv')) (maximum_sequence m + 1))"
    using top rv1(1) rv2(3) by (intro exI [of _ "tracked ds ss rv2"] exI [of _ m]) simp
qed

text \<open>A barrier in front of which the scan passed, with the segments left as they were or some successors gone.\<close>

definition barrier_found ::
  "codec \<Rightarrow> wal_options \<Rightarrow> recovery \<Rightarrow> recovery \<Rightarrow> u64 list \<Rightarrow> u64 \<Rightarrow> u64 list \<Rightarrow> batch_desc list \<Rightarrow> seg_info list \<Rightarrow> scan_marks
     \<Rightarrow> bytes \<Rightarrow> scan_result \<Rightarrow> segment_scan \<Rightarrow> scan_marks \<Rightarrow> bool" where
  "barrier_found cd opts rv0 rv1 s1 t s2 ds ss m1 data res sc m' \<longleftrightarrow>
     disk_quiet (rv_disk rv0) \<and> plausible cd (rv_disk rv0)
     \<and> sorted (s1 @ t # s2) \<and> distinct (s1 @ t # s2) \<and> set (s1 @ t # s2) = dom (seg_files (rv_disk rv0))
     \<and> clean_scan cd opts (last_acked (rv_queue rv0)) (rv_disk rv0) (map segment_name s1) no_marks = Some (ds, ss, m1)
     \<and> seg_files (rv_disk rv0) t = Some data
     \<and> scan_recoverable_segment cd opts (last_acked (rv_queue rv0)) (segment_name t) data (raise_maximum t m1) = Inr (res, sc)
     \<and> corrupt res \<and> observe_successors cd opts (rv_disk rv0) (map segment_name s2) (sc_marks sc) = Inr m'
     \<and> maximum_sequence m' \<noteq> last_of_all
     \<and> unacked (rv_queue rv1) = ds @ (if sc_valid sc = 0 then [] else sc_descs sc)
     \<and> next_seq (rv_queue rv1) = max (next_seq (rv_queue rv0)) (maximum_sequence m' + 1)"

lemma barrier_foundD:
  assumes "barrier_found cd opts rv0 rv1 s1 t s2 ds ss m1 data res sc m'"
  shows "clean_scan cd opts (last_acked (rv_queue rv0)) (rv_disk rv0) (map segment_name s1) no_marks = Some (ds, ss, m1)"
    "scan_recoverable_segment cd opts (last_acked (rv_queue rv0)) (segment_name t) data (raise_maximum t m1) = Inr (res, sc)"
    "corrupt res" "observe_successors cd opts (rv_disk rv0) (map segment_name s2) (sc_marks sc) = Inr m'"
  using assms unfolding barrier_found_def by blast+

lemma barrier_restarts_before:
  assumes b: "barrier_found cd opts rv0 rv1 s1 t s2 ds ss m1 data res sc m'"
    and rec: "recover_interrupted cd dk = (rec, True)"
    and files: "seg_files (exec_ops rec dk) = (\<lambda>s. if s \<in> set xs then None else seg_files (rv_disk rv0) s)" "s2 = xs @ ys"
    and kept: "manifest_files (exec_ops rec dk) = manifest_files (rv_disk rv0)"
      "meta_file (exec_ops rec dk) = meta_file (rv_disk rv0) \<and> (xs = [] \<or> next_seq (rv_queue rv1) = next_seq (rv_queue rv0)) \<or>
       meta_file (exec_ops rec dk) = Some (current_meta ((rv_queue rv0)\<lparr>next_seq := next_seq (rv_queue rv1)\<rparr>))"
  shows "restarts cd opts rv0 rv1 dk"
proof (rule restartsI [OF rec kept(1)])
  show "meta_file (exec_ops rec dk) = meta_file (rv_disk rv0) \<or>
     meta_file (exec_ops rec dk) = Some (current_meta ((rv_queue rv0)\<lparr>next_seq := next_seq (rv_queue rv1)\<rparr>))" using kept(2) by blast
  fix rv2 :: recovery
  assume rv2: "rv_disk rv2 = exec_ops rec dk" "last_acked (rv_queue rv2) = last_acked (rv_queue rv0)" "unacked (rv_queue rv2) = []"
    "next_seq (rv_queue rv0) \<le> next_seq (rv_queue rv2)"
    "\<And>m. meta_file (exec_ops rec dk) = Some m \<Longrightarrow> meta_next m \<le> next_seq (rv_queue rv2)"
  note D = barrier_foundD [OF b]
  note b = b [unfolded barrier_found_def]
  have "set (s1 @ t # ys) = dom (seg_files (rv_disk rv2))"
    using b files(2) by (auto simp: rv2(1) files(1) dom_def split: if_splits)
  then have ls: "list_segments (rv_disk rv2) = map segment_name (s1 @ t # ys)"
    by (intro list_segments_unique) (use b files(2) in \<open>auto simp: sorted_append\<close>)
  have "\<exists>rv' m2. recover_segments cd opts (map segment_name s1 @ segment_name t # map segment_name ys) no_marks rv2 = (rv', Inr m2)
    \<and> maximum_sequence m2 \<noteq> last_of_all
    \<and> unacked (rv_queue rv') = unacked (rv_queue rv2) @ ds @ (if sc_valid sc = 0 then [] else sc_descs sc)
    \<and> next_seq (rv_queue rv2) \<le> next_seq (rv_queue rv') \<and> (map segment_name xs = [] \<longrightarrow> m2 = m')"
  proof (rule recover_again_before [where d = "rv_disk rv0" and res = res])
    show "\<forall>n \<in> set (map segment_name s1 @ segment_name t # map segment_name ys). contents (rv_disk rv2) n = contents (rv_disk rv0) n"
      using b files(2) by (auto simp: contents_seg rv2(1) files(1))
    show "\<forall>n \<in> set (map segment_name ys). \<forall>data. contents (rv_disk rv0) n = Some data \<longrightarrow> below_top cd data"
      using b by (auto simp: contents_seg plausible_def)
    show "scan_recoverable_segment cd opts (last_acked (rv_queue rv2)) (segment_name t) data
        (raise_maximum (the (parse_segment_name (segment_name t))) m1) = Inr (res, sc)" using D(2) by (simp only: rv2(2) parse_name option.sel)
  qed (use b files(2) in \<open>simp_all add: rv2(2) contents_seg\<close>)
  then obtain rv' m2 where r: "recover_segments cd opts (map segment_name s1 @ segment_name t # map segment_name ys) no_marks rv2 = (rv', Inr m2)"
    "maximum_sequence m2 \<noteq> last_of_all"
    "unacked (rv_queue rv') = ds @ (if sc_valid sc = 0 then [] else sc_descs sc)"
    "next_seq (rv_queue rv2) \<le> next_seq (rv_queue rv')" "xs = [] \<Longrightarrow> m2 = m'" using rv2(3) by auto
  have "next_seq (rv_queue rv1) \<le> max (next_seq (rv_queue rv')) (maximum_sequence m2 + 1)"
  proof -
    consider "xs = []" | "next_seq (rv_queue rv1) = next_seq (rv_queue rv0)"
      | "meta_file (exec_ops rec dk) = Some (current_meta ((rv_queue rv0)\<lparr>next_seq := next_seq (rv_queue rv1)\<rparr>))" using kept(2) by blast
    then show ?thesis
    proof cases
      case 1
      then show ?thesis using b r(5) order_trans [OF rv2(4) r(4)] by (auto simp: le_max_iff_disj)
    next
      case 2
      then show ?thesis using order_trans [OF rv2(4) r(4)] by (simp add: le_max_iff_disj)
    next
      case 3
      from rv2(5) [OF this] have "next_seq (rv_queue rv1) \<le> next_seq (rv_queue rv2)" by (simp add: current_meta_def)
      then show ?thesis using r(4) by (auto simp: le_max_iff_disj intro: order_trans)
    qed
  qed
  then show "\<exists>rv' m. recover_segments cd opts (list_segments (rv_disk rv2)) no_marks rv2 = (rv', Inr m) \<and> maximum_sequence m \<noteq> last_of_all
             \<and> unacked (rv_queue rv') = unacked (rv_queue rv1)
             \<and> (next_seq (rv_queue rv1) \<le> next_seq (rv_queue rv') \<or>
                next_seq (rv_queue rv1) \<le> max (next_seq (rv_queue rv')) (maximum_sequence m + 1))"
    using r(1-3) b by (intro exI [of _ rv'] exI [of _ m2]) (simp add: ls)
qed

text \<open>The barrier is repaired: no successor is left, and the segment holds what passed.\<close>

lemma barrier_restarts_after:
  assumes b: "barrier_found cd opts rv0 rv1 s1 t s2 ds ss m1 data res sc m'"
    and rec: "recover_interrupted cd dk = (rec, True)"
    and files: "seg_files (exec_ops rec dk) = (\<lambda>s. if s \<in> set s2 then None else seg_files (rv_disk rv0) s)
      (t := if bad_offset res = 0 then None else Some (take (bad_offset res) data))"
    and kept: "manifest_files (exec_ops rec dk) = manifest_files (rv_disk rv0)"
      "meta_file (exec_ops rec dk) = meta_file (rv_disk rv0) \<and> next_seq (rv_queue rv1) = next_seq (rv_queue rv0) \<or>
       meta_file (exec_ops rec dk) = Some (current_meta ((rv_queue rv0)\<lparr>next_seq := next_seq (rv_queue rv1)\<rparr>))"
  shows "restarts cd opts rv0 rv1 dk"
proof (rule restartsI [OF rec kept(1)])
  show "meta_file (exec_ops rec dk) = meta_file (rv_disk rv0) \<or>
     meta_file (exec_ops rec dk) = Some (current_meta ((rv_queue rv0)\<lparr>next_seq := next_seq (rv_queue rv1)\<rparr>))" using kept(2) by blast
  fix rv2 :: recovery
  assume rv2: "rv_disk rv2 = exec_ops rec dk" "last_acked (rv_queue rv2) = last_acked (rv_queue rv0)" "unacked (rv_queue rv2) = []"
    "next_seq (rv_queue rv0) \<le> next_seq (rv_queue rv2)"
    "\<And>m. meta_file (exec_ops rec dk) = Some m \<Longrightarrow> meta_next m \<le> next_seq (rv_queue rv2)"
  note D = barrier_foundD [OF b]
  note b = b [unfolded barrier_found_def]
  let ?l = "if bad_offset res = 0 then [] else [t]"
  have t: "t \<notin> set s1" "t \<notin> set s2" "set s1 \<inter> set s2 = {}" using b by auto
  have "set (s1 @ ?l) = dom (seg_files (rv_disk rv2))"
    using b t by (auto simp: rv2(1) files dom_def split: if_splits)
  then have "list_segments (rv_disk rv2) = map segment_name (s1 @ ?l)"
    by (intro list_segments_unique) (use b in \<open>auto simp: sorted_append\<close>)
  then have ls: "list_segments (rv_disk rv2) = map segment_name s1 @ (if bad_offset res = 0 then [] else [segment_name t])" by simp
  have mt: "maximum_sequence (sc_marks sc) \<noteq> last_of_all" using b observe_successors_max below_last by blast
  have "\<exists>rv' m2. recover_segments cd opts (map segment_name s1 @ (if bad_offset res = 0 then [] else [segment_name t])) no_marks rv2 = (rv', Inr m2)
    \<and> maximum_sequence m2 \<noteq> last_of_all
    \<and> unacked (rv_queue rv') = unacked (rv_queue rv2) @ ds @ (if sc_valid sc = 0 then [] else sc_descs sc)
    \<and> next_seq (rv_queue rv2) \<le> next_seq (rv_queue rv')"
  proof (rule recover_again_after [where d = "rv_disk rv0" and data = data])
    show "\<forall>n \<in> set (map segment_name s1). contents (rv_disk rv2) n = contents (rv_disk rv0) n"
      using t by (auto simp: contents_seg rv2(1) files)
    show "contents (rv_disk rv2) (segment_name t) = Some (take (bad_offset res) data)" if "bad_offset res \<noteq> 0"
      using that by (simp add: contents_seg rv2(1) files)
    show "length data < 2 ^ 63" using b unfolding plausible_def by blast
    show "scan_recoverable_segment cd opts (last_acked (rv_queue rv2)) (segment_name t) data
        (raise_maximum (the (parse_segment_name (segment_name t))) m1) = Inr (res, sc)" using D(2) by (simp only: rv2(2) parse_name option.sel)
  qed (use b mt in \<open>simp_all add: rv2(2)\<close>)
  then obtain rv' m2 where r: "recover_segments cd opts (list_segments (rv_disk rv2)) no_marks rv2 = (rv', Inr m2)"
    "maximum_sequence m2 \<noteq> last_of_all" "unacked (rv_queue rv') = ds @ (if sc_valid sc = 0 then [] else sc_descs sc)"
    "next_seq (rv_queue rv2) \<le> next_seq (rv_queue rv')" using rv2(3) unfolding ls by auto
  have "next_seq (rv_queue rv1) \<le> next_seq (rv_queue rv2)"
    using kept(2) rv2(4) rv2(5) [of "current_meta ((rv_queue rv0)\<lparr>next_seq := next_seq (rv_queue rv1)\<rparr>)"]
    by (auto simp: current_meta_def)
  then have "next_seq (rv_queue rv1) \<le> next_seq (rv_queue rv')" using r(4) by (rule order_trans)
  then show "\<exists>rv' m. recover_segments cd opts (list_segments (rv_disk rv2)) no_marks rv2 = (rv', Inr m) \<and> maximum_sequence m \<noteq> last_of_all
             \<and> unacked (rv_queue rv') = unacked (rv_queue rv1)
             \<and> (next_seq (rv_queue rv1) \<le> next_seq (rv_queue rv') \<or>
                next_seq (rv_queue rv1) \<le> max (next_seq (rv_queue rv')) (maximum_sequence m + 1))"
    using r(1-3) b by (intro exI [of _ rv'] exI [of _ m2]) simp
qed


lemma current_meta_cong:
  "next_seq q' = next_seq q \<Longrightarrow> reserved_until q' = reserved_until q \<Longrightarrow> last_acked q' = last_acked q \<Longrightarrow> repacks q' = repacks q
    \<Longrightarrow> current_meta q' = current_meta q"
  by (simp add: current_meta_def repack_references_def)

lemma tracked_frame [simp]:
  "reserved_until (rv_queue (tracked ds ss rv)) = reserved_until (rv_queue rv)" "repacks (rv_queue (tracked ds ss rv)) = repacks (rv_queue rv)"
  by (simp_all add: tracked_def Let_def)

lemma map_split: "map f xs = as @ b # cs \<Longrightarrow> \<exists>s1 t s2. xs = s1 @ t # s2 \<and> as = map f s1 \<and> b = f t \<and> cs = map f s2"
  by (auto simp: map_eq_append_conv map_eq_Cons_conv)

lemma recover_queue_restarts:
  assumes q: "disk_quiet (rv_disk rv0)" and p: "plausible cd (rv_disk rv0)" and u: "unacked (rv_queue rv0) = []"
    and r: "recover_queue cd opts rv0 = (rv1, None)"
  shows "next_seq (rv_queue rv0) \<le> next_seq (rv_queue rv1)
    \<and> (\<exists>ops. rv_log rv1 = rv_log rv0 @ ops \<and> (\<forall>k. restarts cd opts rv0 rv1 (exec_ops (take k ops) (rv_disk rv0))))"
proof -
  let ?d = "rv_disk rv0"
  obtain rvA m' where A: "recover_segments cd opts (list_segments ?d) no_marks rv0 = (rvA, Inr m')"
    "persist_recovered_sequence_floor (maximum_sequence m') rvA = (rv1, None)"
    using r by (auto simp: recover_queue_def split: prod.splits sum.splits)
  from recover_segments_split [OF A(1)] show ?thesis
  proof (elim disjE exE conjE)
    fix ds ss
    assume c: "clean_scan cd opts (last_acked (rv_queue rv0)) ?d (list_segments ?d) no_marks = Some (ds, ss, m')" and rvA: "rvA = tracked ds ss rv0"
    obtain ops where o: "maximum_sequence m' \<noteq> last_of_all" "rv_log rv1 = rv_log rvA @ ops"
      "ops = [] \<or> ops = [PutMeta (current_meta (rv_queue rv1))]"
      "next_seq (rv_queue rv1) = max (next_seq (rv_queue rvA)) (maximum_sequence m' + 1)"
      "\<exists>mt. rv_queue rv1 = (rv_queue rvA)\<lparr>next_seq := max (next_seq (rv_queue rvA)) (maximum_sequence m' + 1), meta := mt\<rparr>"
      by (rule persist_floor_facts [OF A(2)]) blast
    have cm: "current_meta (rv_queue rv1) = current_meta ((rv_queue rv0)\<lparr>next_seq := next_seq (rv_queue rv1)\<rparr>)"
      using o(5) by (intro current_meta_cong) (auto simp: rvA)
    have "restarts cd opts rv0 rv1 (exec_ops (take k ops) ?d)" for k
      by (rule clean_restarts [OF q c o(1)]) (use o cm u in \<open>auto simp: rvA\<close>)
    then show ?thesis using o(2,4) by (auto simp: rvA)
  next
    fix ns1 tn ns2 ds ss m1 data res sc rvp
    assume ls: "list_segments ?d = ns1 @ tn # ns2"
      and c: "clean_scan cd opts (last_acked (rv_queue rv0)) ?d ns1 no_marks = Some (ds, ss, m1)"
      and b: "barrier_at cd opts (tracked ds ss rv0) tn ns2 m1 data res sc m' rvp" and rvA: "rvA = repair_barrier tn ns2 res sc rvp"
    obtain segs where segs: "list_segments ?d = map segment_name segs" "sorted segs" "distinct segs" "set segs = dom (seg_files ?d)"
      by (rule list_segments_form)
    obtain s1 t s2 where s: "segs = s1 @ t # s2" "ns1 = map segment_name s1" "tn = segment_name t" "ns2 = map segment_name s2"
      using map_split segs(1) ls by metis
    have bp: "persist_recovered_sequence_floor (maximum_sequence m') (tracked ds ss rv0) = (rvp, None)"
      using b by (simp add: barrier_at_def)
    obtain P where P: "maximum_sequence m' \<noteq> last_of_all" "rv_log rvp = rv_log (tracked ds ss rv0) @ P"
      "rv_disk rvp = exec_ops P (rv_disk (tracked ds ss rv0))" "P = [] \<or> P = [PutMeta (current_meta (rv_queue rvp))]"
      "next_seq (rv_queue rvp) = max (next_seq (rv_queue (tracked ds ss rv0))) (maximum_sequence m' + 1)" "P = [] \<Longrightarrow> rvp = tracked ds ss rv0"
      "\<exists>mt. rv_queue rvp = (rv_queue (tracked ds ss rv0))\<lparr>next_seq := max (next_seq (rv_queue (tracked ds ss rv0))) (maximum_sequence m' + 1), meta := mt\<rparr>"
      by (rule persist_floor_facts [OF bp]) blast
    have "maximum_sequence m' + 1 \<le> next_seq (rv_queue rvA)" using P(5) by (simp add: rvA repair_fields)
    from persist_floor_noop [OF P(1) this] A(2) have rv1: "rv1 = rvA" by simp
    have n1: "next_seq (rv_queue rv1) = max (next_seq (rv_queue rv0)) (maximum_sequence m' + 1)"
      using P(5) by (simp add: rv1 rvA repair_fields)
    have nP: "next_seq (rv_queue rv1) = next_seq (rv_queue rv0)" if "P = []" using P(6) that by (simp add: rv1 rvA repair_fields)
    define dP where "dP = exec_ops P ?d"
    define S where "S = successor_ops ns2 dP"
    define dS where "dS = exec_ops S dP"
    define Q where "Q = quarantine_tail dS tn (bad_offset res)"
    have log: "rv_log rv1 = rv_log rv0 @ P @ S @ Q"
      using P(2,3) by (simp add: rv1 rvA repair_fields dP_def S_def dS_def Q_def)
    have cm: "current_meta (rv_queue rvp) = current_meta ((rv_queue rv0)\<lparr>next_seq := next_seq (rv_queue rv1)\<rparr>)"
      using P(7) n1 by (intro current_meta_cong) auto
    note e = exec_meta [OF P(4) [unfolded cm]]
    have e': "disk_quiet dP" "seg_files dP = seg_files ?d" "manifest_files dP = manifest_files ?d" "contents dP = contents ?d"
      "meta_file dP = (if P = [] then meta_file ?d else Some (current_meta ((rv_queue rv0)\<lparr>next_seq := next_seq (rv_queue rv1)\<rparr>)))"
      using e [of "length P" ?d] q by (auto simp: dP_def)
    have bs: "seg_files ?d t = Some data"
      "scan_recoverable_segment cd opts (last_acked (rv_queue rv0)) (segment_name t) data (raise_maximum t m1) = Inr (res, sc)"
      "corrupt res" "observe_successors cd opts ?d (map segment_name s2) (sc_marks sc) = Inr m'"
      using b by (simp_all add: barrier_at_def s contents_seg)
    have bf: "barrier_found cd opts rv0 rv1 s1 t s2 ds ss m1 data res sc m'"
      unfolding barrier_found_def using q p segs(2-4) s(1) c bs P(1,7) n1 u
      by (auto simp: s(2) rv1 rvA repair_fields)
    have s2: "distinct s2" "t \<notin> set s2" "\<forall>x \<in> set s2. seg_files dP x \<noteq> None" using segs(3,4) s(1) e'(2) by auto
    note so = successor_ops_facts [OF e'(1) s2(1,3), folded s(4) S_def]
    have dS: "disk_quiet dS" "seg_files dS = (\<lambda>x. if x \<in> set s2 then None else seg_files ?d x)" "meta_file dS = meta_file dP"
      "manifest_files dS = manifest_files ?d"
      using so(2-5) [of "length S"] so(1) e'(2,3) by (auto simp: dS_def)
    have meta_cases: "meta_file dP = meta_file ?d \<and> next_seq (rv_queue rv1) = next_seq (rv_queue rv0) \<or>
       meta_file dP = Some (current_meta ((rv_queue rv0)\<lparr>next_seq := next_seq (rv_queue rv1)\<rparr>))" using e'(5) nP by auto
    have "restarts cd opts rv0 rv1 (exec_ops (take k (P @ S @ Q)) ?d)" for k
    proof -
      define j where "j = k - length P" define i where "i = j - length S"
      consider (early) "k < length P" | (middle) "k = length P + j" "j \<le> length S" | (late) "k = length P + length S + i"
        unfolding i_def j_def by linarith
      then show ?thesis
      proof cases
        case early
        then have k: "take k (P @ S @ Q) = take k P" "k = 0" using P(4) by (auto simp: less_Suc_eq)
        show ?thesis by (rule barrier_restarts_before [OF bf quiet_recovers, of _ "[]" s2]) (simp_all add: k q)
      next
        case middle
        then have k: "exec_ops (take k (P @ S @ Q)) ?d = exec_ops (take j S) dP" by (simp add: dP_def)
        show ?thesis
        proof (rule barrier_restarts_before [OF bf quiet_recovers, of _ "take j s2" "drop j s2"])
          show "disk_quiet (exec_ops (take k (P @ S @ Q)) ?d)" by (simp only: k so)
          show "seg_files (exec_ops [] (exec_ops (take k (P @ S @ Q)) ?d)) = (\<lambda>s. if s \<in> set (take j s2) then None else seg_files ?d s)"
            by (simp only: exec_ops_simps(1) k so(3) e'(2))
          show "manifest_files (exec_ops [] (exec_ops (take k (P @ S @ Q)) ?d)) = manifest_files ?d"
            by (simp only: exec_ops_simps(1) k so(5) e'(3))
          have "meta_file (exec_ops [] (exec_ops (take k (P @ S @ Q)) ?d)) = meta_file dP"
            by (simp only: exec_ops_simps(1) k so(4))
          then show "meta_file (exec_ops [] (exec_ops (take k (P @ S @ Q)) ?d)) = meta_file ?d
              \<and> (take j s2 = [] \<or> next_seq (rv_queue rv1) = next_seq (rv_queue rv0)) \<or>
             meta_file (exec_ops [] (exec_ops (take k (P @ S @ Q)) ?d))
              = Some (current_meta ((rv_queue rv0)\<lparr>next_seq := next_seq (rv_queue rv1)\<rparr>))"
            using meta_cases by metis
        qed simp
      next
        case late
        then have k: "exec_ops (take k (P @ S @ Q)) ?d = exec_ops (take i Q) dS" by (simp add: dP_def dS_def)
        have len: "length data < 2 ^ 63" using p bs(1) unfolding plausible_def by blast
        have dd: "contents dS (segment_name t) = Some data" using s2(2) bs(1) by (simp add: contents_seg dS(2))
        note cut = scan_cut_point [OF bs(2) len bs(3)]
        obtain rec where rec: "recover_interrupted cd (exec_ops (take i Q) dS) = (rec, True)"
          "contents (exec_ops rec (exec_ops (take i Q) dS)) \<in> {contents dS, contents (exec_ops Q dS)}"
          using quarantine_recovers [OF dS(1) dd cut, of i] unfolding Q_def s(3) by blast
        have fo: "list_all file_op (take i Q)" "list_all file_op rec"
          using quarantine_tail_file_ops recover_interrupted_file_ops [OF rec(1)] by (auto simp: Q_def list_all_iff dest: in_set_takeD)
        have mm: "meta_file (exec_ops rec (exec_ops (take i Q) dS)) = meta_file dP" "manifest_files (exec_ops rec (exec_ops (take i Q) dS)) = manifest_files ?d"
          using file_ops_meta [OF fo(1), of dS] file_ops_meta [OF fo(2), of "exec_ops (take i Q) dS"] dS(3,4) by auto
        from rec(2) consider "contents (exec_ops rec (exec_ops (take i Q) dS)) = contents dS"
          | "contents (exec_ops rec (exec_ops (take i Q) dS)) = contents (exec_ops Q dS)" by blast
        then show ?thesis
        proof cases
          case 1
          then have "seg_files (exec_ops rec (exec_ops (take i Q) dS)) = seg_files dS" by (simp add: seg_files_def fun_eq_iff)
          then show ?thesis unfolding k
            by (intro barrier_restarts_before [OF bf rec(1), of s2 "[]"]) (use meta_cases mm in \<open>auto simp: dS\<close>)
        next
          case 2
          have "seg_files (exec_ops Q dS) = (seg_files dS)(t := if bad_offset res = 0 then None else Some (take (bad_offset res) data))"
            using quarantine_result(1) [OF dS(1) dd cut] artifact_form(4) [OF refl, of dS t]
            by (auto simp: seg_files_def Q_def s(3) fun_eq_iff segment_name_inj dest: sym)
          then have "seg_files (exec_ops rec (exec_ops (take i Q) dS)) =
              (seg_files dS)(t := if bad_offset res = 0 then None else Some (take (bad_offset res) data))"
            using 2 by (simp add: seg_files_def fun_eq_iff)
          then show ?thesis unfolding k
            by (intro barrier_restarts_after [OF bf rec(1)]) (use meta_cases mm in \<open>auto simp: dS\<close>)
        qed
      qed
    qed
    then show ?thesis using log n1 by auto
  qed
qed

section \<open>Starting again\<close>

lemma start_recovery_facts:
  assumes "start_recovery d ops io = (rv0, None)"
  shows "\<exists>m. meta_file (rv_disk rv0) = Some m \<and> valid_meta m \<and> check_inventory (rv_disk rv0) (meta_acked m) (meta_refs m)
     \<and> next_seq (rv_queue rv0) = meta_next m \<and> last_acked (rv_queue rv0) = meta_acked m
     \<and> unacked (rv_queue rv0) = [] \<and> repacks (rv_queue rv0) = [] \<and> reserved_until (rv_queue rv0) = 0
     \<and> (meta_file (exec_ops ops d) \<noteq> None \<and> rv_log rv0 = ops \<and> rv_disk rv0 = exec_ops ops d
        \<or> meta_file (exec_ops ops d) = None \<and> rv_log rv0 = ops @ [PutMeta initial_meta]
          \<and> rv_disk rv0 = exec_op (PutMeta initial_meta) (exec_ops ops d) \<and> m = initial_meta)"
  using assms
  by (auto simp: start_recovery_def Let_def fresh_queue_def perform_def initial_meta_def valid_meta_def
      split: option.splits if_splits)

lemma check_inventory_cong:
  "manifest_files d2 = manifest_files d \<Longrightarrow> check_inventory d2 a refs = check_inventory d a refs"
proof (induction refs)
  case (Cons r refs)
  then have "read_repack_plan d2 k = read_repack_plan d k" for k by (simp add: read_repack_plan_def)
  then show ?case using Cons by (simp split: option.split)
qed simp

lemma start_recovery_ok:
  assumes "meta_file (exec_ops ops d) = Some m" "valid_meta m" "check_inventory (exec_ops ops d) (meta_acked m) (meta_refs m)"
  shows "\<exists>rv. start_recovery d ops io = (rv, None) \<and> rv_disk rv = exec_ops ops d \<and> next_seq (rv_queue rv) = meta_next m
    \<and> last_acked (rv_queue rv) = meta_acked m \<and> unacked (rv_queue rv) = []"
  using assms by (simp add: start_recovery_def Let_def fresh_queue_def)


section \<open>Properties\<close>

text \<open>C2: recovery survives a crash at every point. Whatever calls of a recovery took effect before a crash - the
  new metadata, any number of moved segments, any byte of a copied prefix, the link, the replacement - the
  next start completes or undoes the interrupted quarantine, succeeds, and queues exactly the batches the
  recovery would have queued had it not been interrupted, with a counter at least as far.\<close>

theorem recovery_crash_safe:
  assumes "disk_quiet d" "plausible cd d" "start_recovery d [] io = (rv0, None)" "recover_queue cd opts rv0 = (rv1, None)"
  shows "\<exists>rec rv2 rv3. recover_interrupted cd (exec_ops (take k (rv_log rv1)) d) = (rec, True)
    \<and> start_recovery (exec_ops (take k (rv_log rv1)) d) rec io' = (rv2, None) \<and> recover_queue cd opts rv2 = (rv3, None)
    \<and> unacked (rv_queue rv3) = unacked (rv_queue rv1) \<and> next_seq (rv_queue rv1) \<le> next_seq (rv_queue rv3)"
proof -
  obtain m where m: "meta_file (rv_disk rv0) = Some m" "valid_meta m" "check_inventory (rv_disk rv0) (meta_acked m) (meta_refs m)"
    "next_seq (rv_queue rv0) = meta_next m" "last_acked (rv_queue rv0) = meta_acked m" "unacked (rv_queue rv0) = []"
    "repacks (rv_queue rv0) = []" "reserved_until (rv_queue rv0) = 0"
    and start: "meta_file d \<noteq> None \<and> rv_log rv0 = [] \<and> rv_disk rv0 = d
        \<or> meta_file d = None \<and> rv_log rv0 = [PutMeta initial_meta] \<and> rv_disk rv0 = exec_op (PutMeta initial_meta) d"
    using start_recovery_facts [OF assms(3)] by auto
  have q: "disk_quiet (rv_disk rv0)" using start assms(1) by (auto simp del: exec_op.simps)
  have p: "plausible cd (rv_disk rv0)" using start assms(2) by (auto simp: plausible_def simp del: exec_op.simps)
  obtain ops where mono: "next_seq (rv_queue rv0) \<le> next_seq (rv_queue rv1)" and log: "rv_log rv1 = rv_log rv0 @ ops"
    and re: "\<And>k. restarts cd opts rv0 rv1 (exec_ops (take k ops) (rv_disk rv0))"
    using recover_queue_restarts [OF q p m(6) assms(4)] by blast
  have again: "\<exists>rv2 rv3. start_recovery dk rec io' = (rv2, None) \<and> recover_queue cd opts rv2 = (rv3, None)
      \<and> unacked (rv_queue rv3) = unacked (rv_queue rv1) \<and> next_seq (rv_queue rv1) \<le> next_seq (rv_queue rv3)"
    if r: "restarts cd opts rv0 rv1 dk" "recover_interrupted cd dk = (rec, True)" for dk rec
  proof -
    let ?cm = "current_meta ((rv_queue rv0)\<lparr>next_seq := next_seq (rv_queue rv1)\<rparr>)"
    have r2: "manifest_files (exec_ops rec dk) = manifest_files (rv_disk rv0)"
      "meta_file (exec_ops rec dk) = Some m \<or> meta_file (exec_ops rec dk) = Some ?cm"
      "rv_disk rv2 = exec_ops rec dk \<Longrightarrow> last_acked (rv_queue rv2) = last_acked (rv_queue rv0) \<Longrightarrow> unacked (rv_queue rv2) = []
        \<Longrightarrow> next_seq (rv_queue rv0) \<le> next_seq (rv_queue rv2)
        \<Longrightarrow> (\<forall>m. meta_file (exec_ops rec dk) = Some m \<longrightarrow> meta_next m \<le> next_seq (rv_queue rv2))
        \<Longrightarrow> \<exists>rv3. recover_queue cd opts rv2 = (rv3, None) \<and> unacked (rv_queue rv3) = unacked (rv_queue rv1)
              \<and> next_seq (rv_queue rv1) \<le> next_seq (rv_queue rv3)" for rv2 :: recovery
      using r m(1) by (auto simp: restarts_def Let_def)
    have cm: "valid_meta ?cm" "meta_refs ?cm = []" "meta_acked ?cm = meta_acked m" "meta_next ?cm = next_seq (rv_queue rv1)"
      using m mono by (auto simp: valid_meta_def current_meta_def repack_references_def not_less intro: less_le_trans)
    obtain m' where m': "meta_file (exec_ops rec dk) = Some m'" "valid_meta m'" "meta_acked m' = meta_acked m"
      "next_seq (rv_queue rv0) \<le> meta_next m'" "check_inventory (exec_ops rec dk) (meta_acked m') (meta_refs m')"
      using r2(2) m cm mono check_inventory_cong [OF r2(1)] by (elim disjE) auto
    obtain rv2 where rv2: "start_recovery dk rec io' = (rv2, None)" "rv_disk rv2 = exec_ops rec dk" "next_seq (rv_queue rv2) = meta_next m'"
      "last_acked (rv_queue rv2) = meta_acked m'" "unacked (rv_queue rv2) = []"
      using start_recovery_ok [OF m'(1,2,5)] by blast
    show ?thesis using r2(3) [OF rv2(2)] rv2 m' m(5) by auto
  qed
  show ?thesis
  proof (cases "meta_file d = None \<and> k = 0")
    case True
    have "start_recovery d [] io' = (rv0\<lparr>rv_queue := (rv_queue rv0)\<lparr>io_left := io'\<rparr>\<rparr>, None)"
      using assms(3) True by (auto simp: start_recovery_def Let_def perform_def fresh_queue_def)
    then obtain rv2 where rv2: "start_recovery d [] io' = (rv2, None)" "rv_disk rv2 = rv_disk rv0" "next_seq (rv_queue rv2) = next_seq (rv_queue rv0)"
      "last_acked (rv_queue rv2) = last_acked (rv_queue rv0)" "unacked (rv_queue rv2) = []" using m(6) by auto
    have "\<exists>rv3. recover_queue cd opts rv2 = (rv3, None) \<and> unacked (rv_queue rv3) = unacked (rv_queue rv1)
              \<and> next_seq (rv_queue rv1) \<le> next_seq (rv_queue rv3)"
      using re [of 0] quiet_recovers [OF q] rv2 m(1,4) by (auto simp: restarts_def Let_def)
    then show ?thesis using True rv2(1) quiet_recovers [OF assms(1), of cd] by auto
  next
    case False
    then have "\<exists>j. exec_ops (take k (rv_log rv1)) d = exec_ops (take j ops) (rv_disk rv0)"
      using start by (cases k) (auto simp: log intro: exI [of _ 0])
    then obtain j where j: "exec_ops (take k (rv_log rv1)) d = exec_ops (take j ops) (rv_disk rv0)" by blast
    obtain rec where "recover_interrupted cd (exec_ops (take j ops) (rv_disk rv0)) = (rec, True)"
      using re [of j] by (auto simp: restarts_def)
    with again [OF re [of j] this] show ?thesis unfolding j by blast
  qed
qed

text \<open>A directory after a crash in the middle of an append: one intact record and five bytes of the next.\<close>

definition torn_batch :: event_batch where
  "torn_batch = demo_batch\<lparr>event_ids_sha256 := case_option [] id (compute_event_ids_digest []), uncompressed_size_bytes := uncompressed_event_bytes demo_codec []\<rparr>"

definition torn_codec :: codec where
  "torn_codec = demo_codec\<lparr>unmarshal := (\<lambda>p. if p = ''x'' then Some torn_batch else None)\<rparr>"

definition torn_file :: bytes where
  "torn_file = segment_bytes [(''x'', torn_batch)] @ take 5 (record_bytes ''x'')"

definition torn_disk :: disk where
  "torn_disk = \<lparr>entries = [(segment_name 1, 0)], inodes = [torn_file], meta_file = None, manifest_files = []\<rparr>"

lemma torn_fields [simp]:
  "is_uuid_v4 torn_codec x" "timestamp_valid torn_codec t" "uncompressed_event_bytes torn_codec [] = uncompressed_event_bytes demo_codec []"
  "collector_id torn_batch = ''c''" "batch_id torn_batch = ''b''" "batch_sequence torn_batch = 1" "batch_created_at torn_batch = Some 0"
  "batch_events torn_batch = []" "uncompressed_size_bytes torn_batch = uncompressed_event_bytes demo_codec []"
  "event_ids_sha256 torn_batch = case_option [] id (compute_event_ids_digest [])"
  by (simp_all add: torn_codec_def demo_codec_def torn_batch_def demo_batch_def uncompressed_event_bytes_def)

lemma torn_payload_ok: "payload_ok torn_codec (''x'', torn_batch)"
  by (simp add: payload_ok_def torn_codec_def)

lemma torn_scan:
  "scan_segment torn_codec torn_file =
    (\<lparr>file_size = 14, record_count = 1, bad_offset = 9, corrupt = True\<rparr>,
     [\<lparr>payload_off = 8, payload_len = 1, record_crc = crc32c ''x'', record_batch = torn_batch\<rparr>])"
  using scan_segment_intact [of "[(''x'', torn_batch)]" torn_codec torn_file "take 5 (record_bytes ''x'')"]
    next_record_truncated [OF torn_payload_ok, of 5 5]
  by (simp add: torn_payload_ok torn_file_def) (simp add: record_bytes_def be32_def)

lemma torn_disk_files: "seg_files torn_disk = [1 \<mapsto> torn_file]"
  by (auto simp: seg_files_def contents_def torn_disk_def segment_name_inj fun_eq_iff)

lemma torn_disk_quiet: "disk_quiet torn_disk"
proof -
  have "disk_wf torn_disk" by (simp add: disk_wf_def torn_disk_def)
  moreover have "no_rewrites torn_disk" using rewrite_form(5) by (auto simp: no_rewrites_def exists_file_def torn_disk_def)
  moreover have "unshared torn_disk (segment_name t)" for t by (auto simp: unshared_def same_file_def torn_disk_def)
  ultimately show ?thesis by (simp add: disk_quiet_def)
qed

lemma torn_disk_plausible: "plausible torn_codec torn_disk"
proof -
  have "rseq r \<noteq> last_of_all" if "r \<in> set (snd (scan_segment torn_codec torn_file))" for r
    using that by (simp add: torn_scan last_of_all_def)
  moreover have "length torn_file = 14" using arg_cong [OF torn_scan, of "\<lambda>x. file_size (fst x)"]
    by (simp add: torn_file_def record_bytes_def be32_def)
  ultimately show ?thesis by (auto simp: plausible_def torn_disk_files below_top_def list_all_iff)
qed

definition torn_opts :: wal_options where
  "torn_opts = \<lparr>opt_max_queue_bytes = 0, opt_segment_max_bytes = 0, opt_sync = SyncAlways,
     opt_reservation = 2, opt_collector_id = ''c''\<rparr>"

lemma torn_scan_recoverable:
  "\<exists>sc. scan_recoverable_segment torn_codec torn_opts 0 (segment_name 1) torn_file
       \<lparr>last_sequence = 0, batch_ids = [], maximum_sequence = 1\<rparr>
     = Inr (\<lparr>file_size = 14, record_count = 1, bad_offset = 9, corrupt = True\<rparr>, sc) \<and> sc_valid sc = 1
     \<and> sc_descs sc = [recovered_desc (segment_name 1)
          \<lparr>payload_off = 8, payload_len = 1, record_crc = crc32c ''x'', record_batch = torn_batch\<rparr>]
     \<and> maximum_sequence (sc_marks sc) = 2"
  by (simp add: scan_recoverable_segment_def walk_segment_visits torn_scan start_scan_def visit_recoverable_def Let_def
      validate_recovered_ownership_def validate_recovered_record_def observe_floor_eq floor_addition_def minimum_record_bytes_def
      raise_maximum_def torn_opts_def)

lemma torn_recovers:
  assumes "rv_disk rv = exec_op (PutMeta initial_meta) torn_disk" "last_acked (rv_queue rv) = 0"
  shows "\<exists>rv1. recover_queue torn_codec torn_opts rv = (rv1, None) \<and> map desc_seq (unacked (rv_queue rv1)) = map desc_seq (unacked (rv_queue rv)) @ [1]"
proof -
  have ls: "list_segments (rv_disk rv) = [segment_name 1]"
    using list_segments_unique [of "[1]" "rv_disk rv"] by (simp add: assms(1) torn_disk_files del: exec_op.simps)
  have c: "contents (rv_disk rv) (segment_name 1) = Some torn_file" using torn_disk_files by (simp add: assms(1) contents_seg del: exec_op.simps)
  obtain sc where sc: "scan_recoverable_segment torn_codec torn_opts 0 (segment_name 1) torn_file
       \<lparr>last_sequence = 0, batch_ids = [], maximum_sequence = 1\<rparr>
     = Inr (\<lparr>file_size = 14, record_count = 1, bad_offset = 9, corrupt = True\<rparr>, sc)" "sc_valid sc = 1"
     "sc_descs sc = [recovered_desc (segment_name 1)
          \<lparr>payload_off = 8, payload_len = 1, record_crc = crc32c ''x'', record_batch = torn_batch\<rparr>]" "maximum_sequence (sc_marks sc) = 2"
    using torn_scan_recoverable by blast
  have top: "maximum_sequence (sc_marks sc) \<noteq> last_of_all" by (simp add: sc(4) last_of_all_def)
  obtain rvp where p: "persist_recovered_sequence_floor (maximum_sequence (sc_marks sc)) rv = (rvp, None)"
    using persist_floor_ok [OF top] by blast
  obtain mt where mt: "rv_queue rvp = (rv_queue rv)\<lparr>next_seq := max (next_seq (rv_queue rv)) (maximum_sequence (sc_marks sc) + 1), meta := mt\<rparr>"
    by (rule persist_floor_facts [OF p]) blast
  have "barrier_at torn_codec torn_opts rv (segment_name 1) [] no_marks torn_file
      \<lparr>file_size = 14, record_count = 1, bad_offset = 9, corrupt = True\<rparr> sc (sc_marks sc) rvp"
    using c sc(1) p by (simp add: barrier_at_def assms(2) raise_maximum_def)
  from barrier_recover [OF this] ls
  have "recover_segments torn_codec torn_opts (list_segments (rv_disk rv)) no_marks rv =
    (repair_barrier (segment_name 1) [] \<lparr>file_size = 14, record_count = 1, bad_offset = 9, corrupt = True\<rparr> sc rvp, Inr (sc_marks sc))" by simp
  from recover_queue_segments [OF this top] obtain rv1 where "recover_queue torn_codec torn_opts rv = (rv1, None)"
    "unacked (rv_queue rv1) = unacked (rv_queue rv) @ sc_descs sc" by (auto simp: repair_fields sc(2) mt)
  then show ?thesis by (simp add: sc(3) recovered_desc_def Let_def)
qed

theorem recovery_crash_safe_witness:
  "\<exists>rv0 rv1. start_recovery torn_disk [] [] = (rv0, None) \<and> recover_queue torn_codec torn_opts rv0 = (rv1, None)
     \<and> map desc_seq (unacked (rv_queue rv1)) = [1]
     \<and> (\<exists>rec rv2 rv3. recover_interrupted torn_codec (exec_ops (take 6 (rv_log rv1)) torn_disk) = (rec, True)
       \<and> start_recovery (exec_ops (take 6 (rv_log rv1)) torn_disk) rec [] = (rv2, None) \<and> recover_queue torn_codec torn_opts rv2 = (rv3, None)
       \<and> unacked (rv_queue rv3) = unacked (rv_queue rv1) \<and> next_seq (rv_queue rv1) \<le> next_seq (rv_queue rv3))"
proof -
  obtain rv0 where rv0: "start_recovery torn_disk [] [] = (rv0, None)" "rv_disk rv0 = exec_op (PutMeta initial_meta) torn_disk"
    "last_acked (rv_queue rv0) = 0" "unacked (rv_queue rv0) = []"
    by (simp add: start_recovery_def perform_def fresh_queue_def torn_disk_def)
  obtain rv1 where rv1: "recover_queue torn_codec torn_opts rv0 = (rv1, None)" "map desc_seq (unacked (rv_queue rv1)) = [1]"
    using torn_recovers [OF rv0(2,3)] rv0(4) by auto
  show ?thesis
    using recovery_crash_safe [OF torn_disk_quiet torn_disk_plausible rv0(1) rv1(1), of 6 "[]"] rv0(1) rv1
    by (intro exI [of _ rv0] exI [of _ rv1] conjI)
qed

lemma first_free_least:
  "\<exists>j\<ge>i. first_free names base i = numbered base j \<and> (\<forall>k. i \<le> k \<longrightarrow> k < j \<longrightarrow> numbered base k \<in> set names)"
proof (induction names base i rule: first_free.induct)
  case (1 names base i)
  show ?case
  proof (cases "numbered base i \<in> set names")
    case True
    obtain j where "i + 1 \<le> j" "first_free names base (i + 1) = numbered base j"
      "\<forall>k. i + 1 \<le> k \<longrightarrow> k < j \<longrightarrow> numbered base k \<in> set names" using "1.IH" [OF True] by blast
    then show ?thesis using True
      by (intro exI [of _ j]) (auto simp: first_free.simps [of names base i] Suc_le_eq nat_less_le)
  qed (auto simp: first_free.simps [of names base i])
qed

text \<open>The candidates of \<open>uniqueCorruptName\<close> in the order it tries them.\<close>

definition corrupt_candidate :: "string \<Rightarrow> nat \<Rightarrow> string" where
  "corrupt_candidate base j = (if j = 0 then base else numbered base j)"

lemma corrupt_candidate_inj: "inj (corrupt_candidate base)"
  by (auto simp: inj_def corrupt_candidate_def numbered_def decimal_inj)

text \<open>C33: the search for a free name ends.  It returns the first candidate that names no file, and tries
  at most one candidate more than the directory has entries.\<close>

theorem unique_corrupt_name_terminates:
  "\<exists>j \<le> length (entries d). unique_corrupt_name d base = corrupt_candidate base j
    \<and> \<not> exists_file d (corrupt_candidate base j) \<and> (\<forall>i < j. exists_file d (corrupt_candidate base i))"
proof -
  obtain j where j: "unique_corrupt_name d base = corrupt_candidate base j" "\<forall>i < j. exists_file d (corrupt_candidate base i)"
  proof (cases "exists_file d base")
    case False
    then show thesis by (intro that [of 0]) (auto simp: unique_corrupt_name_def corrupt_candidate_def)
  next
    case True
    obtain j where j: "1 \<le> j" "first_free (map fst (entries d)) base 1 = numbered base j"
      "\<forall>k. 1 \<le> k \<longrightarrow> k < j \<longrightarrow> numbered base k \<in> set (map fst (entries d))"
      using first_free_least [of 1 "map fst (entries d)" base] by blast
    then show thesis using True
      by (intro that [of j]) (auto simp: unique_corrupt_name_def corrupt_candidate_def exists_file_iff)
  qed
  have "corrupt_candidate base ` {..<j} \<subseteq> set (map fst (entries d))" using j(2) by (auto simp: exists_file_iff)
  then have "card {..<j} \<le> length (map fst (entries d))"
    by (rule order_trans [OF card_inj_on_le [OF inj_on_subset [OF corrupt_candidate_inj subset_UNIV] _ finite_set] card_length])
  then have "j \<le> length (entries d)" by simp
  then show ?thesis using j unique_corrupt_name_fresh [of d base] by auto
qed

theorem unique_corrupt_name_terminates_witness:
  "unique_corrupt_name torn_disk (segment_name 1) = segment_name 1 @ ''.1''"
proof -
  have ex: "exists_file torn_disk n \<longleftrightarrow> n = segment_name 1" for n by (auto simp: exists_file_def torn_disk_def)
  obtain j where j: "j \<le> 1" "unique_corrupt_name torn_disk (segment_name 1) = corrupt_candidate (segment_name 1) j"
    "\<not> exists_file torn_disk (corrupt_candidate (segment_name 1) j)"
    using unique_corrupt_name_terminates [of torn_disk "segment_name 1"] by (auto simp: torn_disk_def)
  moreover have "j \<noteq> 0" using j(3) by (intro notI) (simp add: ex corrupt_candidate_def)
  ultimately have "j = 1" by simp
  moreover have "decimal (Suc 0) = ''1''" by code_simp
  ultimately show ?thesis using j(2) by (simp add: corrupt_candidate_def numbered_def)
qed

text \<open>C3: a quarantine refines one atomic step on the directory.  Done to the end, it maps the name of the
  evidence to the old bytes and the segment to its intact prefix, or to nothing when nothing is intact; every other name keeps its
  file.  Interrupted after any of its calls, a byte of the copy included, what the next start completes
  or undoes is the directory before or the directory after.\<close>

theorem quarantine_refines_map:
  assumes "disk_quiet d" "contents d (segment_name s) = Some data" "cut_point cd data off"
    "ops = quarantine_tail d (segment_name s) off"
    "after = (contents d)(unique_corrupt_name d (segment_name s @ ''.corrupt'') \<mapsto> data,
      segment_name s := (if off = 0 then None else Some (take off data)))"
  shows "contents (exec_ops ops d) = after \<and> (\<forall>k. \<exists>rec. recover_interrupted cd (exec_ops (take k ops) d) = (rec, True)
    \<and> disk_quiet (exec_ops rec (exec_ops (take k ops) d)) \<and> contents (exec_ops rec (exec_ops (take k ops) d)) \<in> {contents d, after})"
  using quarantine_result(1) [OF assms(1-3)] quarantine_recovers [OF assms(1-3)] unfolding assms(4,5) by simp

lemma torn_prefix: "take 9 torn_file = segment_bytes [(''x'', torn_batch)]"
  by (simp add: torn_file_def record_bytes_def be32_def)

lemma torn_cut_point: "cut_point torn_codec torn_file 9"
proof -
  have "scan_segment torn_codec (take 9 torn_file) = (\<lparr>file_size = 9, record_count = 1, bad_offset = 0, corrupt = False\<rparr>,
     [\<lparr>payload_off = 8, payload_len = 1, record_crc = crc32c ''x'', record_batch = torn_batch\<rparr>])"
    using scan_segment_intact [of "[(''x'', torn_batch)]" torn_codec "take 9 torn_file" "[]"]
    by (simp add: torn_payload_ok torn_prefix record_bytes_def be32_def)
  moreover have "length torn_file = 14" using arg_cong [OF torn_scan, of "\<lambda>x. file_size (fst x)"]
    by (simp add: torn_file_def record_bytes_def be32_def)
  ultimately show ?thesis by (simp add: cut_point_def)
qed

theorem quarantine_refines_map_witness:
  "contents (exec_ops (quarantine_tail torn_disk (segment_name 1) 9) torn_disk) (segment_name 1) = Some (take 9 torn_file)
    \<and> length (quarantine_tail torn_disk (segment_name 1) 9) > 9"
proof -
  have c: "contents torn_disk (segment_name 1) = Some torn_file" using torn_disk_files by (simp add: contents_seg)
  have "length torn_file = 14" using arg_cong [OF torn_scan, of "\<lambda>x. file_size (fst x)"]
    by (simp add: torn_file_def record_bytes_def be32_def)
  then have "length (quarantine_tail torn_disk (segment_name 1) 9) > 9"
    by (simp add: quarantine_tail_def Let_def c write_synced_prefix_def)
  then show ?thesis
    using quarantine_refines_map [OF torn_disk_quiet c torn_cut_point refl refl] by simp
qed

end
