(* ===== verification/Framing.thy ===== *)
theory Framing
  imports Prelude
begin

text \<open>
  \<open>internal/collector/framing/framing.go\<close>: the two framers that split a byte stream into events, and the
  contract both keep, which is the interface \<open>Framer\<close> of the source.

  A reader is the list of the results of its calls, so the theorems hold for every way of cutting the stream
  into chunks and for reads that fail; the pattern of the multiline framer is any predicate on a line.  Both
  \<open>Next\<close> loops are total functions: each turn consumes a read, or bytes of the buffer, or returns.
\<close>

section \<open>Frames, options, the shared source\<close>

record frame =
  frame_bytes :: bytes
  start_offset :: u64
  end_offset :: u64
  line_number :: u64
  next_line_number :: u64

definition zero_frame :: frame where
  "zero_frame = \<lparr>frame_bytes = [], start_offset = 0, end_offset = 0, line_number = 0, next_line_number = 0\<rparr>"

datatype framing_error =
    EndOfFile
  | ErrPartialFrame
  | ErrEventTooLarge
  | ErrEventTooLargeIncomplete
  | ErrLineNumberOverflow
  | ErrRead string
  | ErrInvalidOptions

record framing_options =
  start_line_number :: u64
  max_event_bytes :: int
  line_start_pattern :: "(bytes \<Rightarrow> bool) option"
  max_lines :: int

definition default_max_event_bytes :: nat where
  "default_max_event_bytes = 1048576"

text \<open>
  An \<open>io.Reader\<close> is the list of the results its calls will give: the bytes read, and no error, the end
  of the file, or another error.  Behind the list every call gives the end of the file.
\<close>

datatype read_status = ReadOk | ReadEOF | ReadFailed string

type_synonym reader = "(bytes \<times> read_status) list"

record source =
  src_reader :: reader
  src_buf :: bytes
  src_off :: u64
  src_eof :: bool

text \<open>\<open>source.fill\<close>.\<close>

fun fill_loop :: "reader \<Rightarrow> bytes \<Rightarrow> reader \<times> bytes \<times> bool \<times> framing_error option" where
  "fill_loop [] buf = ([], buf, True, None)"
| "fill_loop ((data, ReadEOF) # r) buf = (r, buf @ data, True, None)"
| "fill_loop ((data, ReadFailed e) # r) buf = (r, buf @ data, False, Some (ErrRead e))"
| "fill_loop ((data, ReadOk) # r) buf =
     (if data \<noteq> [] then (r, buf @ data, False, None) else fill_loop r buf)"

definition fill :: "'a source_scheme \<Rightarrow> 'a source_scheme \<times> framing_error option" where
  "fill s =
     (if src_eof s then (s, None)
      else case fill_loop (src_reader s) (src_buf s) of
          (r, buf, eof, e) \<Rightarrow> (s\<lparr>src_reader := r, src_buf := buf, src_eof := eof\<rparr>, e))"

text \<open>How much reading is left: what makes the loops below end.\<close>

definition budget :: "'a source_scheme \<Rightarrow> nat" where
  "budget s = (if src_eof s then 0 else Suc (length (src_reader s)))"

lemma fill_loop_budget: "fill_loop r buf = (r', buf', eof, e) \<Longrightarrow> eof \<and> e = None \<or> length r' < length r"
  by (induction r buf rule: fill_loop.induct) (auto split: if_splits)

lemma fill_budget: "fill s = (s', e) \<Longrightarrow> \<not> src_eof s \<Longrightarrow> budget s' < budget s"
  by (auto simp: fill_def budget_def split: prod.splits dest!: fill_loop_budget)

definition normalized_start_line :: "u64 \<Rightarrow> u64" where
  "normalized_start_line line = (if line = 0 then 1 else line)"

definition can_advance_line_number :: "u64 \<Rightarrow> bool" where
  "can_advance_line_number line \<longleftrightarrow> line < 0xFFFFFFFFFFFFFFFF - 1"

definition event_limit :: "framing_options \<Rightarrow> nat" where
  "event_limit opts = (if max_event_bytes opts \<le> 0 then default_max_event_bytes else nat (max_event_bytes opts))"

section \<open>The line framer\<close>

record line_framer = source +
  lf_line :: u64
  lf_max :: nat

definition new_line_framer :: "reader option \<Rightarrow> u64 \<Rightarrow> framing_options \<Rightarrow> framing_error + line_framer" where
  "new_line_framer r offset opts =
     (case r of None \<Rightarrow> Inl ErrInvalidOptions
      | Some rd \<Rightarrow> Inr \<lparr>src_reader = rd, src_buf = [], src_off = offset, src_eof = False,
          lf_line = normalized_start_line (start_line_number opts), lf_max = event_limit opts\<rparr>)"

definition emit_line :: "nat \<Rightarrow> line_framer \<Rightarrow> frame \<times> line_framer" where
  "emit_line i f =
     (let record_bytes = take (i + 1) (src_buf f);
          content = trim_cr (take (length record_bytes - 1) record_bytes);
          end = src_off f + of_nat (length record_bytes);
          f' = f\<lparr>src_buf := drop (length record_bytes) (src_buf f), src_off := end, lf_line := lf_line f + 1\<rparr>
      in (\<lparr>frame_bytes = content, start_offset = src_off f, end_offset = end, line_number = lf_line f, next_line_number = lf_line f'\<rparr>, f'))"

definition emit_too_large :: "line_framer \<Rightarrow> (frame \<times> framing_error option) \<times> line_framer" where
  "emit_too_large f =
     (if \<not> can_advance_line_number (lf_line f) then ((zero_frame, Some ErrLineNumberOverflow), f)
      else let out = take (lf_max f) (src_buf f) in
        case index_byte LF (src_buf f) of
          Some i \<Rightarrow>
            (let end = src_off f + of_nat (i + 1);
                 f' = f\<lparr>src_buf := drop (i + 1) (src_buf f), src_off := end, lf_line := lf_line f + 1\<rparr>
             in ((\<lparr>frame_bytes = out, start_offset = src_off f, end_offset = end, line_number = lf_line f,
                   next_line_number = lf_line f'\<rparr>, Some ErrEventTooLarge), f'))
        | None \<Rightarrow>
            (let end = src_off f + of_nat (length (src_buf f));
                 f' = f\<lparr>src_buf := [], src_off := end\<rparr>
             in ((\<lparr>frame_bytes = out, start_offset = src_off f, end_offset = end, line_number = lf_line f,
                   next_line_number = lf_line f'\<rparr>, Some ErrEventTooLargeIncomplete), f')))"

text \<open>The bytes a line in the buffer would have in its frame: its delimiter, or a possible half of one, aside.\<close>

definition line_content_bytes :: "bytes \<Rightarrow> nat" where
  "line_content_bytes buf =
     (case index_byte LF buf of
        Some i \<Rightarrow> if i > 0 \<and> buf ! (i - 1) = CR then i - 1 else i
      | None \<Rightarrow> if buf \<noteq> [] \<and> last buf = CR then length buf - 1 else length buf)"

function line_next :: "line_framer \<Rightarrow> (frame \<times> framing_error option) \<times> line_framer" where
  "line_next f =
     (if line_content_bytes (src_buf f) > lf_max f then emit_too_large f
      else case index_byte LF (src_buf f) of
        Some i \<Rightarrow>
          (if \<not> can_advance_line_number (lf_line f) then ((zero_frame, Some ErrLineNumberOverflow), f)
           else let (fr, f') = emit_line i f in ((fr, None), f'))
      | None \<Rightarrow>
          (if src_eof f then
             (if src_buf f = [] then ((zero_frame, Some EndOfFile), f)
              else if \<not> can_advance_line_number (lf_line f) then ((zero_frame, Some ErrLineNumberOverflow), f)
              else ((zero_frame, Some ErrPartialFrame), f))
           else case fill f of
               (f', Some e) \<Rightarrow> ((zero_frame, Some e), f')
             | (f', None) \<Rightarrow> line_next f'))"
  by pat_completeness auto
termination
  by (relation "measure budget") (auto dest: fill_budget sym)

declare line_next.simps [simp del]

definition line_pending :: "line_framer \<Rightarrow> u64 \<times> nat" where
  "line_pending f = (src_off f, length (src_buf f))"

definition line_flush :: "line_framer \<Rightarrow> (frame \<times> bool \<times> framing_error option) \<times> line_framer" where
  "line_flush f =
     (if src_buf f = [] then ((zero_frame, False, None), f)
      else if \<not> can_advance_line_number (lf_line f) then ((zero_frame, False, Some ErrLineNumberOverflow), f)
      else
        let content1 = (if last (src_buf f) = LF then butlast (src_buf f) else src_buf f);
            content = trim_cr content1;
            flush_err = (if length content > lf_max f then Some ErrEventTooLarge else None);
            end = src_off f + of_nat (length (src_buf f));
            f' = f\<lparr>src_off := end, src_buf := [], lf_line := lf_line f + 1\<rparr>
        in ((\<lparr>frame_bytes = take (lf_max f) content, start_offset = src_off f, end_offset = end, line_number = lf_line f,
              next_line_number = lf_line f'\<rparr>, True, flush_err), f'))"

section \<open>The multiline framer\<close>

record multiline_framer = source +
  ml_pattern :: "bytes \<Rightarrow> bool"
  ml_max_lines :: int
  ml_max :: nat
  ml_event :: bytes
  ml_start :: u64
  ml_line :: u64
  ml_lines :: int
  ml_delim :: nat
  ml_started :: bool
  ml_discarding :: bool
  ml_discard_partial :: bool
  ml_next_line :: u64
  ml_pending :: "(frame \<times> framing_error option) list"

definition new_multiline_framer :: "reader option \<Rightarrow> u64 \<Rightarrow> framing_options \<Rightarrow> framing_error + multiline_framer" where
  "new_multiline_framer r offset opts =
     (case r of None \<Rightarrow> Inl ErrInvalidOptions
      | Some rd \<Rightarrow>
        (case line_start_pattern opts of None \<Rightarrow> Inl ErrInvalidOptions
         | Some pattern \<Rightarrow> Inr \<lparr>src_reader = rd, src_buf = [], src_off = offset, src_eof = False,
             ml_pattern = pattern, ml_max_lines = max_lines opts, ml_max = event_limit opts, ml_event = [], ml_start = 0,
             ml_line = 0, ml_lines = 0, ml_delim = 0, ml_started = False, ml_discarding = False, ml_discard_partial = False,
             ml_next_line = normalized_start_line (start_line_number opts), ml_pending = []\<rparr>))"

text \<open>The buffered bytes without a trailing carriage return, which may be half of a delimiter.\<close>

definition pending_line_content_bytes :: "multiline_framer \<Rightarrow> nat" where
  "pending_line_content_bytes m = length (trim_cr (src_buf m))"

definition pending_content_bytes :: "multiline_framer \<Rightarrow> int" where
  "pending_content_bytes m =
     (let n = int (length (ml_event m)) + int (length (src_buf m)) in
      if src_buf m = [] then (if ml_started m then n - int (ml_delim m) else n)
      else if last (src_buf m) = CR then n - 1 else n)"

definition begin_event :: "multiline_framer \<Rightarrow> multiline_framer" where
  "begin_event m = m\<lparr>ml_event := [], ml_start := src_off m, ml_line := ml_next_line m, ml_lines := 0, ml_delim := 0, ml_started := True\<rparr>"

definition consume_line :: "nat \<Rightarrow> nat \<Rightarrow> multiline_framer \<Rightarrow> multiline_framer \<times> framing_error option" where
  "consume_line len delim m =
     (if \<not> can_advance_line_number (ml_next_line m) then (m, Some ErrLineNumberOverflow)
      else (m\<lparr>ml_event := ml_event m @ take len (src_buf m), src_buf := drop len (src_buf m),
              src_off := src_off m + of_nat (length (take len (src_buf m))), ml_lines := ml_lines m + 1, ml_delim := delim,
              ml_next_line := ml_next_line m + 1\<rparr>, None))"

definition reset_event :: "multiline_framer \<Rightarrow> multiline_framer" where
  "reset_event m = m\<lparr>ml_event := [], ml_started := False, ml_lines := 0, ml_delim := 0\<rparr>"

definition finish_event_len :: "nat \<Rightarrow> multiline_framer \<Rightarrow> frame \<times> multiline_framer" where
  "finish_event_len n m =
     (\<lparr>frame_bytes = take n (ml_event m), start_offset = ml_start m, end_offset = ml_start m + of_nat (length (ml_event m)),
       line_number = ml_line m, next_line_number = ml_next_line m\<rparr>, reset_event m)"

definition finish_event :: "multiline_framer \<Rightarrow> frame \<times> multiline_framer" where
  "finish_event m = finish_event_len (length (ml_event m) - ml_delim m) m"

definition finish_event_truncated :: "multiline_framer \<Rightarrow> frame \<times> multiline_framer" where
  "finish_event_truncated m = finish_event_len (min (ml_max m) (length (ml_event m))) m"

definition enqueue_frame :: "frame \<times> framing_error option \<Rightarrow> multiline_framer \<Rightarrow> multiline_framer" where
  "enqueue_frame pf m = m\<lparr>ml_pending := ml_pending m @ [pf]\<rparr>"

definition check_bounds :: "multiline_framer \<Rightarrow> multiline_framer" where
  "check_bounds m =
     (if \<not> ml_started m then m
      else if int (length (ml_event m)) - int (ml_delim m) > int (ml_max m) then
        (let (fr, m') = finish_event_truncated m
         in enqueue_frame (fr, Some ErrEventTooLarge) (m'\<lparr>ml_discarding := True, ml_discard_partial := False\<rparr>))
      else if ml_max_lines m > 0 \<and> ml_lines m \<ge> ml_max_lines m then
        (let (fr, m') = finish_event m in enqueue_frame (fr, None) m')
      else m)"

definition emit_oversized :: "multiline_framer \<Rightarrow> multiline_framer \<times> framing_error option" where
  "emit_oversized m =
     (if \<not> can_advance_line_number (ml_next_line m) then (m, Some ErrLineNumberOverflow)
      else
        let start = (if ml_started m then ml_start m else src_off m);
            line_no = (if ml_started m then ml_line m else ml_next_line m);
            combined = length (ml_event m) + length (src_buf m);
            out = take (min (ml_max m) combined) (ml_event m @ src_buf m);
            end = src_off m + of_nat (length (src_buf m));
            m' = reset_event (m\<lparr>src_off := end, src_buf := []\<rparr>)
        in (enqueue_frame (\<lparr>frame_bytes = out, start_offset = start, end_offset = end, line_number = line_no,
                            next_line_number = ml_next_line m\<rparr>, Some ErrEventTooLargeIncomplete)
              (m'\<lparr>ml_discarding := True, ml_discard_partial := True\<rparr>), None))"

definition discard_line :: "nat \<Rightarrow> multiline_framer \<Rightarrow> multiline_framer" where
  "discard_line n m = m\<lparr>src_buf := drop n (src_buf m), src_off := src_off m + of_nat n, ml_next_line := ml_next_line m + 1\<rparr>"

lemma index_byte_nonempty: "index_byte c xs = Some i \<Longrightarrow> xs \<noteq> []"
  by auto

text \<open>\<open>discardUntilStart\<close>.\<close>

function discard_until_start :: "multiline_framer \<Rightarrow> multiline_framer \<times> framing_error option" where
  "discard_until_start m =
     (if ml_discard_partial m then
        (case index_byte LF (src_buf m) of
           Some i \<Rightarrow>
             (if \<not> can_advance_line_number (ml_next_line m) then (m, Some ErrLineNumberOverflow)
              else discard_until_start ((discard_line (i + 1) m)\<lparr>ml_discard_partial := False\<rparr>))
         | None \<Rightarrow>
             (if src_eof m then (m, Some ErrPartialFrame)
              else case fill (m\<lparr>src_off := src_off m + of_nat (length (src_buf m)), src_buf := []\<rparr>) of
                  (m', Some e) \<Rightarrow> (m', Some e)
                | (m', None) \<Rightarrow> discard_until_start m'))
      else
        (case index_byte LF (src_buf m) of
           Some i \<Rightarrow>
             (if ml_pattern m (trim_cr (take i (src_buf m))) then (m\<lparr>ml_discarding := False\<rparr>, None)
              else if \<not> can_advance_line_number (ml_next_line m) then (m, Some ErrLineNumberOverflow)
              else discard_until_start (discard_line (i + 1) m))
         | None \<Rightarrow>
             (if src_eof m then (m, Some (if src_buf m \<noteq> [] then ErrPartialFrame else EndOfFile))
              else if length (trim_cr (src_buf m)) > ml_max m then discard_until_start (m\<lparr>ml_discard_partial := True\<rparr>)
              else case fill m of
                  (m', Some e) \<Rightarrow> (m', Some e)
                | (m', None) \<Rightarrow> discard_until_start m')))"
  by pat_completeness auto
termination
proof (relation "measures [budget, \<lambda>m. length (src_buf m), \<lambda>m. if ml_discard_partial m then 0 else 1]")
  show "wf (measures [budget, \<lambda>m. length (src_buf m), \<lambda>m. if ml_discard_partial m then 0 else (1 :: nat)])" by simp
qed (auto simp: discard_line_def budget_def dest!: fill_budget [OF sym] index_byte_nonempty)

declare discard_until_start.simps [simp del]

text \<open>One turn of the loop of \<open>Next\<close> that neither returns a queued frame nor discards.\<close>

definition start_event :: "bool \<Rightarrow> multiline_framer \<Rightarrow> multiline_framer" where
  "start_event is_start m =
     (if is_start \<and> ml_started m then let (fr, m') = finish_event m in begin_event (enqueue_frame (fr, None) m')
      else if \<not> ml_started m then begin_event m
      else m)"

definition accept_line :: "nat \<Rightarrow> multiline_framer \<Rightarrow> multiline_framer \<times> framing_error option" where
  "accept_line i m =
     (let content = take i (src_buf m);
          delim = (if content \<noteq> [] \<and> last content = CR then 2 else 1);
          is_start = ml_pattern m (trim_cr content)
      in case consume_line (i + 1) delim (start_event is_start m) of
          (m', Some e) \<Rightarrow> (m', Some e)
        | (m', None) \<Rightarrow> (check_bounds m', None))"

definition line_too_large :: "multiline_framer \<Rightarrow> bool" where
  "line_too_large m =
     (if ml_started m \<and> src_buf m \<noteq> []
      then (if src_eof m then False else pending_line_content_bytes m > ml_max m)
      else pending_content_bytes m > int (ml_max m))"

lemma fill_frame:
  fixes m m' :: multiline_framer
  assumes "fill m = (m', e)"
  shows "ml_pending m' = ml_pending m" "ml_discarding m' = ml_discarding m"
  using assms by (auto simp: fill_def split: prod.splits if_splits)

lemma discard_line_frame [simp]:
  "budget (discard_line n m) = budget m" "src_buf (discard_line n m) = drop n (src_buf m)"
  "ml_pending (discard_line n m) = ml_pending m"
  by (simp_all add: discard_line_def budget_def)

lemma budget_update [simp]:
  fixes m :: multiline_framer
  shows "budget (m\<lparr>ml_discard_partial := b\<rparr>) = budget m" "budget (m\<lparr>ml_discarding := b\<rparr>) = budget m"
    "budget (m\<lparr>src_off := x, src_buf := y\<rparr>) = budget m"
  by (simp_all add: budget_def)

lemma discard_until_start_progress:
  "discard_until_start m = (m', e) \<Longrightarrow> budget m' \<le> budget m \<and> (budget m' = budget m \<longrightarrow> length (src_buf m') \<le> length (src_buf m))
     \<and> ml_pending m' = ml_pending m \<and> (e = None \<longrightarrow> \<not> ml_discarding m')"
proof (induction m rule: discard_until_start.induct)
  case (1 m)
  have fl: "budget m1 < budget m \<and> ml_pending m1 = ml_pending m"
    if "fill m0 = (m1, e1)" "m0 = m \<or> (\<exists>x. m0 = m\<lparr>src_off := x, src_buf := []\<rparr>)" "\<not> src_eof m" for m0 m1 e1
    using fill_budget [OF that(1)] fill_frame [OF that(1)] that(2,3) by auto
  show ?case
  proof (cases "index_byte LF (src_buf m)")
    case (Some i)
    note IH = "1.IH"(2) [OF _ Some] "1.IH"(5) [OF _ Some]
    show ?thesis using "1.prems" IH Some by (subst (asm) discard_until_start.simps) (auto split: if_splits)
  next
    case None
    note IH = "1.IH"(1) [OF _ None _ sym] "1.IH"(3) [OF _ None] "1.IH"(4) [OF _ None _ _ sym]
    show ?thesis
    proof (cases "src_eof m")
      case True
      then show ?thesis using "1.prems" None by (subst (asm) discard_until_start.simps) (auto split: if_splits)
    next
      case False
      show ?thesis
      proof (cases "ml_discard_partial m")
        case True
        obtain m1 e1 where f: "fill (m\<lparr>src_off := src_off m + of_nat (length (src_buf m)), src_buf := []\<rparr>) = (m1, e1)" by fastforce
        have "budget m1 < budget m \<and> ml_pending m1 = ml_pending m" by (rule fl [OF f _ False]) blast
        then show ?thesis using "1.prems" IH(1) [OF True False f] None False True f
          by (subst (asm) discard_until_start.simps) (auto split: option.splits)
      next
        case nodisc: False
        obtain m1 e1 where f: "fill m = (m1, e1)" by fastforce
        have "budget m1 < budget m \<and> ml_pending m1 = ml_pending m" by (rule fl [OF f _ False]) blast
        then show ?thesis using "1.prems" IH(2) [OF nodisc False] IH(3) [OF nodisc False _ f] None False nodisc f
          by (subst (asm) discard_until_start.simps) (auto split: option.splits if_splits)
      qed
    qed
  qed
qed

lemmas assembly_defs = begin_event_def reset_event_def finish_event_len_def finish_event_def finish_event_truncated_def enqueue_frame_def

lemma check_bounds_frame [simp]: "budget (check_bounds m) = budget m" "src_buf (check_bounds m) = src_buf m"
  by (simp_all add: check_bounds_def assembly_defs budget_def)

lemma start_event_frame [simp]: "budget (start_event b m) = budget m" "src_buf (start_event b m) = src_buf m"
  by (simp_all add: start_event_def assembly_defs budget_def)

lemma consume_line_frame:
  "consume_line n d m = (m', None) \<Longrightarrow> budget m' = budget m \<and> src_buf m' = drop n (src_buf m)"
  by (auto simp: consume_line_def budget_def split: if_splits)

lemma accept_line_progress:
  assumes "index_byte LF (src_buf m) = Some i" "accept_line i m = (m', None)"
  shows "budget m' = budget m" "length (src_buf m') < length (src_buf m)"
proof -
  obtain m2 delim where m2: "consume_line (i + 1) delim (start_event (ml_pattern m (trim_cr (take i (src_buf m)))) m) = (m2, None)"
    "m' = check_bounds m2"
    using assms(2) by (auto simp: accept_line_def Let_def split: prod.splits option.splits)
  show "budget m' = budget m" "length (src_buf m') < length (src_buf m)"
    using consume_line_frame [OF m2(1)] m2(2) index_byte_nonempty [OF assms(1)] by auto
qed

lemma emit_oversized_progress:
  assumes "emit_oversized m = (m', None)"
  shows "budget m' = budget m" "length (src_buf m') \<le> length (src_buf m)" "ml_pending m' \<noteq> []"
  using assms by (auto simp: emit_oversized_def Let_def enqueue_frame_def reset_event_def budget_def split: if_splits)

function multi_next :: "multiline_framer \<Rightarrow> (frame \<times> framing_error option) \<times> multiline_framer" where
  "multi_next m =
     (case ml_pending m of
        pf # pfs \<Rightarrow> (pf, m\<lparr>ml_pending := pfs\<rparr>)
      | [] \<Rightarrow>
          (if ml_discarding m then
             (case discard_until_start m of
                (m', Some e) \<Rightarrow> ((zero_frame, Some e), m')
              | (m', None) \<Rightarrow> multi_next m')
           else case index_byte LF (src_buf m) of
               None \<Rightarrow>
                 (if line_too_large m then
                    (case emit_oversized m of
                       (m', Some e) \<Rightarrow> ((zero_frame, Some e), m')
                     | (m', None) \<Rightarrow> multi_next m')
                  else if \<not> src_eof m then
                    (case fill m of
                       (m', Some e) \<Rightarrow> ((zero_frame, Some e), m')
                     | (m', None) \<Rightarrow> multi_next m')
                  else if ml_started m \<or> src_buf m \<noteq> [] then
                    (if src_buf m \<noteq> [] \<and> \<not> can_advance_line_number (ml_next_line m)
                     then ((zero_frame, Some ErrLineNumberOverflow), m)
                     else ((zero_frame, Some ErrPartialFrame), m))
                  else ((zero_frame, Some EndOfFile), m))
             | Some i \<Rightarrow>
                 (if \<not> can_advance_line_number (ml_next_line m) then ((zero_frame, Some ErrLineNumberOverflow), m)
                  else case accept_line i m of
                      (m', Some e) \<Rightarrow> ((zero_frame, Some e), m')
                    | (m', None) \<Rightarrow> multi_next m')))"
  by pat_completeness auto
termination
proof (relation "measures [budget, \<lambda>m. length (src_buf m), \<lambda>m. if ml_pending m = [] then 1 else 0, \<lambda>m. if ml_discarding m then 1 else 0]", goal_cases)
  case 1 show ?case by simp
next
  case 2
  then show ?case using discard_until_start_progress [OF sym] by (auto simp: le_less)
next
  case 3
  then show ?case using emit_oversized_progress [OF sym] by (auto simp: le_less)
next
  case 4
  then show ?case using fill_budget [OF sym] by auto
next
  case 5
  then show ?case using accept_line_progress [OF _ sym] by auto
qed

declare multi_next.simps [simp del]

definition multi_pending :: "multiline_framer \<Rightarrow> u64 \<times> nat" where
  "multi_pending m = (src_off m - of_nat (length (ml_event m)), length (ml_event m) + length (src_buf m))"

text \<open>\<open>Flush\<close>, once nothing is being discarded: everything buffered becomes one frame, unless the buffered
  line starts the next event.\<close>

definition flush_content :: "bytes \<Rightarrow> bytes" where
  "flush_content combined = (if combined \<noteq> [] \<and> last combined = LF then trim_cr (butlast combined) else trim_cr combined)"

definition flush_combined :: "multiline_framer \<Rightarrow> (frame \<times> bool \<times> framing_error option) \<times> multiline_framer" where
  "flush_combined m =
     (let start = src_off m - of_nat (length (ml_event m));
          line_no = (if ml_started m then ml_line m else ml_next_line m);
          combined = ml_event m @ src_buf m;
          end = start + of_nat (length combined);
          content = flush_content combined;
          flush_err = (if length content > ml_max m then Some ErrEventTooLarge else None);
          next_line = (if src_buf m \<noteq> [] then ml_next_line m + 1 else ml_next_line m);
          m' = (reset_event (m\<lparr>src_buf := [], src_off := end\<rparr>))\<lparr>ml_next_line := next_line\<rparr>
      in ((\<lparr>frame_bytes = take (ml_max m) content, start_offset = start, end_offset = end, line_number = line_no,
            next_line_number = next_line\<rparr>, True, flush_err), m'))"

definition multi_flush_event :: "multiline_framer \<Rightarrow> (frame \<times> bool \<times> framing_error option) \<times> multiline_framer" where
  "multi_flush_event m =
     (if \<not> ml_started m \<and> src_buf m = [] then ((zero_frame, False, None), m)
      else if src_buf m \<noteq> [] \<and> \<not> can_advance_line_number (ml_next_line m) then ((zero_frame, False, Some ErrLineNumberOverflow), m)
      else if ml_started m \<and> src_buf m \<noteq> [] \<and> ml_pattern m (trim_cr (src_buf m))
      then (let (fr, m') = finish_event m in ((fr, True, None), m'))
      else flush_combined m)"

definition multi_flush :: "multiline_framer \<Rightarrow> (frame \<times> bool \<times> framing_error option) \<times> multiline_framer" where
  "multi_flush m =
     (case ml_pending m of
        (fr, e) # pfs \<Rightarrow> ((fr, True, e), m\<lparr>ml_pending := pfs\<rparr>)
      | [] \<Rightarrow>
          (if ml_discarding m then
             (if src_buf m = [] then
                (if ml_discard_partial m then
                   (if \<not> can_advance_line_number (ml_next_line m) then ((zero_frame, False, Some ErrLineNumberOverflow), m)
                    else ((zero_frame, False, None), m\<lparr>ml_next_line := ml_next_line m + 1, ml_discard_partial := False\<rparr>))
                 else ((zero_frame, False, None), m))
              else if \<not> can_advance_line_number (ml_next_line m) then ((zero_frame, False, Some ErrLineNumberOverflow), m)
              else
                let content = trim_cr (src_buf m) in
                if \<not> ml_discard_partial m \<and> length content \<le> ml_max m \<and> ml_pattern m content
                then multi_flush_event (m\<lparr>ml_discarding := False\<rparr>)
                else ((zero_frame, False, None),
                      m\<lparr>src_off := src_off m + of_nat (length (src_buf m)), src_buf := [], ml_next_line := ml_next_line m + 1,
                        ml_discard_partial := False\<rparr>))
           else multi_flush_event m))"

section \<open>The contract of a framer\<close>

text \<open>The bytes a reader still gives, and the bytes a framer has not yet consumed.\<close>

fun readable_bytes :: "reader \<Rightarrow> bytes" where
  "readable_bytes [] = []"
| "readable_bytes ((data, ReadEOF) # r) = data"
| "readable_bytes ((data, ReadOk) # r) = data @ readable_bytes r"
| "readable_bytes ((data, ReadFailed e) # r) = data @ readable_bytes r"

definition remaining :: "'a source_scheme \<Rightarrow> bytes" where
  "remaining f = src_buf f @ (if src_eof f then [] else readable_bytes (src_reader f))"

lemma fill_loop_bytes:
  "fill_loop r buf = (r', buf', eof, e) \<Longrightarrow> buf' @ (if eof then [] else readable_bytes r') = buf @ readable_bytes r"
  by (induction r buf rule: fill_loop.induct) (auto split: if_splits)

lemma fill_loop_error: "fill_loop r buf = (r', buf', eof, Some e) \<Longrightarrow> \<exists>y. e = ErrRead y"
  by (induction r buf rule: fill_loop.induct) (auto split: if_splits)

lemma fill_remaining:
  assumes "fill f = (f', e)"
  shows "remaining f' = remaining f" "src_off f' = src_off f"
  using assms fill_loop_bytes [of "src_reader f" "src_buf f"] by (auto simp: fill_def remaining_def split: if_splits prod.splits)

text \<open>The results of \<open>Next\<close> that come with a frame.\<close>

definition carries_frame :: "framing_error option \<Rightarrow> bool" where
  "carries_frame e \<longleftrightarrow> e = None \<or> e = Some ErrEventTooLarge \<or> e = Some ErrEventTooLargeIncomplete"

text \<open>A returned frame is a piece of the stream, behind position \<open>k\<close> and up to position \<open>j\<close>.\<close>

definition framed :: "bytes \<Rightarrow> u64 \<Rightarrow> nat \<Rightarrow> nat \<Rightarrow> nat \<Rightarrow> frame \<times> framing_error option \<Rightarrow> bool" where
  "framed s base lim k j out \<longleftrightarrow> (\<exists>pre tail post. s = pre @ frame_bytes (fst out) @ tail @ post
     \<and> k \<le> length pre \<and> j = length pre + length (frame_bytes (fst out)) + length tail
     \<and> start_offset (fst out) = base + of_nat (length pre) \<and> end_offset (fst out) = base + of_nat j
     \<and> length (frame_bytes (fst out)) \<le> lim \<and> carries_frame (snd out)
     \<and> (if snd out = None then tail \<in> {[], [CR], [LF], [CR, LF]} else length (frame_bytes (fst out)) = lim))"

fun frames_between :: "bytes \<Rightarrow> u64 \<Rightarrow> nat \<Rightarrow> nat \<Rightarrow> (frame \<times> framing_error option) list \<Rightarrow> nat \<Rightarrow> bool" where
  "frames_between s base lim k [] k' \<longleftrightarrow> k \<le> k'"
| "frames_between s base lim k (out # outs) k' \<longleftrightarrow> (\<exists>j. framed s base lim k j out \<and> frames_between s base lim j outs k')"

lemma framed_earlier: "framed s base lim k j out \<Longrightarrow> k' \<le> k \<Longrightarrow> framed s base lim k' j out"
  unfolding framed_def using le_trans by blast

lemma framedI:
  assumes "s = pre @ bs @ tail @ post" "k \<le> length pre" "j = length pre + length bs + length tail"
    "fr = \<lparr>frame_bytes = bs, start_offset = base + of_nat (length pre), end_offset = base + of_nat j,
       line_number = l1, next_line_number = l2\<rparr>" "length bs \<le> lim" "carries_frame e"
    "if e = None then tail \<in> {[], [CR], [LF], [CR, LF]} else length bs = lim"
  shows "framed s base lim k j (fr, e)"
  unfolding framed_def
  by (rule exI [of _ pre], rule exI [of _ tail], rule exI [of _ post]) (use assms in \<open>auto split: if_splits\<close>)

lemma frames_between_append:
  "frames_between s base lim k xs k1 \<Longrightarrow> frames_between s base lim k1 ys k2 \<Longrightarrow> frames_between s base lim k (xs @ ys) k2"
proof (induction xs arbitrary: k)
  case Nil
  then show ?case by (cases ys) (auto dest: framed_earlier)
next
  case (Cons x xs)
  then show ?case by auto
qed

lemma frames_between_le: "frames_between s base lim k xs k' \<Longrightarrow> k \<le> k'"
  by (induction xs arbitrary: k) (auto simp: framed_def, fastforce)

lemma frames_between_weaken: "frames_between s base lim k xs k1 \<Longrightarrow> k1 \<le> k2 \<Longrightarrow> frames_between s base lim k xs k2"
  using frames_between_append [of s base lim k xs k1 "[]" k2] by simp

text \<open>A caller: any sequence of calls of \<open>Next\<close> and \<open>Flush\<close>, whose frames are collected.\<close>

datatype framer_call = CallNext | CallFlush

fun run_framer ::
  "('f \<Rightarrow> (frame \<times> framing_error option) \<times> 'f) \<Rightarrow> ('f \<Rightarrow> (frame \<times> bool \<times> framing_error option) \<times> 'f) \<Rightarrow> framer_call list \<Rightarrow> 'f
     \<Rightarrow> (frame \<times> framing_error option) list \<times> 'f" where
  "run_framer nxt fl [] f = ([], f)"
| "run_framer nxt fl (CallNext # cs) f =
     (case nxt f of ((fr, e), f') \<Rightarrow>
       (case run_framer nxt fl cs f' of (outs, f'') \<Rightarrow> (if carries_frame e then (fr, e) # outs else outs, f'')))"
| "run_framer nxt fl (CallFlush # cs) f =
     (case fl f of ((fr, ok, e), f') \<Rightarrow>
       (case run_framer nxt fl cs f' of (outs, f'') \<Rightarrow> (if ok then (fr, e) # outs else outs, f'')))"

locale framer =
  fixes next_frame :: "'f \<Rightarrow> (frame \<times> framing_error option) \<times> 'f"
    and flush :: "'f \<Rightarrow> (frame \<times> bool \<times> framing_error option) \<times> 'f"
    and reached :: "bytes \<Rightarrow> u64 \<Rightarrow> nat \<Rightarrow> nat \<Rightarrow> 'f \<Rightarrow> bool"
  assumes next_reached: "reached s base lim k f \<Longrightarrow> next_frame f = ((fr, e), f') \<Longrightarrow>
      if carries_frame e then \<exists>j. framed s base lim k j (fr, e) \<and> reached s base lim j f' else reached s base lim k f'"
    and flush_reached: "reached s base lim k f \<Longrightarrow> flush f = ((fr, ok, e), f') \<Longrightarrow>
      if ok then \<exists>j. framed s base lim k j (fr, e) \<and> reached s base lim j f' else reached s base lim k f'"
    and reached_bound: "reached s base lim k f \<Longrightarrow> k \<le> length s"
begin

lemma run_reached:
  "reached s base lim k f \<Longrightarrow> run_framer next_frame flush cs f = (outs, f') \<Longrightarrow>
     \<exists>k'. frames_between s base lim k outs k' \<and> reached s base lim k' f'"
proof (induction cs arbitrary: k f outs)
  case Nil
  then show ?case by auto
next
  case (Cons c cs)
  show ?case
  proof (cases c)
    case CallNext
    obtain fr e f1 where n: "next_frame f = ((fr, e), f1)" by (metis prod.exhaust)
    obtain outs1 where r: "run_framer next_frame flush cs f1 = (outs1, f')" "outs = (if carries_frame e then (fr, e) # outs1 else outs1)"
      using Cons.prems(2) by (auto simp: CallNext n split: prod.splits)
    show ?thesis
    proof (cases "carries_frame e")
      case True
      then obtain j where j: "framed s base lim k j (fr, e)" "reached s base lim j f1"
        using next_reached [OF Cons.prems(1) n] by auto
      show ?thesis using Cons.IH [OF j(2) r(1)] j(1) r(2) True by auto
    next
      case False
      then show ?thesis using next_reached [OF Cons.prems(1) n] Cons.IH [OF _ r(1)] r(2) by auto
    qed
  next
    case CallFlush
    obtain fr ok e f1 where n: "flush f = ((fr, ok, e), f1)" by (metis prod.exhaust)
    obtain outs1 where r: "run_framer next_frame flush cs f1 = (outs1, f')" "outs = (if ok then (fr, e) # outs1 else outs1)"
      using Cons.prems(2) by (auto simp: CallFlush n split: prod.splits)
    show ?thesis
    proof (cases ok)
      case True
      then obtain j where j: "framed s base lim k j (fr, e)" "reached s base lim j f1"
        using flush_reached [OF Cons.prems(1) n] by auto
      show ?thesis using Cons.IH [OF j(2) r(1)] j(1) r(2) True by auto
    next
      case False
      then show ?thesis using flush_reached [OF Cons.prems(1) n] Cons.IH [OF _ r(1)] r(2) by auto
    qed
  qed
qed

lemma run_slices:
  assumes "reached s base lim 0 f"
  shows "frames_between s base lim 0 (fst (run_framer next_frame flush cs f)) (length s)"
proof -
  obtain outs f' where r: "run_framer next_frame flush cs f = (outs, f')" by fastforce
  obtain k' where "frames_between s base lim 0 outs k'" "reached s base lim k' f'" using run_reached [OF assms r] by blast
  then show ?thesis using frames_between_weaken reached_bound by (simp add: r)
qed

end

section \<open>The line framer keeps the contract\<close>

definition line_reached :: "bytes \<Rightarrow> u64 \<Rightarrow> nat \<Rightarrow> nat \<Rightarrow> line_framer \<Rightarrow> bool" where
  "line_reached s base lim k f \<longleftrightarrow> lf_max f = lim \<and>
     (\<exists>pre. s = pre @ remaining f \<and> src_off f = base + of_nat (length pre) \<and> k = length pre)"

lemma line_emits:
  assumes "carries_frame e" "s = pre @ remaining f" "src_off f = base + of_nat (length pre)" "remaining f = bs @ tail @ remaining f'"
    "src_off f' = src_off f + of_nat (length bs + length tail)" "lf_max f' = lim"
    "fr = \<lparr>frame_bytes = bs, start_offset = src_off f, end_offset = src_off f', line_number = l1, next_line_number = l2\<rparr>"
    "length bs \<le> lim" "if e = None then tail \<in> {[], [CR], [LF], [CR, LF]} else length bs = lim"
  shows "\<exists>j. framed s base lim (length pre) j (fr, e) \<and> line_reached s base lim j f'"
proof (intro exI conjI)
  let ?j = "length pre + length bs + length tail"
  show "framed s base lim (length pre) ?j (fr, e)"
    by (rule framedI [of s pre bs tail "remaining f'"]) (use assms in simp_all)
  show "line_reached s base lim ?j f'"
    using assms unfolding line_reached_def by (intro conjI exI [of _ "pre @ bs @ tail"]) simp_all
qed

text \<open>A physical line is its content and its delimiter.\<close>

lemma line_split:
  assumes "index_byte LF buf = Some i"
  obtains d where "d \<in> {[LF], [CR, LF]}" "take (i + 1) buf = trim_cr (take i buf) @ d"
proof -
  have t: "take (i + 1) buf = take i buf @ [LF]"
    using index_byte_SomeD(1,2) [OF assms] by (simp add: take_Suc_conv_app_nth)
  show thesis
  proof (cases "take i buf \<noteq> [] \<and> last (take i buf) = CR")
    case True
    then have "take i buf = trim_cr (take i buf) @ [CR]" using append_butlast_last_id [of "take i buf"] by (simp add: trim_cr_def)
    then show thesis using t by (intro that [of "[CR, LF]"]) auto
  qed (use t that [of "[LF]"] in \<open>auto simp: trim_cr_def\<close>)
qed

lemma buffer_split:
  assumes "buf \<noteq> []"
  obtains d where "d \<in> {[], [CR], [LF], [CR, LF]}" "buf = trim_cr (if last buf = LF then butlast buf else buf) @ d"
proof -
  have t: "\<exists>c. xs = trim_cr xs @ c \<and> (c = [] \<or> c = [CR])" for xs
    using append_butlast_last_id [of xs] by (cases "xs \<noteq> [] \<and> last xs = CR") (auto simp: trim_cr_def intro: sym)
  show thesis
  proof (cases "last buf = LF")
    case True
    obtain c where c: "butlast buf = trim_cr (butlast buf) @ c" "c = [] \<or> c = [CR]" using t by blast
    have "buf = trim_cr (butlast buf) @ (c @ [LF])" using append_butlast_last_id [OF assms] True c(1) by (metis append_assoc)
    then show thesis using that [of "c @ [LF]"] c(2) True by auto
  next
    case False
    then show thesis using t [of buf] that by auto
  qed
qed

lemma line_content_bytes_eq:
  "line_content_bytes buf = length (trim_cr (case index_byte LF buf of Some i \<Rightarrow> take i buf | None \<Rightarrow> buf))"
proof (cases "index_byte LF buf")
  case (Some i)
  have "last (take i buf) = buf ! (i - 1)" if "i > 0"
  proof -
    have "take i buf \<noteq> []" "length (take i buf) = i" using index_byte_SomeD(1) [OF Some] that by auto
    then show ?thesis using that by (simp add: last_conv_nth)
  qed
  then show ?thesis using Some index_byte_SomeD(1) [OF Some] by (auto simp: line_content_bytes_def trim_cr_def)
qed (simp add: line_content_bytes_def trim_cr_def)

lemma emit_too_large_reached:
  assumes r: "line_reached s base lim k f" and l: "line_content_bytes (src_buf f) > lf_max f" and n: "emit_too_large f = ((fr, e), f')"
  shows "if carries_frame e then \<exists>j. framed s base lim k j (fr, e) \<and> line_reached s base lim j f' else line_reached s base lim k f'"
proof -
  obtain pre where p: "lf_max f = lim" "s = pre @ remaining f" "src_off f = base + of_nat (length pre)" "k = length pre"
    using r by (auto simp: line_reached_def)
  show ?thesis
  proof (cases "can_advance_line_number (lf_line f)")
    case False
    then show ?thesis using n r by (auto simp: emit_too_large_def carries_frame_def)
  next
    case adv: True
    define n where "n = (case index_byte LF (src_buf f) of Some i \<Rightarrow> i + 1 | None \<Rightarrow> length (src_buf f))"
    have n1: "lim \<le> n" "n \<le> length (src_buf f)"
      using l p(1) length_trim_cr [of "src_buf f"] length_trim_cr [of "take (n - 1) (src_buf f)"]
      by (cases "index_byte LF (src_buf f)"; force simp: line_content_bytes_eq n_def dest: index_byte_SomeD(1))+
    have f': "src_buf f' = drop n (src_buf f)" "src_off f' = src_off f + of_nat n" "lf_max f' = lim" "src_eof f' = src_eof f"
      "src_reader f' = src_reader f" "e \<noteq> None" "carries_frame e"
      "\<exists>l1 l2. fr = \<lparr>frame_bytes = take lim (src_buf f), start_offset = src_off f, end_offset = src_off f', line_number = l1, next_line_number = l2\<rparr>"
      using n adv p(1) by (auto simp: emit_too_large_def Let_def n_def carries_frame_def split: option.splits)
    obtain l1 l2 where fr: "fr = \<lparr>frame_bytes = take lim (src_buf f), start_offset = src_off f, end_offset = src_off f', line_number = l1, next_line_number = l2\<rparr>"
      using f'(8) by blast
    have "src_buf f = take lim (src_buf f) @ drop lim (take n (src_buf f)) @ drop n (src_buf f)"
      using n1(1) by (metis append_assoc append_take_drop_id min.absorb1 take_take)
    then have "remaining f = take lim (src_buf f) @ drop lim (take n (src_buf f)) @ remaining f'"
      unfolding remaining_def f' by (metis append_assoc)
    then have "\<exists>j. framed s base lim (length pre) j (fr, e) \<and> line_reached s base lim j f'"
      by (rule line_emits [OF f'(7) p(2,3) _ _ f'(3) fr]) (use n1 f' in auto)
    then show ?thesis using f'(7) p(4) by simp
  qed
qed

lemma emit_line_reached:
  assumes r: "line_reached s base lim k f" and i: "index_byte LF (src_buf f) = Some i"
    and l: "line_content_bytes (src_buf f) \<le> lf_max f" and n: "emit_line i f = (fr, f')"
  shows "\<exists>j. framed s base lim k j (fr, None) \<and> line_reached s base lim j f'"
proof -
  obtain pre where p: "lf_max f = lim" "s = pre @ remaining f" "src_off f = base + of_nat (length pre)" "k = length pre"
    using r by (auto simp: line_reached_def)
  obtain d where d: "d \<in> {[LF], [CR, LF]}" "take (i + 1) (src_buf f) = trim_cr (take i (src_buf f)) @ d" by (rule line_split [OF i])
  have i1: "length (take (i + 1) (src_buf f)) = i + 1" using index_byte_SomeD(1) [OF i] by simp
  have "take (length (take (i + 1) (src_buf f)) - 1) (take (i + 1) (src_buf f)) = take i (src_buf f)" using i1 by (simp add: min_absorb1)
  then have f': "src_buf f' = drop (i + 1) (src_buf f)" "src_off f' = src_off f + of_nat (i + 1)" "lf_max f' = lim" "src_eof f' = src_eof f"
      "src_reader f' = src_reader f"
    and fr: "fr = \<lparr>frame_bytes = trim_cr (take i (src_buf f)), start_offset = src_off f, end_offset = src_off f', line_number = lf_line f,
       next_line_number = lf_line f + 1\<rparr>"
    using n p(1) i1 by (auto simp: emit_line_def Let_def)
  have cN: "carries_frame None" by (simp add: carries_frame_def)
  have len: "length (trim_cr (take i (src_buf f))) + length d = i + 1" using d(2) i1 by (metis length_append)
  have "src_buf f = (trim_cr (take i (src_buf f)) @ d) @ drop (i + 1) (src_buf f)" by (metis append_take_drop_id d(2))
  then have "remaining f = trim_cr (take i (src_buf f)) @ d @ remaining f'" unfolding remaining_def f' by (metis append_assoc)
  then have "\<exists>j. framed s base lim (length pre) j (fr, None) \<and> line_reached s base lim j f'"
    by (rule line_emits [OF cN p(2,3) _ _ f'(3) fr]) (use f' d(1) l i p(1) len in \<open>auto simp: line_content_bytes_eq\<close>)
  then show ?thesis using p(4) by simp
qed

lemma line_next_reached:
  "line_reached s base lim k f \<Longrightarrow> line_next f = ((fr, e), f') \<Longrightarrow>
    if carries_frame e then \<exists>j. framed s base lim k j (fr, e) \<and> line_reached s base lim j f' else line_reached s base lim k f'"
proof (induction f rule: line_next.induct)
  case (1 f)
  show ?case
  proof (cases "line_content_bytes (src_buf f) > lf_max f")
    case True
    then show ?thesis using emit_too_large_reached [OF "1.prems"(1) True] "1.prems"(2) by (simp add: line_next.simps [of f])
  next
    case small: False
    show ?thesis
    proof (cases "index_byte LF (src_buf f)")
      case (Some i)
      then show ?thesis
        using "1.prems" small emit_line_reached [OF "1.prems"(1) Some] by (auto simp: line_next.simps [of f] carries_frame_def split: if_splits prod.splits)
    next
      case None
      show ?thesis
      proof (cases "src_eof f")
        case True
        then show ?thesis using "1.prems" small None by (auto simp: line_next.simps [of f] carries_frame_def split: if_splits)
      next
        case False
        obtain f1 e1 where fl: "fill f = (f1, e1)" by fastforce
        have "lf_max f1 = lf_max f" using fl by (auto simp: fill_def split: if_splits prod.splits)
        then have r1: "line_reached s base lim k f1" using "1.prems"(1) fill_remaining [OF fl] by (auto simp: line_reached_def)
        show ?thesis
        proof (cases e1)
          case N: None
          then show ?thesis using "1.IH" [OF small None False fl [symmetric] N r1] "1.prems"(2) small None False fl
            by (simp add: line_next.simps [of f])
        next
          case (Some x)
          then obtain y where "x = ErrRead y" using fl by (auto simp: fill_def split: if_splits prod.splits dest!: fill_loop_error)
          then show ?thesis using "1.prems"(2) r1 small None False fl Some by (auto simp: line_next.simps [of f] carries_frame_def)
        qed
      qed
    qed
  qed
qed

lemma line_flush_reached:
  assumes r: "line_reached s base lim k f" and n: "line_flush f = ((fr, ok, e), f')"
  shows "if ok then \<exists>j. framed s base lim k j (fr, e) \<and> line_reached s base lim j f' else line_reached s base lim k f'"
proof (cases "src_buf f \<noteq> [] \<and> can_advance_line_number (lf_line f)")
  case False
  then show ?thesis using r n by (auto simp: line_flush_def split: if_splits)
next
  case True
  obtain pre where p: "lf_max f = lim" "s = pre @ remaining f" "src_off f = base + of_nat (length pre)" "k = length pre"
    using r by (auto simp: line_reached_def)
  define content where "content = trim_cr (if last (src_buf f) = LF then butlast (src_buf f) else src_buf f)"
  obtain d where d: "src_buf f = content @ d" "d \<in> {[], [CR], [LF], [CR, LF]}" using True by (auto simp: content_def elim: buffer_split)
  obtain l2 where fr: "fr = \<lparr>frame_bytes = take lim content, start_offset = src_off f, end_offset = src_off f', line_number = lf_line f, next_line_number = l2\<rparr>"
    and f': "src_buf f' = []" "src_off f' = src_off f + of_nat (length (src_buf f))" "lf_max f' = lim" "src_eof f' = src_eof f"
      "src_reader f' = src_reader f" "ok" "e = (if length content > lim then Some ErrEventTooLarge else None)"
    using n True p(1) by (auto simp: line_flush_def Let_def content_def)
  have rem: "remaining f = take lim content @ (drop lim content @ d) @ remaining f'"
    by (simp add: remaining_def f' d(1))
  have len: "length (take lim content) + length (drop lim content @ d) = length (src_buf f)" by (simp add: d(1))
  have off: "src_off f' = src_off f + of_nat (length (take lim content) + length (drop lim content @ d))"
    unfolding len by (rule f'(2))
  have "\<exists>j. framed s base lim (length pre) j (fr, e) \<and> line_reached s base lim j f'"
    by (rule line_emits [OF _ p(2,3) rem off f'(3) fr]) (use f'(7) d(2) in \<open>auto simp: carries_frame_def\<close>)
  then show ?thesis using f'(6) p(4) by simp
qed

interpretation line_framing: framer line_next line_flush line_reached
proof unfold_locales
  fix s base lim k and f :: line_framer
  assume "line_reached s base lim k f"
  then show "k \<le> length s" by (auto simp: line_reached_def)
qed (blast intro: line_next_reached line_flush_reached)+

end
