(* ===== verification/Framing_Multiline.thy ===== *)
theory Framing_Multiline
  imports Framing
begin

text \<open>The multiline framer of \<open>framing.go\<close> keeps the contract of a framer: one lemma per operation.\<close>

section \<open>The multiline framer keeps the contract\<close>

text \<open>The event being assembled lies right before the unconsumed bytes, behind position \<open>k\<close>.\<close>

definition assembling :: "bytes \<Rightarrow> u64 \<Rightarrow> nat \<Rightarrow> nat \<Rightarrow> multiline_framer \<Rightarrow> bool" where
  "assembling s base lim k m \<longleftrightarrow> ml_max m = lim \<and> (\<exists>pre. s = pre @ ml_event m @ remaining m \<and> k \<le> length pre
     \<and> src_off m = base + of_nat (length pre + length (ml_event m)) \<and> (ml_started m \<longrightarrow> ml_start m = base + of_nat (length pre)))"

definition event_ok :: "nat \<Rightarrow> multiline_framer \<Rightarrow> bool" where
  "event_ok lim m \<longleftrightarrow> (ml_discarding m \<longrightarrow> \<not> ml_started m) \<and> (\<not> ml_started m \<longrightarrow> ml_event m = [])
     \<and> (ml_started m \<longrightarrow> (\<exists>c d. ml_event m = c @ d \<and> d \<in> {[LF], [CR, LF]} \<and> length d = ml_delim m \<and> length c \<le> lim))"

definition multi_reached :: "bytes \<Rightarrow> u64 \<Rightarrow> nat \<Rightarrow> nat \<Rightarrow> multiline_framer \<Rightarrow> bool" where
  "multi_reached s base lim k m \<longleftrightarrow>
     (\<exists>k'. frames_between s base lim k (ml_pending m) k' \<and> assembling s base lim k' m) \<and> event_ok lim m"

lemma assemblingI:
  assumes "ml_max m = lim" "s = pre @ ml_event m @ remaining m" "k \<le> length pre"
    "src_off m = base + of_nat (length pre + length (ml_event m))" "ml_started m \<Longrightarrow> ml_start m = base + of_nat (length pre)"
  shows "assembling s base lim k m"
  using assms unfolding assembling_def by blast

lemma assemblingE:
  assumes "assembling s base lim k m"
  obtains pre where "ml_max m = lim" "s = pre @ ml_event m @ remaining m" "k \<le> length pre"
    "src_off m = base + of_nat (length pre + length (ml_event m))" "ml_started m \<longrightarrow> ml_start m = base + of_nat (length pre)"
  using assms unfolding assembling_def by blast

text \<open>Bytes are dropped only when no event is being assembled.\<close>

lemma assembling_drop:
  assumes "assembling s base lim k m" "ml_event m = []" "\<not> ml_started m'" "ml_event m' = []" "ml_max m' = ml_max m"
    "remaining m = dropped @ remaining m'" "src_off m' = src_off m + of_nat (length dropped)"
  shows "assembling s base lim k m'"
proof -
  obtain pre where p: "ml_max m = lim" "s = pre @ remaining m" "k \<le> length pre" "src_off m = base + of_nat (length pre)"
    using assemblingE [OF assms(1)] assms(2) by (metis append_Nil add.right_neutral list.size(3))
  show ?thesis by (rule assemblingI [of _ _ _ "pre @ dropped"]) (use assms p in simp_all)
qed

lemma assembling_cong:
  assumes "assembling s base lim k m" "ml_event m' = ml_event m" "ml_started m' = ml_started m" "ml_start m' = ml_start m"
    "ml_max m' = ml_max m" "remaining m' = remaining m" "src_off m' = src_off m"
  shows "assembling s base lim k m'"
  using assms unfolding assembling_def by simp

lemma event_ok_cong:
  assumes "event_ok lim m" "ml_event m' = ml_event m" "ml_started m' = ml_started m" "ml_delim m' = ml_delim m"
    "ml_discarding m' \<longrightarrow> ml_discarding m"
  shows "event_ok lim m'"
  using assms unfolding event_ok_def by simp

lemma fill_fields:
  fixes m m' :: multiline_framer
  assumes "fill m = (m', e)"
  shows "ml_event m' = ml_event m" "ml_started m' = ml_started m" "ml_start m' = ml_start m" "ml_max m' = ml_max m"
    "ml_delim m' = ml_delim m" "ml_discarding m' = ml_discarding m" "ml_pending m' = ml_pending m"
    "ml_pattern m' = ml_pattern m" "ml_next_line m' = ml_next_line m" "ml_discard_partial m' = ml_discard_partial m"
    "ml_max_lines m' = ml_max_lines m" "ml_line m' = ml_line m" "ml_lines m' = ml_lines m"
  using assms by (auto simp: fill_def split: prod.splits if_splits)

lemma fill_error: "fill m = (m', Some e) \<Longrightarrow> \<exists>y. e = ErrRead y"
  by (auto simp: fill_def split: if_splits prod.splits dest!: fill_loop_error)

definition no_frame :: "framing_error option \<Rightarrow> bool" where
  "no_frame e \<longleftrightarrow> e = None \<or> \<not> carries_frame e"

lemma remaining_take: "remaining (f :: 'a source_scheme) = take n (src_buf f) @ remaining (f\<lparr>src_buf := drop n (src_buf f)\<rparr>)"
  by (simp add: remaining_def)

lemma discard_reached:
  "discard_until_start m = (m', e) \<Longrightarrow> assembling s base lim k m \<Longrightarrow> \<not> ml_started m \<Longrightarrow> ml_event m = [] \<Longrightarrow>
     assembling s base lim k m' \<and> \<not> ml_started m' \<and> ml_event m' = [] \<and> no_frame e"
proof (induction m rule: discard_until_start.induct)
  case (1 m)
  have fl: "assembling s base lim k m1 \<and> \<not> ml_started m1 \<and> ml_event m1 = [] \<and> no_frame e1"
    if "fill m0 = (m1, e1)" "assembling s base lim k m0" "\<not> ml_started m0" "ml_event m0 = []" for m0 m1 e1
    using assembling_cong [OF that(2) fill_fields(1-4) [OF that(1)] fill_remaining [OF that(1)]] fill_fields(1,2) [OF that(1)] that
      fill_error [of m0 m1] by (cases e1) (auto simp: no_frame_def carries_frame_def)
  show ?case
  proof (cases "index_byte LF (src_buf m)")
    case (Some i)
    have d: "assembling s base lim k (discard_line (i + 1) m)"
    proof (rule assembling_drop [OF "1.prems"(2,4)])
      show "remaining m = take (i + 1) (src_buf m) @ remaining (discard_line (i + 1) m)" by (simp add: remaining_def discard_line_def)
      show "src_off (discard_line (i + 1) m) = src_off m + of_nat (length (take (i + 1) (src_buf m)))"
        using index_byte_SomeD(1) [OF Some] by (simp add: discard_line_def min_absorb2)
    qed (use "1.prems" in \<open>simp_all add: discard_line_def\<close>)
    have d2: "assembling s base lim k ((discard_line (i + 1) m)\<lparr>ml_discard_partial := False\<rparr>)"
      by (rule assembling_cong [OF d]) (simp_all add: remaining_def)
    have d3: "assembling s base lim k (m\<lparr>ml_discarding := False\<rparr>)"
      by (rule assembling_cong [OF "1.prems"(2)]) (simp_all add: remaining_def)
    have ns: "\<not> ml_started (discard_line (i + 1) m)" "ml_event (discard_line (i + 1) m) = []"
      using "1.prems" by (simp_all add: discard_line_def)
    note IH = "1.IH"(2) [OF _ Some] "1.IH"(5) [OF _ Some]
    note unfolded = "1.prems"(1) [unfolded discard_until_start.simps [of m]]
    show ?thesis
    proof (cases "ml_discard_partial m")
      case True
      then show ?thesis using unfolded IH(1) [OF True _ _ d2] Some ns "1.prems"
        by (cases "can_advance_line_number (ml_next_line m)") (auto simp: no_frame_def carries_frame_def)
    next
      case False
      then show ?thesis using unfolded IH(2) [OF False _ _ _ d] Some ns "1.prems" d3
        by (cases "ml_pattern m (trim_cr (take i (src_buf m)))"; cases "can_advance_line_number (ml_next_line m)")
          (auto simp: no_frame_def carries_frame_def)
    qed
  next
    case None
    note IH = "1.IH"(1) [OF _ None _ sym] "1.IH"(3) [OF _ None] "1.IH"(4) [OF _ None _ _ sym]
    show ?thesis
    proof (cases "src_eof m")
      case True
      then show ?thesis using "1.prems" None
        by (subst (asm) (1) discard_until_start.simps) (auto simp: no_frame_def carries_frame_def split: if_splits)
    next
      case False
      show ?thesis
      proof (cases "ml_discard_partial m")
        case True
        let ?m0 = "m\<lparr>src_off := src_off m + of_nat (length (src_buf m)), src_buf := []\<rparr>"
        obtain m1 e1 where f: "fill ?m0 = (m1, e1)" by fastforce
        have "assembling s base lim k ?m0"
          by (rule assembling_drop [OF "1.prems"(2,4), of _ "src_buf m"]) (use "1.prems" in \<open>simp_all add: remaining_def\<close>)
        then have r: "assembling s base lim k m1 \<and> \<not> ml_started m1 \<and> ml_event m1 = [] \<and> no_frame e1"
          using "1.prems" by (intro fl [OF f]) simp_all
        show ?thesis
        proof (cases e1)
          case N: None
          have "discard_until_start m1 = (m', e)" using "1.prems"(1) None False True f N
            by (subst (asm) (1) discard_until_start.simps) simp
          then show ?thesis using IH(1) [OF True False f N] r by blast
        next
          case (Some x)
          then show ?thesis using "1.prems"(1) None False True f r by (subst (asm) (1) discard_until_start.simps) simp
        qed
      next
        case nodisc: False
        show ?thesis
        proof (cases "length (trim_cr (src_buf m)) > ml_max m")
          case True
          have "assembling s base lim k (m\<lparr>ml_discard_partial := True\<rparr>)"
            by (rule assembling_cong [OF "1.prems"(2)]) (simp_all add: remaining_def)
          moreover have "discard_until_start (m\<lparr>ml_discard_partial := True\<rparr>) = (m', e)" using "1.prems"(1) None False True nodisc
            by (subst (asm) (1) discard_until_start.simps) simp
          ultimately show ?thesis using IH(2) [OF nodisc False True] "1.prems"(3,4) by simp
        next
          case small: False
          obtain m1 e1 where f: "fill m = (m1, e1)" by fastforce
          note r = fl [OF f "1.prems"(2-4)]
          show ?thesis
          proof (cases e1)
            case N: None
            have "discard_until_start m1 = (m', e)" using "1.prems"(1) None False nodisc small f N
              by (subst (asm) (1) discard_until_start.simps) simp
            then show ?thesis using IH(3) [OF nodisc False small f N] r by blast
          next
            case (Some x)
            then show ?thesis using "1.prems"(1) None False nodisc small f r by (subst (asm) (1) discard_until_start.simps) simp
          qed
        qed
      qed
    qed
  qed
qed

text \<open>Finishing the event being assembled yields a piece of the stream.\<close>

lemma finish_framed:
  assumes a: "assembling s base lim k m" and st: "ml_started m" and n: "n \<le> length (ml_event m)" "n \<le> lim"
    and cf: "carries_frame e" and t: "if e = None then drop n (ml_event m) \<in> {[], [CR], [LF], [CR, LF]} else n = lim"
  shows "\<exists>j. framed s base lim k j (fst (finish_event_len n m), e) \<and> assembling s base lim j (snd (finish_event_len n m))"
proof -
  obtain pre where p: "ml_max m = lim" "s = pre @ ml_event m @ remaining m" "k \<le> length pre"
    "src_off m = base + of_nat (length pre + length (ml_event m))" "ml_started m \<longrightarrow> ml_start m = base + of_nat (length pre)"
    by (rule assemblingE [OF a])
  have "framed s base lim k (length pre + length (take n (ml_event m)) + length (drop n (ml_event m))) (fst (finish_event_len n m), e)"
  proof (rule framedI [of s pre "take n (ml_event m)" "drop n (ml_event m)" "remaining m"])
    show "s = pre @ take n (ml_event m) @ drop n (ml_event m) @ remaining m" using p(2) by (simp flip: append_assoc)
    show "fst (finish_event_len n m) = \<lparr>frame_bytes = take n (ml_event m), start_offset = base + of_nat (length pre),
       end_offset = base + of_nat (length pre + length (take n (ml_event m)) + length (drop n (ml_event m))),
       line_number = ml_line m, next_line_number = ml_next_line m\<rparr>"
      using p(5) st n by (simp add: finish_event_len_def)
  qed (use p n t cf in \<open>auto simp: min_absorb2\<close>)
  moreover have "assembling s base lim (length pre + length (take n (ml_event m)) + length (drop n (ml_event m))) (snd (finish_event_len n m))"
    by (rule assemblingI [of _ _ _ "pre @ ml_event m"]) (use p in \<open>simp_all add: finish_event_len_def reset_event_def remaining_def\<close>)
  ultimately show ?thesis by blast
qed

text \<open>An event is opened, or an open one goes on.\<close>

definition opened :: "bytes \<Rightarrow> u64 \<Rightarrow> nat \<Rightarrow> nat \<Rightarrow> multiline_framer \<Rightarrow> bool" where
  "opened s base lim k m \<longleftrightarrow> assembling s base lim k m \<and> ml_started m \<and> \<not> ml_discarding m"

lemma begin_opened:
  assumes a: "assembling s base lim k m" and e: "ml_event m = []" "\<not> ml_discarding m"
  shows "opened s base lim k (begin_event m)"
proof -
  obtain pre where p: "ml_max m = lim" "s = pre @ ml_event m @ remaining m" "k \<le> length pre"
    "src_off m = base + of_nat (length pre + length (ml_event m))" "ml_started m \<longrightarrow> ml_start m = base + of_nat (length pre)"
    by (rule assemblingE [OF a])
  have "assembling s base lim k (begin_event m)"
    by (rule assemblingI [of _ _ _ pre]) (use p e in \<open>simp_all add: begin_event_def remaining_def\<close>)
  then show ?thesis using e by (simp add: opened_def begin_event_def)
qed

lemma start_event_opened:
  assumes a: "assembling s base lim k m" and ok: "event_ok lim m" "\<not> ml_discarding m"
  shows "\<exists>new k'. ml_pending (start_event b m) = ml_pending m @ new \<and> frames_between s base lim k new k' \<and> opened s base lim k' (start_event b m)"
proof (cases "ml_started m")
  case False
  then have "opened s base lim k (start_event b m)" "ml_pending (start_event b m) = ml_pending m @ []"
    using begin_opened [OF a] ok by (simp_all add: start_event_def event_ok_def) (simp add: begin_event_def)
  then show ?thesis by (intro exI [of _ "[]"] exI [of _ k]) simp
next
  case st: True
  show ?thesis
  proof (cases b)
    case False
    then show ?thesis using st a ok by (intro exI [of _ "[]"] exI [of _ k]) (simp add: start_event_def opened_def)
  next
    case True
    obtain c d where cd: "ml_event m = c @ d" "d \<in> {[LF], [CR, LF]}" "length d = ml_delim m" "length c \<le> lim"
      using ok(1) st by (auto simp: event_ok_def)
    have fe: "finish_event m = finish_event_len (length c) m" by (simp add: finish_event_def cd(1) flip: cd(3))
    obtain j where j: "framed s base lim k j (fst (finish_event m), None)" "assembling s base lim j (snd (finish_event m))"
      using finish_framed [OF a st, of "length c" None] cd by (auto simp: fe carries_frame_def)
    let ?m = "enqueue_frame (fst (finish_event m), None) (snd (finish_event m))"
    have "assembling s base lim j ?m" by (rule assembling_cong [OF j(2)]) (simp_all add: enqueue_frame_def remaining_def)
    then have "opened s base lim j (begin_event ?m)"
      by (rule begin_opened) (use ok in \<open>simp_all add: assembly_defs\<close>)
    moreover have "start_event b m = begin_event ?m" using st True by (simp add: start_event_def case_prod_unfold Let_def)
    ultimately show ?thesis using j(1)
      by (intro exI [of _ "[(fst (finish_event m), None)]"] exI [of _ j]) (auto simp: assembly_defs)
  qed
qed

lemma consume_opened:
  assumes o: "opened s base lim k m" and i: "index_byte LF (src_buf m) = Some i" and c: "consume_line (i + 1) delim m = (m', None)"
  shows "opened s base lim k m'" "ml_event m' = ml_event m @ take (i + 1) (src_buf m)" "ml_delim m' = delim" "ml_pending m' = ml_pending m"
proof -
  obtain pre where p: "ml_max m = lim" "s = pre @ ml_event m @ remaining m" "k \<le> length pre"
    "src_off m = base + of_nat (length pre + length (ml_event m))" "ml_started m \<longrightarrow> ml_start m = base + of_nat (length pre)"
    using assemblingE o unfolding opened_def by blast
  have m': "m' = m\<lparr>ml_event := ml_event m @ take (i + 1) (src_buf m), src_buf := drop (i + 1) (src_buf m),
      src_off := src_off m + of_nat (length (take (i + 1) (src_buf m))), ml_lines := ml_lines m + 1, ml_delim := delim,
      ml_next_line := ml_next_line m + 1\<rparr>"
    using c by (auto simp: consume_line_def split: if_splits)
  have "assembling s base lim k m'"
    by (rule assemblingI [of _ _ _ pre]) (use p o in \<open>simp_all add: m' remaining_def opened_def\<close>)
  then show "opened s base lim k m'" using o by (simp add: opened_def m')
qed (use c in \<open>auto simp: consume_line_def split: if_splits\<close>)

lemma check_bounds_reached:
  assumes o: "opened s base lim k m" and e: "ml_event m = c @ d" "d \<in> {[LF], [CR, LF]}" "length d = ml_delim m"
  shows "\<exists>new k'. ml_pending (check_bounds m) = ml_pending m @ new \<and> frames_between s base lim k new k'
    \<and> assembling s base lim k' (check_bounds m) \<and> event_ok lim (check_bounds m)"
proof -
  have a: "assembling s base lim k m" "ml_started m" "\<not> ml_discarding m" and mx: "ml_max m = lim" using o by (auto simp: opened_def assembling_def)
  have done_frame: ?thesis
    if cb: "check_bounds m = enqueue_frame (fst (finish_event_len n m), x) ((snd (finish_event_len n m))\<lparr>ml_discarding := y, ml_discard_partial := z\<rparr>)"
      and n: "n \<le> length (ml_event m)" "n \<le> lim" "carries_frame x" "if x = None then drop n (ml_event m) \<in> {[], [CR], [LF], [CR, LF]} else n = lim" for n x y z
  proof -
    obtain j where j: "framed s base lim k j (fst (finish_event_len n m), x)" "assembling s base lim j (snd (finish_event_len n m))"
      using finish_framed [OF a(1,2) n] by blast
    have "assembling s base lim j (check_bounds m)" by (rule assembling_cong [OF j(2)]) (simp_all add: cb enqueue_frame_def remaining_def)
    then show ?thesis using j(1)
      by (intro exI [of _ "[(fst (finish_event_len n m), x)]"] exI [of _ j]) (auto simp: cb assembly_defs event_ok_def)
  qed
  consider (large) "length c > lim" | (lines) "length c \<le> lim" "ml_max_lines m > 0 \<and> ml_lines m \<ge> ml_max_lines m"
    | (stays) "length c \<le> lim" "\<not> (ml_max_lines m > 0 \<and> ml_lines m \<ge> ml_max_lines m)" by linarith
  then show ?thesis
  proof cases
    case large
    then have "check_bounds m = enqueue_frame (fst (finish_event_len lim m), Some ErrEventTooLarge)
        ((snd (finish_event_len lim m))\<lparr>ml_discarding := True, ml_discard_partial := False\<rparr>)"
      using a mx e(1) by (simp add: check_bounds_def case_prod_unfold Let_def finish_event_truncated_def min_absorb1 flip: e(3))
    then show ?thesis by (rule done_frame) (use large e(1) in \<open>simp_all add: carries_frame_def\<close>)
  next
    case lines
    then have "check_bounds m = enqueue_frame (fst (finish_event_len (length c) m), None)
        ((snd (finish_event_len (length c) m))\<lparr>ml_discarding := ml_discarding m, ml_discard_partial := ml_discard_partial m\<rparr>)"
      using a mx e(1) by (simp add: check_bounds_def case_prod_unfold finish_event_def assembly_defs flip: e(3))
    then show ?thesis by (rule done_frame) (use lines e in \<open>auto simp: carries_frame_def\<close>)
  next
    case stays
    then have "check_bounds m = m" using a mx e(1) by (auto simp: check_bounds_def simp flip: e(3))
    moreover have "event_ok lim m" using a stays e unfolding event_ok_def by blast
    ultimately show ?thesis using a by (intro exI [of _ "[]"] exI [of _ k]) simp
  qed
qed

lemma accept_line_reached:
  assumes r: "multi_reached s base lim k m" and i: "index_byte LF (src_buf m) = Some i" and nd: "\<not> ml_discarding m"
    and adv: "can_advance_line_number (ml_next_line m)"
  shows "\<exists>m'. accept_line i m = (m', None) \<and> multi_reached s base lim k m'"
proof -
  obtain k0 where k0: "frames_between s base lim k (ml_pending m) k0" "assembling s base lim k0 m" and ok: "event_ok lim m"
    using r by (auto simp: multi_reached_def)
  define b where "b = ml_pattern m (trim_cr (take i (src_buf m)))"
  define delim where "delim = (if take i (src_buf m) \<noteq> [] \<and> last (take i (src_buf m)) = CR then 2 else 1 :: nat)"
  obtain new1 k1 where s1: "ml_pending (start_event b m) = ml_pending m @ new1" "frames_between s base lim k0 new1 k1"
    "opened s base lim k1 (start_event b m)" using start_event_opened [OF k0(2) ok nd] by blast
  have "ml_next_line (start_event b m) = ml_next_line m" by (simp add: start_event_def assembly_defs)
  then obtain m2 where c: "consume_line (i + 1) delim (start_event b m) = (m2, None)" using adv by (simp add: consume_line_def)
  have i2: "index_byte LF (src_buf (start_event b m)) = Some i" using i by simp
  note o2 = consume_opened [OF s1(3) i2 c]
  have "\<exists>ev. ml_event (start_event b m) = ev" by blast
  obtain d where d: "d \<in> {[LF], [CR, LF]}" "take (i + 1) (src_buf m) = trim_cr (take i (src_buf m)) @ d" by (rule line_split [OF i])
  have "length (take (i + 1) (src_buf m)) = i + 1" "length (take i (src_buf m)) = i" using index_byte_SomeD(1) [OF i] by simp_all
  then have dl: "length d = delim"
    using arg_cong [OF d(2), of length] length_trim_cr_cases [of "take i (src_buf m)"] by (auto simp: delim_def split: if_splits)
  have e2: "ml_event m2 = (ml_event (start_event b m) @ trim_cr (take i (src_buf m))) @ d" using o2(2) d(2) by simp
  obtain new2 k2 where s2: "ml_pending (check_bounds m2) = ml_pending m2 @ new2" "frames_between s base lim k1 new2 k2"
    "assembling s base lim k2 (check_bounds m2)" "event_ok lim (check_bounds m2)"
    using check_bounds_reached [OF o2(1) e2 d(1)] o2(3) dl by auto
  have "frames_between s base lim k (ml_pending (check_bounds m2)) k2"
    using frames_between_append [OF frames_between_append [OF k0(1) s1(2)] s2(2)] s1(1) s2(1) o2(4) by simp
  then have "multi_reached s base lim k (check_bounds m2)" using s2(3,4) by (auto simp: multi_reached_def)
  moreover have "accept_line i m = (check_bounds m2, None)" using c by (simp add: accept_line_def Let_def b_def delim_def)
  ultimately show ?thesis by blast
qed

lemma emit_oversized_reached:
  assumes a: "assembling s base lim k m" and ok: "event_ok lim m" and l: "line_too_large m" and e: "emit_oversized m = (m', None)"
  shows "\<exists>new k'. ml_pending m' = ml_pending m @ new \<and> frames_between s base lim k new k' \<and> assembling s base lim k' m' \<and> event_ok lim m'"
proof -
  obtain pre where p: "ml_max m = lim" "s = pre @ ml_event m @ remaining m" "k \<le> length pre"
    "src_off m = base + of_nat (length pre + length (ml_event m))" "ml_started m \<longrightarrow> ml_start m = base + of_nat (length pre)"
    by (rule assemblingE [OF a])
  let ?all = "ml_event m @ src_buf m"
  have big: "lim < length ?all"
    using l p(1) length_trim_cr [of "src_buf m"]
    by (auto simp: line_too_large_def pending_content_bytes_def pending_line_content_bytes_def Let_def split: if_splits)
  define j where "j = length pre + length (ml_event m) + length (src_buf m)"
  have j: "j = length pre + length (take lim ?all) + length (drop lim ?all)" "j = length (pre @ ?all)" by (simp_all add: j_def)
  define fr where "fr = \<lparr>frame_bytes = take lim ?all, start_offset = base + of_nat (length pre), end_offset = base + of_nat j,
    line_number = if ml_started m then ml_line m else ml_next_line m, next_line_number = ml_next_line m\<rparr>"
  have start: "(if ml_started m then ml_start m else src_off m) = base + of_nat (length pre)"
    using p(4,5) ok by (auto simp: event_ok_def)
  have off: "src_off m + of_nat (length (src_buf m)) = base + of_nat j" using p(4) by (simp add: j_def)
  have m': "m' = enqueue_frame (fr, Some ErrEventTooLargeIncomplete)
      ((reset_event (m\<lparr>src_off := base + of_nat j, src_buf := []\<rparr>))\<lparr>ml_discarding := True, ml_discard_partial := True\<rparr>)"
    using e big p(1) start off unfolding fr_def by (simp add: emit_oversized_def Let_def min_absorb1 split: if_splits)
  have "framed s base lim k j (fr, Some ErrEventTooLargeIncomplete)"
  proof (rule framedI [of s pre "take lim ?all" "drop lim ?all" "remaining (m\<lparr>src_buf := []\<rparr>)"])
    show "s = pre @ take lim ?all @ drop lim ?all @ remaining (m\<lparr>src_buf := []\<rparr>)"
      using p(2) by (metis append_assoc append_take_drop_id remaining_def remaining_take drop_all order_refl take_all)
  qed (use p(3) big j in \<open>simp_all add: fr_def carries_frame_def\<close>)
  moreover have "assembling s base lim j m'"
  proof (rule assemblingI [of _ _ _ "pre @ ?all"])
    show "src_off m' = base + of_nat (length (pre @ ?all) + length (ml_event m'))" by (simp add: m' assembly_defs j_def)
    show "s = (pre @ ?all) @ ml_event m' @ remaining m'" using p(2) by (simp add: m' assembly_defs remaining_def)
  qed (use p(1) in \<open>simp_all add: m' assembly_defs j_def\<close>)
  moreover have "event_ok lim m'" by (simp add: m' assembly_defs event_ok_def)
  moreover have "ml_pending m' = ml_pending m @ [(fr, Some ErrEventTooLargeIncomplete)]" by (simp add: m' assembly_defs)
  ultimately show ?thesis by (intro exI [of _ "[(fr, Some ErrEventTooLargeIncomplete)]"] exI [of _ j]) auto
qed

lemma take_pending_reached:
  assumes "multi_reached s base lim k m" "ml_pending m = (fr, e) # pfs"
  shows "\<exists>j. framed s base lim k j (fr, e) \<and> multi_reached s base lim j (m\<lparr>ml_pending := pfs\<rparr>)"
proof -
  obtain k' where k': "frames_between s base lim k ((fr, e) # pfs) k'" "assembling s base lim k' m" "event_ok lim m"
    using assms by (auto simp: multi_reached_def)
  then obtain j where j: "framed s base lim k j (fr, e)" "frames_between s base lim j pfs k'" by auto
  have "assembling s base lim k' (m\<lparr>ml_pending := pfs\<rparr>)" by (rule assembling_cong [OF k'(2)]) (simp_all add: remaining_def)
  moreover have "event_ok lim (m\<lparr>ml_pending := pfs\<rparr>)" by (rule event_ok_cong [OF k'(3)]) simp_all
  ultimately show ?thesis using j by (auto simp: multi_reached_def)
qed

lemma emit_oversized_error: "emit_oversized m = (m', Some x) \<Longrightarrow> m' = m \<and> x = ErrLineNumberOverflow"
  by (auto simp: emit_oversized_def Let_def split: if_splits)

lemma accept_line_reached2:
  assumes "multi_reached s base lim k m" "index_byte LF (src_buf m) = Some i" "\<not> ml_discarding m"
    "can_advance_line_number (ml_next_line m)" "accept_line i m = (m', e)"
  shows "e = None \<and> multi_reached s base lim k m'"
  using accept_line_reached [OF assms(1-4)] assms(5) by auto

lemma multi_next_reached:
  "multi_reached s base lim k m \<Longrightarrow> multi_next m = ((fr, e), m') \<Longrightarrow>
    if carries_frame e then \<exists>j. framed s base lim k j (fr, e) \<and> multi_reached s base lim j m' else multi_reached s base lim k m'"
proof (induction m rule: multi_next.induct)
  case (1 m)
  note unfolded = "1.prems"(2) [unfolded multi_next.simps [of m]]
  have carried: "carries_frame x" if "ml_pending m = (y, x) # pfs" for x y pfs
    using "1.prems"(1) that by (auto simp: multi_reached_def framed_def)
  obtain k0 where k0: "frames_between s base lim k (ml_pending m) k0" "assembling s base lim k0 m" and ok: "event_ok lim m"
    using "1.prems"(1) by (auto simp: multi_reached_def)
  show ?case
  proof (cases "ml_pending m")
    case (Cons pf pfs)
    then show ?thesis using take_pending_reached [OF "1.prems"(1), of fr e pfs] carried unfolded by (cases pf) auto
  next
    case Nil
    show ?thesis
    proof (cases "ml_discarding m")
      case True
      obtain m1 e1 where d: "discard_until_start m = (m1, e1)" by fastforce
      have ns: "\<not> ml_started m" "ml_event m = []" using ok True by (auto simp: event_ok_def)
      note r = discard_reached [OF d k0(2) ns]
      have "ml_pending m1 = []" using discard_until_start_progress [OF d] Nil by simp
      then have m1: "multi_reached s base lim k m1" using r k0(1) Nil by (auto simp: multi_reached_def event_ok_def)
      show ?thesis
      proof (cases e1)
        case None
        then show ?thesis using "1.IH"(1) [OF Nil True d [symmetric] None m1] unfolded Nil True d by simp
      next
        case (Some x)
        then show ?thesis using unfolded Nil True d m1 r by (auto simp: no_frame_def)
      qed
    next
      case nd: False
      show ?thesis
      proof (cases "index_byte LF (src_buf m)")
        case None
        note IH = "1.IH"(2) [OF Nil nd None] "1.IH"(3) [OF Nil nd None]
        show ?thesis
        proof (cases "line_too_large m")
          case True
          obtain m1 e1 where d: "emit_oversized m = (m1, e1)" by fastforce
          show ?thesis
          proof (cases e1)
            case N: None
            obtain new k' where "ml_pending m1 = new" "frames_between s base lim k0 new k'" "assembling s base lim k' m1" "event_ok lim m1"
              using emit_oversized_reached [OF k0(2) ok True] d N Nil by auto
            moreover have "k \<le> k0" using k0(1) Nil by simp
            ultimately have m1: "multi_reached s base lim k m1"
              using frames_between_append [of s base lim k "[]" k0 new k'] by (auto simp: multi_reached_def)
            then show ?thesis using IH(1) [OF True d [symmetric] N m1] unfolded Nil nd None True d N by simp
          next
            case (Some x)
            then have "m1 = m" "x = ErrLineNumberOverflow" using emit_oversized_error d by auto
            then show ?thesis using unfolded Nil nd None True d Some "1.prems"(1) by (auto simp: carries_frame_def)
          qed
        next
          case small: False
          show ?thesis
          proof (cases "src_eof m")
            case True
            then show ?thesis using unfolded Nil nd None small "1.prems"(1) by (auto simp: carries_frame_def split: if_splits)
          next
            case False
            obtain m1 e1 where d: "fill m = (m1, e1)" by fastforce
            have "assembling s base lim k0 m1" by (rule assembling_cong [OF k0(2) fill_fields(1-4) [OF d] fill_remaining [OF d]])
            moreover have "event_ok lim m1" by (rule event_ok_cong [OF ok]) (simp_all add: fill_fields [OF d])
            ultimately have m1: "multi_reached s base lim k m1" using k0(1) fill_fields(7) [OF d] by (auto simp: multi_reached_def)
            show ?thesis
            proof (cases e1)
              case N: None
              show ?thesis using IH(2) [OF small False d [symmetric] N m1] unfolded Nil nd None small False d N by simp
            next
              case (Some x)
              then show ?thesis using unfolded Nil nd None small False d m1 fill_error [of m m1 x] by (auto simp: carries_frame_def)
            qed
          qed
        qed
      next
        case (Some i)
        show ?thesis
        proof (cases "can_advance_line_number (ml_next_line m)")
          case False
          then show ?thesis using unfolded Nil nd Some "1.prems"(1) by (auto simp: carries_frame_def)
        next
          case adv: True
          obtain m1 e1 where d: "accept_line i m = (m1, e1)" by fastforce
          note r = accept_line_reached2 [OF "1.prems"(1) Some nd adv d]
          have nadv: "\<not> \<not> can_advance_line_number (ml_next_line m)" using adv by simp
          have "e1 = None" using r by simp
          then show ?thesis using "1.IH"(4) [OF Nil nd Some nadv d [symmetric] _ conjunct2 [OF r]] unfolded Nil nd Some adv d by simp
        qed
      qed
    qed
  qed
qed

text \<open>\<open>Flush\<close>.\<close>

lemma flush_fields:
  assumes "flush_combined m = ((fr, ok, e), m')"
  shows "ok" "e = (if length (flush_content (ml_event m @ src_buf m)) > ml_max m then Some ErrEventTooLarge else None)"
    "frame_bytes fr = take (ml_max m) (flush_content (ml_event m @ src_buf m))"
    "start_offset fr = src_off m - of_nat (length (ml_event m))"
    "end_offset fr = src_off m - of_nat (length (ml_event m)) + of_nat (length (ml_event m @ src_buf m))"
    "src_buf m' = []" "src_off m' = src_off m - of_nat (length (ml_event m)) + of_nat (length (ml_event m @ src_buf m))"
    "ml_started m' = False" "ml_event m' = []" "ml_max m' = ml_max m" "ml_pending m' = ml_pending m"
    "src_eof m' = src_eof m" "src_reader m' = src_reader m"
  using assms by (auto simp: flush_combined_def Let_def reset_event_def)

lemma flush_event_reached:
  assumes r: "multi_reached s base lim k m" and np: "ml_pending m = []" "\<not> ml_discarding m"
    and n: "multi_flush_event m = ((fr, ok, e), m')"
  shows "if ok then \<exists>j. framed s base lim k j (fr, e) \<and> multi_reached s base lim j m' else multi_reached s base lim k m'"
proof -
  obtain k0 where k0: "k \<le> k0" "assembling s base lim k0 m" and ok: "event_ok lim m"
    using r np by (auto simp: multi_reached_def)
  obtain pre where p: "ml_max m = lim" "s = pre @ ml_event m @ remaining m" "k0 \<le> length pre"
    "src_off m = base + of_nat (length pre + length (ml_event m))" "ml_started m \<longrightarrow> ml_start m = base + of_nat (length pre)"
    by (rule assemblingE [OF k0(2)])
  consider (nothing) "\<not> ml_started m \<and> src_buf m = []" | (overflow) "src_buf m \<noteq> []" "\<not> can_advance_line_number (ml_next_line m)"
    | (boundary) "ml_started m" "src_buf m \<noteq> []" "can_advance_line_number (ml_next_line m)" "ml_pattern m (trim_cr (src_buf m))"
    | (all) "ml_started m \<or> src_buf m \<noteq> []" "src_buf m = [] \<or> can_advance_line_number (ml_next_line m)"
        "\<not> (ml_started m \<and> src_buf m \<noteq> [] \<and> ml_pattern m (trim_cr (src_buf m)))" by blast
  then show ?thesis
  proof cases
    case nothing
    then show ?thesis using n r by (auto simp: multi_flush_event_def Let_def)
  next
    case overflow
    then show ?thesis using n r by (auto simp: multi_flush_event_def Let_def split: if_splits)
  next
    case boundary
    obtain c d where cd: "ml_event m = c @ d" "d \<in> {[LF], [CR, LF]}" "length d = ml_delim m" "length c \<le> lim"
      using ok boundary(1) by (auto simp: event_ok_def)
    have fe: "finish_event m = finish_event_len (length c) m" by (simp add: finish_event_def cd(1) flip: cd(3))
    obtain j where j: "framed s base lim k0 j (fst (finish_event m), None)" "assembling s base lim j (snd (finish_event m))"
      using finish_framed [OF k0(2) boundary(1), of "length c" None] cd by (auto simp: fe carries_frame_def)
    have "multi_reached s base lim j (snd (finish_event m))"
      using j(2) np by (auto simp: multi_reached_def event_ok_def assembly_defs intro!: exI [of _ j])
    moreover have "fr = fst (finish_event m)" "e = None" "m' = snd (finish_event m)" ok
      using n boundary by (auto simp: multi_flush_event_def Let_def case_prod_unfold)
    ultimately show ?thesis using framed_earlier [OF j(1) k0(1)] by auto
  next
    case all
    define combined where "combined = ml_event m @ src_buf m"
    have ne: "combined \<noteq> []" using all(1) ok by (auto simp: combined_def event_ok_def)
    define content where "content = flush_content combined"
    have "content = trim_cr (if last combined = LF then butlast combined else combined)"
      using ne by (simp add: content_def flush_content_def)
    then obtain d where d: "combined = content @ d" "d \<in> {[], [CR], [LF], [CR, LF]}" using buffer_split [OF ne] by metis
    define j where "j = length pre + length combined"
    have start: "src_off m - of_nat (length (ml_event m)) = base + of_nat (length pre)" using p(4) by simp
    have stop: "base + of_nat (length pre) + of_nat (length combined) = base + of_nat j" by (simp add: j_def)
    have fc: "flush_combined m = ((fr, ok, e), m')" using n all by (simp add: multi_flush_event_def split: if_splits)
    note m' = flush_fields [OF fc, folded combined_def, unfolded start stop p(1), folded content_def]
    have s: "s = pre @ take lim content @ (drop lim content @ d) @ remaining m'"
    proof -
      have "s = pre @ combined @ remaining m'" using p(2) m'(6,12,13) by (simp add: remaining_def combined_def)
      then show ?thesis by (simp add: d(1))
    qed
    have "framed s base lim k0 j (fr, e)"
    proof (rule framedI [OF s p(3), of j])
      show "j = length pre + length (take lim content) + length (drop lim content @ d)" by (simp add: j_def d(1))
      show "fr = \<lparr>frame_bytes = take lim content, start_offset = base + of_nat (length pre), end_offset = base + of_nat j,
        line_number = line_number fr, next_line_number = next_line_number fr\<rparr>" using m'(3-5) by simp
    qed (use m'(2) d(2) in \<open>auto simp: carries_frame_def\<close>)
    moreover have "assembling s base lim j m'"
    proof (rule assemblingI [of _ _ _ "pre @ combined"])
      show "s = (pre @ combined) @ ml_event m' @ remaining m'" using s d(1) m'(9) by (simp add: append_assoc [symmetric] del: append_assoc)
    qed (use m' in \<open>simp_all add: j_def\<close>)
    moreover have "event_ok lim m'" using m'(8,9) by (simp add: event_ok_def)
    ultimately have "framed s base lim k j (fr, e) \<and> multi_reached s base lim j m'"
      using m'(11) np framed_earlier [OF _ k0(1)] by (auto simp: multi_reached_def intro!: exI [of _ j])
    then show ?thesis using m'(1) by auto
  qed
qed

lemma multi_flush_reached:
  assumes r: "multi_reached s base lim k m" and n: "multi_flush m = ((fr, ok, e), m')"
  shows "if ok then \<exists>j. framed s base lim k j (fr, e) \<and> multi_reached s base lim j m' else multi_reached s base lim k m'"
proof (cases "ml_pending m")
  case (Cons pf pfs)
  then show ?thesis using take_pending_reached [OF r, of fr e pfs] n by (cases pf) (auto simp: multi_flush_def)
next
  case Nil
  obtain k0 where k0: "k \<le> k0" "assembling s base lim k0 m" and eok: "event_ok lim m"
    using r Nil by (auto simp: multi_reached_def)
  show ?thesis
  proof (cases "ml_discarding m")
    case False
    then show ?thesis using flush_event_reached [OF r Nil False] n Nil by (simp add: multi_flush_def)
  next
    case True
    have ns: "\<not> ml_started m" "ml_event m = []" using eok True by (auto simp: event_ok_def)
    have same: "multi_reached s base lim k m1" if "assembling s base lim k0 m1" "\<not> ml_started m1" "ml_event m1 = []" "ml_pending m1 = []" for m1
      using that k0(1) by (auto simp: multi_reached_def event_ok_def)
    let ?m1 = "m\<lparr>ml_discarding := False\<rparr>"
    let ?m2 = "m\<lparr>ml_next_line := ml_next_line m + 1, ml_discard_partial := False\<rparr>"
    let ?m3 = "m\<lparr>src_off := src_off m + of_nat (length (src_buf m)), src_buf := [], ml_next_line := ml_next_line m + 1, ml_discard_partial := False\<rparr>"
    have m1: "multi_reached s base lim k ?m1"
      by (rule same [OF assembling_cong [OF k0(2)]]) (use ns Nil in \<open>simp_all add: remaining_def\<close>)
    have m2: "multi_reached s base lim k ?m2"
      by (rule same [OF assembling_cong [OF k0(2)]]) (use ns Nil in \<open>simp_all add: remaining_def\<close>)
    have m3: "multi_reached s base lim k ?m3"
      by (rule same [OF assembling_drop [OF k0(2) ns(2), of _ "src_buf m"]]) (use ns Nil in \<open>simp_all add: remaining_def\<close>)
    consider "src_buf m = []" | "src_buf m \<noteq> []" "\<not> can_advance_line_number (ml_next_line m)"
      | "src_buf m \<noteq> []" "can_advance_line_number (ml_next_line m)"
        "\<not> ml_discard_partial m \<and> length (trim_cr (src_buf m)) \<le> ml_max m \<and> ml_pattern m (trim_cr (src_buf m))"
      | "src_buf m \<noteq> []" "can_advance_line_number (ml_next_line m)"
        "\<not> (\<not> ml_discard_partial m \<and> length (trim_cr (src_buf m)) \<le> ml_max m \<and> ml_pattern m (trim_cr (src_buf m)))" by blast
    then show ?thesis
    proof cases
      case 1
      then show ?thesis using n Nil True r m2 by (auto simp: multi_flush_def split: if_splits)
    next
      case 2
      then show ?thesis using n Nil True r by (auto simp: multi_flush_def)
    next
      case 3
      then have "multi_flush_event ?m1 = ((fr, ok, e), m')" using n Nil True by (simp add: multi_flush_def)
      then show ?thesis by (rule flush_event_reached [OF m1, rotated 2]) (use Nil in simp_all)
    next
      case 4
      then have "ok = False" "m' = ?m3" using n Nil True by (auto simp: multi_flush_def Let_def split: if_splits)
      then show ?thesis using m3 by simp
    qed
  qed
qed

interpretation multiline_framing: framer multi_next multi_flush multi_reached
proof unfold_locales
  fix s base lim k and m :: multiline_framer
  assume "multi_reached s base lim k m"
  then obtain k' where k': "frames_between s base lim k (ml_pending m) k'" "assembling s base lim k' m" by (auto simp: multi_reached_def)
  have "k' \<le> length s" using k'(2) by (auto simp: assembling_def)
  moreover have "k \<le> k'" using k'(1) by (rule frames_between_le)
  ultimately show "k \<le> length s" by simp
qed (blast intro: multi_next_reached multi_flush_reached)+

end
