(* ===== verification/Framing_Exact.thy ===== *)
theory Framing_Exact
  imports Framing_Multiline
begin

text \<open>
  The framers of \<open>framing.go\<close> against reference definitions on the whole stream: the complete lines for the line
  framer, the groups of lines for the multiline framer, and the properties of both.
\<close>

section \<open>The line framer against the lines of the stream\<close>

text \<open>The complete lines of a stream, each with its line feed, and the unterminated rest.\<close>

fun physical_lines :: "bytes \<Rightarrow> bytes \<Rightarrow> bytes list \<times> bytes" where
  "physical_lines acc [] = ([], acc)"
| "physical_lines acc (c # cs) =
     (if c = LF then (case physical_lines [] cs of (ls, r) \<Rightarrow> ((acc @ [c]) # ls, r)) else physical_lines (acc @ [c]) cs)"

definition whole_line :: "bytes \<Rightarrow> bool" where
  "whole_line l \<longleftrightarrow> (\<exists>c. l = c @ [LF] \<and> LF \<notin> set c)"

definition line_content :: "bytes \<Rightarrow> bytes" where
  "line_content l = trim_cr (butlast l)"

lemma physical_lines_parts:
  "physical_lines acc s = (ls, r) \<Longrightarrow> LF \<notin> set acc \<Longrightarrow> concat ls @ r = acc @ s \<and> (\<forall>l \<in> set ls. whole_line l) \<and> LF \<notin> set r"
proof (induction acc s arbitrary: ls r rule: physical_lines.induct)
  case (2 acc c cs)
  show ?case
  proof (cases "c = LF")
    case True
    obtain ls' where ls': "physical_lines [] cs = (ls', r)" "ls = (acc @ [c]) # ls'" using "2.prems"(1) True by (auto split: prod.splits)
    have "whole_line (acc @ [c])" using "2.prems"(2) True by (auto simp: whole_line_def)
    then show ?thesis using "2.IH"(1) [OF True ls'(1)] ls'(2) by auto
  qed (use 2 in auto)
qed auto

fun frames_at :: "u64 \<Rightarrow> u64 \<Rightarrow> bytes list \<Rightarrow> frame list" where
  "frames_at off line [] = []"
| "frames_at off line (l # ls) =
     \<lparr>frame_bytes = line_content l, start_offset = off, end_offset = off + of_nat (length l), line_number = line,
       next_line_number = line + 1\<rparr> # frames_at (off + of_nat (length l)) (line + 1) ls"

definition never_fails :: "reader \<Rightarrow> bool" where
  "never_fails r \<longleftrightarrow> (\<forall>x \<in> set r. \<forall>e. snd x \<noteq> ReadFailed e)"

lemma fill_loop_never_fails: "fill_loop r buf = (r', buf', eof, e) \<Longrightarrow> never_fails r \<Longrightarrow> never_fails r' \<and> e = None"
  by (induction r buf rule: fill_loop.induct) (auto simp: never_fails_def split: if_splits)

lemma fill_never_fails: "fill f = (f', e) \<Longrightarrow> never_fails (src_reader f) \<Longrightarrow> never_fails (src_reader f') \<and> e = None"
  by (auto simp: fill_def split: if_splits prod.splits dest!: fill_loop_never_fails)

lemma trim_cr_prefix_length: "prefix b c \<Longrightarrow> length (trim_cr b) \<le> length (trim_cr c)"
proof -
  assume "prefix b c"
  then obtain z where z: "c = b @ z" by (auto simp: prefix_def)
  show ?thesis
  proof (cases "z = []")
    case False
    then have "length b < length c" by (simp add: z)
    then show ?thesis using length_trim_cr [of b] length_trim_cr_cases [of c] by (auto split: if_splits)
  qed (simp add: z)
qed

text \<open>A whole line in front of the unread bytes is the next frame, wherever the chunks of the reader end.\<close>

lemma line_next_whole:
  "remaining f = l @ rest \<Longrightarrow> whole_line l \<Longrightarrow> length (line_content l) \<le> lf_max f \<Longrightarrow> can_advance_line_number (lf_line f) \<Longrightarrow>
   never_fails (src_reader f) \<Longrightarrow>
   \<exists>f'. line_next f = ((\<lparr>frame_bytes = line_content l, start_offset = src_off f, end_offset = src_off f + of_nat (length l),
       line_number = lf_line f, next_line_number = lf_line f + 1\<rparr>, None), f')
     \<and> remaining f' = rest \<and> src_off f' = src_off f + of_nat (length l) \<and> lf_line f' = lf_line f + 1 \<and> lf_max f' = lf_max f
     \<and> never_fails (src_reader f')"
proof (induction f rule: line_next.induct)
  case (1 f)
  obtain c where c: "l = c @ [LF]" "LF \<notin> set c" using "1.prems"(2) by (auto simp: whole_line_def)
  show ?case
  proof (cases "index_byte LF (src_buf f)")
    case (Some i)
    have "index_byte LF (remaining f) = Some i" unfolding remaining_def by (rule index_byte_append1 [OF Some])
    then have i: "i = length c" using index_byte_split [OF c(2), of rest] by (simp add: "1.prems"(1) c(1))
    define X where "X = (if src_eof f then [] else readable_bytes (src_reader f))"
    have eq: "src_buf f @ X = l @ rest" using "1.prems"(1) by (simp add: remaining_def X_def)
    have "length l \<le> length (src_buf f)" using index_byte_SomeD(1) [OF Some] i c(1) by simp
    then obtain b where b: "src_buf f = l @ b" "b @ X = rest" using eq by (auto simp: append_eq_append_conv2)
    have tk: "take i (src_buf f) = c" "take (i + 1) (src_buf f) = l" "drop (i + 1) (src_buf f) = b" by (simp_all add: b(1) i c(1))
    have small: "\<not> line_content_bytes (src_buf f) > lf_max f"
      using "1.prems"(3) by (simp add: line_content_bytes_eq Some tk(1) line_content_def c(1))
    have len: "length l = i + 1" by (simp add: i c(1))
    have "line_next f = ((fst (emit_line i f), None), snd (emit_line i f))"
      using small Some "1.prems"(4) by (simp add: line_next.simps [of f] case_prod_unfold Let_def)
    moreover have "emit_line i f = (\<lparr>frame_bytes = line_content l, start_offset = src_off f, end_offset = src_off f + of_nat (length l),
       line_number = lf_line f, next_line_number = lf_line f + 1\<rparr>,
       f\<lparr>src_buf := b, src_off := src_off f + of_nat (length l), lf_line := lf_line f + 1\<rparr>)"
    proof -
      have "take (length l - 1) l = c" by (simp add: c(1))
      moreover have "line_content l = trim_cr c" by (simp add: line_content_def c(1))
      moreover have "drop (length l) (src_buf f) = b" using tk(3) len by simp
      ultimately show ?thesis unfolding emit_line_def Let_def tk(2) by simp
    qed
    ultimately show ?thesis using b(2) "1.prems"(5) by (auto simp: remaining_def X_def split: if_splits)
  next
    case None
    have "prefix (src_buf f) (l @ rest)" using "1.prems"(1) unfolding remaining_def by (metis prefixI)
    then have pc: "prefix (src_buf f) c" using None c by (auto simp: prefix_append prefix_Cons)
    have small: "\<not> line_content_bytes (src_buf f) > lf_max f"
      using trim_cr_prefix_length [OF pc] "1.prems"(3) None c(1) by (simp add: line_content_bytes_eq line_content_def)
    have ne: "\<not> src_eof f"
    proof
      assume "src_eof f"
      then have "src_buf f = l @ rest" using "1.prems"(1) by (simp add: remaining_def)
      then show False using None c(1) by simp
    qed
    obtain f1 e1 where fl: "fill f = (f1, e1)" by fastforce
    have e1: "e1 = None" "never_fails (src_reader f1)" using fill_never_fails [OF fl "1.prems"(5)] by auto
    have f1: "lf_max f1 = lf_max f" "lf_line f1 = lf_line f" using fl by (auto simp: fill_def split: if_splits prod.splits)
    note rm = fill_remaining [OF fl]
    have "line_next f = line_next f1" using small None ne fl e1(1) by (simp add: line_next.simps [of f])
    then show ?thesis
      using "1.IH" [OF small None ne fl [symmetric] e1(1)] "1.prems"(1-4) rm f1 e1(2) by simp
  qed
qed

lemma line_next_end:
  "remaining f = rest \<Longrightarrow> LF \<notin> set rest \<Longrightarrow> length (trim_cr rest) \<le> lf_max f \<Longrightarrow> never_fails (src_reader f) \<Longrightarrow>
   \<exists>e f'. line_next f = ((zero_frame, Some e), f') \<and> \<not> carries_frame (Some e) \<and> remaining f' = rest \<and> lf_max f' = lf_max f \<and> never_fails (src_reader f')
     \<and> (can_advance_line_number (lf_line f) \<longrightarrow> e = (if rest = [] then EndOfFile else ErrPartialFrame))"
proof (induction f rule: line_next.induct)
  case (1 f)
  have p: "prefix (src_buf f) rest" using "1.prems"(1) by (auto simp: remaining_def)
  then have None: "index_byte LF (src_buf f) = None" using "1.prems"(2) set_mono_prefix by (auto simp: subset_iff)
  have small: "\<not> line_content_bytes (src_buf f) > lf_max f"
    using trim_cr_prefix_length [OF p] "1.prems"(3) None by (simp add: line_content_bytes_eq)
  show ?case
  proof (cases "src_eof f")
    case True
    then show ?thesis using "1.prems" small None by (auto simp: line_next.simps [of f] remaining_def carries_frame_def)
  next
    case False
    obtain f1 e1 where fl: "fill f = (f1, e1)" by fastforce
    have e1: "e1 = None" "never_fails (src_reader f1)" using fill_never_fails [OF fl "1.prems"(4)] by auto
    have f1: "lf_max f1 = lf_max f" "lf_line f1 = lf_line f" using fl by (auto simp: fill_def split: if_splits prod.splits)
    have "line_next f = line_next f1" using small None False fl e1(1) by (simp add: line_next.simps [of f])
    then show ?thesis
      using "1.IH" [OF small None False fl [symmetric] e1(1)] "1.prems"(1-3) fill_remaining [OF fl] f1 e1(2) by simp
  qed
qed

lemma run_next_only_ends:
  assumes "LF \<notin> set (remaining f)" "length (trim_cr (remaining f)) \<le> lf_max f" "never_fails (src_reader f)"
  shows "fst (run_framer line_next line_flush (replicate n CallNext) f) = []"
  using assms
proof (induction n arbitrary: f)
  case (Suc n)
  obtain e f' where r: "line_next f = ((zero_frame, Some e), f')" "\<not> carries_frame (Some e)" "remaining f' = remaining f" "lf_max f' = lf_max f"
    "never_fails (src_reader f')" using line_next_end [OF refl Suc.prems] by blast
  then show ?case using Suc.IH [of f'] Suc.prems by (simp add: case_prod_unfold)
qed simp

lemma run_next_frames:
  assumes "remaining f = concat ls @ rest" "\<forall>l \<in> set ls. whole_line l \<and> length (line_content l) \<le> lf_max f"
    "LF \<notin> set rest" "length (trim_cr rest) \<le> lf_max f" "never_fails (src_reader f)" "unat (lf_line f) + length ls < 2 ^ 64 - 2"
  shows "fst (run_framer line_next line_flush (replicate n CallNext) f)
    = take n (map (\<lambda>fr. (fr, None)) (frames_at (src_off f) (lf_line f) ls))"
  using assms
proof (induction ls arbitrary: n f)
  case Nil
  then show ?case using run_next_only_ends [of f n] by simp
next
  case (Cons l ls)
  show ?case
  proof (cases n)
    case (Suc k)
    have adv: "can_advance_line_number (lf_line f)" "unat (lf_line f + 1) = unat (lf_line f) + 1"
      using Cons.prems(6) by (auto simp: can_advance_line_number_def word_less_nat_alt unat_word_ariths)
    have rm: "remaining f = l @ (concat ls @ rest)" using Cons.prems(1) by simp
    obtain f' where f': "line_next f = ((\<lparr>frame_bytes = line_content l, start_offset = src_off f, end_offset = src_off f + of_nat (length l),
       line_number = lf_line f, next_line_number = lf_line f + 1\<rparr>, None), f')"
      "remaining f' = concat ls @ rest" "src_off f' = src_off f + of_nat (length l)" "lf_line f' = lf_line f + 1" "lf_max f' = lf_max f"
      "never_fails (src_reader f')"
      using line_next_whole [OF rm _ _ adv(1) Cons.prems(5)] Cons.prems(2) by auto
    have "fst (run_framer line_next line_flush (replicate k CallNext) f')
      = take k (map (\<lambda>fr. (fr, None)) (frames_at (src_off f') (lf_line f') ls))"
      by (rule Cons.IH) (use f' Cons.prems adv(2) in auto)
    then show ?thesis using f' by (simp add: Suc case_prod_unfold carries_frame_def)
  qed simp
qed

section \<open>The multiline framer against the groups of lines\<close>

text \<open>
  The events of a list of lines: a line that matches the pattern closes the event before it, and an
  event of \<open>max_lines\<close> lines is closed.  The second component is the event still open behind the last line.
\<close>

fun group_events :: "(bytes \<Rightarrow> bool) \<Rightarrow> int \<Rightarrow> bytes list \<Rightarrow> bytes list \<Rightarrow> bytes list list \<times> bytes list" where
  "group_events p mx cur [] = ([], cur)"
| "group_events p mx cur (l # ls) =
     (let (closed, ev) = (if cur \<noteq> [] \<and> p (line_content l) then ([cur], [l]) else ([], cur @ [l]))
      in if mx > 0 \<and> int (length ev) \<ge> mx then (case group_events p mx [] ls of (es, lst) \<Rightarrow> (closed @ ev # es, lst))
         else (case group_events p mx ev ls of (es, lst) \<Rightarrow> (closed @ es, lst)))"

definition event_content :: "bytes list \<Rightarrow> bytes" where
  "event_content e = (if e = [] then [] else concat (butlast e) @ line_content (last e))"

fun event_frames :: "u64 \<Rightarrow> u64 \<Rightarrow> bytes list list \<Rightarrow> frame list" where
  "event_frames off line [] = []"
| "event_frames off line (e # es) =
     \<lparr>frame_bytes = event_content e, start_offset = off, end_offset = off + of_nat (length (concat e)), line_number = line,
       next_line_number = line + of_nat (length e)\<rparr>
     # event_frames (off + of_nat (length (concat e))) (line + of_nat (length e)) es"

lemma group_events_concat: "group_events p mx cur ls = (es, l) \<Longrightarrow> concat es @ l = cur @ ls"
proof (induction p mx cur ls arbitrary: es l rule: group_events.induct)
  case (2 p mx cur x ls)
  then show ?case by (auto simp: Let_def split: if_splits prod.splits)
qed simp

definition full_event :: "int \<Rightarrow> bytes list \<Rightarrow> bool" where
  "full_event mx e \<longleftrightarrow> mx > 0 \<and> int (length e) \<ge> mx"

lemma group_keep:
  "\<not> (cur \<noteq> [] \<and> p (line_content l)) \<Longrightarrow> group_events p mx cur (l # ls) =
     (if full_event mx (cur @ [l]) then ((cur @ [l]) # fst (group_events p mx [] ls), snd (group_events p mx [] ls))
      else group_events p mx (cur @ [l]) ls)"
  by (auto simp: full_event_def case_prod_unfold)

lemma group_cut:
  "cur \<noteq> [] \<and> p (line_content l) \<Longrightarrow> group_events p mx cur (l # ls) =
     (cur # fst (group_events p mx [] (l # ls)), snd (group_events p mx [] (l # ls)))"
  by (auto simp: case_prod_unfold Let_def)

declare group_events.simps(2) [simp del]

text \<open>Every event, and so every part of one, fits.\<close>

definition events_fit :: "nat \<Rightarrow> bytes list list \<times> bytes list \<Rightarrow> bool" where
  "events_fit lim g \<longleftrightarrow> (\<forall>e \<in> set (fst g). length (event_content e) \<le> lim) \<and> length (event_content (snd g)) \<le> lim"

lemma event_content_snoc: "event_content (e @ [l]) = concat e @ line_content l"
  by (simp add: event_content_def)

lemma line_content_length: "whole_line l \<Longrightarrow> length (line_content l) < length l"
  using length_trim_cr [of "butlast l"] by (auto simp: whole_line_def line_content_def)

lemma event_content_prefix:
  assumes "\<forall>l \<in> set b. whole_line l" shows "length (event_content a) \<le> length (event_content (a @ b))"
proof (cases "b = []")
  case False
  then obtain b' l where b: "b = b' @ [l]" by (metis rev_exhaust)
  have "length (event_content a) \<le> length (concat a)"
  proof (cases "a = []")
    case False
    then obtain a' x where "a = a' @ [x]" by (metis rev_exhaust)
    then show ?thesis using length_trim_cr [of "butlast x"] by (simp add: event_content_snoc line_content_def)
  qed (simp add: event_content_def)
  moreover have "event_content (a @ b) = concat a @ concat b' @ line_content l"
    using event_content_snoc [of "a @ b'" l] by (simp add: b)
  ultimately show ?thesis by simp
qed simp

lemma open_event_fits:
  "events_fit lim (group_events p mx cur ls) \<Longrightarrow> \<forall>l \<in> set ls. whole_line l \<Longrightarrow> length (event_content cur) \<le> lim"
proof (induction ls arbitrary: cur)
  case Nil
  then show ?case by (simp add: events_fit_def)
next
  case (Cons l ls)
  show ?case
  proof (cases "cur \<noteq> [] \<and> p (line_content l)")
    case True
    then show ?thesis using Cons.prems(1) by (simp add: group_cut events_fit_def)
  next
    case False
    have "length (event_content (cur @ [l])) \<le> lim"
      using Cons.prems Cons.IH [of "cur @ [l]"] by (cases "full_event mx (cur @ [l])") (simp_all add: group_keep [where cur = cur and p = p and l = l, OF False] events_fit_def)
    then show ?thesis using event_content_prefix [of "[l]" cur] Cons.prems(2) by simp
  qed
qed

lemma events_fit_step:
  assumes "events_fit lim (group_events p mx cur (l # ls))"
  shows "cur \<noteq> [] \<and> p (line_content l) \<Longrightarrow> events_fit lim (group_events p mx [] (l # ls))"
    and "\<not> (cur \<noteq> [] \<and> p (line_content l)) \<Longrightarrow> full_event mx (cur @ [l]) \<Longrightarrow> events_fit lim (group_events p mx [] ls)"
    and "\<not> (cur \<noteq> [] \<and> p (line_content l)) \<Longrightarrow> \<not> full_event mx (cur @ [l]) \<Longrightarrow> events_fit lim (group_events p mx (cur @ [l]) ls)"
  using assms by (auto simp: group_cut group_keep events_fit_def)

lemma joined_event_fits:
  assumes "events_fit lim (group_events p mx cur (l # ls))" "\<forall>x \<in> set ls. whole_line x"
  shows "length (event_content ((if cur \<noteq> [] \<and> p (line_content l) then [] else cur) @ [l])) \<le> lim"
proof -
  define cur1 where "cur1 = (if cur \<noteq> [] \<and> p (line_content l) then [] else cur)"
  have fit: "events_fit lim (group_events p mx cur1 (l # ls))" using assms(1) events_fit_step(1) by (auto simp: cur1_def)
  have keep: "\<not> (cur1 \<noteq> [] \<and> p (line_content l))" by (auto simp: cur1_def)
  have "length (event_content (cur1 @ [l])) \<le> lim"
  proof (cases "full_event mx (cur1 @ [l])")
    case True
    then show ?thesis using fit by (simp add: group_keep [where p = p, OF keep] events_fit_def)
  next
    case False
    then show ?thesis using open_event_fits [OF events_fit_step(3) [OF fit keep False] assms(2)] by simp
  qed
  then show ?thesis by (simp add: cur1_def)
qed

text \<open>The frames the assembled event and the unread lines will give.\<close>

definition future :: "multiline_framer \<Rightarrow> bytes list \<Rightarrow> bytes list \<Rightarrow> (frame \<times> framing_error option) list" where
  "future m cur ls = map (\<lambda>fr. (fr, None))
     (event_frames (src_off m - of_nat (length (concat cur))) (ml_next_line m - of_nat (length cur))
        (fst (group_events (ml_pattern m) (ml_max_lines m) cur ls)))"

text \<open>The framer has an event open that holds the lines \<open>cur\<close>.\<close>

definition opened_with :: "multiline_framer \<Rightarrow> bytes list \<Rightarrow> bool" where
  "opened_with m cur \<longleftrightarrow> ml_event m = concat cur \<and> ml_started m \<and> ml_lines m = int (length cur)
     \<and> ml_start m = src_off m - of_nat (length (concat cur)) \<and> ml_line m = ml_next_line m - of_nat (length cur)
     \<and> (cur \<noteq> [] \<longrightarrow> ml_delim m + length (line_content (last cur)) = length (last cur))"

definition holds :: "multiline_framer \<Rightarrow> bytes list \<Rightarrow> bool" where
  "holds m cur \<longleftrightarrow> (if cur = [] then \<not> ml_started m \<and> ml_event m = [] else opened_with m cur)"

definition unread :: "multiline_framer \<Rightarrow> bytes list \<Rightarrow> bytes \<Rightarrow> bool" where
  "unread m ls rest \<longleftrightarrow> remaining m = concat ls @ rest \<and> (\<forall>l \<in> set ls. whole_line l) \<and> LF \<notin> set rest
     \<and> length (trim_cr rest) \<le> ml_max m \<and> never_fails (src_reader m) \<and> \<not> ml_discarding m
     \<and> unat (ml_next_line m) + length ls < 2 ^ 64 - 2"

definition represents :: "multiline_framer \<Rightarrow> (frame \<times> framing_error option) list \<Rightarrow> bool" where
  "represents m F \<longleftrightarrow> (\<exists>cur ls rest. holds m cur \<and> (\<forall>l \<in> set cur. whole_line l) \<and> unread m ls rest
     \<and> events_fit (ml_max m) (group_events (ml_pattern m) (ml_max_lines m) cur ls) \<and> F = ml_pending m @ future m cur ls)"

lemma finish_event_of:
  assumes "opened_with m cur" "cur \<noteq> []"
  shows "finish_event m = (\<lparr>frame_bytes = event_content cur, start_offset = src_off m - of_nat (length (concat cur)), end_offset = src_off m,
      line_number = ml_next_line m - of_nat (length cur), next_line_number = ml_next_line m\<rparr>, reset_event m)"
proof -
  obtain c l where cl: "cur = c @ [l]" using assms(2) by (metis rev_exhaust)
  have d: "length (concat cur) - ml_delim m = length (concat c) + length (line_content l)"
    using assms by (auto simp: opened_with_def cl)
  have "prefix (line_content l) l" using trim_cr_prefix [of "butlast l"] by (metis line_content_def prefix_order.trans butlast_conv_take take_is_prefix)
  then have "take (length (line_content l)) l = line_content l" by (metis prefix_def append_eq_conv_conj)
  then have "take (length (concat cur) - ml_delim m) (concat cur) = event_content cur"
    unfolding d by (simp add: cl event_content_snoc)
  then show ?thesis using assms(1) by (simp add: finish_event_def finish_event_len_def opened_with_def)
qed

lemma start_event_opened_with:
  fixes b :: bool
  assumes "holds m cur"
  defines "m1 \<equiv> start_event b m"
  shows "opened_with m1 (if cur \<noteq> [] \<and> b then [] else cur)"
    "ml_pending m1 = ml_pending m @ (if cur \<noteq> [] \<and> b then [(fst (finish_event m), None)] else [])"
    "src_off m1 = src_off m" "ml_next_line m1 = ml_next_line m" "ml_max m1 = ml_max m" "ml_pattern m1 = ml_pattern m"
    "ml_max_lines m1 = ml_max_lines m" "ml_discarding m1 = ml_discarding m" "src_buf m1 = src_buf m" "src_eof m1 = src_eof m"
    "src_reader m1 = src_reader m"
proof -
  have st: "ml_started m \<longleftrightarrow> cur \<noteq> []" using assms(1) by (auto simp: holds_def opened_with_def split: if_splits)
  show "opened_with m1 (if cur \<noteq> [] \<and> b then [] else cur)"
    using assms(1) st by (auto simp: m1_def start_event_def holds_def opened_with_def case_prod_unfold Let_def assembly_defs split: if_splits)
qed (use assms(1) in \<open>auto simp: m1_def start_event_def holds_def opened_with_def case_prod_unfold Let_def assembly_defs split: if_splits\<close>)

lemma consume_line_opened_with:
  assumes "opened_with m cur" "take n (src_buf m) = l" "length l = n" "can_advance_line_number (ml_next_line m)"
    "delim + length (line_content l) = length l"
  obtains m' where "consume_line n delim m = (m', None)" "opened_with m' (cur @ [l])"
    "src_off m' = src_off m + of_nat (length l)" "ml_next_line m' = ml_next_line m + 1" "ml_max m' = ml_max m" "ml_pattern m' = ml_pattern m"
    "ml_max_lines m' = ml_max_lines m" "ml_discarding m' = ml_discarding m" "ml_pending m' = ml_pending m"
    "src_buf m' = drop n (src_buf m)" "src_eof m' = src_eof m" "src_reader m' = src_reader m"
  using assms by (simp add: consume_line_def opened_with_def)

lemma check_bounds_holds:
  assumes o: "opened_with m ev" and ne: "ev \<noteq> []" and fit: "length (event_content ev) \<le> ml_max m"
  defines "m1 \<equiv> check_bounds m" and "full \<equiv> full_event (ml_max_lines m) ev"
  shows "holds m1 (if full then [] else ev)"
    "ml_pending m1 = ml_pending m @ (if full then [(fst (finish_event m), None)] else [])"
    "src_off m1 = src_off m" "ml_next_line m1 = ml_next_line m" "ml_max m1 = ml_max m" "ml_pattern m1 = ml_pattern m"
    "ml_max_lines m1 = ml_max_lines m" "ml_discarding m1 = ml_discarding m" "src_buf m1 = src_buf m" "src_eof m1 = src_eof m"
    "src_reader m1 = src_reader m"
proof -
  obtain c l where cl: "ev = c @ [l]" using ne by (metis rev_exhaust)
  have "int (length (ml_event m)) - int (ml_delim m) = int (length (event_content ev))"
    using o by (auto simp: opened_with_def cl event_content_snoc)
  then have small: "\<not> int (length (ml_event m)) - int (ml_delim m) > int (ml_max m)" using fit by simp
  have fl: "full \<longleftrightarrow> ml_max_lines m > 0 \<and> ml_lines m \<ge> ml_max_lines m" using o by (simp add: full_def full_event_def opened_with_def)
  have "m1 = (if full then enqueue_frame (fst (finish_event m), None) (snd (finish_event m)) else m)"
    using o small unfolding m1_def fl check_bounds_def by (auto simp: opened_with_def case_prod_unfold Let_def)
  then show "holds m1 (if full then [] else ev)"
    "ml_pending m1 = ml_pending m @ (if full then [(fst (finish_event m), None)] else [])"
    "src_off m1 = src_off m" "ml_next_line m1 = ml_next_line m" "ml_max m1 = ml_max m" "ml_pattern m1 = ml_pattern m"
    "ml_max_lines m1 = ml_max_lines m" "ml_discarding m1 = ml_discarding m" "src_buf m1 = src_buf m" "src_eof m1 = src_eof m"
    "src_reader m1 = src_reader m"
    using o ne by (simp_all add: holds_def assembly_defs)
qed

lemma future_cut:
  assumes "opened_with m cur" "cur \<noteq> []" "ml_pattern m (line_content l)" "src_off m1 = src_off m" "ml_next_line m1 = ml_next_line m"
    "ml_pattern m1 = ml_pattern m" "ml_max_lines m1 = ml_max_lines m"
  shows "future m cur (l # ls) = (fst (finish_event m), None) # future m1 [] (l # ls)"
proof -
  have c: "cur \<noteq> [] \<and> ml_pattern m (line_content l)" using assms by simp
  show ?thesis using assms by (simp add: future_def group_cut [where p = "ml_pattern m", OF c] finish_event_of)
qed

lemma future_keep:
  assumes "\<not> (cur \<noteq> [] \<and> ml_pattern m (line_content l))" "opened_with m2 (cur @ [l])"
    "src_off m2 = src_off m + of_nat (length l)" "ml_next_line m2 = ml_next_line m + 1"
    "ml_pattern m2 = ml_pattern m" "ml_max_lines m2 = ml_max_lines m"
  shows "future m cur (l # ls) =
     (if full_event (ml_max_lines m) (cur @ [l]) then (fst (finish_event m2), None) # future m2 [] ls else future m2 (cur @ [l]) ls)"
proof -
  have "src_off m - of_nat (length (concat cur)) = src_off m2 - of_nat (length (concat (cur @ [l])))"
    "ml_next_line m - of_nat (length cur) = ml_next_line m2 - of_nat (length (cur @ [l]))" using assms(3,4) by simp_all
  then show ?thesis
    using assms(2,5,6) unfolding future_def group_keep [where p = "ml_pattern m", OF assms(1)]
    by (simp add: finish_event_of del: length_append concat_append)
qed

lemma future_cong:
  assumes "src_off m1 = src_off m" "ml_next_line m1 = ml_next_line m" "ml_pattern m1 = ml_pattern m" "ml_max_lines m1 = ml_max_lines m"
  shows "future m1 = future m"
  by (rule ext)+ (simp only: future_def assms)

lemma holds_cong:
  assumes "holds m cur" "ml_event m1 = ml_event m" "ml_started m1 = ml_started m" "ml_lines m1 = ml_lines m" "ml_start m1 = ml_start m"
    "src_off m1 = src_off m" "ml_line m1 = ml_line m" "ml_next_line m1 = ml_next_line m" "ml_delim m1 = ml_delim m"
  shows "holds m1 cur"
  using assms by (auto simp: holds_def opened_with_def)

text \<open>A whole line in the buffer is taken into the events it belongs to.\<close>

lemma buffered_line:
  assumes "unread m ls rest" "index_byte LF (src_buf m) = Some i"
  obtains l ls' where "ls = l # ls'" "take (i + 1) (src_buf m) = l" "length l = i + 1" "take i (src_buf m) = butlast l"
    "drop (i + 1) (src_buf m) @ (if src_eof m then [] else readable_bytes (src_reader m)) = concat ls' @ rest" "whole_line l"
proof -
  define X where "X = (if src_eof m then [] else readable_bytes (src_reader m))"
  have eq: "src_buf m @ X = concat ls @ rest" using assms(1) by (simp add: unread_def remaining_def X_def)
  have "LF \<in> set (src_buf m)" using assms(2) by (metis index_byte_None option.distinct(1))
  then have "LF \<in> set (concat ls @ rest)" unfolding eq [symmetric] by simp
  then have "ls \<noteq> []" using assms(1) by (auto simp: unread_def)
  then obtain l ls' where ls: "ls = l # ls'" by (cases ls) auto
  then obtain c where c: "l = c @ [LF]" "LF \<notin> set c" using assms(1) by (auto simp: unread_def whole_line_def)
  have "index_byte LF (src_buf m @ X) = Some i" by (rule index_byte_append1 [OF assms(2)])
  then have i: "i = length c" using index_byte_split [OF c(2), of "concat ls' @ rest"] by (simp add: eq ls c(1))
  have "length l \<le> length (src_buf m)" using index_byte_SomeD(1) [OF assms(2)] i c(1) by simp
  then have "take (length l) (src_buf m) = l" using arg_cong [OF eq, of "take (length l)"] by (simp add: ls)
  then have sp: "src_buf m = l @ drop (length l) (src_buf m)" by (metis append_take_drop_id)
  then have "l @ drop (length l) (src_buf m) @ X = l @ concat ls' @ rest" using eq ls by (metis append_assoc concat.simps(2))
  then obtain b where b: "src_buf m = l @ b" "b @ X = concat ls' @ rest" using sp by blast
  show thesis
    by (rule that [OF ls]) (use b c i in \<open>simp_all add: X_def whole_line_def\<close>)
qed

lemma accept_line_represents:
  assumes r: "represents m F" and i: "index_byte LF (src_buf m) = Some i"
  shows "\<exists>m'. accept_line i m = (m', None) \<and> represents m' F \<and> can_advance_line_number (ml_next_line m)"
proof -
  obtain cur ls rest where h: "holds m cur" "\<forall>l \<in> set cur. whole_line l" and u: "unread m ls rest"
    and fit: "events_fit (ml_max m) (group_events (ml_pattern m) (ml_max_lines m) cur ls)" and F: "F = ml_pending m @ future m cur ls"
    using r by (auto simp: represents_def)
  obtain l ls' where l: "ls = l # ls'" "take (i + 1) (src_buf m) = l" "length l = i + 1" "take i (src_buf m) = butlast l"
    "drop (i + 1) (src_buf m) @ (if src_eof m then [] else readable_bytes (src_reader m)) = concat ls' @ rest" "whole_line l"
    by (rule buffered_line [OF u i])
  have adv: "can_advance_line_number (ml_next_line m)" "unat (ml_next_line m + 1) = unat (ml_next_line m) + 1"
    using u by (auto simp: unread_def l(1) can_advance_line_number_def word_less_nat_alt unat_word_ariths)
  define c where "c = line_content l"
  have c: "trim_cr (take i (src_buf m)) = c" by (simp add: c_def line_content_def l(4))
  define delim where "delim = (if take i (src_buf m) \<noteq> [] \<and> last (take i (src_buf m)) = CR then 2 else 1 :: nat)"
  have dl: "delim + length (line_content l) = length l"
  proof -
    have "length (butlast l) = i" using l(3) by simp
    moreover from this have "butlast l \<noteq> [] \<Longrightarrow> i > 0" by (metis length_greater_0_conv)
    ultimately show ?thesis
      using length_trim_cr_cases [of "butlast l"] l(3) unfolding delim_def line_content_def l(4) by (auto split: if_splits)
  qed
  define cut where "cut \<longleftrightarrow> cur \<noteq> [] \<and> ml_pattern m c"
  define cur1 where "cur1 = (if cut then [] else cur)"
  define m1 where "m1 = start_event (ml_pattern m c) m"
  note s = start_event_opened_with [OF h(1), of "ml_pattern m c", folded m1_def cut_def cur1_def]
  have l1: "take (i + 1) (src_buf m1) = l" "can_advance_line_number (ml_next_line m1)" using l(2) adv(1) s(4,9) by simp_all
  obtain m2 where m2: "consume_line (i + 1) delim m1 = (m2, None)" "opened_with m2 (cur1 @ [l])"
    "src_off m2 = src_off m1 + of_nat (length l)" "ml_next_line m2 = ml_next_line m1 + 1" "ml_max m2 = ml_max m1" "ml_pattern m2 = ml_pattern m1"
    "ml_max_lines m2 = ml_max_lines m1" "ml_discarding m2 = ml_discarding m1" "ml_pending m2 = ml_pending m1"
    "src_buf m2 = drop (i + 1) (src_buf m1)" "src_eof m2 = src_eof m1" "src_reader m2 = src_reader m1"
    by (rule consume_line_opened_with [OF s(1) l1(1) l(3) l1(2) dl])
  have keep: "\<not> (cur1 \<noteq> [] \<and> ml_pattern m (line_content l))" by (auto simp: cur1_def cut_def c_def)
  have F1: "F = ml_pending m1 @ future m1 cur1 (l # ls')"
  proof (cases cut)
    case True
    then have o: "opened_with m cur" "cur \<noteq> []" "ml_pattern m (line_content l)" using h(1) by (auto simp: cut_def c_def holds_def)
    show ?thesis using True future_cut [OF o s(3,4,6,7), of ls'] s(2) by (simp add: F l(1) cur1_def)
  next
    case False
    then show ?thesis using future_cong [OF s(3,4,6,7)] s(2) by (simp add: F l(1) cur1_def)
  qed
  have fit1: "events_fit (ml_max m) (group_events (ml_pattern m) (ml_max_lines m) cur1 (l # ls'))"
    using fit events_fit_step(1) [of "ml_max m" "ml_pattern m" "ml_max_lines m" cur l ls'] by (auto simp: l(1) cur1_def cut_def c_def)
  define full where "full \<longleftrightarrow> full_event (ml_max_lines m) (cur1 @ [l])"
  define cur2 where "cur2 = (if full then [] else cur1 @ [l])"
  have fit2: "events_fit (ml_max m) (group_events (ml_pattern m) (ml_max_lines m) cur2 ls')"
    using events_fit_step(2,3) [OF fit1 keep] by (auto simp: cur2_def full_def)
  have wl: "\<forall>x \<in> set ls'. whole_line x" using u by (simp add: unread_def l(1))
  have small: "length (event_content (cur1 @ [l])) \<le> ml_max m2"
    using joined_event_fits [OF fit [unfolded l(1)] wl] m2(5) s(5) by (simp add: cur1_def cut_def c_def)
  have full2: "full_event (ml_max_lines m2) (cur1 @ [l]) = full" using m2(7) s(7) by (simp add: full_def)
  note b = check_bounds_holds [OF m2(2) _ small, unfolded full2, folded cur2_def]
  have ne: "cur1 @ [l] \<noteq> []" by simp
  have F2: "F = ml_pending (check_bounds m2) @ future (check_bounds m2) cur2 ls'"
  proof -
    have k1: "\<not> (cur1 \<noteq> [] \<and> ml_pattern m1 (line_content l))" using keep s(6) by simp
    have "F = ml_pending m1 @ (if full then (fst (finish_event m2), None) # future m2 [] ls' else future m2 (cur1 @ [l]) ls')"
      using F1 future_keep [OF k1 m2(2-4,6,7)] s(7) by (simp add: full_def)
    then show ?thesis using future_cong [OF b(3,4,6,7) [OF ne]] b(2) [OF ne] m2(9) by (simp add: cur2_def)
  qed
  have "unread (check_bounds m2) ls' rest"
    using u l(5) b(3-11) [OF ne] m2(3-12) s(3-11) adv(2) by (auto simp: unread_def remaining_def l(1) split: if_splits)
  then have "represents (check_bounds m2) F"
    unfolding represents_def
    using b(1) [OF ne] fit2 F2 h(2) l(6) b(5-7) [OF ne] m2(5-7) s(5-7)
    by (intro exI [of _ cur2] exI [of _ ls'] exI [of _ rest]) (auto simp: cur2_def cur1_def)
  moreover have "accept_line i m = (check_bounds m2, None)"
    using m2(1) unfolding accept_line_def Let_def c delim_def [symmetric] m1_def [symmetric] by simp
  ultimately show ?thesis using adv(1) by blast
qed

lemma unread_fill:
  fixes m m1 :: multiline_framer
  assumes "unread m ls rest" "fill m = (m1, e)"
  shows "unread m1 ls rest" "e = None"
  using assms fill_remaining [OF assms(2)] fill_fields [OF assms(2)] fill_never_fails [OF assms(2)] by (auto simp: unread_def)

lemma represents_fill:
  assumes "represents m F" "fill m = (m1, e)"
  shows "represents m1 F \<and> e = None"
proof -
  obtain cur ls rest where h: "holds m cur" "\<forall>l \<in> set cur. whole_line l" and u: "unread m ls rest"
    and fit: "events_fit (ml_max m) (group_events (ml_pattern m) (ml_max_lines m) cur ls)" and F: "F = ml_pending m @ future m cur ls"
    using assms(1) by (auto simp: represents_def)
  note f = fill_fields [OF assms(2)] fill_remaining(2) [OF assms(2)]
  have "holds m1 cur" by (rule holds_cong [OF h(1)]) (simp_all add: f)
  moreover have "future m1 = future m" by (rule future_cong) (simp_all add: f)
  ultimately show ?thesis using unread_fill [OF u assms(2)] h(2) fit F unfolding represents_def f by metis
qed

text \<open>Without a line feed in the buffer nothing is too large.\<close>

lemma represented_small:
  assumes r: "represents m F" and n: "index_byte LF (src_buf m) = None"
  shows "\<not> line_too_large m"
proof -
  obtain cur ls rest where h: "holds m cur" "\<forall>l \<in> set cur. whole_line l" and u: "unread m ls rest"
    and fit: "events_fit (ml_max m) (group_events (ml_pattern m) (ml_max_lines m) cur ls)" and F: "F = ml_pending m @ future m cur ls"
    using r by (auto simp: represents_def)
  have c: "length (event_content cur) \<le> ml_max m" using open_event_fits [OF fit] u by (auto simp: unread_def)
  have st: "ml_started m \<longleftrightarrow> cur \<noteq> []" using h(1) by (auto simp: holds_def opened_with_def)
  have e: "ml_event m = concat cur" using h(1) by (auto simp: holds_def opened_with_def split: if_splits)
  have rm: "src_buf m @ (if src_eof m then [] else readable_bytes (src_reader m)) = concat ls @ rest"
    using u by (simp add: unread_def remaining_def)
  have p: "length (trim_cr (src_buf m)) \<le> ml_max m"
  proof (cases ls)
    case Nil
    then have "prefix (src_buf m) rest" using rm by (metis append_Nil concat.simps(1) prefixI)
    then show ?thesis using trim_cr_prefix_length u by (fastforce simp: unread_def)
  next
    case (Cons l ls')
    then obtain x where x: "l = x @ [LF]" "LF \<notin> set x" using u by (auto simp: unread_def whole_line_def)
    have "src_buf m @ (if src_eof m then [] else readable_bytes (src_reader m)) = x @ LF # concat ls' @ rest"
      using rm by (simp add: Cons x(1))
    then have "prefix (src_buf m) (x @ LF # concat ls' @ rest)" by (metis prefixI)
    then have "prefix (src_buf m) x" using n by (auto simp: prefix_append prefix_Cons)
    then have "length (trim_cr (src_buf m)) \<le> length (line_content l)"
      using trim_cr_prefix_length by (simp add: line_content_def x(1))
    also have "\<dots> \<le> ml_max m"
      using joined_event_fits [OF fit [unfolded Cons]] u by (auto simp: unread_def Cons event_content_snoc split: if_splits)
    finally show ?thesis .
  qed
  show ?thesis
  proof (cases "src_buf m = []")
    case False
    have "length (src_buf m) \<le> ml_max m + 1 \<and> (last (src_buf m) \<noteq> CR \<longrightarrow> length (src_buf m) \<le> ml_max m)"
      using p length_trim_cr_cases [of "src_buf m"] False by (auto split: if_splits)
    then show ?thesis using False p st e
      by (auto simp: line_too_large_def pending_line_content_bytes_def pending_content_bytes_def Let_def)
  next
    case True
    have "int (length (ml_event m)) - int (ml_delim m) \<le> int (ml_max m)" if "cur \<noteq> []"
    proof -
      obtain y l where y: "cur = y @ [l]" using \<open>cur \<noteq> []\<close> by (metis rev_exhaust)
      have "opened_with m cur" using h(1) that by (simp add: holds_def)
      then show ?thesis using c by (auto simp: opened_with_def y event_content_snoc)
    qed
    then show ?thesis using True st e
      by (auto simp: line_too_large_def pending_content_bytes_def Let_def)
  qed
qed

text \<open>\<open>Next\<close> gives the next frame of the reference, or ends.\<close>

lemma multi_next_represents:
  "represents m F \<Longrightarrow> case F of
      out # F' \<Rightarrow> \<exists>m'. multi_next m = (out, m') \<and> represents m' F'
    | [] \<Rightarrow> \<exists>e m'. multi_next m = ((zero_frame, Some e), m') \<and> \<not> carries_frame (Some e) \<and> represents m' []"
proof (induction m rule: multi_next.induct)
  case (1 m)
  obtain cur ls rest where h: "holds m cur" "\<forall>l \<in> set cur. whole_line l" and u: "unread m ls rest"
    and fit: "events_fit (ml_max m) (group_events (ml_pattern m) (ml_max_lines m) cur ls)" and F: "F = ml_pending m @ future m cur ls"
    using "1.prems" by (auto simp: represents_def)
  have nd: "\<not> ml_discarding m" using u by (simp add: unread_def)
  show ?case
  proof (cases "ml_pending m")
    case (Cons pf pfs)
    have f: "future (m\<lparr>ml_pending := pfs\<rparr>) = future m" by (rule future_cong) simp_all
    have "holds (m\<lparr>ml_pending := pfs\<rparr>) cur" by (rule holds_cong [OF h(1)]) simp_all
    moreover have "unread (m\<lparr>ml_pending := pfs\<rparr>) ls rest" using u by (auto simp: unread_def remaining_def split: if_splits)
    ultimately have "represents (m\<lparr>ml_pending := pfs\<rparr>) (pfs @ future m cur ls)"
      unfolding represents_def using h(2) fit
      by (intro exI [where x = cur] exI [where x = ls] exI [where x = rest]) (simp add: f)
    then show ?thesis using Cons by (simp add: F multi_next.simps [of m])
  next
    case Nil
    show ?thesis
    proof (cases "index_byte LF (src_buf m)")
      case (Some i)
      obtain m1 where m1: "accept_line i m = (m1, None)" "represents m1 F" "can_advance_line_number (ml_next_line m)"
        using accept_line_represents [OF "1.prems" Some] by blast
      have "multi_next m = multi_next m1" using Nil nd Some m1 by (simp add: multi_next.simps [of m])
      moreover have "\<not> \<not> can_advance_line_number (ml_next_line m)" using m1(3) by simp
      ultimately show ?thesis using "1.IH"(4) [OF Nil nd Some _ m1(1) [symmetric] refl m1(2)] by (cases F) simp_all
    next
      case None
      note small = represented_small [OF "1.prems" None]
      show ?thesis
      proof (cases "src_eof m")
        case False
        obtain m1 e1 where fl: "fill m = (m1, e1)" by fastforce
        note r1 = represents_fill [OF "1.prems" fl]
        have "multi_next m = multi_next m1" using Nil nd None small False fl r1 by (simp add: multi_next.simps [of m])
        then show ?thesis using "1.IH"(3) [OF Nil nd None small False fl [symmetric] conjunct2 [OF r1] conjunct1 [OF r1]] by (cases F) simp_all
      next
        case True
        have "LF \<notin> set (concat ls @ rest)" using u None True by (auto simp: unread_def remaining_def)
        then have "ls = []" using u by (cases ls) (auto simp: unread_def whole_line_def)
        then have "F = []" by (simp add: F Nil future_def)
        moreover have "\<exists>e. multi_next m = ((zero_frame, Some e), m) \<and> \<not> carries_frame (Some e)"
          using Nil nd None small True by (simp add: multi_next.simps [of m] carries_frame_def)
        ultimately show ?thesis using "1.prems" by auto
      qed
    qed
  qed
qed

lemma run_multi_next:
  "represents m F \<Longrightarrow> \<forall>out \<in> set F. carries_frame (snd out) \<Longrightarrow> fst (run_framer multi_next multi_flush (replicate n CallNext) m) = take n F"
proof (induction n arbitrary: m F)
  case (Suc n)
  show ?case
  proof (cases F)
    case Nil
    obtain e m' where "multi_next m = ((zero_frame, Some e), m')" "\<not> carries_frame (Some e)" "represents m' []"
      using multi_next_represents [OF Suc.prems(1)] by (auto simp: Nil)
    then show ?thesis using Suc.IH [of m' "[]"] by (simp add: Nil case_prod_unfold)
  next
    case (Cons out F')
    obtain fr e where out: "out = (fr, e)" by (cases out)
    obtain m' where "multi_next m = (out, m')" "represents m' F'"
      using multi_next_represents [OF Suc.prems(1)] by (auto simp: Cons)
    then show ?thesis using Suc.IH [of m' F'] Suc.prems(2) by (simp add: Cons out case_prod_unfold)
  qed
qed simp

lemma new_multiline_represents:
  assumes "new_multiline_framer (Some r) off opts = Inr m" "never_fails r" "physical_lines [] (readable_bytes r) = (ls, rest)"
    "line_start_pattern opts = Some p" "events_fit (event_limit opts) (group_events p (max_lines opts) [] ls)"
    "length (trim_cr rest) \<le> event_limit opts" "unat (normalized_start_line (start_line_number opts)) + length ls < 2 ^ 64 - 2"
  shows "represents m (map (\<lambda>fr. (fr, None))
    (event_frames off (normalized_start_line (start_line_number opts)) (fst (group_events p (max_lines opts) [] ls))))"
proof -
  have m: "m = \<lparr>src_reader = r, src_buf = [], src_off = off, src_eof = False, ml_pattern = p, ml_max_lines = max_lines opts,
     ml_max = event_limit opts, ml_event = [], ml_start = 0, ml_line = 0, ml_lines = 0, ml_delim = 0, ml_started = False,
     ml_discarding = False, ml_discard_partial = False, ml_next_line = normalized_start_line (start_line_number opts), ml_pending = []\<rparr>"
    using assms(1,4) by (simp add: new_multiline_framer_def)
  have "unread m ls rest" using physical_lines_parts [OF assms(3)] assms(2,6,7) by (simp add: unread_def remaining_def m)
  moreover have "holds m []" by (simp add: holds_def m)
  ultimately show ?thesis
    unfolding represents_def using assms(5)
    by (intro exI [where x = "[]"] exI [where x = ls] exI [where x = rest]) (simp add: future_def m)
qed

lemma run_new_multiline:
  assumes "new_multiline_framer (Some r) off opts = Inr m" "never_fails r" "physical_lines [] (readable_bytes r) = (ls, rest)"
    "line_start_pattern opts = Some p" "events_fit (event_limit opts) (group_events p (max_lines opts) [] ls)"
    "length (trim_cr rest) \<le> event_limit opts" "unat (normalized_start_line (start_line_number opts)) + length ls < 2 ^ 64 - 2"
  shows "fst (run_framer multi_next multi_flush (replicate n CallNext) m) = take n (map (\<lambda>fr. (fr, None))
    (event_frames off (normalized_start_line (start_line_number opts)) (fst (group_events p (max_lines opts) [] ls))))"
  using new_multiline_represents [OF assms] by (rule run_multi_next) (auto simp: carries_frame_def)

text \<open>Behind an event the grouping starts afresh.\<close>

lemma group_events_resume:
  "fst (group_events p mx cur ls) = es1 @ es2 \<Longrightarrow> es1 \<noteq> [] \<Longrightarrow>
   group_events p mx [] (drop (length (concat es1)) (cur @ ls)) = (es2, snd (group_events p mx cur ls))"
proof (induction ls arbitrary: cur es1)
  case Nil
  then show ?case by simp
next
  case (Cons l ls)
  have kept: "group_events p mx [] (drop (length (concat es1)) (cur @ l # ls)) = (es2, snd (group_events p mx cur (l # ls)))"
    if k: "\<not> (cur \<noteq> [] \<and> p (line_content l))" and e: "fst (group_events p mx cur (l # ls)) = es1 @ es2" "es1 \<noteq> []" for cur es1
  proof (cases "full_event mx (cur @ [l])")
    case False
    then show ?thesis using Cons.IH [of "cur @ [l]" es1] e by (simp add: group_keep [where p = p, OF k])
  next
    case True
    obtain es1' where es1: "es1 = (cur @ [l]) # es1'" "fst (group_events p mx [] ls) = es1' @ es2"
      using e True by (cases es1) (auto simp: group_keep [where p = p, OF k])
    show ?thesis using Cons.IH [of "[]" es1'] es1 True
      by (cases "es1' = []") (auto simp: group_keep [where p = p, OF k] prod_eq_iff)
  qed
  show ?case
  proof (cases "cur \<noteq> [] \<and> p (line_content l)")
    case False
    then show ?thesis using kept Cons.prems by blast
  next
    case True
    obtain es1' where es1: "es1 = cur # es1'" "fst (group_events p mx [] (l # ls)) = es1' @ es2"
      using Cons.prems True by (cases es1) (auto simp: group_cut [where p = p and cur = cur and l = l, OF True])
    show ?thesis using kept [of "[]" es1'] es1 True
      by (cases "es1' = []") (auto simp: group_cut [where p = p and cur = cur and l = l, OF True] prod_eq_iff)
  qed
qed

lemma event_frames_append:
  "event_frames off line (es1 @ es2) = event_frames off line es1 @
     event_frames (off + of_nat (length (concat (concat es1)))) (line + of_nat (length (concat es1))) es2"
  by (induction es1 arbitrary: off line) (simp_all add: add.assoc)

lemma length_event_frames [simp]: "length (event_frames off line es) = length es"
  by (induction es arbitrary: off line) simp_all

lemma event_frames_nth_end:
  assumes "k < length es"
  shows "end_offset (event_frames off line es ! k) = off + of_nat (length (concat (concat (take (k + 1) es))))"
    "next_line_number (event_frames off line es ! k) = line + of_nat (length (concat (take (k + 1) es)))"
  using assms by (induction es arbitrary: k off line) (auto simp: nth_Cons' add.assoc)

lemma events_fit_resume:
  assumes "events_fit lim (group_events p mx cur ls)" "fst (group_events p mx cur ls) = es1 @ es2" "es1 \<noteq> []"
  shows "events_fit lim (group_events p mx [] (drop (length (concat es1)) (cur @ ls)))"
  using assms unfolding group_events_resume [OF assms(2,3)] events_fit_def by simp

lemma physical_lines_concat:
  "\<forall>l \<in> set ls. whole_line l \<Longrightarrow> LF \<notin> set rest \<Longrightarrow> physical_lines [] (concat ls @ rest) = (ls, rest)"
proof (induction ls)
  case Nil
  have "LF \<notin> set rest \<Longrightarrow> physical_lines acc rest = ([], acc @ rest)" for acc
    by (induction rest arbitrary: acc) auto
  then show ?case using Nil by simp
next
  case (Cons l ls)
  obtain c where c: "l = c @ [LF]" "LF \<notin> set c" using Cons.prems(1) by (auto simp: whole_line_def)
  have "LF \<notin> set c \<Longrightarrow> physical_lines acc (c @ LF # s) = (case physical_lines [] s of (ls, r) \<Rightarrow> ((acc @ c @ [LF]) # ls, r))" for acc s
    by (induction c arbitrary: acc) auto
  from this [OF c(2), of "[]" "concat ls @ rest"] show ?case using Cons c by simp
qed

section \<open>Properties\<close>

text \<open>Frames are pieces of the stream (line framer). For any reader - any chunking, empty reads, read errors - and
  any sequence of calls of Next and Flush, the returned frames are, in order and without overlap, pieces of the
  bytes the reader gives: a frame's bytes stand in the stream at its start offset, its end offset is behind
  them, a successful frame keeps within the limit and leaves out only one delimiter (or none at a flush), and a frame
  returned with an oversize error has exactly the limit's length.\<close>

lemma line_frames_are_slices:
  assumes "new_line_framer (Some r) off opts = Inr f"
  shows "frames_between (readable_bytes r) off (event_limit opts) 0 (fst (run_framer line_next line_flush calls f)) (length (readable_bytes r))"
  by (rule line_framing.run_slices) (use assms in \<open>auto simp: line_reached_def new_line_framer_def remaining_def\<close>)

definition demo_reader :: reader where
  "demo_reader = [(''A1'', ReadOk), ([LF, CHR '' ''], ReadOk), ([], ReadOk), ([CHR ''x'', CR], ReadOk), ([LF, CHR ''A'', LF, CHR ''A''], ReadOk),
     ([LF], ReadEOF)]"

definition demo_framing :: framing_options where
  "demo_framing = \<lparr>start_line_number = 0, max_event_bytes = 6, line_start_pattern = Some (\<lambda>s. prefix ''A'' s), max_lines = 0\<rparr>"

definition demo_lines :: "bytes list" where
  "demo_lines = [''A1'' @ [LF], '' x'' @ [CR, LF], ''A'' @ [LF], ''A'' @ [LF]]"

lemma demo_split: "physical_lines [] (readable_bytes demo_reader) = (demo_lines, [])"
  by (simp add: demo_reader_def demo_lines_def)

lemma demo_line_contents [simp]:
  "line_content (''A1'' @ [LF]) = ''A1''" "line_content ('' x'' @ [CR, LF]) = '' x''" "line_content (''A'' @ [LF]) = ''A''"
  by (simp_all add: line_content_def trim_cr_def)

lemma demo_never_fails: "never_fails demo_reader"
  by (simp add: demo_reader_def never_fails_def)

lemma demo_limits [simp]: "event_limit demo_framing = 6" "normalized_start_line (start_line_number demo_framing) = 1"
  "line_start_pattern demo_framing = Some (\<lambda>s. prefix ''A'' s)" "max_lines demo_framing = 0"
  by (simp_all add: demo_framing_def event_limit_def normalized_start_line_def)

lemma demo_groups:
  "group_events (\<lambda>s. prefix ''A'' s) 0 [] demo_lines = ([[''A1'' @ [LF], '' x'' @ [CR, LF]], [''A'' @ [LF]]], [''A'' @ [LF]])"
  by (simp add: demo_lines_def group_events.simps(2) line_content_def trim_cr_def)

lemma line_frames_are_slices_witness:
  "\<exists>f. new_line_framer (Some demo_reader) 7 demo_framing = Inr f
    \<and> frames_between (readable_bytes demo_reader) 7 6 0 (fst (run_framer line_next line_flush [CallNext, CallFlush, CallNext] f)) 11"
proof -
  obtain f where f: "new_line_framer (Some demo_reader) 7 demo_framing = Inr f" by (simp add: new_line_framer_def)
  moreover have "length (readable_bytes demo_reader) = 11" by (simp add: demo_reader_def)
  ultimately show ?thesis using line_frames_are_slices [OF f, of "[CallNext, CallFlush, CallNext]"] by auto
qed

text \<open>C14: frames are pieces of the stream (multiline framer). The same contract for the multiline framer, whatever the
  pattern and the bounds, also while it discards the rest of an oversized event: no frame reaches back over another,
  and every one is the bytes at its offset.\<close>

theorem multiline_frames_are_slices:
  assumes "new_multiline_framer (Some r) off opts = Inr m"
  shows "frames_between (readable_bytes r) off (event_limit opts) 0 (fst (run_framer multi_next multi_flush calls m)) (length (readable_bytes r))"
proof (rule multiline_framing.run_slices)
  have m: "src_reader m = r" "src_buf m = []" "src_off m = off" "\<not> src_eof m" "ml_max m = event_limit opts" "ml_event m = []"
    "\<not> ml_started m" "\<not> ml_discarding m" "ml_pending m = []"
    using assms by (auto simp: new_multiline_framer_def split: option.splits)
  then have "assembling (readable_bytes r) off (event_limit opts) 0 m" by (intro assemblingI [of _ _ _ "[]"]) (simp_all add: remaining_def)
  then show "multi_reached (readable_bytes r) off (event_limit opts) 0 m" using m by (auto simp: multi_reached_def event_ok_def)
qed

theorem multiline_frames_are_slices_witness:
  "\<exists>m. new_multiline_framer (Some demo_reader) 0 demo_framing = Inr m
    \<and> frames_between (readable_bytes demo_reader) 0 6 0 (fst (run_framer multi_next multi_flush [CallNext, CallFlush, CallNext] m)) 11"
proof -
  obtain m where m: "new_multiline_framer (Some demo_reader) 0 demo_framing = Inr m" by (simp add: new_multiline_framer_def)
  moreover have "length (readable_bytes demo_reader) = 11" by (simp add: demo_reader_def)
  ultimately show ?thesis using multiline_frames_are_slices [OF m, of "[CallNext, CallFlush, CallNext]"] by auto
qed

text \<open>C16: line framing does not depend on the chunks. When no read fails, every line fits and the line numbers do not run out, the
  first \<open>n\<close> calls of Next return exactly the first \<open>n\<close> complete lines of the stream, each with its delimiter
  stripped, its offsets and its line number, however the reader cut the bytes.\<close>

theorem line_framing_exact:
  assumes "new_line_framer (Some r) off opts = Inr f" "never_fails r" "physical_lines [] (readable_bytes r) = (ls, rest)"
    "\<forall>l \<in> set ls. length (line_content l) \<le> event_limit opts" "length (trim_cr rest) \<le> event_limit opts"
    "unat (normalized_start_line (start_line_number opts)) + length ls < 2 ^ 64 - 2"
  shows "fst (run_framer line_next line_flush (replicate n CallNext) f)
    = take n (map (\<lambda>fr. (fr, None)) (frames_at off (normalized_start_line (start_line_number opts)) ls))"
proof -
  have f: "src_reader f = r" "src_buf f = []" "src_off f = off" "\<not> src_eof f" "lf_max f = event_limit opts"
    "lf_line f = normalized_start_line (start_line_number opts)" using assms(1) by (auto simp: new_line_framer_def)
  show ?thesis
    using run_next_frames [of f ls rest n] physical_lines_parts [OF assms(3)] assms(2,4-6) f by (simp add: remaining_def)
qed

theorem line_framing_exact_witness:
  "\<exists>f. new_line_framer (Some demo_reader) 0 demo_framing = Inr f \<and> fst (run_framer line_next line_flush (replicate 2 CallNext) f) =
     [(\<lparr>frame_bytes = ''A1'', start_offset = 0, end_offset = 3, line_number = 1, next_line_number = 2\<rparr>, None),
      (\<lparr>frame_bytes = '' x'', start_offset = 3, end_offset = 7, line_number = 2, next_line_number = 3\<rparr>, None)]"
proof -
  obtain f where f: "new_line_framer (Some demo_reader) 0 demo_framing = Inr f" by (simp add: new_line_framer_def)
  have "fst (run_framer line_next line_flush (replicate 2 CallNext) f)
      = take 2 (map (\<lambda>fr. (fr, None)) (frames_at 0 (normalized_start_line (start_line_number demo_framing)) demo_lines))"
    by (rule line_framing_exact [OF f demo_never_fails demo_split]) (simp_all add: demo_lines_def line_content_def trim_cr_def)
  then show ?thesis using f by (simp add: demo_lines_def line_content_def trim_cr_def numeral_2_eq_2)
qed

text \<open>C6: multiline framing does not depend on the chunks. When no read fails, every event fits and the line numbers do not run
  out, the first \<open>n\<close> calls of Next return exactly the first \<open>n\<close> events of the reference grouping of the stream's
  lines: an event ends before a line that matches the pattern, or when it has \<open>max_lines\<close> lines, and keeps its inner delimiters.\<close>

theorem multiline_framing_exact:
  assumes "new_multiline_framer (Some r) off opts = Inr m" "never_fails r" "physical_lines [] (readable_bytes r) = (ls, rest)"
    "line_start_pattern opts = Some p" "events_fit (event_limit opts) (group_events p (max_lines opts) [] ls)"
    "length (trim_cr rest) \<le> event_limit opts" "unat (normalized_start_line (start_line_number opts)) + length ls < 2 ^ 64 - 2"
  shows "fst (run_framer multi_next multi_flush (replicate n CallNext) m) = take n (map (\<lambda>fr. (fr, None))
    (event_frames off (normalized_start_line (start_line_number opts)) (fst (group_events p (max_lines opts) [] ls))))"
  by (rule run_new_multiline [OF assms])

lemma demo_fits: "events_fit 6 (group_events (\<lambda>s. prefix ''A'' s) 0 [] demo_lines)"
  by (simp add: demo_groups events_fit_def event_content_def line_content_def trim_cr_def)

theorem multiline_framing_exact_witness:
  "\<exists>m. new_multiline_framer (Some demo_reader) 0 demo_framing = Inr m \<and> fst (run_framer multi_next multi_flush (replicate 3 CallNext) m) =
     [(\<lparr>frame_bytes = ''A1'' @ [LF] @ '' x'', start_offset = 0, end_offset = 7, line_number = 1, next_line_number = 3\<rparr>, None),
      (\<lparr>frame_bytes = ''A'', start_offset = 7, end_offset = 9, line_number = 3, next_line_number = 4\<rparr>, None)]"
proof -
  obtain m where m: "new_multiline_framer (Some demo_reader) 0 demo_framing = Inr m" by (simp add: new_multiline_framer_def)
  have "fst (run_framer multi_next multi_flush (replicate 3 CallNext) m)
      = take 3 (map (\<lambda>fr. (fr, None)) (event_frames 0 (normalized_start_line (start_line_number demo_framing))
          (fst (group_events (\<lambda>s. prefix ''A'' s) (max_lines demo_framing) [] demo_lines))))"
    by (rule multiline_framing_exact [OF m demo_never_fails demo_split demo_limits(3)])
      (simp_all add: demo_fits del: prefix_code, simp_all add: demo_lines_def)
  then show ?thesis using m by (simp add: demo_groups event_content_def line_content_def trim_cr_def)
qed

text \<open>
  Behind an oversized event a framer does not resume so: it remembers to discard the continuation lines up to the next
  match, which a new framer at the end offset of the rejected frame returns as an event.  The caller has to carry that
  state, as the tailer does in its cursor (\<open>discardingMultilineOversize\<close> of \<open>input/staged_read.go\<close>).
\<close>

definition demo_frames :: "bytes \<Rightarrow> u64 \<Rightarrow> u64 \<Rightarrow> nat \<Rightarrow> (frame \<times> framing_error option) list" where
  "demo_frames b off line n =
     (case new_multiline_framer (Some [(b, ReadEOF)]) off (demo_framing\<lparr>start_line_number := line\<rparr>) of
        Inr m \<Rightarrow> fst (run_framer multi_next multi_flush (replicate n CallNext) m) | Inl _ \<Rightarrow> [])"

lemma oversized_event_not_resumable:
  "demo_frames (''A23456789'' @ [LF] @ '' x'' @ [LF] @ ''A1'' @ [LF] @ ''A2'' @ [LF]) 0 1 2 =
     [(\<lparr>frame_bytes = ''A23456'', start_offset = 0, end_offset = 10, line_number = 1, next_line_number = 2\<rparr>, Some ErrEventTooLarge),
      (\<lparr>frame_bytes = ''A1'', start_offset = 13, end_offset = 16, line_number = 3, next_line_number = 4\<rparr>, None)]"
  "demo_frames ('' x'' @ [LF] @ ''A1'' @ [LF] @ ''A2'' @ [LF]) 10 2 2 =
     [(\<lparr>frame_bytes = '' x'', start_offset = 10, end_offset = 13, line_number = 2, next_line_number = 3\<rparr>, None),
      (\<lparr>frame_bytes = ''A1'', start_offset = 13, end_offset = 16, line_number = 3, next_line_number = 4\<rparr>, None)]"
  by code_simp+

text \<open>C22: framing resumes at a checkpoint, as long as no event is oversized. In a stream where no read fails, every event fits
  and the line numbers do not run out, a new multiline framer at the end offset and the next line number of any returned
  frame, on the bytes behind it, returns exactly the frames that followed it, however its reads cut them. (Behind an
  oversized event it does not: \<open>oversized_event_not_resumable\<close>.)\<close>

theorem multiline_framing_resumes:
  assumes "never_fails r" "physical_lines [] (readable_bytes r) = (ls, rest)"
    "line_start_pattern opts = Some p" "group_events p (max_lines opts) [] ls = (es, tail)" "events_fit (event_limit opts) (es, tail)"
    "length (trim_cr rest) \<le> event_limit opts" "unat (normalized_start_line (start_line_number opts)) + length ls < 2 ^ 64 - 2"
    "frames = event_frames off (normalized_start_line (start_line_number opts)) es" "k < length es"
    "readable_bytes r' = drop (length (concat (concat (take (k + 1) es)))) (readable_bytes r)" "never_fails r'"
    "new_multiline_framer (Some r') (end_offset (frames ! k)) (opts\<lparr>start_line_number := next_line_number (frames ! k)\<rparr>) = Inr m"
  shows "fst (run_framer multi_next multi_flush (replicate n CallNext) m) = take n (map (\<lambda>fr. (fr, None)) (drop (k + 1) frames))"
proof -
  let ?L = "normalized_start_line (start_line_number opts)"
  let ?n = "length (concat (take (k + 1) es))"
  note parts = physical_lines_parts [OF assms(2)]
  have sp: "take (k + 1) es \<noteq> []" "es = take (k + 1) es @ drop (k + 1) es" using assms(9) by auto
  have g: "group_events p (max_lines opts) [] (drop ?n ls) = (drop (k + 1) es, tail)"
    using group_events_resume [of p "max_lines opts" "[]" ls "take (k + 1) es" "drop (k + 1) es"] sp assms(4) by simp
  have ls: "ls = concat (take (k + 1) es) @ drop ?n ls"
    using group_events_concat [OF assms(4)] sp(2) by (metis append_Nil append_assoc append_eq_conv_conj concat_append)
  have bytes: "readable_bytes r' = concat (drop ?n ls) @ rest"
  proof -
    have "readable_bytes r = concat (concat (take (k + 1) es)) @ concat (drop ?n ls) @ rest"
      using parts ls by (metis append_Nil append_assoc concat_append list.set(1) empty_iff)
    then show ?thesis using assms(10) by simp
  qed
  have split: "physical_lines [] (readable_bytes r') = (drop ?n ls, rest)"
    unfolding bytes using parts by (intro physical_lines_concat) (auto dest: in_set_dropD)
  have len: "?n \<le> length ls" using arg_cong [OF ls, of length] by simp
  have L: "unat (?L + of_nat ?n) = unat ?L + ?n" "?L + of_nat ?n \<noteq> 0"
  proof -
    have "?n < 2 ^ 64" "unat ?L + ?n < 2 ^ 64" using assms(7) len by simp_all
    then show u: "unat (?L + of_nat ?n) = unat ?L + ?n" by (simp add: unat_word_ariths unat_of_nat)
    have "unat ?L > 0" by (simp add: normalized_start_line_def unat_gt_0)
    then show "?L + of_nat ?n \<noteq> 0" using u by auto
  qed
  note e = event_frames_nth_end [OF assms(9), of off ?L, folded assms(8)]
  have norm: "normalized_start_line (start_line_number (opts\<lparr>start_line_number := next_line_number (frames ! k)\<rparr>)) = ?L + of_nat ?n"
  proof -
    have "normalized_start_line x = x" if "x \<noteq> 0" for x using that by (simp add: normalized_start_line_def)
    from this [OF L(2)] show ?thesis by (simp add: e)
  qed
  have "fst (run_framer multi_next multi_flush (replicate n CallNext) m) = take n (map (\<lambda>fr. (fr, None))
    (event_frames (end_offset (frames ! k)) (?L + of_nat ?n) (drop (k + 1) es)))"
  proof -
    let ?o = "opts\<lparr>start_line_number := next_line_number (frames ! k)\<rparr>"
    have o: "line_start_pattern ?o = Some p" "max_lines ?o = max_lines opts" "event_limit ?o = event_limit opts"
      using assms(3) by (simp_all add: event_limit_def)
    have "events_fit (event_limit opts) (drop (k + 1) es, tail)" using assms(5) by (auto simp: events_fit_def dest: in_set_dropD)
    moreover have "unat (?L + of_nat ?n) + length (drop ?n ls) < 2 ^ 64 - 2" using assms(7) len unfolding L(1) by simp
    ultimately show ?thesis
      using run_new_multiline [OF assms(12,11) split o(1), of n, unfolded o(2,3) norm g] assms(6) by simp
  qed
  moreover have "drop (k + 1) frames = event_frames (off + of_nat (length (concat (concat (take (k + 1) es))))) (?L + of_nat ?n) (drop (k + 1) es)"
    using event_frames_append [of off ?L "take (k + 1) es" "drop (k + 1) es"] assms(9) by (simp add: assms(8))
  ultimately show ?thesis unfolding e(1) by simp
qed

theorem multiline_framing_resumes_witness:
  "\<exists>m. new_multiline_framer (Some [(''A'', ReadOk), ([LF, CHR ''A'', LF], ReadEOF)]) 7 (demo_framing\<lparr>start_line_number := 3\<rparr>) = Inr m
    \<and> fst (run_framer multi_next multi_flush (replicate 3 CallNext) m) =
       [(\<lparr>frame_bytes = ''A'', start_offset = 7, end_offset = 9, line_number = 3, next_line_number = 4\<rparr>, None)]"
proof -
  let ?r = "[(''A'', ReadOk), ([LF, CHR ''A'', LF], ReadEOF)]"
  define frames where "frames = event_frames 0 (normalized_start_line (start_line_number demo_framing)) [[''A1'' @ [LF], '' x'' @ [CR, LF]], [''A'' @ [LF]]]"
  have fr: "frames ! 0 = \<lparr>frame_bytes = ''A1'' @ [LF] @ '' x'', start_offset = 0, end_offset = 7, line_number = 1, next_line_number = 3\<rparr>"
    "drop (0 + 1) frames = [\<lparr>frame_bytes = ''A'', start_offset = 7, end_offset = 9, line_number = 3, next_line_number = 4\<rparr>]"
    by (simp_all add: frames_def event_content_def line_content_def trim_cr_def)
  obtain m where m: "new_multiline_framer (Some ?r) (end_offset (frames ! 0)) (demo_framing\<lparr>start_line_number := next_line_number (frames ! 0)\<rparr>) = Inr m"
    by (simp add: new_multiline_framer_def demo_framing_def)
  have "fst (run_framer multi_next multi_flush (replicate 3 CallNext) m) = take 3 (map (\<lambda>fr. (fr, None)) (drop (0 + 1) frames))"
    by (rule multiline_framing_resumes [OF demo_never_fails demo_split demo_limits(3) _ _ _ _ frames_def _ _ _ m])
      (use demo_groups demo_fits in \<open>simp_all add: demo_lines_def demo_reader_def never_fails_def\<close>)
  then show ?thesis using m unfolding fr by simp
qed

end
