(* ===== verification/Spl_Like.thy ===== *)
theory Spl_Like
  imports Go_Utf8
begin

text \<open>
  \<open>internal/splwildcard/like.go\<close>: \<open>CompileLikePattern\<close>, which validates and normalizes a LIKE pattern before it
  becomes a query argument, and the meaning of patterns its comment states, as a reference.
\<close>

section \<open>Compiling a pattern\<close>

abbreviation backslash :: nat where "backslash \<equiv> 0x5C"
abbreviation percent :: nat where "percent \<equiv> 0x25"
abbreviation underscore :: nat where "underscore \<equiv> 0x5F"

definition maximum_like_pattern_bytes :: nat where "maximum_like_pattern_bytes = 4096"
definition maximum_like_pattern_work_units :: nat where "maximum_like_pattern_work_units = 4096"

datatype like_error = ErrInvalidLikePattern | ErrLikePatternTooLarge

record like_pattern =
  normalized_pattern :: bytes
  work_units :: nat

text \<open>The loop, on the rest of the pattern behind \<open>offset\<close>.\<close>

function like_loop :: "bytes \<Rightarrow> bytes \<Rightarrow> nat \<Rightarrow> bool \<Rightarrow> like_error + bytes \<times> nat" where
  "like_loop rest normalized work previous_percent =
     (if rest = [] then Inr (normalized, work)
      else let (current, width) = decode_rune rest in
        if current = backslash \<and> width \<ge> length rest then Inl ErrInvalidLikePattern
        else if current = backslash then
          (let (nxt, next_width) = decode_rune (drop width rest)
           in like_loop (drop (width + next_width) rest) (normalized @ encode_rune current @ encode_rune nxt)
                (if nxt = percent \<or> nxt = underscore \<or> nxt = backslash then work + 1 else work + 2) False)
        else if current = percent then
          like_loop (drop width rest) (if previous_percent then normalized else normalized @ encode_rune current)
            (if previous_percent then work else work + 1) True
        else like_loop (drop width rest) (normalized @ encode_rune current) (work + 1) False)"
  by pat_completeness auto
termination
  by (relation "measure (\<lambda>(rest, _). length rest)") (auto dest: decode_width_pos [OF sym])

declare like_loop.simps [simp del]

definition compile_like_pattern :: "bytes \<Rightarrow> like_error + like_pattern" where
  "compile_like_pattern pattern =
     (if \<not> valid_string pattern \<or> CHR 0x00 \<in> set pattern then Inl ErrInvalidLikePattern
      else if length pattern > maximum_like_pattern_bytes then Inl ErrLikePatternTooLarge
      else case like_loop pattern [] 0 False of
          Inl e \<Rightarrow> Inl e
        | Inr (normalized, work) \<Rightarrow>
            (let units = (if work = 0 then 1 else work) in
             if length normalized > maximum_like_pattern_bytes \<or> units > maximum_like_pattern_work_units
             then Inl ErrLikePatternTooLarge
             else Inr \<lparr>normalized_pattern = normalized, work_units = units\<rparr>))"

definition is_like_complexity_error :: "like_error \<Rightarrow> bool" where
  "is_like_complexity_error e \<longleftrightarrow> e = ErrLikePatternTooLarge"

section \<open>What a pattern matches\<close>

text \<open>
  The meaning the comment of \<open>CompileLikePattern\<close> gives a pattern: a percent sign is any run of runes, an underscore
  any rune, a backslash escapes these two and itself and is literal before any other rune; a trailing backslash is incomplete.
\<close>

datatype like_token = AnyRun | AnyRune | Literal nat

fun like_tokens :: "nat list \<Rightarrow> like_token list option" where
  "like_tokens [] = Some []"
| "like_tokens (r # rs) =
     (if r = backslash then
        (case rs of
           [] \<Rightarrow> None
         | n # ns \<Rightarrow>
             (if n = percent \<or> n = underscore \<or> n = backslash then map_option (Cons (Literal n)) (like_tokens ns)
              else map_option (\<lambda>ts. Literal backslash # Literal n # ts) (like_tokens ns)))
      else map_option (Cons (if r = percent then AnyRun else if r = underscore then AnyRune else Literal r)) (like_tokens rs))"

fun like_match :: "like_token list \<Rightarrow> nat list \<Rightarrow> bool" where
  "like_match [] s \<longleftrightarrow> s = []"
| "like_match (AnyRun # ts) s \<longleftrightarrow> like_match ts s \<or> (case s of [] \<Rightarrow> False | r # s' \<Rightarrow> like_match (AnyRun # ts) s')"
| "like_match (AnyRune # ts) s \<longleftrightarrow> (case s of [] \<Rightarrow> False | r # s' \<Rightarrow> like_match ts s')"
| "like_match (Literal c # ts) s \<longleftrightarrow> (case s of [] \<Rightarrow> False | r # s' \<Rightarrow> r = c \<and> like_match ts s')"

text \<open>Runs of percent signs collapsed.\<close>

fun collapse :: "bool \<Rightarrow> like_token list \<Rightarrow> like_token list" where
  "collapse previous [] = []"
| "collapse previous (t # ts) = (if t = AnyRun \<and> previous then collapse True ts else t # collapse (t = AnyRun) ts)"

lemma any_run_suffix: "like_match (AnyRun # ts) s \<longleftrightarrow> (\<exists>s'. suffix s' s \<and> like_match ts s')"
proof (induction s)
  case (Cons r s)
  then show ?case by (auto simp: suffix_Cons)
qed simp

lemma any_run_twice: "like_match (AnyRun # AnyRun # ts) s \<longleftrightarrow> like_match (AnyRun # ts) s"
  unfolding any_run_suffix [of "AnyRun # ts"] unfolding any_run_suffix using suffix_order.trans by blast

lemma like_match_congr:
  assumes "\<And>s. like_match ts s \<longleftrightarrow> like_match us s" shows "like_match (t # ts) s \<longleftrightarrow> like_match (t # us) s"
proof (cases t)
  case AnyRun
  then show ?thesis using assms by (simp only: any_run_suffix)
qed (use assms in \<open>simp_all split: list.splits\<close>)

lemma collapse_match:
  "(\<not> previous \<longrightarrow> like_match (collapse previous ts) s = like_match ts s)
   \<and> (previous \<longrightarrow> like_match (AnyRun # collapse previous ts) s = like_match (AnyRun # ts) s)"
proof (induction ts arbitrary: previous s)
  case (Cons t ts)
  show ?case
  proof (cases "t = AnyRun")
    case True
    then show ?thesis using Cons.IH [of True] any_run_twice by simp
  next
    case False
    then have "like_match (t # collapse False ts) s = like_match (t # ts) s" for s using Cons.IH [of False] by (intro like_match_congr) simp
    then show ?thesis using False like_match_congr [of "t # collapse False ts" "t # ts" AnyRun] by simp
  qed
qed simp

lemma collapse_idem: "collapse p (collapse p ts) = collapse p ts"
  by (induction ts arbitrary: p) auto

text \<open>The runes the loop writes for the rest of a pattern.\<close>

fun normal_runes :: "bool \<Rightarrow> nat list \<Rightarrow> nat list option" where
  "normal_runes previous [] = Some []"
| "normal_runes previous (r # rs) =
     (if r = backslash then
        (case rs of [] \<Rightarrow> None | n # ns \<Rightarrow> map_option (\<lambda>out. backslash # n # out) (normal_runes False ns))
      else if r = percent then map_option (\<lambda>out. if previous then out else percent # out) (normal_runes True rs)
      else map_option (Cons r) (normal_runes False rs))"

definition token_count :: "nat list \<Rightarrow> nat" where
  "token_count rs = length (the (like_tokens rs))"

lemma normal_runes_tokens:
  "normal_runes previous rs = Some out \<Longrightarrow>
     (\<exists>ts. like_tokens rs = Some ts \<and> like_tokens out = Some (collapse previous ts)) \<and> length (encode_runes out) \<le> length (encode_runes rs)
       \<and> set out \<subseteq> set rs \<and> normal_runes previous out = Some out"
proof (induction previous rs arbitrary: out rule: normal_runes.induct)
  case (2 previous r rs)
  show ?case
  proof (cases "r = backslash")
    case True
    then obtain n ns where rs: "rs = n # ns" using "2.prems" by (cases rs) auto
    obtain out' where out': "normal_runes False ns = Some out'" "out = backslash # n # out'" using "2.prems" True rs by auto
    show ?thesis using "2.IH"(1) [OF True rs out'(1)] out'(2) True rs by auto
  next
    case False
    show ?thesis
    proof (cases "r = percent")
      case True
      obtain out' where out': "normal_runes True rs = Some out'" "out = (if previous then out' else percent # out')" using "2.prems" True by auto
      show ?thesis using "2.IH"(2) [OF False True out'(1)] out'(2) True by auto
    next
      case F2: False
      obtain out' where out': "normal_runes False rs = Some out'" "out = r # out'" using "2.prems" False F2 by auto
      show ?thesis using "2.IH"(3) [OF False F2 out'(1)] out'(2) False F2 by auto
    qed
  qed
qed simp

lemma normal_runes_meaning: "normal_runes p rs = Some out \<Longrightarrow> \<exists>us. like_tokens out = Some us"
  using normal_runes_tokens by blast

lemma token_count_simps:
  "token_count [] = 0"
  "normal_runes p rs = Some out \<Longrightarrow> token_count (backslash # n # out) = (if n = percent \<or> n = underscore \<or> n = backslash then 1 else 2) + token_count out"
  "normal_runes p rs = Some out \<Longrightarrow> token_count (percent # out) = 1 + token_count out"
  "normal_runes p rs = Some out \<Longrightarrow> r \<noteq> backslash \<Longrightarrow> r \<noteq> percent \<Longrightarrow> token_count (r # out) = 1 + token_count out"
  by (auto simp: token_count_def dest!: normal_runes_meaning)

lemma normal_runes_None: "normal_runes previous rs = None \<longleftrightarrow> like_tokens rs = None"
  by (induction previous rs rule: normal_runes.induct) (auto split: list.splits)

lemma like_loop_runes:
  "valid_string rest \<Longrightarrow> like_loop rest normalized work previous =
     (case normal_runes previous (runes rest) of None \<Rightarrow> Inl ErrInvalidLikePattern
      | Some out \<Rightarrow> Inr (normalized @ encode_runes out, work + token_count out))"
proof (induction rest normalized work previous rule: like_loop.induct)
  case (1 rest normalized work previous)
  show ?case
  proof (cases "rest = []")
    case True
    then show ?thesis by (simp add: like_loop.simps runes.simps token_count_def)
  next
    case False
    obtain current width where d: "decode_rune rest = (current, width)" by fastforce
    note v = valid_string_step [OF "1.prems" False d]
    show ?thesis
    proof (cases "current = backslash")
      case bs: True
      show ?thesis
      proof (cases "width \<ge> length rest")
        case True
        then have "runes rest = [backslash]" using v(4) bs by (simp add: runes.simps)
        then show ?thesis using bs True False d by (simp add: like_loop.simps [of rest])
      next
        case more: False
        have ne: "drop width rest \<noteq> []" using more by simp
        obtain nxt nw where d2: "decode_rune (drop width rest) = (nxt, nw)" by fastforce
        note v2 = valid_string_step [OF v(3) ne d2]
        have sp: "current = backslash \<and> length rest \<le> width \<longleftrightarrow> False" using more by simp
        have r: "runes rest = backslash # nxt # runes (drop (width + nw) rest)" using v(4) v2(4) bs by (simp add: add.commute)
        have v3: "valid_string (drop (width + nw) rest)" using v2(3) by (simp add: add.commute)
        have eq: "like_loop rest normalized work previous = like_loop (drop (width + nw) rest) (normalized @ encode_rune backslash @ encode_rune nxt)
            (if nxt = percent \<or> nxt = underscore \<or> nxt = backslash then work + 1 else work + 2) False"
          using more False by (simp add: like_loop.simps [of rest] d d2 bs)
        note IH = "1.IH"(1) [OF False refl d [symmetric] _ bs refl d2 [symmetric] v3, unfolded bs, folded eq]
        show ?thesis
        proof (cases "normal_runes False (runes (drop (width + nw) rest))")
          case None
          then show ?thesis using IH more by (simp add: r)
        next
          case (Some out)
          then show ?thesis using IH more token_count_simps(2) [OF Some] by (simp add: r)
        qed
      qed
    next
      case nb: False
      show ?thesis
      proof (cases "current = percent")
        case True
        have eq: "like_loop rest normalized work previous = like_loop (drop width rest) (if previous then normalized else normalized @ encode_rune percent)
            (if previous then work else work + 1) True"
          using False by (simp add: like_loop.simps [of rest] d True)
        note IH = "1.IH"(2) [OF False refl d [symmetric] _ nb True v(3), unfolded True, folded eq]
        show ?thesis
        proof (cases "normal_runes True (runes (drop width rest))")
          case None
          then show ?thesis using IH nb by (simp add: v(4) True)
        next
          case (Some out)
          then show ?thesis using IH nb token_count_simps(3) [OF Some] by (simp add: v(4) True)
        qed
      next
        case np: False
        have eq: "like_loop rest normalized work previous = like_loop (drop width rest) (normalized @ encode_rune current) (work + 1) False"
          using False nb np by (simp add: like_loop.simps [of rest] d)
        note IH = "1.IH"(3) [OF False refl d [symmetric] _ nb np v(3), folded eq]
        show ?thesis
        proof (cases "normal_runes False (runes (drop width rest))")
          case None
          then show ?thesis using IH nb np by (simp add: v(4))
        next
          case (Some out)
          then show ?thesis using IH nb np token_count_simps(4) [OF Some nb np] by (simp add: v(4))
        qed
      qed
    qed
  qed
qed

lemma like_tokens_length: "like_tokens rs = Some ts \<Longrightarrow> length ts \<le> length rs"
proof (induction rs arbitrary: ts rule: like_tokens.induct)
  case (2 r rs)
  show ?case
  proof (cases "r = backslash")
    case True
    then obtain n ns where rs: "rs = n # ns" using "2.prems" by (cases rs) auto
    then show ?thesis using "2.IH"(1,2) [OF True rs] "2.prems" True by (auto split: if_splits)
  qed (use 2 in auto)
qed simp

lemma length_encode_runes: "length rs \<le> length (encode_runes rs)"
proof (induction rs)
  case (Cons r rs)
  have "1 \<le> length (encode_rune r)" using encode_rune_nonempty [of r] by (cases "encode_rune r") auto
  then show ?case using Cons by simp
qed simp

section \<open>Properties\<close>

text \<open>C18: a normalized pattern matches what the authored one matches. Whenever a pattern compiles, it has a meaning, its
  normalized form matches exactly the same texts, is no longer, has no two adjacent percent signs, its work units are the number of its
  tokens, at least one and at most the limit, and compiling it again changes nothing.\<close>

theorem like_pattern_equivalent:
  assumes "compile_like_pattern p = Inr lp"
  shows "\<exists>ts ns. like_tokens (runes p) = Some ts \<and> like_tokens (runes (normalized_pattern lp)) = Some ns
    \<and> (\<forall>text. like_match ns text \<longleftrightarrow> like_match ts text)
    \<and> ns = collapse False ns \<and> work_units lp = max 1 (length ns) \<and> work_units lp \<le> 4096
    \<and> length (normalized_pattern lp) \<le> length p \<and> compile_like_pattern (normalized_pattern lp) = Inr lp"
proof -
  obtain nm w where l: "valid_string p" "CHR 0x00 \<notin> set p" "length p \<le> 4096" "like_loop p [] 0 False = Inr (nm, w)"
    "length nm \<le> 4096" "(if w = 0 then 1 else w) \<le> 4096" "lp = \<lparr>normalized_pattern = nm, work_units = (if w = 0 then 1 else w)\<rparr>"
    using assms by (auto simp: compile_like_pattern_def Let_def maximum_like_pattern_bytes_def maximum_like_pattern_work_units_def
        split: if_splits sum.splits prod.splits)
  obtain out where out: "normal_runes False (runes p) = Some out" "nm = encode_runes out" "w = token_count out"
    using l(4) like_loop_runes [OF l(1), of "[]" 0 False] by (auto split: option.splits)
  obtain ts where ts: "like_tokens (runes p) = Some ts" "like_tokens out = Some (collapse False ts)" "set out \<subseteq> set (runes p)"
    "normal_runes False out = Some out" "length (encode_runes out) \<le> length (encode_runes (runes p))"
    using normal_runes_tokens [OF out(1)] by blast
  have vr: "\<forall>r \<in> set out. valid_rune r" using ts(3) valid_string_runes [OF l(1)] by auto
  have rn: "runes nm = out" using runes_encode [OF vr] by (simp add: out(2))
  have vn: "valid_string nm" using valid_encode_runes [OF vr] by (simp add: out(2))
  have len: "length nm \<le> length p" using ts(5) valid_string_runes [OF l(1)] by (simp add: out(2))
  have zero: "CHR 0x00 \<notin> set nm"
  proof
    assume "CHR 0x00 \<in> set nm"
    then obtain r where "r \<in> set out" "CHR 0x00 \<in> set (encode_rune r)" by (auto simp: out(2) encode_runes_def)
    then have "CHR 0x00 \<in> set (encode_runes (runes p))" using ts(3) by (auto simp: encode_runes_def)
    then show False using valid_string_runes [OF l(1)] l(2) by simp
  qed
  have wc: "w = length (collapse False ts)" using out(3) ts(2) by (simp add: token_count_def)
  have again: "like_loop nm [] 0 False = Inr (nm, w)"
    using like_loop_runes [OF vn, of "[]" 0 False, unfolded rn] ts(4) out(2,3) by simp
  have again: "compile_like_pattern nm = Inr lp"
    using again vn zero l(3,5-7) len
    by (simp add: compile_like_pattern_def Let_def maximum_like_pattern_bytes_def maximum_like_pattern_work_units_def)
  have units: "(if w = 0 then 1 else w) = max 1 (length (collapse False ts))"
    unfolding wc [symmetric] by (cases w) simp_all
  show ?thesis
  proof (intro exI conjI)
    show "like_tokens (runes p) = Some ts" "like_tokens (runes (normalized_pattern lp)) = Some (collapse False ts)"
      using ts(1,2) rn l(7) by simp_all
    show "\<forall>text. like_match (collapse False ts) text \<longleftrightarrow> like_match ts text" using collapse_match [of False ts] by simp
  qed (use again l(6,7) len units in \<open>simp_all add: collapse_idem del: max.bounded_iff\<close>)
qed

text \<open>C40: the rejected patterns. A pattern is rejected as invalid exactly when it is no valid UTF-8, holds a zero byte, or, within the size
  limit, ends in an incomplete escape; it is rejected as too large exactly when it is otherwise well-encoded text of
  more than 4096 bytes: the limits on the normalized bytes and on the work units never reject a pattern within the first limit.\<close>

theorem like_pattern_rejected:
  "(compile_like_pattern p = Inl ErrInvalidLikePattern
      \<longleftrightarrow> \<not> (valid_string p \<and> CHR 0x00 \<notin> set p \<and> (4096 < length p \<or> (\<exists>ts. like_tokens (runes p) = Some ts))))
    \<and> (compile_like_pattern p = Inl ErrLikePatternTooLarge \<longleftrightarrow> valid_string p \<and> CHR 0x00 \<notin> set p \<and> length p > 4096)"
proof (cases "valid_string p \<and> CHR 0x00 \<notin> set p \<and> length p \<le> 4096")
  case False
  then show ?thesis by (auto simp: compile_like_pattern_def maximum_like_pattern_bytes_def)
next
  case True
  then have v: "valid_string p" "CHR 0x00 \<notin> set p" "length p \<le> 4096" by auto
  show ?thesis
  proof (cases "normal_runes False (runes p)")
    case None
    then show ?thesis using v like_loop_runes [OF v(1), of "[]" 0 False] normal_runes_None [of False "runes p"]
      by (simp add: compile_like_pattern_def maximum_like_pattern_bytes_def)
  next
    case (Some out)
    obtain ts where ts: "like_tokens (runes p) = Some ts" "like_tokens out = Some (collapse False ts)"
      "length (encode_runes out) \<le> length (encode_runes (runes p))" using normal_runes_tokens [OF Some] by blast
    have small: "length (encode_runes out) \<le> 4096" using ts(3) valid_string_runes [OF v(1)] v(3) by simp
    moreover have "token_count out \<le> length out" using like_tokens_length [OF ts(2)] ts(2) by (simp add: token_count_def)
    ultimately have "token_count out \<le> 4096" using length_encode_runes [of out] by linarith
    then show ?thesis using v like_loop_runes [OF v(1), of "[]" 0 False] Some ts(1) small
      by (auto simp: compile_like_pattern_def Let_def maximum_like_pattern_bytes_def maximum_like_pattern_work_units_def)
  qed
qed

theorem like_pattern_equivalent_witness:
  "\<exists>lp. compile_like_pattern ''a%%_'' = Inr lp \<and> normalized_pattern lp = ''a%_'' \<and> work_units lp = 3
    \<and> compile_like_pattern (normalized_pattern lp) = Inr lp"
proof -
  have "compile_like_pattern ''a%%_'' = Inr \<lparr>normalized_pattern = ''a%_'', work_units = 3\<rparr>"
  proof -
    have c: "char_of (0x25 :: nat) = CHR ''%''" "char_of (0x5F :: nat) = CHR ''_''" "char_of (0x61 :: nat) = CHR ''a''" by code_simp+
    show ?thesis
      by (simp add: compile_like_pattern_def like_loop.simps encode_rune_def encode_valid_def valid_rune_def Let_def
        maximum_like_pattern_bytes_def maximum_like_pattern_work_units_def c)
  qed
  from like_pattern_equivalent [OF this] this show ?thesis by auto
qed

end
