(* ===== verification/Spl_Path.thy ===== *)
theory Spl_Path
  imports Go_Utf8 Go_Strconv
begin

text \<open>
  \<open>internal/splpath/path.go\<close>: \<open>ParseJSON\<close>, the parser of the explicit JSON location paths of \<open>spath\<close>, with
  every diagnostic and its byte offset.
\<close>

section \<open>Paths\<close>

definition maximum_path_bytes :: nat where "maximum_path_bytes = 4096"
definition maximum_path_steps :: nat where "maximum_path_steps = 17"
definition maximum_key_bytes :: nat where "maximum_key_bytes = 256"
definition maximum_array_selectors :: nat where "maximum_array_selectors = 4"
definition maximum_array_index :: nat where "maximum_array_index = 2147483646"

datatype array_selector = SelectorNone | SelectorFixed | SelectorWildcard

record path_step =
  step_key :: bytes
  step_selector :: array_selector
  step_index :: u64

definition evaluation_work_units :: "path_step list \<Rightarrow> nat" where
  "evaluation_work_units steps = fold (\<lambda>step units. if step_selector step \<noteq> SelectorNone then units + 1 else units) steps 3"

definition has_wildcard :: "path_step list \<Rightarrow> bool" where
  "has_wildcard steps \<longleftrightarrow> list_ex (\<lambda>step. step_selector step = SelectorWildcard) steps"

datatype path_error_kind = KindInvalid | KindUnsupported | KindTooComplex

record path_error =
  error_kind :: path_error_kind
  error_offset :: int
  error_message :: string

definition invalid :: "int \<Rightarrow> string \<Rightarrow> path_error" where
  "invalid off msg = \<lparr>error_kind = KindInvalid, error_offset = off, error_message = msg\<rparr>"

definition unsupported :: "int \<Rightarrow> string \<Rightarrow> path_error" where
  "unsupported off msg = \<lparr>error_kind = KindUnsupported, error_offset = off, error_message = msg\<rparr>"

definition too_complex :: "int \<Rightarrow> string \<Rightarrow> path_error" where
  "too_complex off msg = \<lparr>error_kind = KindTooComplex, error_offset = off, error_message = msg\<rparr>"

section \<open>The parser\<close>

function first_invalid_utf8 :: "bytes \<Rightarrow> nat \<Rightarrow> nat" where
  "first_invalid_utf8 src off =
     (if off \<ge> length src then length src
      else let (_, width) = decode_rune (drop off src) in
        if width = 1 \<and> of_char (src ! off) \<ge> (0x80 :: nat) then off else first_invalid_utf8 src (off + width))"
  by pat_completeness auto
termination
proof (relation "measure (\<lambda>(src, off). length src - off)")
  fix src :: bytes and off x r w
  assume a: "\<not> length src \<le> off" "x = decode_rune (drop off src)" "(r :: nat, w :: nat) = x"
  have "0 < snd (decode_rune (drop off src))" using a(1) by (intro decode_rune_pos) simp
  then have "0 < w" using a(2,3) by (metis snd_conv)
  then show "((src, off + w), src, off) \<in> measure (\<lambda>(src, off). length src - off)" using a(1) by simp
qed simp

declare first_invalid_utf8.simps [simp del]

text \<open>The first loop of \<open>parseStep\<close>: \<open>rest\<close> is the source behind \<open>index\<close>.\<close>

function check_step_runes :: "nat \<Rightarrow> bytes \<Rightarrow> nat \<Rightarrow> path_error option" where
  "check_step_runes off rest index =
     (if rest = [] then None
      else let (value, width) = decode_rune rest in
        if value < 0x20 \<or> value = 0x7F then Some (invalid (int (off + index)) ''location step contains a control character'')
        else if value = 0x5C then Some (unsupported (int (off + index)) ''escaped JSON path keys are not supported'')
        else if value = 0x2A then Some (unsupported (int (off + index)) ''wildcard JSON path keys are not supported'')
        else check_step_runes off (drop width rest) (index + width))"
  by pat_completeness auto
termination
  by (relation "measure (\<lambda>(_, rest, _). length rest)") (auto dest: decode_width_pos [OF sym])

declare check_step_runes.simps [simp del]

text \<open>\<open>strings.IndexByte\<close>, which gives -1 for an absent byte.\<close>

definition index_int :: "char \<Rightarrow> bytes \<Rightarrow> int" where
  "index_int c s = (case index_byte c s of None \<Rightarrow> - 1 | Some i \<Rightarrow> int i)"

text \<open>The first byte that is no digit.\<close>

fun first_non_digit :: "bytes \<Rightarrow> nat option" where
  "first_non_digit [] = None"
| "first_non_digit (c # cs) = (if is_digit c then map_option Suc (first_non_digit cs) else Some 0)"

definition parse_index :: "bytes \<Rightarrow> int \<Rightarrow> bytes \<Rightarrow> path_error + path_step" where
  "parse_index key at_open text =
     (if text = [] then Inr \<lparr>step_key = key, step_selector = SelectorWildcard, step_index = 0\<rparr>
      else if prefix ''@'' text then Inl (unsupported at_open ''XML attribute extraction is not supported'')
      else if prefix ''-'' text then Inl (unsupported at_open ''negative array indexes are not supported'')
      else if length text > 1 \<and> text ! 0 = CHR ''0'' then Inl (invalid (at_open + 1) ''array index must not contain leading zeros'')
      else case first_non_digit text of
          Some i \<Rightarrow> Inl (invalid (at_open + 1 + int i) ''array index must be an unsigned decimal integer'')
        | None \<Rightarrow>
            (case parse_uint64 text of
               None \<Rightarrow> Inl (too_complex (at_open + 1) ''array index exceeds 2147483646'')
             | Some v \<Rightarrow>
                 (if unat v > maximum_array_index then Inl (too_complex (at_open + 1) ''array index exceeds 2147483646'')
                  else Inr \<lparr>step_key = key, step_selector = SelectorFixed, step_index = v\<rparr>)))"

definition parse_step :: "bytes \<Rightarrow> nat \<Rightarrow> path_error + path_step" where
  "parse_step src off =
     (case check_step_runes off src 0 of Some e \<Rightarrow> Inl e | None \<Rightarrow>
       (let opening = index_int CHR ''{'' src; closing = index_int CHR ''}'' src in
        if opening < 0 \<and> closing < 0 then
          (if length src > maximum_key_bytes then Inl (too_complex (int off) ''location-step key exceeds 256 UTF-8 bytes'')
           else Inr \<lparr>step_key = src, step_selector = SelectorNone, step_index = 0\<rparr>)
        else if opening \<le> 0 \<or> closing \<noteq> int (length src) - 1 \<or> count_list src CHR ''{'' \<noteq> 1 \<or> count_list src CHR ''}'' \<noteq> 1
        then Inl (invalid (int off + max (max opening closing) 0) ''array index must be one final {...} suffix'')
        else if nat opening > maximum_key_bytes
        then Inl (too_complex (int off) ''location-step key exceeds 256 UTF-8 bytes'')
        else parse_index (take (nat opening) src) (int off + opening)
               (take (nat closing - nat (opening + 1)) (drop (nat (opening + 1)) src))))"

function path_loop :: "bytes \<Rightarrow> path_step list \<Rightarrow> nat \<Rightarrow> nat \<Rightarrow> path_error + path_step list" where
  "path_loop path steps selectors start =
     (if start > length path then Inr steps
      else if length steps \<ge> maximum_path_steps then Inl (too_complex (int start) ''path contains more than 17 location steps'')
      else
        let width = index_byte CHR ''.'' (drop start path);
            stop = (case width of Some w \<Rightarrow> start + w | None \<Rightarrow> length path)
        in if stop = start then Inl (invalid (int start) ''path contains an empty location step'')
           else case parse_step (take (stop - start) (drop start path)) start of
               Inl e \<Rightarrow> Inl e
             | Inr step \<Rightarrow>
                 (let selectors' = (if step_selector step \<noteq> SelectorNone then selectors + 1 else selectors) in
                  if step_selector step \<noteq> SelectorNone \<and> selectors' > maximum_array_selectors
                  then Inl (too_complex (int start) ''path contains more than 4 array selectors'')
                  else if width = None then Inr (steps @ [step])
                  else if stop + 1 = length path
                  then Inl (invalid (int (stop + 1)) ''path contains an empty trailing location step'')
                  else path_loop path (steps @ [step]) selectors' (stop + 1)))"
  by pat_completeness auto
termination
  by (relation "measure (\<lambda>(path, _, _, start). Suc (length path) - start)") (auto split: option.splits)

declare path_loop.simps [simp del]

definition parse_json :: "bytes \<Rightarrow> path_error + path_step list" where
  "parse_json path =
     (if path = [] then Inl (invalid 0 ''path is empty'')
      else if \<not> valid_string path then Inl (invalid (int (first_invalid_utf8 path 0)) ''path must be valid UTF-8'')
      else if length path > maximum_path_bytes then Inl (too_complex (int maximum_path_bytes) ''path exceeds 4096 UTF-8 bytes'')
      else path_loop path [] 0 0)"

section \<open>The printer\<close>

text \<open>The text of a path, and which steps have one.\<close>

definition render_step :: "path_step \<Rightarrow> bytes" where
  "render_step st = step_key st @
     (case step_selector st of SelectorNone \<Rightarrow> [] | SelectorWildcard \<Rightarrow> ''{}''
      | SelectorFixed \<Rightarrow> ''{'' @ decimal (unat (step_index st)) @ ''}'')"

fun render_path :: "path_step list \<Rightarrow> bytes" where
  "render_path [] = []"
| "render_path [st] = render_step st"
| "render_path (st # sts) = render_step st @ ''.'' @ render_path sts"

definition key_char :: "char \<Rightarrow> bool" where
  "key_char c \<longleftrightarrow> of_char c \<ge> (0x20 :: nat) \<and> c \<noteq> CHR 0x7F \<and> c \<noteq> CHR 0x5C \<and> c \<noteq> CHR ''*'' \<and> c \<noteq> CHR ''{'' \<and> c \<noteq> CHR ''}'' \<and> c \<noteq> CHR ''.''"

definition step_ok :: "path_step \<Rightarrow> bool" where
  "step_ok st \<longleftrightarrow> step_key st \<noteq> [] \<and> length (step_key st) \<le> maximum_key_bytes \<and> list_all key_char (step_key st)
     \<and> (if step_selector st = SelectorFixed then unat (step_index st) \<le> maximum_array_index else step_index st = 0)"

definition selector_count :: "path_step list \<Rightarrow> nat" where
  "selector_count sts = length (filter (\<lambda>st. step_selector st \<noteq> SelectorNone) sts)"

definition braced :: "bytes \<Rightarrow> bytes \<Rightarrow> bytes" where "braced k t = k @ ''{'' @ t @ ''}''"

definition path_ok :: "path_step list \<Rightarrow> bool" where
  "path_ok sts \<longleftrightarrow> sts \<noteq> [] \<and> length sts \<le> maximum_path_steps \<and> list_all step_ok sts
     \<and> selector_count sts \<le> maximum_array_selectors
     \<and> length (render_path sts) \<le> maximum_path_bytes \<and> valid_string (render_path sts)"

section \<open>One step\<close>

lemma check_step_runes_None:
  "check_step_runes off rest i = None \<longleftrightarrow> list_all (\<lambda>c. of_char c \<ge> (0x20 :: nat) \<and> c \<noteq> CHR 0x7F \<and> c \<noteq> CHR 0x5C \<and> c \<noteq> CHR ''*'') rest"
proof (induction off rest i rule: check_step_runes.induct)
  case (1 off rest i)
  show ?case
  proof (cases "rest = []")
    case True
    then show ?thesis by (simp add: check_step_runes.simps)
  next
    case False
    obtain c t where r: "rest = c # t" using False by (cases rest) auto
    obtain v w where d: "decode_rune rest = (v, w)" by fastforce
    define ok where "ok = (\<lambda>c. of_char c \<ge> (0x20 :: nat) \<and> c \<noteq> CHR 0x7F \<and> c \<noteq> CHR 0x5C \<and> c \<noteq> CHR ''*'')"
    note IH = "1.IH" [OF False d [symmetric] refl, folded ok_def]
    have eq: "check_step_runes off rest i = None \<longleftrightarrow> \<not> (v < 0x20 \<or> v = 0x7F) \<and> v \<noteq> 0x5C \<and> v \<noteq> 0x2A \<and> check_step_runes off (drop w rest) (i + w) = None"
      using False by (simp add: check_step_runes.simps [of off rest i] d)
    have sp: "list_all ok rest \<longleftrightarrow> list_all ok (take w rest) \<and> list_all ok (drop w rest)" by (metis append_take_drop_id list_all_append)
    have here: "list_all ok (take w rest) \<longleftrightarrow> \<not> (v < 0x20 \<or> v = 0x7F) \<and> v \<noteq> 0x5C \<and> v \<noteq> 0x2A"
    proof (cases "of_char c < (0x80 :: nat)")
      case True
      have vw: "v = of_char c" "w = 1" using True d by (simp_all add: r)
      have cs: "c = CHR 0x7F \<longleftrightarrow> v = 0x7F" "c = CHR 0x5C \<longleftrightarrow> v = 0x5C" "c = CHR ''*'' \<longleftrightarrow> v = 0x2A"
        using of_char_eq_iff [of c "CHR 0x7F", where 'a = nat] of_char_eq_iff [of c "CHR 0x5C", where 'a = nat]
          of_char_eq_iff [of c "CHR ''*''", where 'a = nat] by (simp_all add: vw(1))
      show ?thesis unfolding r vw(2) using cs by (simp add: ok_def vw(1)) linarith
    next
      case big: False
      then have n: "v \<ge> 0x80" "\<forall>c \<in> set (take w rest). of_char c \<ge> (0x80 :: nat)"
        using decode_non_ascii [OF d False] by (auto simp: r)
      have "ok c" if "of_char c \<ge> (0x80 :: nat)" for c using that by (auto simp: ok_def)
      then have "list_all ok (take w rest)" using n(2) by (simp add: list_all_iff)
      then show ?thesis using n(1) by simp
    qed
    show ?thesis unfolding ok_def [symmetric] eq sp here using IH by blast
  qed
qed

lemma first_non_digit_None [simp]: "first_non_digit cs = None \<longleftrightarrow> list_all is_digit cs"
  by (induction cs) auto

lemma digit_chars: "is_digit c \<Longrightarrow> of_char c \<ge> (0x20 :: nat) \<and> c \<noteq> CHR 0x7F \<and> c \<noteq> CHR 0x5C \<and> c \<noteq> CHR ''*'' \<and> c \<noteq> CHR ''{'' \<and> c \<noteq> CHR ''}'' \<and> c \<noteq> CHR ''.'' \<and> c \<noteq> CHR ''@'' \<and> c \<noteq> CHR ''-''"
  by (auto simp: is_digit_def)

lemma parse_index_Inr:
  "parse_index key p t = Inr st \<longleftrightarrow>
     (t = [] \<and> st = \<lparr>step_key = key, step_selector = SelectorWildcard, step_index = 0\<rparr>)
     \<or> (\<exists>v. unat v \<le> maximum_array_index \<and> t = decimal (unat v) \<and> st = \<lparr>step_key = key, step_selector = SelectorFixed, step_index = v\<rparr>)"
  (is "?l \<longleftrightarrow> ?w \<or> ?f")
proof
  assume l: ?l
  show "?w \<or> ?f"
  proof (cases "t = []")
    case True
    then show ?thesis using l by (simp add: parse_index_def)
  next
    case False
    then have nz: "\<not> (length t > 1 \<and> t ! 0 = CHR ''0'')" and d: "list_all is_digit t"
      using l by (auto simp: parse_index_def split: if_splits option.splits)
    obtain v where v: "parse_uint64 t = Some v" "unat v \<le> maximum_array_index" "st = \<lparr>step_key = key, step_selector = SelectorFixed, step_index = v\<rparr>"
      using l False by (auto simp: parse_index_def split: if_splits option.splits)
    have u: "v = of_nat (decimal_value t)" "decimal_value t < 2 ^ 64" using v(1) by (auto simp: parse_uint64_def split: if_splits)
    then have "unat v = decimal_value t" by (simp add: unat_of_nat take_bit_nat_eq_self)
    moreover have "length t = 1 \<or> hd t \<noteq> CHR ''0''" using nz False by (cases t) auto
    ultimately have "t = decimal (unat v)" using decimal_decimal_value [OF d False] by simp
    then show ?thesis using v by blast
  qed
next
  assume "?w \<or> ?f"
  then show ?l
  proof
    assume ?w
    then show ?l by (simp add: parse_index_def)
  next
    assume ?f
    then obtain v where v: "unat v \<le> maximum_array_index" "t = decimal (unat v)" "st = \<lparr>step_key = key, step_selector = SelectorFixed, step_index = v\<rparr>" by blast
    have d: "list_all is_digit t" "t \<noteq> []" using decimal_digits_only last_digit(2) v(2) by simp_all
    obtain c u where t: "t = c # u" using d(2) by (cases t) auto
    have c: "is_digit c" using d(1) by (simp add: t)
    have p: "\<not> prefix ''@'' t" "\<not> prefix ''-'' t" using digit_chars [OF c] by (auto simp: t)
    have z: "\<not> (length t > 1 \<and> t ! 0 = CHR ''0'')" using decimal_leading [of "unat v"] unfolding v(2) [symmetric] t by auto
    have "unat v < 2 ^ 64" using unsigned_less [of v, where 'a = nat] by simp
    then have u: "parse_uint64 t = Some v" using d by (simp add: parse_uint64_def) (simp add: v(2))
    have n: "first_non_digit t = None" using d(1) by simp
    show ?l using d(2) p z v(1) by (simp add: parse_index_def n u v(3))
  qed
qed

lemma index_int_nonneg: "index_int c s < 0 \<longleftrightarrow> c \<notin> set s"
  using index_byte_None [of c s] by (cases "index_byte c s") (auto simp: index_int_def simp del: index_byte_None)

lemma parse_step_plain:
  assumes "check_step_runes off s 0 = None" "CHR ''{'' \<notin> set s" "CHR ''}'' \<notin> set s"
  shows "parse_step s off = (if length s > maximum_key_bytes then Inl (too_complex (int off) ''location-step key exceeds 256 UTF-8 bytes'')
           else Inr \<lparr>step_key = s, step_selector = SelectorNone, step_index = 0\<rparr>)"
  using assms by (simp add: parse_step_def index_int_nonneg)

lemma parse_step_braced:
  assumes c: "check_step_runes off (braced k t) 0 = None" and k: "k \<noteq> []" "CHR ''{'' \<notin> set k" "CHR ''}'' \<notin> set k"
    and t: "CHR ''{'' \<notin> set t" "CHR ''}'' \<notin> set t"
  shows "parse_step (braced k t) off = (if length k > maximum_key_bytes then Inl (too_complex (int off) ''location-step key exceeds 256 UTF-8 bytes'')
           else parse_index k (int off + int (length k)) t)"
proof -
  have o: "index_int CHR ''{'' (braced k t) = int (length k)" by (simp add: index_int_def braced_def index_byte_split k)
  have "index_byte CHR ''}'' ((k @ ''{'' @ t) @ CHR ''}'' # []) = Some (length (k @ ''{'' @ t))"
    by (rule index_byte_split) (use k t in auto)
  then have cl: "index_int CHR ''}'' (braced k t) = int (length k + length t + 1)" by (simp add: index_int_def braced_def)
  have n: "count_list (braced k t) CHR ''{'' = 1" "count_list (braced k t) CHR ''}'' = 1"
    using k t by (simp_all add: braced_def count_list_0_iff)
  have l: "length (braced k t) = length k + length t + 2" by (simp add: braced_def)
  have s: "nat (int (length k) + 1) = Suc (length k)" "nat (int (length k + length t + 1)) - Suc (length k) = length t"
    "nat (1 + (int (length k) + int (length t))) - Suc (length k) = length t" by simp_all
  have d: "take (length k) (braced k t) = k" "take (length t) (drop (Suc (length k)) (braced k t)) = t" by (simp_all add: braced_def)
  show ?thesis using c k by (simp add: parse_step_def o cl n l s d Let_def)
qed

lemma parse_step_shape:
  assumes "parse_step s off = Inr st"
  shows "check_step_runes off s 0 = None"
    and "CHR ''{'' \<notin> set s \<and> CHR ''}'' \<notin> set s \<or>
      (\<exists>k t. s = braced k t \<and> k \<noteq> [] \<and> CHR ''{'' \<notin> set k \<and> CHR ''}'' \<notin> set k \<and> CHR ''{'' \<notin> set t \<and> CHR ''}'' \<notin> set t)"
proof -
  show "check_step_runes off s 0 = None" using assms by (auto simp: parse_step_def split: option.splits)
  show "CHR ''{'' \<notin> set s \<and> CHR ''}'' \<notin> set s \<or>
      (\<exists>k t. s = braced k t \<and> k \<noteq> [] \<and> CHR ''{'' \<notin> set k \<and> CHR ''}'' \<notin> set k \<and> CHR ''{'' \<notin> set t \<and> CHR ''}'' \<notin> set t)"
  proof (cases "CHR ''{'' \<notin> set s \<and> CHR ''}'' \<notin> set s")
    case False
    then have g: "0 < index_int CHR ''{'' s" "index_int CHR ''}'' s = int (length s) - 1" "count_list s CHR ''{'' = 1" "count_list s CHR ''}'' = 1"
      using assms by (auto simp: parse_step_def Let_def index_int_nonneg split: option.splits if_splits)
    obtain i where i: "index_byte CHR ''{'' s = Some i" "0 < i" using g(1) by (auto simp: index_int_def split: option.splits)
    have "s \<noteq> []" using i(1) by auto
    then obtain j where j: "index_byte CHR ''}'' s = Some j" "j = length s - 1" using g(2) by (auto simp: index_int_def split: option.splits)
    note I = index_byte_SomeD [OF i(1)] and J = index_byte_SomeD [OF j(1)]
    define k where "k = take i s"
    define r where "r = drop (Suc i) s"
    have s: "s = k @ CHR ''{'' # r" using I(4) by (simp add: k_def r_def)
    have "r \<noteq> []"
    proof
      assume "r = []"
      then have "s ! j = CHR ''{''" using s j(2) by simp
      then show False using J(2) by simp
    qed
    moreover have "last s = CHR ''}''" using J(2) j(2) \<open>s \<noteq> []\<close> by (simp add: last_conv_nth)
    ultimately have r: "r = butlast r @ [CHR ''}'']" using s by (metis append_butlast_last_id last.simps last_append list.distinct(1))
    then obtain t where t: "r = t @ [CHR ''}'']" by blast
    have eq: "s = braced k t" by (simp add: s t braced_def)
    have "count_list k CHR ''{'' = 0" "count_list t CHR ''{'' = 0" "count_list k CHR ''}'' = 0" "count_list t CHR ''}'' = 0"
      using g(3,4) by (auto simp: eq braced_def)
    moreover have "k \<noteq> []" using i(2) \<open>s \<noteq> []\<close> by (simp add: k_def)
    ultimately show ?thesis using eq by (auto simp: count_list_0_iff)
  qed simp
qed


lemma braced_no_braces:
  "CHR ''{'' \<notin> set (braced k t) \<Longrightarrow> False" "braced k t \<noteq> []"
  by (simp_all add: braced_def)

lemma render_step_cases:
  "render_step st = (case step_selector st of SelectorNone \<Rightarrow> step_key st | SelectorWildcard \<Rightarrow> braced (step_key st) []
     | SelectorFixed \<Rightarrow> braced (step_key st) (decimal (unat (step_index st))))"
  by (simp add: render_step_def braced_def split: array_selector.splits)

lemma decimal_plain:
  "CHR ''{'' \<notin> set (decimal n)" "CHR ''}'' \<notin> set (decimal n)" "CHR ''.'' \<notin> set (decimal n)"
  "list_all (\<lambda>c. of_char c \<ge> (0x20 :: nat) \<and> c \<noteq> CHR 0x7F \<and> c \<noteq> CHR 0x5C \<and> c \<noteq> CHR ''*'') (decimal n)"
  using decimal_digits_only [of n] digit_chars by (fastforce simp: list_all_iff)+

lemma render_step_parses:
  assumes "step_ok st"
  shows "parse_step (render_step st) off = Inr st" "CHR ''.'' \<notin> set (render_step st)" "render_step st \<noteq> []"
proof -
  obtain k sel v where st: "st = \<lparr>step_key = k, step_selector = sel, step_index = v\<rparr>" by (cases st) auto
  have k: "k \<noteq> []" "length k \<le> maximum_key_bytes" "list_all key_char k" and v: "if sel = SelectorFixed then unat v \<le> maximum_array_index else v = 0"
    using assms by (auto simp: step_ok_def st split: if_splits)
  have kc: "CHR ''{'' \<notin> set k" "CHR ''}'' \<notin> set k" "CHR ''.'' \<notin> set k"
    "list_all (\<lambda>c. of_char c \<ge> (0x20 :: nat) \<and> c \<noteq> CHR 0x7F \<and> c \<noteq> CHR 0x5C \<and> c \<noteq> CHR ''*'') k"
    using k(3) by (auto simp: key_char_def list_all_iff)
  show "render_step st \<noteq> []" using k(1) by (simp add: render_step_def st)
  show "CHR ''.'' \<notin> set (render_step st)" using kc(3) decimal_plain(3) by (auto simp: render_step_def st split: array_selector.splits)
  have c: "check_step_runes off (render_step st) 0 = None"
    unfolding check_step_runes_None using kc(4) decimal_plain(4) by (auto simp: render_step_def st split: array_selector.splits)
  show "parse_step (render_step st) off = Inr st"
  proof (cases sel)
    case SelectorNone
    then have "render_step st = k" by (simp add: render_step_def st)
    then show ?thesis using parse_step_plain [of off k] c kc k(2) v SelectorNone by (simp add: st)
  next
    case SelectorFixed
    have r: "render_step st = braced k (decimal (unat v))" by (simp add: render_step_cases st SelectorFixed)
    have "parse_index k (int off + int (length k)) (decimal (unat v)) = Inr st"
      unfolding parse_index_Inr using v SelectorFixed by (auto simp: st)
    then show ?thesis unfolding r using parse_step_braced [OF c [unfolded r] k(1) kc(1,2) decimal_plain(1,2)] k(2) by simp
  next
    case SelectorWildcard
    have r: "render_step st = braced k []" by (simp add: render_step_cases st SelectorWildcard)
    have "parse_index k (int off + int (length k)) [] = Inr st"
      unfolding parse_index_Inr using v SelectorWildcard by (auto simp: st)
    then show ?thesis unfolding r using parse_step_braced [OF c [unfolded r] k(1) kc(1,2)] k(2) by simp
  qed
qed

lemma parse_step_renders:
  assumes p: "parse_step s off = Inr st" and s: "s \<noteq> []" "CHR ''.'' \<notin> set s"
  shows "step_ok st" "s = render_step st"
proof -
  note c = parse_step_shape(1) [OF p]
  have lc: "list_all (\<lambda>c. of_char c \<ge> (0x20 :: nat) \<and> c \<noteq> CHR 0x7F \<and> c \<noteq> CHR 0x5C \<and> c \<noteq> CHR ''*'') s" using c by (simp add: check_step_runes_None)
  consider (plain) "CHR ''{'' \<notin> set s" "CHR ''}'' \<notin> set s"
    | (brace) k t where "s = braced k t" "k \<noteq> []" "CHR ''{'' \<notin> set k" "CHR ''}'' \<notin> set k" "CHR ''{'' \<notin> set t" "CHR ''}'' \<notin> set t"
    using parse_step_shape(2) [OF p] by blast
  then have "step_ok st \<and> s = render_step st"
  proof cases
    case plain
    then have "st = \<lparr>step_key = s, step_selector = SelectorNone, step_index = 0\<rparr>" "length s \<le> maximum_key_bytes"
      using p parse_step_plain [OF c plain] by (auto split: if_splits)
    moreover have "list_all key_char s" using lc plain s(2) by (auto simp: list_all_iff key_char_def)
    ultimately show ?thesis using s(1) by (simp add: step_ok_def render_step_def)
  next
    case brace
    have kl: "length k \<le> maximum_key_bytes" and pi: "parse_index k (int off + int (length k)) t = Inr st"
      using p parse_step_braced [OF c [unfolded brace(1)] brace(2-6)] by (auto simp: brace(1) split: if_splits)
    have "list_all key_char k" using lc brace s(2) by (auto simp: list_all_iff key_char_def braced_def)
    then show ?thesis using pi [unfolded parse_index_Inr] kl brace(1,2)
      by (auto simp: step_ok_def render_step_cases)
  qed
  then show "step_ok st" "s = render_step st" by simp_all
qed

lemma render_path_Cons: "sts \<noteq> [] \<Longrightarrow> render_path (st # sts) = render_step st @ CHR ''.'' # render_path sts"
  by (cases sts) simp_all

lemma render_path_nonempty: "sts \<noteq> [] \<Longrightarrow> list_all step_ok sts \<Longrightarrow> render_path sts \<noteq> []"
  by (cases sts rule: render_path.cases) (auto simp: render_step_parses(3))

section \<open>The whole path\<close>

lemma first_split:
  fixes c :: char
  assumes "a @ c # b = a' @ c # b'" "c \<notin> set a" "c \<notin> set a'"
  shows "a = a' \<and> b = b'"
proof -
  have "length a = length a'" using index_byte_split [OF assms(2), of b] index_byte_split [OF assms(3), of b'] assms(1) by simp
  then show ?thesis using assms(1) by simp
qed

lemma path_loop_renders:
  "start < length path \<Longrightarrow> sel \<le> maximum_array_selectors \<Longrightarrow>
     path_loop path steps sel start = Inr out \<longleftrightarrow>
       (\<exists>ts. ts \<noteq> [] \<and> out = steps @ ts \<and> drop start path = render_path ts \<and> list_all step_ok ts
          \<and> length steps + length ts \<le> maximum_path_steps \<and> sel + selector_count ts \<le> maximum_array_selectors)"
proof (induction path steps sel start rule: path_loop.induct)
  case (1 path steps sel start)
  define R where "R = drop start path"
  define spec where "spec = (\<lambda>R steps sel. \<exists>ts. ts \<noteq> [] \<and> out = steps @ ts \<and> R = render_path ts \<and> list_all step_ok ts
          \<and> length steps + length ts \<le> maximum_path_steps \<and> sel + selector_count ts \<le> maximum_array_selectors)"
  have R: "R \<noteq> []" "length R = length path - start" using "1.prems"(1) by (simp_all add: R_def)
  have "path_loop path steps sel start = Inr out \<longleftrightarrow> spec R steps sel"
  proof (cases "length steps \<ge> maximum_path_steps")
    case True
    have "\<not> spec R steps sel"
    proof
      assume "spec R steps sel"
      then obtain ts :: "path_step list" where "ts \<noteq> []" "length steps + length ts \<le> maximum_path_steps" unfolding spec_def by blast
      then show False using True by (cases ts) auto
    qed
    then show ?thesis using "1.prems"(1) True by (simp add: path_loop.simps [of path steps sel start])
  next
    case few: False
    show ?thesis
    proof (cases "index_byte CHR ''.'' R")
      case None
      then have nd: "CHR ''.'' \<notin> set R" by simp
      have "spec R steps sel \<longleftrightarrow> (\<exists>st. parse_step R start = Inr st \<and> out = steps @ [st] \<and> sel + selector_count [st] \<le> maximum_array_selectors)"
        (is "_ \<longleftrightarrow> ?one")
      proof
        assume "spec R steps sel"
        then obtain ts where ts: "ts \<noteq> []" "out = steps @ ts" "R = render_path ts" "list_all step_ok ts" "sel + selector_count ts \<le> maximum_array_selectors"
          unfolding spec_def by blast
        obtain st ts' where t: "ts = st # ts'" using ts(1) by (cases ts) auto
        have "ts' = []"
        proof (rule ccontr)
          assume "ts' \<noteq> []"
          then have "CHR ''.'' \<in> set R" using ts(3) by (simp add: t render_path_Cons)
          then show False using nd by simp
        qed
        then have "ts = [st]" by (simp add: t)
        then show ?one using ts render_step_parses(1) [of st start] by auto
      next
        assume ?one
        then obtain st where st: "parse_step R start = Inr st" "out = steps @ [st]" "sel + selector_count [st] \<le> maximum_array_selectors" by blast
        then show "spec R steps sel" unfolding spec_def
          using parse_step_renders [OF st(1) R(1) nd] few by (intro exI [of _ "[st]"]) simp
      qed
      then show ?thesis using "1.prems" few None R
        by (auto simp: path_loop.simps [of path steps sel start] R_def selector_count_def Let_def split: sum.splits if_splits)
    next
      case (Some w)
      define a where "a = take w R"
      define b where "b = drop (Suc w) R"
      note W = index_byte_SomeD [OF Some]
      have ab: "R = a @ CHR ''.'' # b" "CHR ''.'' \<notin> set a" "length a = w" using W by (simp_all add: a_def b_def)
      have db: "drop (start + w + 1) path = b" by (simp add: b_def R_def add.commute)
      have sp: "spec R steps sel \<longleftrightarrow> (\<exists>st. parse_step a start = Inr st \<and> a \<noteq> [] \<and> b \<noteq> [] \<and> sel + selector_count [st] \<le> maximum_array_selectors
          \<and> spec b (steps @ [st]) (sel + selector_count [st]))" (is "_ \<longleftrightarrow> ?more")
      proof
        assume "spec R steps sel"
        then obtain ts where ts: "ts \<noteq> []" "out = steps @ ts" "R = render_path ts" "list_all step_ok ts"
          "length steps + length ts \<le> maximum_path_steps" "sel + selector_count ts \<le> maximum_array_selectors"
          unfolding spec_def by blast
        obtain st ts' where t: "ts = st # ts'" using ts(1) by (cases ts) auto
        have ok: "step_ok st" "list_all step_ok ts'" using ts(4) by (simp_all add: t)
        have ne: "ts' \<noteq> []" using ab(1) render_step_parses(2) [OF ok(1)] ts(3) by (auto simp: t)
        have "a = render_step st \<and> b = render_path ts'"
          by (rule first_split [OF _ ab(2) render_step_parses(2) [OF ok(1)]]) (use ts(3) ab(1) in \<open>simp add: t render_path_Cons [OF ne]\<close>)
        then have e: "a = render_step st" "b = render_path ts'" by simp_all
        have "spec b (steps @ [st]) (sel + selector_count [st])" unfolding spec_def
          using ts ne ok by (intro exI [of _ ts']) (auto simp: t e(2) selector_count_def)
        moreover have "sel + selector_count [st] \<le> maximum_array_selectors" using ts(6) by (auto simp: t selector_count_def split: if_splits)
        ultimately show ?more using render_step_parses(1) [OF ok(1), of start] render_step_parses(3) [OF ok(1)] render_path_nonempty [OF ne ok(2)] by (intro exI [of _ st]) (simp add: e)
      next
        assume ?more
        then obtain st where st: "parse_step a start = Inr st" "a \<noteq> []" "b \<noteq> []" "spec b (steps @ [st]) (sel + selector_count [st])" by blast
        then obtain ts where ts: "ts \<noteq> []" "out = (steps @ [st]) @ ts" "b = render_path ts" "list_all step_ok ts"
          "length (steps @ [st]) + length ts \<le> maximum_path_steps" "sel + selector_count [st] + selector_count ts \<le> maximum_array_selectors"
          unfolding spec_def by blast
        note ok = parse_step_renders [OF st(1,2) ab(2)]
        show "spec R steps sel" unfolding spec_def
          by (rule exI [of _ "st # ts"]) (use ts ok ab(1) in \<open>auto simp: render_path_Cons selector_count_def split: if_splits\<close>)
      qed
      have lw: "start + w < length path" using W(1) R(2) by simp
      have tk: "take w (drop start path) = a" by (simp add: a_def R_def)
      have lb: "Suc (start + w) = length path \<longleftrightarrow> b = []" using lw by (auto simp: b_def R_def)
      have w0: "w = 0 \<longleftrightarrow> a = []" using ab(3) by auto
      have unf: "path_loop path steps sel start = (if a = [] then Inl (invalid (int start) ''path contains an empty location step'')
           else case parse_step a start of Inl e \<Rightarrow> Inl e
             | Inr step \<Rightarrow>
                 (let selectors' = (if step_selector step \<noteq> SelectorNone then sel + 1 else sel) in
                  if step_selector step \<noteq> SelectorNone \<and> selectors' > maximum_array_selectors
                  then Inl (too_complex (int start) ''path contains more than 4 array selectors'')
                  else if start + w + 1 = length path then Inl (invalid (int (start + w + 1)) ''path contains an empty trailing location step'')
                  else path_loop path (steps @ [step]) selectors' (start + w + 1)))"
        using "1.prems" few Some R by (simp add: path_loop.simps [of path steps sel start] R_def [symmetric] w0 a_def [symmetric] Let_def split: sum.splits)
      show ?thesis
      proof (cases "parse_step a start")
        case (Inl e)
        then show ?thesis by (auto simp: unf sp)
      next
        case (Inr st)
        define sel' where "sel' = (if step_selector st \<noteq> SelectorNone then sel + 1 else sel)"
        have sc: "sel' = sel + selector_count [st]" by (simp add: sel'_def selector_count_def)
        have sb: "step_selector st \<noteq> SelectorNone \<and> sel' > maximum_array_selectors \<longleftrightarrow> \<not> sel' \<le> maximum_array_selectors"
          using "1.prems"(2) by (auto simp: sel'_def)
        have unf2: "path_loop path steps sel start = Inr out \<longleftrightarrow> a \<noteq> [] \<and> sel' \<le> maximum_array_selectors \<and> b \<noteq> []
            \<and> path_loop path (steps @ [st]) sel' (start + w + 1) = Inr out"
          unfolding unf Inr using sb lb by (auto simp: sel'_def [symmetric] Let_def)
        show ?thesis
        proof (cases "a \<noteq> [] \<and> b \<noteq> [] \<and> sel' \<le> maximum_array_selectors")
          case True
          have "start + w + 1 < length path" using lb True lw by linarith
          then have "path_loop path (steps @ [st]) sel' (start + w + 1) = Inr out \<longleftrightarrow> spec b (steps @ [st]) sel'"
            using "1.IH" [of "Some w" "start + w" st sel'] "1.prems" few Some True Inr lb w0 tk
            by (simp add: R_def [symmetric] spec_def db [symmetric] sel'_def [symmetric] a_def [symmetric])
          then show ?thesis unfolding unf2 sp using Inr True by (auto simp: sc)
        next
          case False
          then show ?thesis unfolding unf2 sp using Inr by (auto simp: sc)
        qed
      qed
    qed
  qed
  then show ?case by (simp add: spec_def R_def)
qed

text \<open>C17: \<open>ParseJSON\<close> accepts exactly the rendered texts of well-formed paths and returns the path rendered: up to 17
  steps, each a non-empty key of at most 256 bytes without control characters, dots, stars, backslashes or
  braces, with no selector, \<open>{}\<close>, or \<open>{n}\<close> for an index up to 2147483646 written without leading zeros, and at most 4
  selectors, the whole within 4096 bytes of valid UTF-8.
\<close>

theorem parse_json_exact: "parse_json p = Inr steps \<longleftrightarrow> path_ok steps \<and> p = render_path steps"
proof (cases "p = [] \<or> \<not> valid_string p \<or> length p > maximum_path_bytes")
  case True
  have "\<not> (path_ok steps \<and> p = render_path steps)"
  proof
    assume a: "path_ok steps \<and> p = render_path steps"
    then have "p \<noteq> []" using render_path_nonempty by (simp add: path_ok_def)
    then show False using a True by (auto simp: path_ok_def)
  qed
  then show ?thesis using True by (auto simp: parse_json_def)
next
  case False
  then have "parse_json p = path_loop p [] 0 0" by (simp add: parse_json_def)
  moreover have "path_loop p [] 0 0 = Inr steps \<longleftrightarrow> steps \<noteq> [] \<and> p = render_path steps \<and> list_all step_ok steps
      \<and> length steps \<le> maximum_path_steps \<and> selector_count steps \<le> maximum_array_selectors"
    using path_loop_renders [of 0 p 0 "[]" steps] False by simp
  ultimately show ?thesis using False by (auto simp: path_ok_def)
qed

section \<open>Bounds\<close>

definition offset_in :: "nat \<Rightarrow> nat \<Rightarrow> path_error \<Rightarrow> bool" where
  "offset_in lo hi e \<longleftrightarrow> int lo \<le> error_offset e \<and> error_offset e \<le> int hi"

lemma offset_in_simps [simp]:
  "offset_in lo hi (invalid o' m) \<longleftrightarrow> int lo \<le> o' \<and> o' \<le> int hi"
  "offset_in lo hi (unsupported o' m) \<longleftrightarrow> int lo \<le> o' \<and> o' \<le> int hi"
  "offset_in lo hi (too_complex o' m) \<longleftrightarrow> int lo \<le> o' \<and> o' \<le> int hi"
  by (simp_all add: offset_in_def invalid_def unsupported_def too_complex_def)

lemma offset_in_mono: "offset_in lo hi e \<Longrightarrow> lo' \<le> lo \<Longrightarrow> hi \<le> hi' \<Longrightarrow> offset_in lo' hi' e"
  by (auto simp: offset_in_def)

lemma first_invalid_bound: "first_invalid_utf8 src off \<le> length src"
proof (induction src off rule: first_invalid_utf8.induct)
  case (1 src off)
  obtain r w where d: "decode_rune (drop off src) = (r, w)" by fastforce
  show ?case
  proof (cases "length src \<le> off")
    case False
    then show ?thesis using "1.IH" [OF False d [symmetric] refl]
      by (subst first_invalid_utf8.simps) (auto simp: d)
  qed (simp add: first_invalid_utf8.simps)
qed

lemma check_step_runes_bound: "check_step_runes off rest i = Some e \<Longrightarrow> offset_in (off + i) (off + i + length rest) e"
proof (induction off rest i rule: check_step_runes.induct)
  case (1 off rest i)
  have ne: "rest \<noteq> []" using "1.prems" by (auto simp: check_step_runes.simps)
  obtain r w where d: "decode_rune rest = (r, w)" by fastforce
  have w: "w \<le> length rest" using decode_rune_le [of rest] d by simp
  note u = "1.prems" [unfolded check_step_runes.simps [of off rest i]]
  show ?case
  proof (cases "r < 0x20 \<or> r = 0x7F \<or> r = 0x5C \<or> r = 0x2A")
    case True
    then show ?thesis using u ne by (auto simp: d split: if_splits)
  next
    case False
    then have "check_step_runes off (drop w rest) (i + w) = Some e" using u ne by (simp add: d)
    then have "offset_in (off + (i + w)) (off + (i + w) + length (drop w rest)) e"
      using "1.IH" [OF ne d [symmetric] refl] False by simp
    then show ?thesis by (rule offset_in_mono) (use w in auto)
  qed
qed

lemma first_non_digit_bound: "first_non_digit cs = Some i \<Longrightarrow> i < length cs"
  by (induction cs arbitrary: i) (auto split: if_splits)

lemma parse_index_bound:
  "parse_index key (int p) t = Inl e \<Longrightarrow> offset_in p (p + length t + 1) e"
  by (auto simp: parse_index_def dest: first_non_digit_bound split: if_splits option.splits)

lemma index_int_bound: "index_int c s < int (length s)"
  by (cases "index_byte c s") (auto simp: index_int_def dest: index_byte_SomeD(1))

lemma parse_step_bound:
  assumes "parse_step s off = Inl e"
  shows "offset_in off (off + length s) e"
proof (cases "check_step_runes off s 0")
  case Some
  then show ?thesis using assms check_step_runes_bound [OF Some] by (simp add: parse_step_def)
next
  case None
  define i where "i = index_int CHR ''{'' s"
  define j where "j = index_int CHR ''}'' s"
  have b: "i < int (length s)" "j < int (length s)" using index_int_bound by (auto simp: i_def j_def)
  show ?thesis
  proof (cases "(i < 0 \<and> j < 0) \<or> i \<le> 0 \<or> j \<noteq> int (length s) - 1 \<or> count_list s CHR ''{'' \<noteq> 1 \<or> count_list s CHR ''}'' \<noteq> 1 \<or> nat i > maximum_key_bytes")
    case True
    then show ?thesis using assms None b by (auto simp: parse_step_def Let_def i_def [symmetric] j_def [symmetric] split: if_splits)
  next
    case False
    define t where "t = take (nat j - nat (i + 1)) (drop (nat (i + 1)) s)"
    have p: "parse_index (take (nat i) s) (int off + i) t = Inl e"
      using assms None False by (simp add: parse_step_def Let_def i_def [symmetric] j_def [symmetric] t_def split: if_splits)
    have i: "int off + i = int (off + nat i)" using False by simp
    have t: "length t + nat i + 1 \<le> length s" using False b by (auto simp: t_def)
    show ?thesis using parse_index_bound [OF p [unfolded i]] by (rule offset_in_mono) (use t in auto)
  qed
qed

lemma path_loop_bound: "path_loop path steps sel start = Inl e \<Longrightarrow> offset_in 0 (length path) e"
proof (induction path steps sel start rule: path_loop.induct)
  case (1 path steps sel start)
  have le: "\<not> start > length path" using "1.prems" by (auto simp: path_loop.simps [of path steps sel start])
  define x where "x = index_byte CHR ''.'' (drop start path)"
  define stop where "stop = (case x of None \<Rightarrow> length path | Some w \<Rightarrow> start + w)"
  define src where "src = take (stop - start) (drop start path)"
  have st: "start \<le> stop" "stop \<le> length path"
    using le by (auto simp: stop_def x_def split: option.splits dest: index_byte_SomeD(1))
  have u: "(if length steps \<ge> maximum_path_steps then Inl (too_complex (int start) ''path contains more than 17 location steps'')
      else if stop = start then Inl (invalid (int start) ''path contains an empty location step'')
           else case parse_step src start of
               Inl e \<Rightarrow> Inl e
             | Inr step \<Rightarrow>
                 (let selectors' = (if step_selector step \<noteq> SelectorNone then sel + 1 else sel) in
                  if step_selector step \<noteq> SelectorNone \<and> selectors' > maximum_array_selectors
                  then Inl (too_complex (int start) ''path contains more than 4 array selectors'')
                  else if x = None then Inr (steps @ [step])
                  else if stop + 1 = length path
                  then Inl (invalid (int (stop + 1)) ''path contains an empty trailing location step'')
                  else path_loop path (steps @ [step]) selectors' (stop + 1))) = Inl e"
    using "1.prems" le unfolding path_loop.simps [of path steps sel start] Let_def x_def [symmetric] stop_def [symmetric] src_def [symmetric] by simp
  show ?case
  proof (cases "length steps \<ge> maximum_path_steps \<or> stop = start")
    case True
    then show ?thesis using u st by (auto split: if_splits)
  next
    case run: False
    show ?thesis
    proof (cases "parse_step src start")
      case (Inl e')
      then have "offset_in start (start + length src) e" using u run parse_step_bound by auto
      then show ?thesis by (rule offset_in_mono) (use st in \<open>auto simp: src_def\<close>)
    next
      case (Inr step)
      define sel' where "sel' = (if step_selector step \<noteq> SelectorNone then sel + 1 else sel)"
      note IH = "1.IH" [OF le _ x_def stop_def _ Inr [unfolded src_def] sel'_def]
      show ?thesis using u run st IH by (auto simp: Inr Let_def sel'_def [symmetric] split: if_splits)
    qed
  qed
qed

lemma work_units_count: "evaluation_work_units steps = 3 + selector_count steps"
proof -
  have "fold (\<lambda>step units. if step_selector step \<noteq> SelectorNone then units + 1 else units) steps n = n + selector_count steps" for n
    by (induction steps arbitrary: n) (auto simp: selector_count_def)
  then show ?thesis by (simp add: evaluation_work_units_def)
qed

text \<open>C39: every result of \<open>ParseJSON\<close> is within its bounds: a diagnostic points into the path or just behind it, and an
  accepted path has between 1 and 17 steps, whose evaluation takes 3 to 7 units of structural work, each step
  with a key of at most 256 bytes and an index that a positive signed 32-bit integer can hold one above.
\<close>

theorem parse_json_bounded:
  "case parse_json p of
     Inl e \<Rightarrow> 0 \<le> error_offset e \<and> error_offset e \<le> int (length p)
   | Inr steps \<Rightarrow> 1 \<le> length steps \<and> length steps \<le> 17 \<and> 3 \<le> evaluation_work_units steps \<and> evaluation_work_units steps \<le> 7
       \<and> list_all (\<lambda>st. 1 \<le> length (step_key st) \<and> length (step_key st) \<le> 256 \<and> unat (step_index st) + 1 < 2 ^ 31) steps"
proof (cases "parse_json p")
  case (Inl e)
  have "offset_in 0 (length p) e"
    using Inl path_loop_bound [of p "[]" 0 0 e] first_invalid_bound [of p 0] by (auto simp: parse_json_def split: if_splits)
  then show ?thesis using Inl by (simp add: offset_in_def)
next
  case (Inr steps)
  have pr: "path_ok steps" using path_loop_renders [of 0 p 0 "[]" steps] Inr
    by (auto simp: parse_json_def path_ok_def split: if_splits)
  have ok: "1 \<le> length (step_key st) \<and> length (step_key st) \<le> 256 \<and> unat (step_index st) + 1 < 2 ^ 31" if "step_ok st" for st
    using that by (cases "step_key st") (auto simp: step_ok_def maximum_key_bytes_def maximum_array_index_def split: if_splits)
  have "list_all (\<lambda>st. 1 \<le> length (step_key st) \<and> length (step_key st) \<le> 256 \<and> unat (step_index st) + 1 < 2 ^ 31) steps"
    using pr ok by (auto simp: path_ok_def list_all_iff)
  moreover have "1 \<le> length steps" using pr by (cases steps) (auto simp: path_ok_def)
  ultimately show ?thesis using pr Inr by (simp add: work_units_count path_ok_def maximum_path_steps_def maximum_array_selectors_def)
qed

end
