(* ===== verification/Spl_Lexer.thy ===== *)
theory Spl_Lexer
  imports Go_Utf8
begin

text \<open>
  \<open>internal/spl/lexer.go\<close>: the lexer of the search language.  A scan is a loop over the source with the current
  position; the positions count runes and lines.
\<close>

section \<open>Positions, diagnostics, tokens\<close>

record position =
  pos_offset :: nat
  pos_line :: nat
  pos_column :: nat

record source_range =
  range_start :: position
  range_end :: position

record diagnostic =
  diag_code :: string
  diag_message :: string
  diag_range :: source_range

datatype token_kind =
    TokenInvalid | TokenEOF | TokenWord | TokenString | TokenQuotedField | TokenScalarComposite | TokenPipe | TokenLeftParen
  | TokenRightParen | TokenComma | TokenEqual | TokenNotEqual | TokenLess | TokenLessEqual | TokenGreater | TokenGreaterEqual
  | TokenConcat | TokenPlus | TokenMinus | TokenMultiply | TokenDivide | TokenRemainder | TokenEqualEqual

record token =
  token_kind :: token_kind
  token_text :: bytes
  token_raw :: bytes
  token_quoted :: bool
  token_range :: source_range
  scalar_diagnostic :: "diagnostic option"

abbreviation newline_rune :: nat where "newline_rune \<equiv> 0x0A"

definition advance_position_by_rune :: "position \<Rightarrow> nat \<Rightarrow> nat \<Rightarrow> position" where
  "advance_position_by_rune p r width =
     (if r = newline_rune
      then \<lparr>pos_offset = pos_offset p + width, pos_line = pos_line p + 1, pos_column = 1\<rparr>
      else p\<lparr>pos_offset := pos_offset p + width, pos_column := pos_column p + 1\<rparr>)"

definition advance_ascii :: "bytes \<Rightarrow> position \<Rightarrow> position" where
  "advance_ascii s p = advance_position_by_rune p (of_char (s ! pos_offset p)) 1"

definition lex_diagnostic :: "string \<Rightarrow> string \<Rightarrow> position \<Rightarrow> position \<Rightarrow> diagnostic" where
  "lex_diagnostic code message start stop =
     \<lparr>diag_code = code, diag_message = message, diag_range = \<lparr>range_start = start, range_end = stop\<rparr>\<rparr>"

definition single_token :: "token_kind \<Rightarrow> bytes \<Rightarrow> position \<Rightarrow> position \<Rightarrow> token" where
  "single_token kind txt start stop =
     \<lparr>token_kind = kind, token_text = txt, token_raw = [], token_quoted = False,
      token_range = \<lparr>range_start = start, range_end = stop\<rparr>, scalar_diagnostic = None\<rparr>"

lemma advance_offset [simp]: "pos_offset (advance_position_by_rune p r w) = pos_offset p + w"
  by (simp add: advance_position_by_rune_def)

lemma advance_ascii_offset [simp]: "pos_offset (advance_ascii s p) = pos_offset p + 1"
  by (simp add: advance_ascii_def)

section \<open>Delimiters and concatenation dots\<close>

definition is_delimiter_rune :: "nat \<Rightarrow> bool" where
  "is_delimiter_rune r \<longleftrightarrow> r \<in> set (map of_char ''|(),=!<>\"'')"

definition is_delimiter :: "char \<Rightarrow> bool" where
  "is_delimiter c \<longleftrightarrow> is_delimiter_rune (of_char c)"

definition scalar_operator_token :: "char \<Rightarrow> token_kind option" where
  "scalar_operator_token c =
     (if c = CHR ''+'' then Some TokenPlus else if c = CHR ''-'' then Some TokenMinus else if c = CHR ''*'' then Some TokenMultiply
      else if c = CHR ''/'' then Some TokenDivide else if c = CHR ''%'' then Some TokenRemainder else None)"

function quote_before_ignoring_space :: "bytes \<Rightarrow> nat \<Rightarrow> bool" where
  "quote_before_ignoring_space s cursor =
     (if cursor = 0 \<or> cursor > length s then False
      else let (r, width) = decode_last_rune (take cursor s) in
        if is_space r then quote_before_ignoring_space s (cursor - width) else r = 0x22)"
  by pat_completeness auto
termination
proof (relation "measure (\<lambda>(s, cursor). cursor)")
  fix s :: bytes and cursor :: nat and x r w
  assume a: "\<not> (cursor = 0 \<or> cursor > length s)" "x = decode_last_rune (take cursor s)" "(r, w) = x"
  have "take cursor s \<noteq> []" using a(1) by auto
  then have "0 < w" using decode_last_rune_width [of "take cursor s"] a(2,3) by (metis One_nat_def less_eq_Suc_le snd_conv)
  then show "((s, cursor - w), s, cursor) \<in> measure (\<lambda>(s, cursor). cursor)" using a(1) by simp
qed simp

declare quote_before_ignoring_space.simps [simp del]

function quote_after_ignoring_space :: "bytes \<Rightarrow> bool" where
  "quote_after_ignoring_space s =
     (if s = [] then False
      else let (r, width) = decode_rune s in
        if is_space r then quote_after_ignoring_space (drop width s) else r = 0x22)"
  by pat_completeness auto
termination
  by (relation "measure length") (auto dest: decode_width_pos [OF sym])

declare quote_after_ignoring_space.simps [simp del]

definition dot_boundary_before :: "bytes \<Rightarrow> nat \<Rightarrow> bool" where
  "dot_boundary_before s off =
     (if off = 0 then True
      else let r = fst (decode_last_rune (take off s)) in is_space r \<or> is_delimiter_rune r)"

definition dot_boundary_after :: "bytes \<Rightarrow> nat \<Rightarrow> bool" where
  "dot_boundary_after s off =
     (if off + 1 \<ge> length s then True
      else let r = fst (decode_rune (drop (off + 1) s)) in is_space r \<or> is_delimiter_rune r)"

definition concatenation_dot_at :: "bytes \<Rightarrow> nat \<Rightarrow> bool" where
  "concatenation_dot_at s off \<longleftrightarrow>
     off < length s \<and> s ! off = CHR ''.''
     \<and> (quote_before_ignoring_space s off \<or> quote_after_ignoring_space (drop (off + 1) s)
        \<or> dot_boundary_before s off \<and> dot_boundary_after s off)"

section \<open>The scanners\<close>

abbreviation backslash_char :: char where "backslash_char \<equiv> CHR 0x5C"
abbreviation quote_char :: char where "quote_char \<equiv> CHR 0x27"
abbreviation double_quote :: char where "double_quote \<equiv> CHR 0x22"

text \<open>\<open>skipSpace\<close>.\<close>

function skip_space :: "bytes \<Rightarrow> position \<Rightarrow> position" where
  "skip_space s p =
     (if pos_offset p \<ge> length s then p
      else let (r, width) = decode_rune (drop (pos_offset p) s) in
        if \<not> is_space r then p
        else if r = rune_error \<and> width = 1 then p
        else skip_space s (advance_position_by_rune p r width))"
  by pat_completeness auto
termination
  by (relation "measure (\<lambda>(s, p). length s - pos_offset p)") (auto dest: decode_width_pos [OF sym])

declare skip_space.simps [simp del]

function has_closing_quote :: "bytes \<Rightarrow> nat \<Rightarrow> bool" where
  "has_closing_quote s off =
     (if off \<ge> length s then False
      else if s ! off = quote_char then True
      else if s ! off = backslash_char then
        (if off + 1 \<ge> length s then False
         else has_closing_quote s (off + 1 + snd (decode_rune (drop (off + 1) s))))
      else has_closing_quote s (off + snd (decode_rune (drop off s))))"
  by pat_completeness auto
termination
  by (relation "measure (\<lambda>(s, off). length s - off)") (auto intro!: diff_less_mono2 simp: decode_rune_pos)

declare has_closing_quote.simps [simp del]

definition has_closing_single_quote :: "bytes \<Rightarrow> position \<Rightarrow> bool" where
  "has_closing_single_quote s p = has_closing_quote s (pos_offset p + 1)"

text \<open>The loop of \<open>scanQuotedField\<close>.\<close>

function field_loop :: "bytes \<Rightarrow> position \<Rightarrow> position \<Rightarrow> bytes \<Rightarrow> diagnostic option \<Rightarrow> diagnostic + token" where
  "field_loop s start p value' deferred =
     (let unterminated = (\<lambda>q. Inl (lex_diagnostic ''SPL_UNTERMINATED_FIELD_QUOTE'' ''unterminated single-quoted field reference'' start q)) in
      if pos_offset p \<ge> length s then unterminated p
      else if s ! pos_offset p = quote_char then
        (let q = advance_ascii s p in
         Inr \<lparr>token_kind = TokenQuotedField, token_text = value',
              token_raw = take (pos_offset q - pos_offset start) (drop (pos_offset start) s), token_quoted = True,
              token_range = \<lparr>range_start = start, range_end = q\<rparr>, scalar_diagnostic = deferred\<rparr>)
      else if s ! pos_offset p = backslash_char then
        (let p1 = advance_ascii s p in
         if pos_offset p1 \<ge> length s then unterminated p1
         else
           let escaped = fst (decode_rune (drop (pos_offset p1) s));
               width = snd (decode_rune (drop (pos_offset p1) s))
           in if escaped \<noteq> 0x5C \<and> escaped \<noteq> 0x27 then
                (let p2 = (if escaped = rune_error \<and> width = 1 then advance_ascii s p1 else advance_position_by_rune p1 escaped width);
                     deferred' = (if deferred = None
                       then Some (lex_diagnostic ''SPL_INVALID_FIELD_QUOTE_ESCAPE''
                         (''single-quoted field references support only '' @ [backslash_char, backslash_char] @ '' and ''
                          @ [backslash_char, quote_char] @ '' escapes'') p p2)
                       else deferred)
                 in field_loop s start p2 value' deferred')
              else field_loop s start (advance_position_by_rune p1 escaped width) (value' @ encode_rune escaped) deferred)
      else
        let r = fst (decode_rune (drop (pos_offset p) s)); width = snd (decode_rune (drop (pos_offset p) s)) in
        if r = rune_error \<and> width = 1 then
          (let q = advance_ascii s p;
               deferred' = (if deferred = None
                 then Some (lex_diagnostic ''SPL_INVALID_FIELD'' ''single-quoted field reference must contain valid UTF-8'' p q)
                 else deferred)
           in field_loop s start q value' deferred')
        else field_loop s start (advance_position_by_rune p r width) (value' @ encode_rune r) deferred)"
  by pat_completeness auto
termination
  by (relation "measure (\<lambda>(s, start, p, _). length s - pos_offset p)") (auto intro!: diff_less_mono2 simp: decode_rune_pos)

declare field_loop.simps [simp del]

definition scan_quoted_field :: "bytes \<Rightarrow> position \<Rightarrow> diagnostic + token" where
  "scan_quoted_field s start = field_loop s start (advance_ascii s start) [] None"

text \<open>What \<open>scanString\<close> writes for an escaped rune.\<close>

definition string_escape :: "nat \<Rightarrow> bytes" where
  "string_escape r =
     (if r = 0x22 \<or> r = 0x5C \<or> r = 0x7C then encode_rune r
      else if r = of_char CHR ''n'' then [CHR 0x0A]
      else if r = of_char CHR ''r'' then [CHR 0x0D]
      else if r = of_char CHR ''t'' then [CHR 0x09]
      else backslash_char # encode_rune r)"

function string_loop :: "bytes \<Rightarrow> position \<Rightarrow> position \<Rightarrow> bytes \<Rightarrow> diagnostic + token" where
  "string_loop s start p value' =
     (let unterminated = (\<lambda>q. Inl (lex_diagnostic ''SPL_UNTERMINATED_STRING'' ''unterminated quoted string'' start q)) in
      if pos_offset p \<ge> length s then unterminated p
      else if s ! pos_offset p = double_quote then
        Inr \<lparr>token_kind = TokenString, token_text = value', token_raw = [], token_quoted = True,
             token_range = \<lparr>range_start = start, range_end = advance_ascii s p\<rparr>, scalar_diagnostic = None\<rparr>
      else if s ! pos_offset p = backslash_char then
        (let p1 = advance_ascii s p in
         if pos_offset p1 \<ge> length s then unterminated p1
         else
           let r = fst (decode_rune (drop (pos_offset p1) s)); width = snd (decode_rune (drop (pos_offset p1) s));
               escaped = (if r = rune_error \<and> width = 1 then of_char (s ! pos_offset p1) else r)
           in string_loop s start (advance_position_by_rune p1 escaped width) (value' @ string_escape escaped))
      else
        let r = fst (decode_rune (drop (pos_offset p) s)); width = snd (decode_rune (drop (pos_offset p) s)) in
        if r = rune_error \<and> width = 1 then string_loop s start (advance_ascii s p) (value' @ [s ! pos_offset p])
        else string_loop s start (advance_position_by_rune p r width) (value' @ encode_rune r))"
  by pat_completeness auto
termination
  by (relation "measure (\<lambda>(s, start, p, _). length s - pos_offset p)") (auto intro!: diff_less_mono2 simp: decode_rune_pos)

declare string_loop.simps [simp del]

definition scan_string :: "bytes \<Rightarrow> position \<Rightarrow> diagnostic + token" where
  "scan_string s start = string_loop s start (advance_ascii s start) []"

text \<open>\<open>scanScalarWordBoundary\<close>: the segment start is -1 right behind a closed quote.\<close>

function word_boundary ::
  "bytes \<Rightarrow> position \<Rightarrow> bool \<Rightarrow> position \<Rightarrow> int \<Rightarrow> bool \<Rightarrow> bool \<Rightarrow> position \<times> bool" where
  "word_boundary s start quoted_fields p segment_start in_quote composite =
     (if pos_offset p \<ge> length s then (p, composite)
      else
        let c = s ! pos_offset p;
            r = fst (decode_rune (drop (pos_offset p) s)); width = snd (decode_rune (drop (pos_offset p) s))
        in if in_quote then
             (if c = backslash_char then
                (let p1 = advance_position_by_rune p 0x5C 1;
                     p2 = (if pos_offset p1 < length s
                           then advance_position_by_rune p1 (fst (decode_rune (drop (pos_offset p1) s))) (snd (decode_rune (drop (pos_offset p1) s)))
                           else p1)
                 in word_boundary s start quoted_fields p2 segment_start True composite)
              else if c = quote_char then
                word_boundary s start quoted_fields (advance_position_by_rune p 0x27 1) (- 1) False composite
              else word_boundary s start quoted_fields (advance_position_by_rune p r width) segment_start True composite)
           else if c = CHR ''.'' \<and> concatenation_dot_at s (pos_offset p) \<or> is_delimiter c then (p, composite)
           else if is_space r then (p, composite)
           else if quoted_fields \<and> c = quote_char \<and> int (pos_offset p) = segment_start \<and> pos_offset p > pos_offset start then
             word_boundary s start quoted_fields (advance_position_by_rune p 0x27 1) segment_start True True
           else if scalar_operator_token c \<noteq> None then
             (let q = advance_position_by_rune p r width in word_boundary s start quoted_fields q (int (pos_offset q)) False composite)
           else word_boundary s start quoted_fields (advance_position_by_rune p r width) segment_start False composite)"
  by pat_completeness auto
termination
  by (relation "measure (\<lambda>(s, start, qf, p, _). length s - pos_offset p)") (auto intro!: diff_less_mono2 simp: decode_rune_pos)

declare word_boundary.simps [simp del]

definition scan_scalar_word_boundary :: "bytes \<Rightarrow> position \<Rightarrow> bool \<Rightarrow> position \<times> bool" where
  "scan_scalar_word_boundary s start quoted_fields =
     word_boundary s start quoted_fields start (int (pos_offset start)) False False"

text \<open>The message for an unexpected character also renders it; no scan of the lexer comes to that branch, as the lemma
  \<open>scan_word_ok\<close> shows.\<close>

definition scan_word :: "bytes \<Rightarrow> bool \<Rightarrow> position \<Rightarrow> diagnostic + token" where
  "scan_word s quoted_fields start =
     (let (stop, composite) = scan_scalar_word_boundary s start quoted_fields in
      if pos_offset stop = pos_offset start then
        (let q = advance_ascii s stop in
         Inl (lex_diagnostic ''SPL_UNEXPECTED_CHARACTER'' ''unexpected character'' start q))
      else
        let txt = take (pos_offset stop - pos_offset start) (drop (pos_offset start) s) in
        Inr \<lparr>token_kind = (if composite then TokenScalarComposite else TokenWord), token_text = txt,
             token_raw = (if composite then txt else []), token_quoted = False,
             token_range = \<lparr>range_start = start, range_end = stop\<rparr>, scalar_diagnostic = None\<rparr>)"

section \<open>The lexer\<close>

text \<open>One token, and \<open>consumeEquals\<close>: the position behind the operator and whether an equals sign was taken.\<close>

definition consume_equals :: "bytes \<Rightarrow> position \<Rightarrow> bool \<times> position" where
  "consume_equals s p =
     (if pos_offset p \<ge> length s \<or> s ! pos_offset p \<noteq> CHR ''='' then (False, p) else (True, advance_ascii s p))"

definition lex_next :: "bytes \<Rightarrow> bool \<Rightarrow> position \<Rightarrow> diagnostic + token" where
  "lex_next s quoted_fields p0 =
     (let start = skip_space s p0 in
      if pos_offset start \<ge> length s then Inr (single_token TokenEOF [] start start)
      else
        let c = s ! pos_offset start; q = advance_ascii s start;
            with_equals = (\<lambda>k2 t2 k1 t1. case consume_equals s q of
                (True, q2) \<Rightarrow> Inr (single_token k2 t2 start q2) | (False, _) \<Rightarrow> Inr (single_token k1 t1 start q))
        in if c = CHR ''|'' then Inr (single_token TokenPipe ''|'' start q)
           else if c = CHR ''('' then Inr (single_token TokenLeftParen ''('' start q)
           else if c = CHR '')'' then Inr (single_token TokenRightParen '')'' start q)
           else if c = CHR '','' then Inr (single_token TokenComma '','' start q)
           else if c = CHR ''='' then with_equals TokenEqualEqual ''=='' TokenEqual ''=''
           else if c = CHR ''!'' then
             (case consume_equals s q of
                (True, q2) \<Rightarrow> Inr (single_token TokenNotEqual ''!='' start q2)
              | (False, _) \<Rightarrow> Inl (lex_diagnostic ''SPL_UNEXPECTED_CHARACTER''
                  (''expected '' @ [quote_char] @ ''='' @ [quote_char] @ '' after '' @ [quote_char] @ ''!'' @ [quote_char]) start q))
           else if c = CHR ''<'' then with_equals TokenLessEqual ''<='' TokenLess ''<''
           else if c = CHR ''>'' then with_equals TokenGreaterEqual ''>='' TokenGreater ''>''
           else if c = CHR ''.'' then
             (if concatenation_dot_at s (pos_offset start) then Inr (single_token TokenConcat ''.'' start q)
              else scan_word s quoted_fields start)
           else if c = double_quote then scan_string s start
           else if c = quote_char then
             (if quoted_fields \<and> has_closing_single_quote s start then scan_quoted_field s start
              else scan_word s quoted_fields start)
           else scan_word s quoted_fields start)"

text \<open>The loop of \<open>lexWithQuotedFields\<close>: it ends at the token of the end of the source.\<close>

partial_function (option) lex_loop :: "bytes \<Rightarrow> bool \<Rightarrow> position \<Rightarrow> token list \<Rightarrow> (diagnostic + token list) option" where
  "lex_loop s quoted_fields p tokens =
     (case lex_next s quoted_fields p of
        Inl d \<Rightarrow> Some (Inl d)
      | Inr t \<Rightarrow>
          if token_kind t = TokenEOF then Some (Inr (tokens @ [t]))
          else lex_loop s quoted_fields (range_end (token_range t)) (tokens @ [t]))"

definition first_position :: position where
  "first_position = \<lparr>pos_offset = 0, pos_line = 1, pos_column = 1\<rparr>"

definition lex_with_quoted_fields :: "bytes \<Rightarrow> bool \<Rightarrow> (diagnostic + token list) option" where
  "lex_with_quoted_fields s quoted_fields = lex_loop s quoted_fields first_position []"

definition lex_source :: "bytes \<Rightarrow> (diagnostic + token list) option" where
  "lex_source s = lex_with_quoted_fields s True"

end
