(* ===== verification/Spl_Scan.thy ===== *)
theory Spl_Scan
  imports Spl_Lexer
begin

text \<open>
  The scanners of the lexer one by one: every position they reach is that of a walk over the source, and every token
  has the fields of its kind.
\<close>

section \<open>Positions on the source\<close>

text \<open>\<open>advanceSourcePosition\<close> of \<open>parser.go\<close> walks a text rune by rune: the position behind a prefix of the source.\<close>

function advance_source_position :: "position \<Rightarrow> bytes \<Rightarrow> position" where
  "advance_source_position p txt =
     (if txt = [] then p
      else
        let r = fst (decode_rune txt); width = snd (decode_rune txt);
            q = p\<lparr>pos_offset := pos_offset p + width\<rparr>
        in advance_source_position
             (if r = newline_rune then q\<lparr>pos_line := pos_line q + 1, pos_column := 1\<rparr> else q\<lparr>pos_column := pos_column q + 1\<rparr>)
             (drop width txt))"
  by pat_completeness auto
termination
  by (relation "measure (\<lambda>(p, txt). length txt)") (simp_all add: decode_rune_pos diff_less)

declare advance_source_position.simps [simp del]

definition position_at :: "bytes \<Rightarrow> nat \<Rightarrow> position" where
  "position_at s n = advance_source_position first_position (take n s)"

text \<open>The positions a scan can stand on.\<close>

inductive on_source :: "bytes \<Rightarrow> position \<Rightarrow> bool" where
  first: "on_source s first_position"
| step: "on_source s p \<Longrightarrow> pos_offset p < length s \<Longrightarrow> decode_rune (drop (pos_offset p) s) = (r, w)
    \<Longrightarrow> on_source s (advance_position_by_rune p r w)"

lemma decode_rune_take: "decode_rune s = (r, w) \<Longrightarrow> w \<le> n \<Longrightarrow> s \<noteq> [] \<Longrightarrow> decode_rune (take n s) = (r, w)"
proof -
  assume d: "decode_rune s = (r, w)" and n: "w \<le> n" and ne: "s \<noteq> []"
  have "0 < w" using decode_width_pos [OF d ne] .
  then obtain m where m: "n = Suc m" using n by (cases n) auto
  obtain c t where s: "s = c # t" using ne by (cases s) auto
  consider "m = 0" | "m = 1" | "m = 2" | k where "m = Suc (Suc (Suc k))"
    by (metis One_nat_def Suc_1 not0_implies_Suc)
  then show ?thesis
  proof cases
    case 4
    then have g: "(2 \<le> length (take n s)) = (2 \<le> length s)" "(3 \<le> length (take n s)) = (3 \<le> length s)"
      "(4 \<le> length (take n s)) = (4 \<le> length s)" using m by auto
    have b: "take n s ! 0 = s ! 0" "take n s ! 1 = s ! 1" "take n s ! 2 = s ! 2" "take n s ! 3 = s ! 3" using 4 m by simp_all
    have e: "(take n s = []) = (s = [])" using m ne by simp
    show ?thesis unfolding d [symmetric] decode_rune_def Let_def g b e by (rule refl)
  qed (use d n in \<open>(cases t; cases "tl t"; auto simp: s m decode_rune_def Let_def split: if_splits)\<close>)+
qed

lemma advance_source_step:
  "txt \<noteq> [] \<Longrightarrow> decode_rune txt = (r, w) \<Longrightarrow>
   advance_source_position p txt = advance_source_position (advance_position_by_rune p r w) (drop w txt)"
  by (subst advance_source_position.simps) (cases p, simp add: advance_position_by_rune_def Let_def)

text \<open>A scan from any boundary: what is behind does not matter.\<close>

inductive rune_boundary :: "bytes \<Rightarrow> nat \<Rightarrow> bool" where
  here: "rune_boundary s 0"
| behind: "s \<noteq> [] \<Longrightarrow> decode_rune s = (r, w) \<Longrightarrow> rune_boundary (drop w s) n \<Longrightarrow> rune_boundary s (w + n)"

lemma boundary_extend:
  "rune_boundary s n \<Longrightarrow> n < length s \<Longrightarrow> decode_rune (drop n s) = (r, w) \<Longrightarrow>
     rune_boundary s (n + w)
     \<and> advance_source_position p (take (n + w) s) = advance_position_by_rune (advance_source_position p (take n s)) r w"
proof (induction s n arbitrary: p rule: rune_boundary.induct)
  case (here s)
  then have ne: "s \<noteq> []" "w \<le> length s" "0 < w" using decode_rune_le [of s] decode_width_pos [of s r w] by auto
  have "rune_boundary s (w + 0)" using here ne(1) by (intro rune_boundary.behind rune_boundary.here) simp_all
  moreover have "advance_source_position p (take w s) = advance_position_by_rune p r w"
    using advance_source_step [OF _ decode_rune_take [of s r w w]] here ne by (simp add: advance_source_position.simps [of _ "[]"])
  ultimately show ?case by (simp add: advance_source_position.simps [of p "[]"])
next
  case (behind s r0 w0 n)
  note IH = behind.IH [of "advance_position_by_rune p r0 w0"]
  have l: "n < length (drop w0 s)" "decode_rune (drop n (drop w0 s)) = (r, w)" using behind.prems by (simp_all add: add.commute)
  have w0: "0 < w0" "w0 \<le> length s" using decode_width_pos [OF behind.hyps(2,1)] decode_rune_le [of s] behind.hyps(2) by auto
  have split: "advance_source_position p (take (w0 + k) s) = advance_source_position (advance_position_by_rune p r0 w0) (take k (drop w0 s))" for k
    using advance_source_step [OF _ decode_rune_take [OF behind.hyps(2) _ behind.hyps(1)], of "w0 + k" p] w0 behind.hyps(1)
    by (simp add: drop_take)
  have "rune_boundary s (w0 + (n + w))" using IH l by (intro rune_boundary.behind [OF behind.hyps(1,2)]) auto
  then show ?case using IH l by (simp add: split add.assoc)
qed

lemma on_source_position:
  "on_source s p \<Longrightarrow> pos_offset p \<le> length s \<and> rune_boundary s (pos_offset p) \<and> p = position_at s (pos_offset p)"
proof (induction s p rule: on_source.induct)
  case (first s)
  show ?case by (simp add: first_position_def position_at_def advance_source_position.simps [of _ "[]"] rune_boundary.here)
next
  case (step s p r w)
  have "w \<le> length s - pos_offset p" using decode_rune_le [of "drop (pos_offset p) s"] step.hyps(3) by simp
  then show ?case using boundary_extend [OF _ step.hyps(2,3), of first_position] step.IH step.hyps(2)
    by (auto simp: position_at_def)
qed

lemma on_source_ascii:
  assumes "on_source s p" "pos_offset p < length s"
    and "of_char (s ! pos_offset p) < (0x80 :: nat) \<or> decode_rune (drop (pos_offset p) s) = (rune_error, 1)"
  shows "on_source s (advance_ascii s p)"
    and "on_source s (advance_position_by_rune p (of_char (s ! pos_offset p)) 1)"
proof -
  define c where "c = s ! pos_offset p"
  have d: "drop (pos_offset p) s = c # drop (Suc (pos_offset p)) s" using assms(2) by (simp add: c_def Cons_nth_drop_Suc)
  have "on_source s (advance_position_by_rune p (of_char c) 1)"
  proof (cases "of_char c < (0x80 :: nat)")
    case True
    then show ?thesis using on_source.step [OF assms(1,2)] by (simp add: d)
  next
    case False
    then have "on_source s (advance_position_by_rune p rune_error 1)" using on_source.step [OF assms(1,2)] assms(3) by (simp add: c_def)
    moreover have "advance_position_by_rune p rune_error 1 = advance_position_by_rune p (of_char c) 1"
      using False by (auto simp: advance_position_by_rune_def)
    ultimately show ?thesis by simp
  qed
  then show "on_source s (advance_position_by_rune p (of_char (s ! pos_offset p)) 1)" "on_source s (advance_ascii s p)"
    by (simp_all add: c_def advance_ascii_def)
qed

section \<open>What a scan returns\<close>

definition slice :: "bytes \<Rightarrow> source_range \<Rightarrow> bytes" where
  "slice s rg = take (pos_offset (range_end rg) - pos_offset (range_start rg)) (drop (pos_offset (range_start rg)) s)"

fun operator_text :: "token_kind \<Rightarrow> bytes option" where
  "operator_text TokenPipe = Some ''|''"
| "operator_text TokenLeftParen = Some ''(''"
| "operator_text TokenRightParen = Some '')''"
| "operator_text TokenComma = Some '',''"
| "operator_text TokenEqual = Some ''=''"
| "operator_text TokenEqualEqual = Some ''==''"
| "operator_text TokenNotEqual = Some ''!=''"
| "operator_text TokenLess = Some ''<''"
| "operator_text TokenLessEqual = Some ''<=''"
| "operator_text TokenGreater = Some ''>''"
| "operator_text TokenGreaterEqual = Some ''>=''"
| "operator_text TokenConcat = Some ''.''"
| "operator_text k = None"

definition enclosed :: "char \<Rightarrow> bytes \<Rightarrow> bool" where
  "enclosed c b \<longleftrightarrow> 2 \<le> length b \<and> hd b = c \<and> last b = c"

text \<open>The typing of tokens: what each kind fixes of the other fields.\<close>

definition token_ok :: "bytes \<Rightarrow> bool \<Rightarrow> token \<Rightarrow> bool" where
  "token_ok s quoted_fields t \<longleftrightarrow>
     (let b = slice s (token_range t) in
      case token_kind t of
        TokenEOF \<Rightarrow> b = [] \<and> token_text t = [] \<and> token_raw t = [] \<and> \<not> token_quoted t \<and> scalar_diagnostic t = None
      | TokenWord \<Rightarrow> b \<noteq> [] \<and> token_text t = b \<and> token_raw t = [] \<and> \<not> token_quoted t \<and> scalar_diagnostic t = None
      | TokenScalarComposite \<Rightarrow> quoted_fields \<and> b \<noteq> [] \<and> token_text t = b \<and> token_raw t = b \<and> \<not> token_quoted t \<and> scalar_diagnostic t = None
      | TokenQuotedField \<Rightarrow> quoted_fields \<and> token_raw t = b \<and> enclosed quote_char b \<and> token_quoted t
      | TokenString \<Rightarrow> token_raw t = [] \<and> enclosed double_quote b \<and> token_quoted t \<and> scalar_diagnostic t = None
      | k \<Rightarrow> operator_text k = Some b \<and> token_text t = b \<and> token_raw t = [] \<and> \<not> token_quoted t \<and> scalar_diagnostic t = None)"

definition on_range :: "bytes \<Rightarrow> source_range \<Rightarrow> bool" where
  "on_range s rg \<longleftrightarrow> on_source s (range_start rg) \<and> on_source s (range_end rg) \<and> pos_offset (range_start rg) \<le> pos_offset (range_end rg)"

definition lexer_codes :: "string set" where
  "lexer_codes = {''SPL_UNEXPECTED_CHARACTER'', ''SPL_UNTERMINATED_STRING'', ''SPL_UNTERMINATED_FIELD_QUOTE''}"

lemma diagnostic_code [simp]: "diag_code (lex_diagnostic code msg start q) = code"
  by (simp add: lex_diagnostic_def)

lemma codes [simp]: "''SPL_UNEXPECTED_CHARACTER'' \<in> lexer_codes" "''SPL_UNTERMINATED_STRING'' \<in> lexer_codes"
  "''SPL_UNTERMINATED_FIELD_QUOTE'' \<in> lexer_codes"
  by (simp_all add: lexer_codes_def)

definition scan_result :: "bytes \<Rightarrow> bool \<Rightarrow> position \<Rightarrow> diagnostic + token \<Rightarrow> bool" where
  "scan_result s quoted_fields start res \<longleftrightarrow>
     (case res of
        Inl d \<Rightarrow> on_range s (diag_range d) \<and> diag_code d \<in> lexer_codes
      | Inr t \<Rightarrow> range_start (token_range t) = start \<and> on_range s (token_range t)
          \<and> (token_kind t = TokenEOF \<longleftrightarrow> pos_offset start = length s)
          \<and> (token_kind t = TokenEOF \<longleftrightarrow> pos_offset (range_end (token_range t)) = pos_offset start)
          \<and> token_ok s quoted_fields t \<and> (\<forall>d. scalar_diagnostic t = Some d \<longrightarrow> on_range s (diag_range d)))"

lemma range_ends:
  assumes "b < e" "e \<le> length s"
  shows "hd (take (e - b) (drop b s)) = s ! b" "last (take (e - b) (drop b s)) = s ! (e - 1)" "length (take (e - b) (drop b s)) = e - b"
proof -
  have l: "length (take (e - b) (drop b s)) = e - b" using assms by simp
  then have ne: "take (e - b) (drop b s) \<noteq> []" using assms by auto
  show "hd (take (e - b) (drop b s)) = s ! b" using ne assms by (simp add: hd_drop_conv_nth)
  show "last (take (e - b) (drop b s)) = s ! (e - 1)" using l assms by (simp add: last_conv_nth [OF ne])
  show "length (take (e - b) (drop b s)) = e - b" by (rule l)
qed

lemma on_source_le: "on_source s p \<Longrightarrow> pos_offset p \<le> length s"
  using on_source_position by blast

lemma skip_space_ok:
  "on_source s p \<Longrightarrow> on_source s (skip_space s p) \<and> pos_offset p \<le> pos_offset (skip_space s p)
     \<and> list_all is_space (runes (take (pos_offset (skip_space s p) - pos_offset p) (drop (pos_offset p) s)))
     \<and> (pos_offset (skip_space s p) < length s \<longrightarrow> \<not> is_space (fst (decode_rune (drop (pos_offset (skip_space s p)) s))))"
proof (induction s p rule: skip_space.induct)
  case (1 s p)
  show ?case
  proof (cases "pos_offset p \<ge> length s")
    case True
    then show ?thesis using "1.prems" by (simp add: skip_space.simps [of s p] runes.simps [of "[]"])
  next
    case False
    obtain r w where d: "decode_rune (drop (pos_offset p) s) = (r, w)" by fastforce
    show ?thesis
    proof (cases "is_space r")
      case stop: False
      then show ?thesis using "1.prems" False by (simp add: skip_space.simps [of s p] d runes.simps [of "[]"])
    next
      case True
      define q where "q = advance_position_by_rune p r w"
      have e: "skip_space s p = skip_space s q" using True False by (simp add: skip_space.simps [of s p] d q_def) auto
      have q: "on_source s q" "pos_offset q = pos_offset p + w" using on_source.step [OF "1.prems" _ d] False by (simp_all add: q_def)
      have nerr: "\<not> (r = rune_error \<and> w = 1)" using True by auto
      note IH = "1.IH" [OF False d [symmetric] refl, folded q_def]
      have ih: "on_source s (skip_space s q) \<and> pos_offset q \<le> pos_offset (skip_space s q)
         \<and> list_all is_space (runes (take (pos_offset (skip_space s q) - pos_offset q) (drop (pos_offset q) s)))
         \<and> (pos_offset (skip_space s q) < length s \<longrightarrow> \<not> is_space (fst (decode_rune (drop (pos_offset (skip_space s q)) s))))"
        using IH True nerr q(1) by blast
      define k where "k = pos_offset (skip_space s q) - pos_offset q"
      have k: "pos_offset (skip_space s q) - pos_offset p = w + k" using ih q(2) by (simp add: k_def)
      have w: "0 < w" "w \<le> length (drop (pos_offset p) s)" using decode_width_pos [OF d] decode_rune_le [of "drop (pos_offset p) s"] False d by auto
      have "decode_rune (take (w + k) (drop (pos_offset p) s)) = (r, w)" by (rule decode_rune_take [OF d]) (use False in auto)
      then have "runes (take (w + k) (drop (pos_offset p) s)) = r # runes (take k (drop (pos_offset q) s))"
      proof -
        assume d': "decode_rune (take (w + k) (drop (pos_offset p) s)) = (r, w)"
        have ne: "take (w + k) (drop (pos_offset p) s) \<noteq> []" using w by auto
        have "drop w (take (w + k) (drop (pos_offset p) s)) = take k (drop (pos_offset q) s)"
          by (simp add: drop_take q(2) add.commute)
        then show ?thesis using runes.simps [of "take (w + k) (drop (pos_offset p) s)"] ne by (simp only: d' fst_conv snd_conv if_False)
      qed
      then show ?thesis unfolding e k using ih [folded k_def] q(2) True by simp
    qed
  qed
qed


text \<open>The loops. Each stands on a position behind the start of its token.\<close>

lemma located_diagnostic:
  "on_source s start \<Longrightarrow> on_source s q \<Longrightarrow> pos_offset start \<le> pos_offset q \<Longrightarrow> on_range s (diag_range (lex_diagnostic code msg start q))"
  by (simp add: on_range_def lex_diagnostic_def)

lemma rune_step:
  assumes "on_source s p" "pos_offset p < length s"
  defines "x \<equiv> decode_rune (drop (pos_offset p) s)"
  shows "on_source s (advance_position_by_rune p (fst x) (snd x))" "0 < snd x"
  using on_source.step [OF assms(1,2), of "fst x" "snd x"] decode_rune_pos [of "drop (pos_offset p) s"] assms(2) by (auto simp: x_def)

lemma field_loop_ok:
  "on_source s p \<Longrightarrow> on_source s start \<Longrightarrow> pos_offset start < pos_offset p \<Longrightarrow> s ! pos_offset start = quote_char \<Longrightarrow>
   (\<And>d. deferred = Some d \<Longrightarrow> on_range s (diag_range d)) \<Longrightarrow>
   scan_result s True start (field_loop s start p value' deferred)"
proof (induction s start p value' deferred rule: field_loop.induct)
  case (1 s start p value' deferred)
  note prems = "1.prems"
  let ?x = "decode_rune (drop (pos_offset p) s)"
  show ?case
  proof (cases "pos_offset p \<ge> length s")
    case True
    then show ?thesis using located_diagnostic [OF prems(2,1)] prems(3)
      by (simp add: field_loop.simps [of s start p] scan_result_def)
  next
    case in_s: False
    then have lt: "pos_offset p < length s" by simp
    show ?thesis
    proof (cases "s ! pos_offset p = quote_char")
      case True
      have q: "on_source s (advance_ascii s p)" using on_source_ascii(1) [OF prems(1) lt] by (simp add: True)
      have b: "enclosed quote_char (take (pos_offset p + 1 - pos_offset start) (drop (pos_offset start) s))"
        using range_ends [of "pos_offset start" "pos_offset p + 1" s] prems(3,4) lt True by (simp add: enclosed_def)
      show ?thesis using q b prems in_s True
        by (auto simp: field_loop.simps [of s start p] scan_result_def on_range_def token_ok_def slice_def Let_def)
    next
      case nq: False
      show ?thesis
      proof (cases "s ! pos_offset p = backslash_char")
        case True
        define p1 where "p1 = advance_ascii s p"
        have p1: "on_source s p1" "pos_offset p1 = pos_offset p + 1" using on_source_ascii(1) [OF prems(1) lt] by (simp_all add: True p1_def)
        let ?y = "decode_rune (drop (pos_offset p1) s)"
        show ?thesis
        proof (cases "pos_offset p1 \<ge> length s")
          case end1: True
          then show ?thesis using located_diagnostic [OF prems(2) p1(1)] prems(3) p1(2) in_s nq True
            by (simp add: field_loop.simps [of s start p] scan_result_def Let_def p1_def)
        next
          case end1: False
          then have l1: "pos_offset p1 < length s" by simp
          note r1 = rune_step [OF p1(1) l1]
          show ?thesis
          proof (cases "fst ?y \<noteq> 0x5C \<and> fst ?y \<noteq> 0x27")
            case bad: True
            define p2 where "p2 = (if fst ?y = rune_error \<and> snd ?y = 1 then advance_ascii s p1 else advance_position_by_rune p1 (fst ?y) (snd ?y))"
            have p2: "on_source s p2" "pos_offset p1 < pos_offset p2"
              using r1 on_source_ascii(1) [OF p1(1) l1] by (auto simp: p2_def prod_eq_iff)
            define def' where "def' = (if deferred = None
                       then Some (lex_diagnostic ''SPL_INVALID_FIELD_QUOTE_ESCAPE''
                         (''single-quoted field references support only '' @ [backslash_char, backslash_char] @ '' and ''
                          @ [backslash_char, quote_char] @ '' escapes'') p p2)
                       else deferred)"
            have def': "\<And>d. def' = Some d \<Longrightarrow> on_range s (diag_range d)"
              using prems(5) located_diagnostic [OF prems(1) p2(1)] p1(2) p2(2) by (auto simp: def'_def split: if_splits)
            have e: "field_loop s start p value' deferred = field_loop s start p2 value' def'"
              using in_s nq True end1 bad by (simp only: field_loop.simps [of s start p value' deferred] Let_def p1_def [symmetric] p2_def [symmetric]
                  def'_def [symmetric] if_False if_True simp_thms)
            have "scan_result s True start (field_loop s start p2 value' def')"
              by (rule "1.IH"(1) [OF refl in_s nq True p1_def end1 refl refl bad p2_def def'_def p2(1) prems(2) _ prems(4) def'])
                (use p1(2) p2(2) prems(3) in auto)
            then show ?thesis by (simp only: e)
          next
            case good: False
            have e: "field_loop s start p value' deferred
                = field_loop s start (advance_position_by_rune p1 (fst ?y) (snd ?y)) (value' @ encode_rune (fst ?y)) deferred"
              using in_s nq True end1 good by (simp only: field_loop.simps [of s start p value' deferred] Let_def p1_def [symmetric]
                  if_False if_True simp_thms)
            show ?thesis unfolding e
              by (rule "1.IH"(2) [OF refl in_s nq True p1_def end1 refl refl good r1(1) prems(2) _ prems(4) prems(5)])
                (use p1(2) r1(2) prems(3) in auto)
          qed
        qed
      next
        case nb: False
        note r = rune_step [OF prems(1) lt]
        show ?thesis
        proof (cases "fst ?x = rune_error \<and> snd ?x = 1")
          case err: True
          define q where "q = advance_ascii s p"
          have q: "on_source s q" "pos_offset q = pos_offset p + 1"
            using on_source_ascii(1) [OF prems(1) lt] err by (auto simp: q_def prod_eq_iff)
          define def' where "def' = (if deferred = None
                 then Some (lex_diagnostic ''SPL_INVALID_FIELD'' ''single-quoted field reference must contain valid UTF-8'' p q)
                 else deferred)"
          have def': "\<And>d. def' = Some d \<Longrightarrow> on_range s (diag_range d)"
            using prems(5) located_diagnostic [OF prems(1) q(1)] q(2) by (auto simp: def'_def split: if_splits)
          have e: "field_loop s start p value' deferred = field_loop s start q value' def'"
            using in_s nq nb err by (simp only: field_loop.simps [of s start p value' deferred] Let_def q_def [symmetric]
                def'_def [symmetric] if_False if_True simp_thms)
          show ?thesis unfolding e
            by (rule "1.IH"(3) [OF refl in_s nq nb refl refl err q_def def'_def q(1) prems(2) _ prems(4) def'])
              (use q(2) prems(3) in auto)
        next
          case ok: False
          have e: "field_loop s start p value' deferred
              = field_loop s start (advance_position_by_rune p (fst ?x) (snd ?x)) (value' @ encode_rune (fst ?x)) deferred"
            using in_s nq nb ok by (simp only: field_loop.simps [of s start p value' deferred] Let_def if_False if_True simp_thms)
          show ?thesis unfolding e
            by (rule "1.IH"(4) [OF refl in_s nq nb refl refl ok r(1) prems(2) _ prems(4) prems(5)])
              (use r(2) prems(3) in auto)
        qed
      qed
    qed
  qed
qed

lemma string_loop_ok:
  "on_source s p \<Longrightarrow> on_source s start \<Longrightarrow> pos_offset start < pos_offset p \<Longrightarrow> s ! pos_offset start = double_quote \<Longrightarrow>
   scan_result s qf start (string_loop s start p value')"
proof (induction s start p value' rule: string_loop.induct)
  case (1 s start p value')
  note prems = "1.prems"
  let ?x = "decode_rune (drop (pos_offset p) s)"
  show ?case
  proof (cases "pos_offset p \<ge> length s")
    case True
    then show ?thesis using located_diagnostic [OF prems(2,1)] prems(3)
      by (simp add: string_loop.simps [of s start p] scan_result_def)
  next
    case in_s: False
    then have lt: "pos_offset p < length s" by simp
    note r = rune_step [OF prems(1) lt]
    show ?thesis
    proof (cases "s ! pos_offset p = double_quote")
      case True
      have q: "on_source s (advance_ascii s p)" using on_source_ascii(1) [OF prems(1) lt] by (simp add: True)
      have b: "enclosed double_quote (take (pos_offset p + 1 - pos_offset start) (drop (pos_offset start) s))"
        using range_ends [of "pos_offset start" "pos_offset p + 1" s] prems(3,4) lt True by (simp add: enclosed_def)
      show ?thesis using q b prems in_s True
        by (auto simp: string_loop.simps [of s start p] scan_result_def on_range_def token_ok_def slice_def Let_def)
    next
      case nq: False
      show ?thesis
      proof (cases "s ! pos_offset p = backslash_char")
        case True
        define p1 where "p1 = advance_ascii s p"
        have p1: "on_source s p1" "pos_offset p1 = pos_offset p + 1" using on_source_ascii(1) [OF prems(1) lt] by (simp_all add: True p1_def)
        let ?y = "decode_rune (drop (pos_offset p1) s)"
        show ?thesis
        proof (cases "pos_offset p1 \<ge> length s")
          case end1: True
          then show ?thesis using located_diagnostic [OF prems(2) p1(1)] prems(3) p1(2) in_s nq True
            by (simp add: string_loop.simps [of s start p] scan_result_def Let_def p1_def)
        next
          case end1: False
          then have l1: "pos_offset p1 < length s" by simp
          note r1 = rune_step [OF p1(1) l1]
          define esc where "esc = (if fst ?y = rune_error \<and> snd ?y = 1 then of_char (s ! pos_offset p1) else fst ?y)"
          have o: "on_source s (advance_position_by_rune p1 esc (snd ?y))"
            using r1(1) on_source_ascii(2) [OF p1(1) l1] by (cases "fst ?y = rune_error \<and> snd ?y = 1") (auto simp: esc_def prod_eq_iff)
          have e: "string_loop s start p value' = string_loop s start (advance_position_by_rune p1 esc (snd ?y)) (value' @ string_escape esc)"
            using in_s nq True end1 by (simp only: string_loop.simps [of s start p value'] Let_def p1_def [symmetric] esc_def [symmetric]
                if_False if_True simp_thms)
          show ?thesis unfolding e
            by (rule "1.IH"(1) [OF refl in_s nq True p1_def end1 refl refl esc_def o prems(2) _ prems(4)])
              (use p1(2) r1(2) prems(3) in auto)
        qed
      next
        case nb: False
        show ?thesis
        proof (cases "fst ?x = rune_error \<and> snd ?x = 1")
          case err: True
          have q: "on_source s (advance_ascii s p)" using on_source_ascii(1) [OF prems(1) lt] err by (auto simp: prod_eq_iff)
          have e: "string_loop s start p value' = string_loop s start (advance_ascii s p) (value' @ [s ! pos_offset p])"
            using in_s nq nb err by (simp only: string_loop.simps [of s start p value'] Let_def if_False if_True simp_thms)
          show ?thesis unfolding e
            by (rule "1.IH"(2) [OF refl in_s nq nb refl refl err q prems(2) _ prems(4)]) (use prems(3) in auto)
        next
          case ok: False
          have e: "string_loop s start p value' = string_loop s start (advance_position_by_rune p (fst ?x) (snd ?x)) (value' @ encode_rune (fst ?x))"
            using in_s nq nb ok by (simp only: string_loop.simps [of s start p value'] Let_def if_False if_True simp_thms)
          show ?thesis unfolding e
            by (rule "1.IH"(3) [OF refl in_s nq nb refl refl ok r(1) prems(2) _ prems(4)]) (use r(2) prems(3) in auto)
        qed
      qed
    qed
  qed
qed

lemma word_boundary_ok:
  "on_source s p \<Longrightarrow> (composite \<Longrightarrow> qf) \<Longrightarrow>
   (case word_boundary s start qf p seg in_quote composite of (q, c) \<Rightarrow> on_source s q \<and> pos_offset p \<le> pos_offset q \<and> (c \<longrightarrow> qf))"
proof (induction s start qf p seg in_quote composite rule: word_boundary.induct)
  case (1 s start qf p seg in_quote composite)
  note prems = "1.prems"
  let ?x = "decode_rune (drop (pos_offset p) s)" and ?c = "s ! pos_offset p"
  let ?goal = "\<lambda>res. case res of (q, c) \<Rightarrow> on_source s q \<and> pos_offset p \<le> pos_offset q \<and> (c \<longrightarrow> qf)"
  have weaken: "?goal res" if "pos_offset p \<le> pos_offset p'" "case res of (q, c) \<Rightarrow> on_source s q \<and> pos_offset p' \<le> pos_offset q \<and> (c \<longrightarrow> qf)" for res and p' :: position
    using that by (auto split: prod.splits)
  have le: "pos_offset p \<le> pos_offset (advance_position_by_rune p r w)" for r w by simp
  have stop: "?goal (p, composite)" using prems by simp
  show ?case
  proof (cases "pos_offset p \<ge> length s")
    case True
    then show ?thesis using stop by (simp add: word_boundary.simps [of s start qf p])
  next
    case in_s: False
    then have lt: "pos_offset p < length s" by simp
    note r = rune_step [OF prems(1) lt]
    have asc: "on_source s (advance_position_by_rune p 0x5C 1)" if "?c = backslash_char"
      using on_source_ascii(2) [OF prems(1) lt] that by simp
    have asq: "on_source s (advance_position_by_rune p 0x27 1)" if "?c = quote_char"
      using on_source_ascii(2) [OF prems(1) lt] that by simp
    note u = word_boundary.simps [of s start qf p seg in_quote composite]
    show ?thesis
    proof (cases in_quote)
      case iq: True
      show ?thesis
      proof (cases "?c = backslash_char")
        case True
        define p1 where "p1 = advance_position_by_rune p 0x5C 1"
        define p2 where "p2 = (if pos_offset p1 < length s
           then advance_position_by_rune p1 (fst (decode_rune (drop (pos_offset p1) s))) (snd (decode_rune (drop (pos_offset p1) s))) else p1)"
        have p1: "on_source s p1" "pos_offset p1 = pos_offset p + 1" using asc [OF True] by (simp_all add: p1_def)
        have p2: "on_source s p2" "pos_offset p1 \<le> pos_offset p2" using rune_step [OF p1(1)] p1(1) by (auto simp: p2_def)
        have e: "word_boundary s start qf p seg in_quote composite = word_boundary s start qf p2 seg True composite"
          by (subst u) (use in_s iq True in \<open>simp only: Let_def p1_def [symmetric] p2_def [symmetric] if_False if_True simp_thms\<close>)
        have le2: "pos_offset p \<le> pos_offset p2" using p1(2) p2(2) by linarith
        show ?thesis unfolding e
          by (rule weaken [OF le2 "1.IH"(1) [OF in_s refl refl refl iq True p1_def p2_def p2(1) prems(2)]])
      next
        case nb: False
        show ?thesis
        proof (cases "?c = quote_char")
          case True
          have e: "word_boundary s start qf p seg in_quote composite = word_boundary s start qf (advance_position_by_rune p 0x27 1) (- 1) False composite"
            by (subst u) (use in_s iq nb True in \<open>simp only: Let_def if_False if_True simp_thms\<close>)
          show ?thesis unfolding e
            by (rule weaken [OF le "1.IH"(2) [OF in_s refl refl refl iq nb True asq [OF True] prems(2)]])
        next
          case nq: False
          have e: "word_boundary s start qf p seg in_quote composite = word_boundary s start qf (advance_position_by_rune p (fst ?x) (snd ?x)) seg True composite"
            by (subst u) (use in_s iq nb nq in \<open>simp only: Let_def if_False if_True simp_thms\<close>)
          show ?thesis unfolding e
            by (rule weaken [OF le "1.IH"(3) [OF in_s refl refl refl iq nb nq r(1) prems(2)]])
        qed
      qed
    next
      case iq: False
      show ?thesis
      proof (cases "?c = CHR ''.'' \<and> concatenation_dot_at s (pos_offset p) \<or> is_delimiter ?c")
        case True
        then show ?thesis by (subst u) (use stop in_s iq in \<open>simp only: Let_def if_False if_True simp_thms\<close>)
      next
        case nd: False
        show ?thesis
        proof (cases "is_space (fst ?x)")
          case True
          then show ?thesis by (subst u) (use stop in_s iq nd in \<open>simp only: Let_def if_False if_True simp_thms\<close>)
        next
          case ns: False
          show ?thesis
          proof (cases "qf \<and> ?c = quote_char \<and> int (pos_offset p) = seg \<and> pos_offset p > pos_offset start")
            case True
            have e: "word_boundary s start qf p seg in_quote composite = word_boundary s start qf (advance_position_by_rune p 0x27 1) seg True True"
              by (subst u) (use in_s iq nd ns True in \<open>simp only: Let_def if_False if_True simp_thms\<close>)
            show ?thesis unfolding e
              by (rule weaken [OF le "1.IH"(4) [OF in_s refl refl refl iq nd ns True asq [OF conjunct1 [OF conjunct2 [OF True]]] conjunct1 [OF True]]])
          next
            case nc: False
            show ?thesis
            proof (cases "scalar_operator_token ?c \<noteq> None")
              case True
              let ?q = "advance_position_by_rune p (fst ?x) (snd ?x)"
              have e: "word_boundary s start qf p seg in_quote composite = word_boundary s start qf ?q (int (pos_offset ?q)) False composite"
                by (subst u) (use in_s iq nd ns nc True in \<open>simp only: Let_def if_False if_True simp_thms\<close>)
              show ?thesis unfolding e
                by (rule weaken [OF le "1.IH"(5) [OF in_s refl refl refl iq nd ns nc True refl r(1) prems(2)]])
            next
              case no: False
              have e: "word_boundary s start qf p seg in_quote composite = word_boundary s start qf (advance_position_by_rune p (fst ?x) (snd ?x)) seg False composite"
                by (subst u) (use in_s iq nd ns nc no in \<open>simp only: Let_def if_False if_True simp_thms\<close>)
              show ?thesis unfolding e
                by (rule weaken [OF le "1.IH"(6) [OF in_s refl refl refl iq nd ns nc no r(1) prems(2)]])
            qed
          qed
        qed
      qed
    qed
  qed
qed

lemma scan_word_ok:
  assumes o: "on_source s start" "pos_offset start < length s"
    and c: "\<not> (s ! pos_offset start = CHR ''.'' \<and> concatenation_dot_at s (pos_offset start) \<or> is_delimiter (s ! pos_offset start))"
    and sp: "\<not> is_space (fst (decode_rune (drop (pos_offset start) s)))"
  shows "scan_result s qf start (scan_word s qf start)"
proof -
  let ?x = "decode_rune (drop (pos_offset start) s)"
  note r = rune_step [OF o]
  let ?q = "advance_position_by_rune start (fst ?x) (snd ?x)"
  obtain q cm where w: "scan_scalar_word_boundary s start qf = (q, cm)" by fastforce
  define seg where "seg = (if scalar_operator_token (s ! pos_offset start) \<noteq> None then int (pos_offset ?q) else int (pos_offset start))"
  have "scan_scalar_word_boundary s start qf = word_boundary s start qf ?q seg False False"
    unfolding scan_scalar_word_boundary_def
    by (subst word_boundary.simps) (use o(2) c sp in \<open>auto simp: Let_def seg_def\<close>)
  then have q: "on_source s q" "pos_offset start < pos_offset q" "cm \<longrightarrow> qf"
    using word_boundary_ok [OF r(1), of False qf start seg False] r(2) w by auto
  define b where "b = take (pos_offset q - pos_offset start) (drop (pos_offset start) s)"
  have "b \<noteq> []" using q(2) o(2) by (simp add: b_def)
  then show ?thesis using q o(1) on_source_le [OF q(1)] o(2)
    by (auto simp: scan_word_def w scan_result_def on_range_def token_ok_def slice_def Let_def b_def [symmetric])
qed

lemma single_ok:
  assumes "on_source s start" "on_source s q" "pos_offset start < length s" "pos_offset q = pos_offset start + length b"
    and "b \<noteq> []" "operator_text k = Some b" "take (length b) (drop (pos_offset start) s) = b"
  shows "scan_result s qf start (Inr (single_token k b start q))"
proof -
  have k: "k \<noteq> TokenEOF" "k \<noteq> TokenWord" "k \<noteq> TokenString" "k \<noteq> TokenQuotedField" "k \<noteq> TokenScalarComposite" using assms(6) by auto
  have "slice s \<lparr>range_start = start, range_end = q\<rparr> = b" using assms(4,7) by (simp add: slice_def)
  then show ?thesis using assms k
    by (cases k) (auto simp: scan_result_def single_token_def on_range_def token_ok_def)
qed

lemma one_char: "pos_offset p < length s \<Longrightarrow> s ! pos_offset p = c \<Longrightarrow> take (length [c]) (drop (pos_offset p) s) = [c]"
  by (simp add: Cons_nth_drop_Suc [symmetric])

lemma two_chars:
  assumes "pos_offset p < length s" "s ! pos_offset p = c" "consume_equals s (advance_ascii s p) = (True, q)"
  shows "take (length [c, CHR ''='']) (drop (pos_offset p) s) = [c, CHR ''='']" "pos_offset q = pos_offset p + 2"
    "q = advance_ascii s (advance_ascii s p)" "s ! Suc (pos_offset p) = CHR ''=''" "Suc (pos_offset p) < length s"
proof -
  show e: "s ! Suc (pos_offset p) = CHR ''=''" "Suc (pos_offset p) < length s" "q = advance_ascii s (advance_ascii s p)"
    using assms(3) by (auto simp: consume_equals_def split: if_splits)
  show "pos_offset q = pos_offset p + 2" by (simp add: e(3))
  show "take (length [c, CHR ''='']) (drop (pos_offset p) s) = [c, CHR ''='']"
    using assms(1,2) e by (simp add: Cons_nth_drop_Suc [symmetric])
qed

lemma branch: "(b \<Longrightarrow> scan_result s qf start x) \<Longrightarrow> (\<not> b \<Longrightarrow> scan_result s qf start y) \<Longrightarrow> scan_result s qf start (if b then x else y)"
  by simp

lemma lex_next_ok:
  assumes "on_source s p"
  shows "scan_result s qf (skip_space s p) (lex_next s qf p)"
proof -
  define start where "start = skip_space s p"
  have st: "on_source s start" "pos_offset start < length s \<Longrightarrow> \<not> is_space (fst (decode_rune (drop (pos_offset start) s)))"
    using skip_space_ok [OF assms] by (auto simp: start_def)
  show ?thesis
  proof (cases "pos_offset start \<ge> length s")
    case True
    then show ?thesis using st(1) on_source_le [OF st(1)]
      by (simp add: lex_next_def start_def [symmetric] Let_def scan_result_def single_token_def on_range_def token_ok_def slice_def)
  next
    case False
    then have lt: "pos_offset start < length s" by simp
    define c where "c = s ! pos_offset start"
    define q where "q = advance_ascii s start"
    have q: "pos_offset q = pos_offset start + 1" by (simp add: q_def)
    have oq: "on_source s q" if "of_char c < (0x80 :: nat)" using on_source_ascii(1) [OF st(1) lt] that by (simp add: q_def c_def)
    have one: "scan_result s qf start (Inr (single_token k [c] start q))" if "of_char c < (0x80 :: nat)" "operator_text k = Some [c]" for k
      by (rule single_ok [OF st(1) oq [OF that(1)] lt _ _ that(2) one_char [OF lt c_def [symmetric]]]) (simp_all add: q)
    have two: "scan_result s qf start (Inr (single_token k [c, CHR ''=''] start q2))"
      if "of_char c < (0x80 :: nat)" "operator_text k = Some [c, CHR ''='']" "consume_equals s q = (True, q2)" for k q2
    proof -
      note t = two_chars [OF lt c_def [symmetric] that(3) [unfolded q_def]]
      have "on_source s q2" unfolding t(3) q_def [symmetric]
        by (rule on_source_ascii(1) [OF oq [OF that(1)]]) (use t(4,5) in \<open>simp_all add: q\<close>)
      then show ?thesis by (intro single_ok [OF st(1) _ lt _ _ that(2) t(1)]) (simp_all add: t(2))
    qed
    have eq: "scan_result s qf start (case consume_equals s q of
          (True, q2) \<Rightarrow> Inr (single_token k2 [c', CHR ''=''] start q2) | (False, _) \<Rightarrow> Inr (single_token k1 [c'] start q))"
      if "c = c'" "of_char c' < (0x80 :: nat)" "operator_text k2 = Some [c', CHR ''='']" "operator_text k1 = Some [c']" for c' k1 k2
      using two [of k2] one [of k1] that by (auto split: prod.splits bool.splits)
    have word: "scan_result s qf start (scan_word s qf start)" if "\<not> is_delimiter c" "\<not> (c = CHR ''.'' \<and> concatenation_dot_at s (pos_offset start))"
      by (rule scan_word_ok [OF st(1) lt _ st(2) [OF lt]]) (use that in \<open>auto simp: c_def\<close>)
    have string: "scan_result s qf start (scan_string s start)" if "c = double_quote"
      unfolding scan_string_def q_def [symmetric]
      by (rule string_loop_ok [OF oq st(1)]) (use that q in \<open>simp_all add: c_def\<close>)
    have field: "scan_result s True start (scan_quoted_field s start)" if "c = quote_char"
      unfolding scan_quoted_field_def q_def [symmetric]
      by (rule field_loop_ok [OF oq st(1)]) (use that q in \<open>simp_all add: c_def\<close>)
    have bang: "scan_result s qf start (case consume_equals s q of
                (True, q2) \<Rightarrow> Inr (single_token TokenNotEqual ''!='' start q2)
              | (False, _) \<Rightarrow> Inl (lex_diagnostic ''SPL_UNEXPECTED_CHARACTER'' msg start q))" if "c = CHR ''!''" for msg
    proof (cases "consume_equals s q")
      case (Pair b q2)
      have "scan_result s qf start (Inl (lex_diagnostic ''SPL_UNEXPECTED_CHARACTER'' msg start q))"
        using located_diagnostic [OF st(1) oq, of _ msg] that q by (simp add: scan_result_def)
      then show ?thesis using two [of TokenNotEqual q2] that Pair by (cases b) simp_all
    qed
    have delims: "is_delimiter d \<longleftrightarrow> d \<in> {CHR ''|'', CHR ''('', CHR '')'', CHR '','', CHR ''='', CHR ''!'', CHR ''<'', CHR ''>'', double_quote}" for d
    proof -
      have inj: "inj (of_char :: char \<Rightarrow> nat)" by (rule injI) simp
      have "is_delimiter d \<longleftrightarrow> d \<in> set ''|(),=!<>\"''"
        by (simp only: is_delimiter_def is_delimiter_rune_def set_map inj_image_mem_iff [OF inj])
      then show ?thesis by auto
    qed
    note u = lex_next_def [of s qf p, unfolded Let_def, folded start_def, folded c_def q_def]
    have nge: "\<not> pos_offset start \<ge> length s" using lt by simp
    have pipe: "c = CHR ''|'' \<Longrightarrow> scan_result s qf start (Inr (single_token TokenPipe ''|'' start q))" using one [of TokenPipe] by simp
    have left: "c = CHR ''('' \<Longrightarrow> scan_result s qf start (Inr (single_token TokenLeftParen ''('' start q))" using one [of TokenLeftParen] by simp
    have right: "c = CHR '')'' \<Longrightarrow> scan_result s qf start (Inr (single_token TokenRightParen '')'' start q))" using one [of TokenRightParen] by simp
    have comma: "c = CHR '','' \<Longrightarrow> scan_result s qf start (Inr (single_token TokenComma '','' start q))" using one [of TokenComma] by simp
    have dot: "c = CHR ''.'' \<Longrightarrow> scan_result s qf start (Inr (single_token TokenConcat ''.'' start q))" using one [of TokenConcat] by simp
    have equal: "c = CHR ''='' \<Longrightarrow> scan_result s qf start (case consume_equals s q of
          (True, q2) \<Rightarrow> Inr (single_token TokenEqualEqual ''=='' start q2) | (False, _) \<Rightarrow> Inr (single_token TokenEqual ''='' start q))"
      by (erule eq) simp_all
    have less: "c = CHR ''<'' \<Longrightarrow> scan_result s qf start (case consume_equals s q of
          (True, q2) \<Rightarrow> Inr (single_token TokenLessEqual ''<='' start q2) | (False, _) \<Rightarrow> Inr (single_token TokenLess ''<'' start q))"
      by (erule eq) simp_all
    have greater: "c = CHR ''>'' \<Longrightarrow> scan_result s qf start (case consume_equals s q of
          (True, q2) \<Rightarrow> Inr (single_token TokenGreaterEqual ''>='' start q2) | (False, _) \<Rightarrow> Inr (single_token TokenGreater ''>'' start q))"
      by (erule eq) simp_all
    have field': "c = quote_char \<Longrightarrow> qf \<and> b \<Longrightarrow> scan_result s qf start (scan_quoted_field s start)" for b using field by simp
    have word_dot: "c = CHR ''.'' \<Longrightarrow> \<not> concatenation_dot_at s (pos_offset start) \<Longrightarrow> scan_result s qf start (scan_word s qf start)"
      using word delims [of c] by simp
    have word_quote: "c = quote_char \<Longrightarrow> scan_result s qf start (scan_word s qf start)" using word delims [of c] by simp
    have word_other: "c \<noteq> CHR ''|'' \<Longrightarrow> c \<noteq> CHR ''('' \<Longrightarrow> c \<noteq> CHR '')'' \<Longrightarrow> c \<noteq> CHR '','' \<Longrightarrow> c \<noteq> CHR ''='' \<Longrightarrow> c \<noteq> CHR ''!''
        \<Longrightarrow> c \<noteq> CHR ''<'' \<Longrightarrow> c \<noteq> CHR ''>'' \<Longrightarrow> c \<noteq> CHR ''.'' \<Longrightarrow> c \<noteq> double_quote \<Longrightarrow> scan_result s qf start (scan_word s qf start)"
      using word delims [of c] by simp
    have "scan_result s qf start (lex_next s qf p)"
      unfolding u if_not_P [OF nge]
      by (intro branch) (assumption | erule pipe left right comma dot equal less greater bang string field' word_dot word_quote | rule word_other)+
    then show ?thesis by (simp add: start_def)
  qed
qed


section \<open>The whole source\<close>

lemma lex_next_progress:
  assumes "on_source s p" "lex_next s qf p = Inr t" "token_kind t \<noteq> TokenEOF"
  shows "pos_offset p < pos_offset (range_end (token_range t))" "on_source s (range_end (token_range t))"
  using lex_next_ok [OF assms(1), of qf] skip_space_ok [OF assms(1)] assms(2,3)
  by (auto simp: scan_result_def on_range_def)

end
