(* ===== verification/Spl_Tokens.thy ===== *)
theory Spl_Tokens
  imports Spl_Scan
begin

text \<open>
  The lexer as a whole: it ends, its tokens tile the source and are well typed, and quoted strings are read back.
\<close>

text \<open>Consecutive tokens from an offset: white space in between, positions as the walk over the source gives them, a
  non-empty range each, and the end of the source last.\<close>

fun tokens_tile :: "bytes \<Rightarrow> nat \<Rightarrow> token list \<Rightarrow> bool" where
  "tokens_tile s off [] \<longleftrightarrow> False"
| "tokens_tile s off (t # ts) \<longleftrightarrow>
     (let a = range_start (token_range t); b = range_end (token_range t) in
      off \<le> pos_offset a \<and> list_all is_space (runes (take (pos_offset a - off) (drop off s)))
      \<and> a = position_at s (pos_offset a) \<and> b = position_at s (pos_offset b)
      \<and> (if ts = [] then token_kind t = TokenEOF \<and> pos_offset a = length s \<and> pos_offset b = length s
         else token_kind t \<noteq> TokenEOF \<and> pos_offset a < pos_offset b \<and> tokens_tile s (pos_offset b) ts))"

definition range_ok :: "bytes \<Rightarrow> source_range \<Rightarrow> bool" where
  "range_ok s rg \<longleftrightarrow> range_start rg = position_at s (pos_offset (range_start rg)) \<and> range_end rg = position_at s (pos_offset (range_end rg))
     \<and> pos_offset (range_start rg) \<le> pos_offset (range_end rg) \<and> pos_offset (range_end rg) \<le> length s"

definition diagnostics_ok :: "bytes \<Rightarrow> token \<Rightarrow> bool" where
  "diagnostics_ok s t \<longleftrightarrow> (case scalar_diagnostic t of None \<Rightarrow> True | Some d \<Rightarrow> range_ok s (diag_range d))"

lemma on_range_ok: "on_range s rg \<Longrightarrow> range_ok s rg"
  using on_source_position [of s "range_start rg"] on_source_position [of s "range_end rg"] by (simp add: on_range_def range_ok_def)

lemma lex_loop_ok:
  "on_source s p \<Longrightarrow> (\<exists>d. lex_loop s qf p acc = Some (Inl d) \<and> range_ok s (diag_range d) \<and> diag_code d \<in> lexer_codes)
     \<or> (\<exists>ts. lex_loop s qf p acc = Some (Inr (acc @ ts)) \<and> tokens_tile s (pos_offset p) ts \<and> list_all (token_ok s qf) ts
          \<and> list_all (diagnostics_ok s) ts)"
proof (induction "length s - pos_offset p" arbitrary: p acc rule: less_induct)
  case less
  define start where "start = skip_space s p"
  have sr: "scan_result s qf start (lex_next s qf p)" using lex_next_ok [OF less.prems] by (simp add: start_def)
  have sp: "on_source s start" "pos_offset p \<le> pos_offset start"
    "list_all is_space (runes (take (pos_offset start - pos_offset p) (drop (pos_offset p) s)))"
    using skip_space_ok [OF less.prems] by (simp_all add: start_def)
  show ?case
  proof (cases "lex_next s qf p")
    case (Inl d)
    then have "lex_loop s qf p acc = Some (Inl d)" by (simp add: lex_loop.simps [of s qf p acc])
    then show ?thesis using sr Inl on_range_ok by (auto simp: scan_result_def)
  next
    case (Inr t)
    let ?b = "range_end (token_range t)"
    have t: "range_start (token_range t) = start" "on_range s (token_range t)" "token_ok s qf t"
      "token_kind t = TokenEOF \<longleftrightarrow> pos_offset start = length s" "token_kind t = TokenEOF \<longleftrightarrow> pos_offset ?b = pos_offset start"
      "diagnostics_ok s t"
      using sr Inr on_range_ok by (auto simp: scan_result_def diagnostics_ok_def split: option.splits)
    have b: "on_source s ?b" "pos_offset start \<le> pos_offset ?b" "start = position_at s (pos_offset start)" "?b = position_at s (pos_offset ?b)"
      using t(1,2) on_source_position by (auto simp: on_range_def)
    show ?thesis
    proof (cases "token_kind t = TokenEOF")
      case True
      have "lex_loop s qf p acc = Some (Inr (acc @ [t]))" using Inr True by (simp add: lex_loop.simps [of s qf p acc])
      moreover have "tokens_tile s (pos_offset p) [t]" using t b sp(2,3) True by (simp add: Let_def)
      ultimately show ?thesis using t(3,6) by auto
    next
      case False
      have e: "lex_loop s qf p acc = lex_loop s qf ?b (acc @ [t])" using Inr False by (simp add: lex_loop.simps [of s qf p acc])
      have lt: "pos_offset start < pos_offset ?b" using t(5) b(2) False by simp
      have "length s - pos_offset ?b < length s - pos_offset p" using lt sp(2) on_source_le [OF b(1)] by linarith
      note IH = less.hyps [OF this b(1), of "acc @ [t]"]
      have tile: "tokens_tile s (pos_offset p) (t # ts)" if "tokens_tile s (pos_offset ?b) ts" for ts
      proof -
        have "ts \<noteq> []" using that by auto
        then show ?thesis using that t(1) b(3,4) sp(2,3) lt False by (simp add: Let_def)
      qed
      from IH show ?thesis
      proof
        assume "\<exists>d. lex_loop s qf ?b (acc @ [t]) = Some (Inl d) \<and> range_ok s (diag_range d) \<and> diag_code d \<in> lexer_codes"
        then show ?thesis unfolding e by blast
      next
        assume "\<exists>ts. lex_loop s qf ?b (acc @ [t]) = Some (Inr ((acc @ [t]) @ ts)) \<and> tokens_tile s (pos_offset ?b) ts
          \<and> list_all (token_ok s qf) ts \<and> list_all (diagnostics_ok s) ts"
        then obtain ts where "lex_loop s qf p acc = Some (Inr (acc @ t # ts))" "tokens_tile s (pos_offset ?b) ts"
          "list_all (token_ok s qf) ts" "list_all (diagnostics_ok s) ts" unfolding e by auto
        then show ?thesis using tile t(3,6) by (intro disjI2 exI [of _ "t # ts"]) simp
      qed
    qed
  qed
qed

text \<open>C11: the lexer ends on every source, and its tokens tile it. Either a diagnostic points into the source, or the tokens
  follow one another with nothing but white space before each, every position - offset, line and column - as the walk
  over the source computes it, no token but the last empty, and the token of the end of the source last.\<close>

theorem lex_tiles_source:
  "\<exists>res. lex_with_quoted_fields s quoted_fields = Some res
     \<and> (case res of Inl d \<Rightarrow> range_ok s (diag_range d) | Inr ts \<Rightarrow> tokens_tile s 0 ts)"
  using lex_loop_ok [OF on_source.first, of s quoted_fields "[]"] by (auto simp: lex_with_quoted_fields_def first_position_def)

text \<open>C21: tokens are well typed. Whatever the source, each token has the fields of its kind: the text of a word or an
  operator is its piece of the source, composites and quoted fields appear only where quoted fields are on and
  keep their source, strings and quoted fields are enclosed in their quotes, only quoted fields carry a deferred
  diagnostic, and that points into the source; a rejected source has one of three codes.\<close>

theorem lex_tokens_typed:
  "\<exists>res. lex_with_quoted_fields s quoted_fields = Some res
     \<and> (case res of Inl d \<Rightarrow> diag_code d \<in> lexer_codes | Inr ts \<Rightarrow> list_all (token_ok s quoted_fields) ts \<and> list_all (diagnostics_ok s) ts)"
  using lex_loop_ok [OF on_source.first, of s quoted_fields "[]"] by (auto simp: lex_with_quoted_fields_def)

section \<open>Quoted strings\<close>

text \<open>The text of a string literal that denotes the given bytes.\<close>

definition escape_string :: "bytes \<Rightarrow> bytes" where
  "escape_string v = concat (map (\<lambda>c. if c = double_quote \<or> c = backslash_char then [backslash_char, c] else [c]) v)"

definition quote_string :: "bytes \<Rightarrow> bytes" where
  "quote_string v = [double_quote] @ escape_string v @ [double_quote]"

lemma escape_simps [simp]:
  "escape_string [] = []"
  "escape_string (c # v) = (if c = double_quote \<or> c = backslash_char then [backslash_char, c] else [c]) @ escape_string v"
  by (simp_all add: escape_string_def)

lemma escape_high:
  "w \<le> length (escape_string v @ [double_quote]) \<Longrightarrow> \<forall>c \<in> set (take w (escape_string v @ [double_quote])). of_char c \<ge> (0x80 :: nat) \<Longrightarrow>
     w \<le> length v \<and> take w (escape_string v @ [double_quote]) = take w v
     \<and> drop w (escape_string v @ [double_quote]) = escape_string (drop w v) @ [double_quote]"
proof (induction w arbitrary: v)
  case (Suc w)
  show ?case
  proof (cases v)
    case Nil
    then show ?thesis using Suc.prems by simp
  next
    case (Cons c v')
    have "c \<noteq> double_quote \<and> c \<noteq> backslash_char" using Suc.prems by (auto simp: Cons)
    then show ?thesis using Suc.IH [of v'] Suc.prems by (simp add: Cons)
  qed
qed simp

lemma encode_ascii: "of_char c < (0x80 :: nat) \<Longrightarrow> encode_rune (of_char c) = [c]"
  by (simp add: encode_rune_def encode_valid_def valid_rune_def)

lemma string_loop_escaped:
  "drop (pos_offset p) s = escape_string v @ [double_quote] \<Longrightarrow>
   \<exists>q. pos_offset q = length s \<and> string_loop s start p acc =
     Inr \<lparr>token_kind = TokenString, token_text = acc @ v, token_raw = [], token_quoted = True,
          token_range = \<lparr>range_start = start, range_end = q\<rparr>, scalar_diagnostic = None\<rparr>"
proof (induction "length v" arbitrary: v p acc rule: less_induct)
  case less
  have lt: "\<not> pos_offset p \<ge> length s" using less.prems by (metis append_is_Nil_conv drop_all list.distinct(1))
  have at0: "s ! pos_offset p = hd (escape_string v @ [double_quote])" using lt less.prems by (metis hd_drop_conv_nth not_le)
  note u = string_loop.simps [of s start p acc, unfolded Let_def]
  show ?case
  proof (cases v)
    case Nil
    then have "length s - pos_offset p = 1" using less.prems by (metis append_Nil escape_simps(1) length_drop One_nat_def list.size(3,4) add.right_neutral add_Suc_right)
    then have "pos_offset p + 1 = length s" using lt by simp
    then show ?thesis using lt at0 Nil by (simp add: u)
  next
    case (Cons c v')
    show ?thesis
    proof (cases "c = double_quote \<or> c = backslash_char")
      case True
      define p1 where "p1 = advance_ascii s p"
      have d1: "drop (pos_offset p1) s = c # escape_string v' @ [double_quote]"
        using less.prems True by (simp add: Cons p1_def) (metis drop_Suc drop_drop list.sel(3) plus_1_eq_Suc tl_drop)
      have l1: "\<not> pos_offset p1 \<ge> length s" using d1 by (metis drop_all list.distinct(1))
      have c: "of_char c < (0x80 :: nat)" "string_escape (of_char c) = [c]"
        using True encode_ascii [of c] by (auto simp: string_escape_def)
      define p2 where "p2 = advance_position_by_rune p1 (of_char c) 1"
      have b: "s ! pos_offset p = backslash_char" using at0 True by (simp add: Cons)
      have ne: "\<not> (of_char c = rune_error \<and> (1 :: nat) = 1)" using c(1) by auto
      have x: "decode_rune (drop (pos_offset p1) s) = (of_char c, 1)" unfolding d1 by (rule decode_ascii [OF c(1)])
      have e: "string_loop s start p acc = string_loop s start p2 (acc @ [c])"
        using lt l1 b ne by (simp add: u p1_def [symmetric] x p2_def c(2) del: One_nat_def)
      have d2: "drop (pos_offset p2) s = escape_string v' @ [double_quote]"
        using d1 by (simp add: p2_def) (metis drop_Suc list.sel(3) tl_drop)
      show ?thesis unfolding e using less.hyps [OF _ d2, of "acc @ [c]"] by (simp add: Cons)
    next
      case plain: False
      define x where "x = decode_rune (drop (pos_offset p) s)"
      have sp: "s ! pos_offset p = c" using at0 plain by (simp add: Cons)
      have dc: "drop (pos_offset p) s = c # escape_string v' @ [double_quote]" using less.prems plain by (simp add: Cons)
      have ne: "drop (pos_offset p) s \<noteq> []" using lt by simp
      have one: "drop (pos_offset p + 1) s = escape_string v' @ [double_quote]" using dc by (simp) (metis drop_Suc list.sel(3) tl_drop)
      show ?thesis
      proof (cases "fst x = rune_error \<and> snd x = 1")
        case True
        then have e: "string_loop s start p acc = string_loop s start (advance_ascii s p) (acc @ [c])"
          using lt sp plain by (simp add: u x_def)
        show ?thesis unfolding e using less.hyps [of v' "advance_ascii s p" "acc @ [c]"] one by (simp add: Cons)
      next
        case False
        have e: "string_loop s start p acc = string_loop s start (advance_position_by_rune p (fst x) (snd x)) (acc @ encode_rune (fst x))"
          using lt sp plain False by (auto simp: u x_def)
        have tk: "take (snd x) (drop (pos_offset p) s) = encode_rune (fst x)"
          using decode_rune_encodes [OF ne _ False] by (simp add: x_def)
        have w: "0 < snd x" "snd x \<le> length (drop (pos_offset p) s)"
          using decode_rune_pos [OF ne] decode_rune_le [of "drop (pos_offset p) s"] by (simp_all add: x_def)
        have g: "snd x \<le> length v \<and> encode_rune (fst x) = take (snd x) v \<and> drop (pos_offset p + snd x) s = escape_string (drop (snd x) v) @ [double_quote]"
        proof (cases "of_char c < (0x80 :: nat)")
          case True
          then have "x = (of_char c, 1)" by (simp add: x_def dc)
          then show ?thesis using True one encode_ascii by (simp add: Cons)
        next
          case high: False
          have "byte_at (drop (pos_offset p) s) 0 \<ge> 0x80" using high by (simp add: dc)
          then have "\<forall>c \<in> set (take (snd x) (drop (pos_offset p) s)). of_char c \<ge> (0x80 :: nat)"
            using decode_non_ascii [OF _ ne, of "fst x" "snd x"] by (simp add: x_def)
          then show ?thesis using escape_high [of "snd x" v] w(2) tk unfolding less.prems by (metis drop_drop add.commute less.prems)
        qed
        have "length (drop (snd x) v) < length v" using g w(1) Cons by simp
        from less.hyps [OF this, of "advance_position_by_rune p (fst x) (snd x)" "acc @ encode_rune (fst x)"]
        show ?thesis unfolding e using g by simp
      qed
    qed
  qed
qed

text \<open>C20: strings survive quoting. Any bytes - quotes, backslashes, line breaks, invalid UTF-8 - written as a string
  literal with a backslash before each quote and backslash are read back as one string token over the whole source
  whose text is those bytes.\<close>

theorem quoted_string_read_back:
  "\<exists>t stop. lex_with_quoted_fields (quote_string v) quoted_fields = Some (Inr [t, single_token TokenEOF [] stop stop])
     \<and> token_kind t = TokenString \<and> token_text t = v \<and> range_start (token_range t) = first_position \<and> range_end (token_range t) = stop
     \<and> pos_offset stop = length (quote_string v)"
proof -
  define s where "s = quote_string v"
  have s: "s = double_quote # escape_string v @ [double_quote]" by (simp add: s_def quote_string_def)
  have sk: "skip_space s first_position = first_position"
    by (subst skip_space.simps) (simp add: s first_position_def is_space_def)
  have "drop (pos_offset (advance_ascii s first_position)) s = escape_string v @ [double_quote]" by (simp add: first_position_def s)
  from string_loop_escaped [OF this, of first_position "[]"] obtain q where q: "pos_offset q = length s"
    "scan_string s first_position = Inr \<lparr>token_kind = TokenString, token_text = v, token_raw = [], token_quoted = True,
          token_range = \<lparr>range_start = first_position, range_end = q\<rparr>, scalar_diagnostic = None\<rparr>"
    by (auto simp: scan_string_def)
  have "s ! 0 = double_quote" "\<not> length s \<le> 0" by (simp_all add: s)
  then have n1: "lex_next s quoted_fields first_position = scan_string s first_position"
    by (simp add: lex_next_def sk Let_def) (simp add: first_position_def)
  have n2: "lex_next s quoted_fields q = Inr (single_token TokenEOF [] q q)"
    by (simp add: lex_next_def skip_space.simps [of s q] q(1))
  have "lex_with_quoted_fields s quoted_fields = Some (Inr [\<lparr>token_kind = TokenString, token_text = v, token_raw = [], token_quoted = True,
          token_range = \<lparr>range_start = first_position, range_end = q\<rparr>, scalar_diagnostic = None\<rparr>, single_token TokenEOF [] q q])"
    by (simp add: lex_with_quoted_fields_def lex_loop.simps [of s quoted_fields first_position] n1 q(2)
        lex_loop.simps [of s quoted_fields q] n2 single_token_def)
  then show ?thesis using q(1) unfolding s_def by (intro exI conjI) auto
qed

end
