(* ===== verification/Go_Time.thy ===== *)
theory Go_Time
  imports Prelude
begin

text \<open>
  What the sources use of Go's \<open>time\<close>: instants in nanoseconds since 1970, the proleptic Gregorian calendar of
  \<open>Year\<close>, \<open>Month\<close>, \<open>Day\<close>, \<open>Weekday\<close> and \<open>Date\<close>, and durations, signed 64-bit
  numbers of nanoseconds.  The zero \<open>Time\<close>, which the sources use as the absent value, is \<open>None\<close>.
\<close>

section \<open>The calendar\<close>

definition is_leap :: "int \<Rightarrow> bool" where
  "is_leap y \<longleftrightarrow> y mod 4 = 0 \<and> (y mod 100 \<noteq> 0 \<or> y mod 400 = 0)"

text \<open>Days before a month of a common year; months count from one.\<close>

definition days_before :: "int \<Rightarrow> int" where
  "days_before m = [0, 31, 59, 90, 120, 151, 181, 212, 243, 273, 304, 334, 365] ! nat (m - 1)"

text \<open>Year and day of the year of a day counted from 1 January of year one.\<close>

definition year_day :: "int \<Rightarrow> int \<times> int" where
  "year_day d =
     (let n400 = d div 146097; d1 = d mod 146097;
          n100 = min 3 (d1 div 36524); d2 = d1 - 36524 * n100;
          n4 = d2 div 1461; d3 = d2 mod 1461;
          n1 = min 3 (d3 div 365)
      in (400 * n400 + 100 * n100 + 4 * n4 + n1 + 1, d3 - 365 * n1))"

text \<open>Month and day of the month of a day of the year.\<close>

definition month_day :: "bool \<Rightarrow> int \<Rightarrow> int \<times> int" where
  "month_day leap yday =
     (if leap \<and> yday = 59 then (2, 29)
      else
        let day = (if leap \<and> yday > 59 then yday - 1 else yday);
            guess = day div 31 + 1;
            m = (if day \<ge> days_before (guess + 1) then guess + 1 else guess)
        in (m, day - days_before m + 1))"

definition epoch_day :: int where "epoch_day = 719162"

definition date_of_days :: "int \<Rightarrow> int \<times> int \<times> int" where
  "date_of_days d =
     (let (y, yday) = year_day (d + epoch_day); (m, day) = month_day (is_leap y) yday in (y, m, day))"

definition days_before_year :: "int \<Rightarrow> int" where
  "days_before_year y =
     (let n = y - 1; a = n mod 400; b = a mod 100 in
      146097 * (n div 400) + 36524 * (a div 100) + 1461 * (b div 4) + 365 * (b mod 4))"

text \<open>\<open>time.Date\<close> in UTC for fields in their ranges, as a day.\<close>

definition days_of_date :: "int \<times> int \<times> int \<Rightarrow> int" where
  "days_of_date d =
     (case d of (y, m, day) \<Rightarrow>
        days_before_year y + days_before m + (if is_leap y \<and> m \<ge> 3 then 1 else 0) + day - 1 - epoch_day)"

lemma capped_div:
  assumes "0 < k" "0 \<le> (x :: int)" "x \<le> k * (c + 1)" "0 \<le> c"
  shows "0 \<le> min c (x div k)" "min c (x div k) \<le> c" "0 \<le> x - k * min c (x div k)"
    "x - k * min c (x div k) < k \<or> min c (x div k) = c \<and> x - k * min c (x div k) \<le> k"
proof -
  define q r where qr: "q = x div k" "r = x mod k"
  have x: "x = k * q + r" "0 \<le> r" "r < k" "0 \<le> q" using assms by (simp_all add: qr pos_imp_zdiv_nonneg_iff)
  show "0 \<le> min c (x div k)" "min c (x div k) \<le> c" using x(4) assms(4) by (simp_all add: qr(1) [symmetric])
  have m: "k * min c q \<le> k * q" using assms(1) by (intro mult_left_mono) auto
  then show "0 \<le> x - k * min c (x div k)" unfolding qr(1) [symmetric] using x by linarith
  show "x - k * min c (x div k) < k \<or> min c (x div k) = c \<and> x - k * min c (x div k) \<le> k"
  proof (cases "q \<le> c")
    case True
    then show ?thesis using x by (simp add: qr(1) [symmetric] min_def)
  next
    case False
    then show ?thesis using assms(3) by (simp add: qr(1) [symmetric] min_def ring_distribs)
  qed
qed

lemma year_day_bounds:
  assumes "year_day d = (y, yd)"
  shows "0 \<le> yd" "yd \<le> 365" "yd = 365 \<Longrightarrow> is_leap y" "days_before_year y + yd = d"
proof -
  define n400 d1 where a: "n400 = d div 146097" "d1 = d mod 146097"
  define n100 d2 where b: "n100 = min 3 (d1 div 36524)" "d2 = d1 - 36524 * n100"
  define n4 d3 where c: "n4 = d2 div 1461" "d3 = d2 mod 1461"
  define n1 where e: "n1 = min 3 (d3 div 365)"
  have yd: "year_day d = (400 * n400 + 100 * n100 + 4 * n4 + n1 + 1, d3 - 365 * n1)"
    unfolding year_day_def Let_def a b c e by (rule refl)
  have y: "y = 400 * n400 + 100 * n100 + 4 * n4 + n1 + 1" "yd = d3 - 365 * n1"
    using assms yd by simp_all
  have d: "d = 146097 * n400 + d1" "0 \<le> d1" "d1 < 146097" by (simp_all add: a)
  have n100: "0 \<le> n100" "n100 \<le> 3" "0 \<le> d2" "d2 < 36524 \<or> n100 = 3 \<and> d2 \<le> 36524"
    unfolding b using capped_div [of 36524 d1 3] d by auto
  have n4: "0 \<le> n4" "d2 = 1461 * n4 + d3" "0 \<le> d3" "d3 < 1461" using n100(3) by (simp_all add: c)
  have n4b: "n4 \<le> 24" using n100(4) n4 by linarith
  have n1: "0 \<le> n1" "n1 \<le> 3" "0 \<le> yd" "yd < 365 \<or> n1 = 3 \<and> yd \<le> 365"
    unfolding y(2) e using capped_div [of 365 d3 3] n4(3,4) by auto
  show "0 \<le> yd" "yd \<le> 365" using n1 by auto
  have n: "y - 1 = 400 * n400 + (100 * n100 + (4 * n4 + n1))" by (simp add: y(1))
  have q: "(y - 1) div 400 = n400" "(y - 1) mod 400 = 100 * n100 + (4 * n4 + n1)"
    using n100 n4 n4b n1 by (simp_all add: n div_pos_pos_trivial mod_pos_pos_trivial)
  have r: "(100 * n100 + (4 * n4 + n1)) div 100 = n100" "(100 * n100 + (4 * n4 + n1)) mod 100 = 4 * n4 + n1"
    using n4 n4b n1 by (simp_all add: div_pos_pos_trivial mod_pos_pos_trivial)
  have s: "(4 * n4 + n1) div 4 = n4" "(4 * n4 + n1) mod 4 = n1" using n1 by (simp_all add: div_pos_pos_trivial mod_pos_pos_trivial)
  show "days_before_year y + yd = d"
    unfolding days_before_year_def Let_def q r s using d(1) n4(2) b(2) y(2) by linarith
  assume "yd = 365"
  then have z: "n1 = 3" "d3 = 1460" using n1 y(2) by auto
  have "y = 4 * (100 * n400 + 25 * n100 + n4 + 1)" using y(1) z by simp
  then have m4: "y mod 4 = 0" by simp
  show "is_leap y"
  proof (cases "n4 = 24")
    case False
    then have k: "0 \<le> 4 * n4 + 4" "4 * n4 + 4 < 100" using n4 n4b by auto
    have "y = (4 * n4 + 4) + (4 * n400 + n100) * 100" using y(1) z by simp
    then have "y mod 100 = 4 * n4 + 4" using k by (simp only: mod_mult_self1 mod_pos_pos_trivial)
    then show ?thesis using m4 n4 by (simp add: is_leap_def)
  next
    case True
    then have "d2 = 36524" using n4(2) z by simp
    then have "n100 = 3" using n100(4) by auto
    then have "y = 400 * (n400 + 1)" using True z y(1) by simp
    then have "y mod 400 = 0" by simp
    then show ?thesis using m4 by (simp add: is_leap_def)
  qed
qed

lemma days_before_values:
  "days_before 1 = 0" "days_before 2 = 31" "days_before 3 = 59" "days_before 4 = 90" "days_before 5 = 120" "days_before 6 = 151"
  "days_before 7 = 181" "days_before 8 = 212" "days_before 9 = 243" "days_before 10 = 273" "days_before 11 = 304"
  "days_before 12 = 334" "days_before 13 = 365"
  by (simp_all add: days_before_def)

lemma month_day_bounds:
  assumes "0 \<le> yd" "yd \<le> 365" "yd = 365 \<Longrightarrow> leap" "month_day leap yd = (m, day)"
  shows "1 \<le> m \<and> m \<le> 12 \<and> 1 \<le> day \<and> day \<le> 31 \<and> days_before m + (if leap \<and> m \<ge> 3 then 1 else 0) + day - 1 = yd"
proof (cases "leap \<and> yd = 59")
  case True
  then show ?thesis using assms(4) by (auto simp: month_day_def days_before_values)
next
  case False
  define x where "x = (if leap \<and> yd > 59 then yd - 1 else yd)"
  define g where "g = x div 31 + 1"
  have l: "yd \<noteq> 365 \<or> leap" using assms(3) by blast
  have x: "0 \<le> x" "x \<le> 364" "leap \<Longrightarrow> yd = (if x \<ge> 59 then x + 1 else x)" "\<not> leap \<Longrightarrow> yd = x"
    using assms(1,2) False l by (auto simp: x_def)
  have u: "month_day leap yd = ((if x \<ge> days_before (g + 1) then g + 1 else g), x - days_before (if x \<ge> days_before (g + 1) then g + 1 else g) + 1)"
    using False by (simp only: month_day_def Let_def x_def g_def if_False)
  have md: "m = (if x \<ge> days_before (g + 1) then g + 1 else g)" "day = x - days_before m + 1"
    using assms(4) by (auto simp: u)
  have gx: "31 * (g - 1) \<le> x" "x < 31 * g" by (simp_all add: g_def)
  then have "1 \<le> g" "g \<le> 12" using x(1,2) by presburger+
  then have "g = 1 \<or> g = 2 \<or> g = 3 \<or> g = 4 \<or> g = 5 \<or> g = 6 \<or> g = 7 \<or> g = 8 \<or> g = 9 \<or> g = 10 \<or> g = 11 \<or> g = 12" by presburger
  then consider "g = 1" | "g = 2" | "g = 3" | "g = 4" | "g = 5" | "g = 6" | "g = 7" | "g = 8" | "g = 9" | "g = 10" | "g = 11" | "g = 12"
    by blast
  then have "1 \<le> m \<and> m \<le> 12 \<and> 1 \<le> day \<and> day \<le> 31 \<and> (m \<ge> 3 \<longleftrightarrow> x \<ge> 59)"
    by cases (use gx x(1,2) in \<open>auto simp: md days_before_values\<close>)
  then show ?thesis using x(3,4) md(2) by (cases leap) (auto split: if_splits)
qed

lemma days_of_date_of_days: "days_of_date (date_of_days d) = d"
proof -
  obtain y yd where y: "year_day (d + epoch_day) = (y, yd)" by fastforce
  obtain m day where m: "month_day (is_leap y) yd = (m, day)" by fastforce
  note b = year_day_bounds [OF y]
  show ?thesis using month_day_bounds [OF b(1,2) b(3) m] b(4) by (simp add: date_of_days_def y m days_of_date_def)
qed

lemma date_of_days_bounds:
  assumes "date_of_days d = (y, m, day)"
  shows "1 \<le> m" "m \<le> 12" "1 \<le> day" "day \<le> 31"
proof -
  obtain y' yd where y: "year_day (d + epoch_day) = (y', yd)" by fastforce
  note b = year_day_bounds [OF y]
  have "month_day (is_leap y') yd = (m, day)" using assms by (auto simp: date_of_days_def y split: prod.splits)
  then show "1 \<le> m" "m \<le> 12" "1 \<le> day" "day \<le> 31" using month_day_bounds [OF b(1,2) b(3)] by auto
qed

section \<open>Instants and the wall clock\<close>

type_synonym instant = int
type_synonym gotime = "instant option"
type_synonym location = "int \<Rightarrow> int"

text \<open>A location gives the offset from UTC, in seconds, at a second since 1970.\<close>

abbreviation second_ns :: int where "second_ns \<equiv> 1000000000"
abbreviation minute_ns :: int where "minute_ns \<equiv> 60000000000"
abbreviation hour_ns :: int where "hour_ns \<equiv> 3600000000000"

record civil =
  civil_date :: "int \<times> int \<times> int"
  civil_weekday :: int
  civil_hour :: int
  civil_minute :: int
  civil_second :: int
  civil_nano :: int

definition civil_of_wall :: "int \<Rightarrow> int \<Rightarrow> civil" where
  "civil_of_wall w ns =
     \<lparr>civil_date = date_of_days (w div 86400), civil_weekday = (w div 86400 + 4) mod 7, civil_hour = w mod 86400 div 3600,
      civil_minute = w mod 3600 div 60, civil_second = w mod 60, civil_nano = ns\<rparr>"

definition in_location :: "location \<Rightarrow> instant \<Rightarrow> civil" where
  "in_location loc t = civil_of_wall (t div second_ns + loc (t div second_ns)) (t mod second_ns)"

text \<open>\<open>Time.Sub\<close> saturates; a quotient of integers truncates towards zero.\<close>

definition sub_time :: "instant \<Rightarrow> instant \<Rightarrow> int" where
  "sub_time t u = max (- (2 ^ 63)) (min (2 ^ 63 - 1) (t - u))"

definition go_quot :: "int \<Rightarrow> int \<Rightarrow> int" where
  "go_quot a b = (if (a < 0) = (b < 0) then \<bar>a\<bar> div \<bar>b\<bar> else - (\<bar>a\<bar> div \<bar>b\<bar>))"

definition truncate_duration :: "int \<Rightarrow> int \<Rightarrow> int" where
  "truncate_duration d m = go_quot d m * m"

lemma go_quot_nonneg [simp]: "0 \<le> a \<Longrightarrow> 0 < b \<Longrightarrow> go_quot a b = a div b"
  by (simp add: go_quot_def)

lemma go_quot_multiple [simp]: "0 < b \<Longrightarrow> go_quot (a * b) b = a"
  using nonzero_mult_div_cancel_right [of b "- a"] by (auto simp: go_quot_def abs_mult mult_less_0_iff)

lemma civil_minute_bounds: "0 \<le> civil_minute (in_location loc t)" "civil_minute (in_location loc t) \<le> 59"
  by (simp_all add: in_location_def civil_of_wall_def)

end
