(* ===== verification/Sched_Cron.thy ===== *)
theory Sched_Cron
  imports Go_Utf8 Go_Time
begin

text \<open>
  \<open>internal/scheduler/cron.go\<close>: cron schedules and the catch-up over missed occurrences, which counts the matching
  minutes of each hour window on the bit sets of the schedule.  The parser and the \<open>Next\<close> of the cron library and the
  offsets of a location are parameters.
\<close>

unbundle bit_operations_syntax

section \<open>Schedules\<close>

definition maximum_cron_expression_bytes :: nat where "maximum_cron_expression_bytes = 255"
definition maximum_catch_up_hour_windows :: int where "maximum_catch_up_hour_windows = 2 ^ 20"
definition maximum_timezone_bytes :: nat where "maximum_timezone_bytes = 255"
definition cron_star_bit :: u64 where "cron_star_bit = push_bit 63 1"

record cron_spec =
  minute_bits :: u64
  hour_bits :: u64
  dom_bits :: u64
  month_bits :: u64
  dow_bits :: u64

record cron_schedule =
  cron_expression :: string
  cron_location :: "location option"
  cron_next :: "(location \<Rightarrow> instant \<Rightarrow> gotime) option"
  cron_spec_of :: "cron_spec option"
  cron_timezone :: string

datatype cron_error =
    CronExpressionSize | CronFieldCount | CronFieldSyntax | TimezoneSize | TimezoneLoad | CronParse | CronUnsupported
  | NoNextOccurrence | ContextRequired | ContextEnded | TimesRequired | ScheduleUnavailable | NotMinuteAligned
  | RangeExceeded | DueMismatch | DidNotAdvance

definition next_time :: "cron_schedule \<Rightarrow> instant \<Rightarrow> gotime" where
  "next_time sch after = (case (cron_next sch, cron_location sch) of (Some nx, Some loc) \<Rightarrow> nx loc after | _ \<Rightarrow> None)"

definition cron_period :: "cron_schedule \<Rightarrow> instant \<Rightarrow> cron_error + int" where
  "cron_period sch claimed =
     (case next_time sch claimed of
        None \<Rightarrow> Inl NoNextOccurrence
      | Some nx \<Rightarrow> if \<not> nx > claimed then Inl NoNextOccurrence else Inr (sub_time nx claimed))"

section \<open>Parsing\<close>

definition numeric_cron_field :: "bytes \<Rightarrow> bool" where
  "numeric_cron_field f \<longleftrightarrow> f \<noteq> [] \<and> list_all (\<lambda>c. c \<in> set ''0123456789*/?,-'') f"

text \<open>\<open>strings.Fields\<close>: the words between white space.\<close>

function next_word :: "bytes \<Rightarrow> bytes \<times> bytes" where
  "next_word s =
     (if s = [] \<or> is_space (fst (decode_rune s)) then ([], s)
      else let w = snd (decode_rune s); (word, r) = next_word (drop w s) in (take w s @ word, r))"
  by pat_completeness auto
termination
  by (relation "measure length") (simp_all add: decode_rune_pos diff_less)

declare next_word.simps [simp del]

lemma next_word_length: "length (snd (next_word s)) \<le> length s"
proof (induction s rule: next_word.induct)
  case (1 s)
  show ?case
  proof (cases "s = [] \<or> is_space (fst (decode_rune s))")
    case False
    then show ?thesis using 1 [OF False refl] by (subst next_word.simps) (auto simp: Let_def split: prod.splits)
  qed (subst next_word.simps, simp)
qed

lemma trim_left_length: "length (trim_left s) \<le> length s"
proof (induction s rule: trim_left.induct)
  case (1 s)
  then show ?case by (subst trim_left.simps) (auto intro: order.trans)
qed

lemma trim_left_start: "trim_left s \<noteq> [] \<Longrightarrow> \<not> is_space (fst (decode_rune (trim_left s)))"
proof (induction s rule: trim_left.induct)
  case (1 s)
  show ?case
  proof (cases "s \<noteq> [] \<and> is_space (fst (decode_rune s))")
    case True
    then have "trim_left s = trim_left (drop (snd (decode_rune s)) s)" by (subst trim_left.simps) simp
    then show ?thesis using "1.IH" [OF True] "1.prems" by simp
  next
    case False
    then have "trim_left s = s" by (subst trim_left.simps) auto
    then show ?thesis using False "1.prems" by simp
  qed
qed

lemma next_word_progress:
  assumes "s \<noteq> []" "\<not> is_space (fst (decode_rune s))"
  shows "length (snd (next_word s)) < length s"
proof -
  have "0 < snd (decode_rune s)" using assms(1) by (rule decode_rune_pos)
  then have "length (drop (snd (decode_rune s)) s) < length s" using assms(1) by simp
  then show ?thesis using assms next_word_length [of "drop (snd (decode_rune s)) s"]
    by (subst next_word.simps) (auto simp: Let_def split: prod.splits)
qed

function split_fields :: "bytes \<Rightarrow> bytes list" where
  "split_fields s =
     (let t = trim_left s in if t = [] then [] else fst (next_word t) # split_fields (snd (next_word t)))"
  by pat_completeness auto
termination
proof (relation "measure length")
  fix s t
  assume t: "t = trim_left s" "t \<noteq> []"
  then show "(snd (next_word t), s) \<in> measure length"
    using next_word_progress [of t] trim_left_start [of s] trim_left_length [of s] by simp
qed simp

declare split_fields.simps [simp del]

text \<open>\<open>load_location\<close> and \<open>cron_parser\<close> are \<open>time.LoadLocation\<close> and the parser of the cron library, which gives a
  \<open>SpecSchedule\<close> (with its bit sets) or another kind of schedule.\<close>

definition join_fields :: "bytes list \<Rightarrow> bytes" where
  "join_fields fs = (case fs of [] \<Rightarrow> [] | f # fs' \<Rightarrow> f @ concat (map (\<lambda>g. '' '' @ g) fs'))"

definition parse_cron ::
  "(bytes \<Rightarrow> location option) \<Rightarrow> (bytes \<Rightarrow> ((location \<Rightarrow> instant \<Rightarrow> gotime) \<times> cron_spec option) option) \<Rightarrow> bytes \<Rightarrow> bytes
    \<Rightarrow> cron_error + cron_schedule" where
  "parse_cron load_location cron_parser expression timezone =
     (let expression = trim_space expression; timezone = trim_space timezone in
      if expression = [] \<or> length expression > maximum_cron_expression_bytes then Inl CronExpressionSize
      else let fields = split_fields expression in
        if length fields \<noteq> 5 then Inl CronFieldCount
        else if \<not> list_all numeric_cron_field fields then Inl CronFieldSyntax
        else if timezone = [] \<or> length timezone > maximum_timezone_bytes then Inl TimezoneSize
        else case load_location timezone of None \<Rightarrow> Inl TimezoneLoad
          | Some loc \<Rightarrow>
              (case cron_parser (join_fields fields) of None \<Rightarrow> Inl CronParse
               | Some (_, None) \<Rightarrow> Inl CronUnsupported
               | Some (nx, Some spec) \<Rightarrow>
                   Inr \<lparr>cron_expression = join_fields fields, cron_location = Some loc, cron_next = Some nx,
                        cron_spec_of = Some spec, cron_timezone = timezone\<rparr>))"

section \<open>Counting the matches of a window\<close>

definition has_bit :: "u64 \<Rightarrow> int \<Rightarrow> bool" where
  "has_bit w n \<longleftrightarrow> w AND push_bit (nat n) 1 \<noteq> 0"

definition matches_date_hour :: "cron_spec \<Rightarrow> civil \<Rightarrow> bool" where
  "matches_date_hour spec v =
     (case civil_date v of (_, month, day) \<Rightarrow>
        if \<not> has_bit (month_bits spec) month \<or> \<not> has_bit (hour_bits spec) (civil_hour v) then False
        else
          let dom_match = has_bit (dom_bits spec) day;
              dow_match = has_bit (dow_bits spec) (civil_weekday v)
          in if dom_bits spec AND cron_star_bit \<noteq> 0 \<or> dow_bits spec AND cron_star_bit \<noteq> 0
             then dom_match \<and> dow_match else dom_match \<or> dow_match)"

definition cron_matches :: "cron_spec \<Rightarrow> civil \<Rightarrow> bool" where
  "cron_matches spec v \<longleftrightarrow> civil_second v = 0 \<and> matches_date_hour spec v \<and> has_bit (minute_bits spec) (civil_minute v)"

definition minute_range_mask :: "int \<Rightarrow> int \<Rightarrow> u64" where
  "minute_range_mask first lst =
     (let upper = push_bit (nat (lst + 1)) 1 - 1; lower = push_bit (nat first) 1 - 1 in upper AND NOT lower)"

definition wall_minute :: "civil \<Rightarrow> int" where
  "wall_minute v = go_quot (days_of_date (civil_date v) * 86400 + civil_hour v * 3600 + civil_minute v * 60) 60"

text \<open>\<open>math/bits\<close>.\<close>

definition ones_count64 :: "u64 \<Rightarrow> nat" where "ones_count64 w = length (filter (bit w) [0..<64])"
definition len64 :: "u64 \<Rightarrow> nat" where "len64 w = (if w = 0 then 0 else Suc (last (filter (bit w) [0..<64])))"

function transition_loop :: "location \<Rightarrow> cron_spec \<Rightarrow> instant \<Rightarrow> instant \<Rightarrow> u64 \<Rightarrow> gotime \<Rightarrow> u64 \<times> gotime" where
  "transition_loop loc spec candidate stop count lst =
     (if candidate > stop then (count, lst)
      else if cron_matches spec (in_location loc candidate)
      then transition_loop loc spec (candidate + minute_ns) stop (count + 1) (Some candidate)
      else transition_loop loc spec (candidate + minute_ns) stop count lst)"
  by pat_completeness auto
termination by (relation "measure (\<lambda>(_, _, candidate, stop, _). nat (stop + 1 - candidate))") auto

declare transition_loop.simps [simp del]

definition count_transition_window :: "location \<Rightarrow> cron_spec \<Rightarrow> instant \<Rightarrow> instant \<Rightarrow> u64 \<times> gotime" where
  "count_transition_window loc spec start stop = transition_loop loc spec start stop 0 None"

function segment_loop :: "location \<Rightarrow> cron_spec \<Rightarrow> instant \<Rightarrow> int \<Rightarrow> u64 \<Rightarrow> gotime \<Rightarrow> u64 \<times> gotime" where
  "segment_loop loc spec cursor remaining count lst =
     (if remaining \<le> 0 then (count, lst)
      else
        let v = in_location loc cursor;
            len = min remaining (60 - civil_minute v);
            hit = minute_range_mask (civil_minute v) (civil_minute v + len - 1) AND minute_bits spec;
            last_minute = int (len64 hit) - 1;
            (count', lst') =
              (if matches_date_hour spec v
               then (count + of_nat (ones_count64 hit),
                     if hit \<noteq> 0 then Some (cursor + (last_minute - civil_minute v) * minute_ns) else lst)
               else (count, lst))
        in segment_loop loc spec (cursor + len * minute_ns) (remaining - len) count' lst')"
  by pat_completeness auto
termination
proof (relation "measure (\<lambda>(_, _, _, remaining, _). nat remaining)", goal_cases)
  case (2 loc spec cursor remaining count lst v len)
  then show ?case using civil_minute_bounds [of loc cursor] by auto
qed simp

declare segment_loop.simps [simp del]

definition count_window :: "location \<Rightarrow> cron_spec \<Rightarrow> instant \<Rightarrow> instant \<Rightarrow> u64 \<times> gotime" where
  "count_window loc spec start stop =
     (if wall_minute (in_location loc stop) - wall_minute (in_location loc start) \<noteq> go_quot (sub_time stop start) minute_ns
      then count_transition_window loc spec start stop
      else segment_loop loc spec start (go_quot (sub_time stop start) minute_ns + 1) 0 None)"

section \<open>Catching up\<close>

text \<open>\<open>ended k\<close>: the context has ended when its error is asked for the k-th time.\<close>

function catch_up_loop ::
  "location \<Rightarrow> cron_spec \<Rightarrow> (nat \<Rightarrow> bool) \<Rightarrow> nat \<Rightarrow> instant \<Rightarrow> instant \<Rightarrow> u64 \<Rightarrow> gotime \<Rightarrow> cron_error + u64 \<times> gotime" where
  "catch_up_loop loc spec ended k start last_grid occurrences latest =
     (if start > last_grid then Inr (occurrences, latest)
      else if ended k then Inl ContextEnded
      else
        let stop = (if last_grid < start + 59 * minute_ns then last_grid else start + 59 * minute_ns);
            (count, lst) = count_window loc spec start stop
        in catch_up_loop loc spec ended (k + 1) (start + hour_ns) last_grid (occurrences + count)
             (if lst \<noteq> None then lst else latest))"
  by pat_completeness auto
termination by (relation "measure (\<lambda>(_, _, _, _, start, last_grid, _). nat (last_grid + 1 - start))") auto

declare catch_up_loop.simps [simp del]

definition advance_past_context ::
  "cron_schedule \<Rightarrow> (nat \<Rightarrow> bool) option \<Rightarrow> gotime \<Rightarrow> gotime \<Rightarrow> cron_error + gotime \<times> gotime \<times> u64" where
  "advance_past_context sch ctx first_due now =
     (case ctx of None \<Rightarrow> Inl ContextRequired
      | Some ended \<Rightarrow>
          if ended 0 then Inl ContextEnded
          else case (first_due, now) of
            (Some first, Some t) \<Rightarrow>
              (case (cron_spec_of sch, cron_location sch) of
                 (Some spec, Some loc) \<Rightarrow>
                   (if first > t then Inr (None, Some first, 0)
                    else if civil_second (in_location loc first) \<noteq> 0 \<or> civil_nano (in_location loc first) \<noteq> 0
                    then Inl NotMinuteAligned
                    else
                      let last_grid = first + truncate_duration (sub_time t first) minute_ns;
                          hour_windows = go_quot (sub_time last_grid first) hour_ns + 1
                      in if hour_windows > maximum_catch_up_hour_windows then Inl RangeExceeded
                         else case catch_up_loop loc spec ended 1 first last_grid 0 None of
                             Inl e \<Rightarrow> Inl e
                           | Inr (occurrences, latest) \<Rightarrow>
                               (case latest of
                                  None \<Rightarrow> Inl DueMismatch
                                | Some l \<Rightarrow>
                                    if occurrences = 0 then Inl DueMismatch
                                    else case next_time sch l of
                                        None \<Rightarrow> Inl DidNotAdvance
                                      | Some nx \<Rightarrow>
                                          if \<not> nx > l then Inl DidNotAdvance
                                          else Inr (Some l, Some nx, occurrences - 1)))
               | _ \<Rightarrow> Inl ScheduleUnavailable)
          | _ \<Rightarrow> Inl TimesRequired)"

definition advance_past :: "cron_schedule \<Rightarrow> gotime \<Rightarrow> gotime \<Rightarrow> cron_error + gotime \<times> gotime \<times> u64" where
  "advance_past sch first_due now = advance_past_context sch (Some (\<lambda>_. False)) first_due now"

section \<open>The minutes that match\<close>

definition due :: "location \<Rightarrow> cron_spec \<Rightarrow> instant \<Rightarrow> nat \<Rightarrow> instant list" where
  "due loc spec start k = filter (\<lambda>t. cron_matches spec (in_location loc t)) (map (\<lambda>i. start + int i * minute_ns) [0..<k])"

definition tally :: "u64 \<Rightarrow> gotime \<Rightarrow> instant list \<Rightarrow> u64 \<times> gotime" where
  "tally count lst ts = (count + of_nat (length ts), if ts = [] then lst else Some (last ts))"

lemma tally_simps [simp]: "tally count lst [] = (count, lst)" "tally (count + 1) (Some t) ts = tally count lst (t # ts)"
  by (simp_all add: tally_def)

lemma tally_append: "tally count lst ts = (count', lst') \<Longrightarrow> tally count' lst' us = tally count lst (ts @ us)"
  by (auto simp: tally_def)

lemma due_0 [simp]: "due loc spec start 0 = []" by (simp add: due_def)

lemma due_append: "due loc spec start (j + k) = due loc spec start j @ due loc spec (start + int j * minute_ns) k"
proof -
  have "[0..<j + k] = [0..<j] @ map (\<lambda>i. i + j) [0..<k]" by (simp add: map_add_upt upt_add_eq_append [of 0 j k] add.commute [of k j])
  then show ?thesis by (simp add: due_def comp_def algebra_simps)
qed

lemma due_Suc:
  "due loc spec start (Suc k) =
     (if cron_matches spec (in_location loc start) then [start] else []) @ due loc spec (start + minute_ns) k"
  using due_append [of loc spec start 1 k] by (simp add: due_def)

text \<open>The number of minutes from one instant to another, both included.\<close>

definition minutes :: "instant \<Rightarrow> instant \<Rightarrow> nat" where
  "minutes start stop = nat ((stop - start) div minute_ns + 1)"

lemma minutes_step: "start \<le> stop \<Longrightarrow> minutes start stop = Suc (minutes (start + minute_ns) stop)"
proof -
  assume le: "start \<le> stop"
  have "(stop - (start + minute_ns)) div minute_ns = (stop - start) div minute_ns - 1"
    using div_mult_self1 [of "minute_ns" "stop - start" "- 1"] by (simp add: algebra_simps)
  moreover have "0 \<le> (stop - start) div minute_ns" using le by (simp add: pos_imp_zdiv_nonneg_iff)
  ultimately show ?thesis by (simp add: minutes_def)
qed

lemma minutes_none: "stop < start \<Longrightarrow> minutes start stop = 0"
  by (simp add: minutes_def)

lemma transition_loop_due:
  "transition_loop loc spec c stop count lst = tally count lst (due loc spec c (minutes c stop))"
proof (induction loc spec c stop count lst rule: transition_loop.induct)
  case (1 loc spec c stop count lst)
  then show ?case
    by (cases "c > stop") (simp_all add: transition_loop.simps [of loc spec c stop] minutes_none minutes_step due_Suc)
qed

section \<open>Bits\<close>

lemma has_bit_iff: "0 \<le> n \<Longrightarrow> n < 64 \<Longrightarrow> has_bit w n \<longleftrightarrow> bit w (nat n)"
proof -
  assume n: "0 \<le> n" "n < 64"
  have "bit (w AND push_bit (nat n) 1) k \<longleftrightarrow> k = nat n \<and> bit w k" for k
    using n by (auto simp: bit_and_iff bit_exp_iff)
  then show ?thesis unfolding has_bit_def by (metis bit_0_eq bot_apply bot_bool_def bit_eq_iff)
qed

lemma mask_bit:
  assumes "0 \<le> a" "a \<le> b + 1" "b < 63"
  shows "bit (minute_range_mask a b) n \<longleftrightarrow> nat a \<le> n \<and> n < nat (b + 1)"
proof -
  have m: "push_bit k (1 :: u64) - 1 = mask k" for k by (simp add: mask_eq_exp_minus_1 push_bit_of_1)
  show ?thesis using assms unfolding minute_range_mask_def Let_def m by (auto simp: bit_and_iff bit_not_iff bit_mask_iff)
qed

lemma hit_bits:
  fixes bits :: u64
  assumes "0 \<le> m" "0 < len" "m + len \<le> 60"
  defines "hit \<equiv> minute_range_mask m (m + len - 1) AND bits"
  shows "filter (bit hit) [0..<64] = filter (bit bits) [nat m..<nat (m + len)]"
proof -
  have b: "bit hit n \<longleftrightarrow> nat m \<le> n \<and> n < nat (m + len) \<and> bit bits n" for n
    using assms(1-3) by (auto simp: hit_def bit_and_iff mask_bit)
  define r where "r = 64 - nat (m + len)"
  have e: "64 = nat m + nat len + r" "nat (m + len) = nat m + nat len" using assms(1-3) by (simp_all add: r_def nat_add_distrib)
  have "[0..<64] = [0..<nat m] @ [nat m..<nat m + nat len] @ [nat m + nat len..<64]"
    unfolding e(1) using upt_add_eq_append [of 0 "nat m" "nat len + r"] upt_add_eq_append [of "nat m" "nat m + nat len" r]
    by (simp add: add.assoc)
  then have "[0..<64] = [0..<nat m] @ [nat m..<nat (m + len)] @ [nat (m + len)..<64]" by (simp add: e(2))
  then show ?thesis by (auto simp: b filter_empty_conv intro!: filter_cong)
qed

lemma zero_no_bits: "(w :: u64) = 0 \<longleftrightarrow> filter (bit w) [0..<64] = []"
  by (auto simp: filter_empty_conv bit_eq_iff dest: bit_imp_le_length)

section \<open>Segments of an hour\<close>

lemma civil_step:
  assumes "w mod 60 = 0" "0 \<le> i" "w mod 3600 div 60 + i < 60"
  shows "civil_of_wall (w + 60 * i) 0 = (civil_of_wall w 0)\<lparr>civil_minute := w mod 3600 div 60 + i\<rparr>"
    "civil_second (civil_of_wall w 0) = 0"
proof -
  define h m where hm: "h = w div 3600" "m = w mod 3600 div 60"
  have "w mod 3600 mod 60 = w mod 60" by (rule mod_mod_cancel) simp
  then have "w mod 3600 = 60 * m" using assms(1) hm(2) mult_div_mod_eq [of 60 "w mod 3600"] by simp
  then have w: "w = 3600 * h + 60 * m" using hm(1) mult_div_mod_eq [of 3600 w] by simp
  have m: "0 \<le> m" "m + i < 60" using assms(3) by (simp_all add: hm(2))
  have x: "x div 86400 = x div 3600 div 24" "x mod 86400 div 3600 = x div 3600 mod 24" for x :: int
    using zdiv_zmult2_eq [of 24 x 3600] zmod_zmult2_eq [of 24 x 3600] by simp_all
  have d: "(w + 60 * i) div 3600 = h" "(w + 60 * i) mod 3600 = 60 * (m + i)"
  proof -
    have r: "0 \<le> 60 * (m + i)" "60 * (m + i) < 3600" using m assms(2) by simp_all
    have e: "w + 60 * i = 60 * (m + i) + h * 3600" using w by simp
    show "(w + 60 * i) div 3600 = h" unfolding e using r by (simp only: div_mult_self1 div_pos_pos_trivial)
    show "(w + 60 * i) mod 3600 = 60 * (m + i)" unfolding e using r by (simp only: mod_mult_self1 mod_pos_pos_trivial)
  qed
  have s: "(w + 60 * i) mod 60 = 0" using assms(1) by (simp add: mod_add_eq)
  show "civil_of_wall (w + 60 * i) 0 = (civil_of_wall w 0)\<lparr>civil_minute := w mod 3600 div 60 + i\<rparr>"
    by (simp add: civil_of_wall_def x d s assms(1) hm)
  show "civil_second (civil_of_wall w 0) = 0" using assms(1) by (simp add: civil_of_wall_def)
qed

definition steady :: "location \<Rightarrow> instant \<Rightarrow> int \<Rightarrow> int \<Rightarrow> bool" where
  "steady loc cursor remaining o' \<longleftrightarrow> cursor mod second_ns = 0 \<and> (cursor div second_ns + o') mod 60 = 0
     \<and> (\<forall>i. 0 \<le> i \<longrightarrow> i < remaining \<longrightarrow> loc (cursor div second_ns + 60 * i) = o')"

lemma minute_ticks: "(c + i * minute_ns) div second_ns = c div second_ns + 60 * i" "(c + i * minute_ns) mod second_ns = c mod second_ns"
proof -
  have e: "c + i * minute_ns = c + (60 * i) * second_ns" by simp
  show "(c + i * minute_ns) div second_ns = c div second_ns + 60 * i" unfolding e by simp
  show "(c + i * minute_ns) mod second_ns = c mod second_ns" unfolding e by (rule mod_mult_self1)
qed

lemma steady_local:
  assumes "steady loc c n o'" "0 \<le> i" "i < n"
  shows "in_location loc (c + i * minute_ns) = civil_of_wall (c div second_ns + o' + 60 * i) 0"
  using assms by (simp add: in_location_def steady_def minute_ticks add.commute add.left_commute)

lemma steady_drop: "steady loc c n o' \<Longrightarrow> 0 \<le> k \<Longrightarrow> steady loc (c + k * minute_ns) (n - k) o'"
proof -
  assume s: "steady loc c n o'" and k: "0 \<le> k"
  have "(c div second_ns + 60 * k + o') mod 60 = (c div second_ns + o' + k * 60) mod 60" by (simp add: algebra_simps)
  then have "(c div second_ns + 60 * k + o') mod 60 = 0" using s by (simp add: steady_def mod_mult_self1)
  moreover have "loc (c div second_ns + 60 * k + 60 * i) = o'" if "0 \<le> i" "i < n - k" for i
  proof -
    have "\<forall>j. 0 \<le> j \<longrightarrow> j < n \<longrightarrow> loc (c div second_ns + 60 * j) = o'" using s by (simp add: steady_def)
    from spec [OF this, of "k + i"] have "loc (c div second_ns + 60 * (k + i)) = o'" using k that by linarith
    then show ?thesis by (simp add: ring_distribs add.assoc)
  qed
  ultimately show ?thesis using s by (simp add: steady_def minute_ticks)
qed

lemma due_segment:
  assumes s: "steady loc c n o'" and len: "0 < len" "len \<le> n"
    and m: "m = civil_minute (in_location loc c)" "len \<le> 60 - m"
  shows "due loc spec c (nat len) =
    (if matches_date_hour spec (in_location loc c)
     then map (\<lambda>j. c + (int j - m) * minute_ns) (filter (bit (minute_bits spec)) [nat m..<nat (m + len)]) else [])"
proof -
  define w where "w = c div second_ns + o'"
  have w: "w mod 60 = 0" using s by (simp add: steady_def w_def)
  have v: "in_location loc c = civil_of_wall w 0" using steady_local [OF s, of 0] len by (simp add: w_def)
  have mw: "m = w mod 3600 div 60" by (simp add: m(1) v civil_of_wall_def)
  have m0: "0 \<le> m" by (simp add: mw)
  have local: "in_location loc (c + int i * minute_ns) = (in_location loc c)\<lparr>civil_minute := m + int i\<rparr>" if "i < nat len" for i
    using steady_local [OF s, of "int i"] civil_step(1) [OF w, of "int i"] that len m(2) by (simp add: w_def [symmetric] v mw)
  have dh: "matches_date_hour spec (v\<lparr>civil_minute := x\<rparr>) = matches_date_hour spec v" for v x by (simp add: matches_date_hour_def)
  have match: "cron_matches spec (in_location loc (c + int i * minute_ns))
      \<longleftrightarrow> matches_date_hour spec (in_location loc c) \<and> bit (minute_bits spec) (nat m + i)" if "i < nat len" for i
  proof -
    have "has_bit (minute_bits spec) (m + int i) \<longleftrightarrow> bit (minute_bits spec) (nat m + i)"
      using has_bit_iff [of "m + int i"] that m0 m(2) by (simp add: nat_add_distrib)
    then show ?thesis using civil_step(2) [OF w, of 0] m(2) m0 len mw by (simp add: cron_matches_def local [OF that] dh v)
  qed
  have "due loc spec c (nat len) = map (\<lambda>i. c + int i * minute_ns)
      (filter (\<lambda>i. matches_date_hour spec (in_location loc c) \<and> bit (minute_bits spec) (nat m + i)) [0..<nat len])"
    unfolding due_def filter_map comp_def by (rule arg_cong [where f = "map _"], rule filter_cong) (auto simp: match)
  also have "\<dots> = (if matches_date_hour spec (in_location loc c)
      then map (\<lambda>j. c + (int j - m) * minute_ns) (filter (bit (minute_bits spec)) [nat m..<nat (m + len)]) else [])"
  proof -
    have "[nat m..<nat (m + len)] = map (\<lambda>i. nat m + i) [0..<nat len]"
      using m0 len(1) by (simp add: nat_add_distrib map_add_upt [of "nat m" "nat len", unfolded add.commute [of _ "nat m"]])
    then show ?thesis using m0 by (simp add: filter_map comp_def)
  qed
  finally show ?thesis .
qed

lemma segment_loop_due:
  "steady loc c n o' \<Longrightarrow> segment_loop loc spec c n count lst = tally count lst (due loc spec c (nat n))"
proof (induction loc spec c n count lst rule: segment_loop.induct)
  case (1 loc spec c n count lst)
  show ?case
  proof (cases "n \<le> 0")
    case True
    then show ?thesis by (simp add: segment_loop.simps [of loc spec c n])
  next
    case False
    define v where "v = in_location loc c"
    define len where "len = min n (60 - civil_minute v)"
    define hit where "hit = minute_range_mask (civil_minute v) (civil_minute v + len - 1) AND minute_bits spec"
    define m where "m = civil_minute v"
    have m: "0 \<le> m" "m \<le> 59" using civil_minute_bounds [of loc c] by (simp_all add: m_def v_def)
    have len: "0 < len" "len \<le> n" "len \<le> 60 - m" using False m by (auto simp: len_def m_def)
    have fb: "filter (bit hit) [0..<64] = filter (bit (minute_bits spec)) [nat m..<nat (m + len)]"
      unfolding hit_def m_def [symmetric] by (rule hit_bits) (use m len in auto)
    define L where "L = filter (bit (minute_bits spec)) [nat m..<nat (m + len)]"
    have h: "ones_count64 hit = length L" "hit \<noteq> 0 \<longleftrightarrow> L \<noteq> []" "L \<noteq> [] \<Longrightarrow> int (len64 hit) - 1 = int (last L)"
      using zero_no_bits [of hit] by (simp_all add: ones_count64_def len64_def fb L_def)
    define D where "D = due loc spec c (nat len)"
    have D: "D = (if matches_date_hour spec v then map (\<lambda>j. c + (int j - m) * minute_ns) L else [])"
      unfolding D_def v_def L_def by (rule due_segment [OF "1.prems" len(1,2)]) (use len(3) in \<open>simp_all add: m_def v_def\<close>)
    have step: "(if matches_date_hour spec v
               then (count + of_nat (ones_count64 hit),
                     if hit \<noteq> 0 then Some (c + (int (len64 hit) - 1 - civil_minute v) * minute_ns) else lst)
               else (count, lst)) = tally count lst D"
      using h by (auto simp: tally_def D last_map m_def)
    obtain count' lst' where t: "tally count lst D = (count', lst')" by fastforce
    have "segment_loop loc spec c n count lst = segment_loop loc spec (c + len * minute_ns) (n - len) count' lst'"
      using False by (simp only: segment_loop.simps [of loc spec c n count lst] Let_def v_def [symmetric] len_def [symmetric]
          hit_def [symmetric] step t prod.case if_False)
    also have "\<dots> = tally count' lst' (due loc spec (c + len * minute_ns) (nat (n - len)))"
      by (rule "1.IH" [OF False v_def len_def hit_def refl _ _ steady_drop [OF "1.prems"]]) (use step t len in auto)
    also have "\<dots> = tally count lst (D @ due loc spec (c + len * minute_ns) (nat (n - len)))" by (rule tally_append [OF t])
    also have "D @ due loc spec (c + len * minute_ns) (nat (n - len)) = due loc spec c (nat n)"
      using due_append [of loc spec c "nat len" "nat (n - len)"] len by (simp add: D_def nat_diff_distrib)
    finally show ?thesis .
  qed
qed

section \<open>Windows\<close>

text \<open>
  What is asked of a location from one second to a later one: its offsets have the same seconds part, as all current
  time zones do, and an offset that is the same at both ends of an hour held in between.  Other times do not matter, so
  historical local mean times behind the range, which have seconds, do no harm.
\<close>

definition offsets_ok :: "location \<Rightarrow> int \<Rightarrow> int \<Rightarrow> bool" where
  "offsets_ok loc lo hi \<longleftrightarrow> (\<forall>t. lo \<le> t \<longrightarrow> t \<le> hi \<longrightarrow> loc t mod 60 = loc lo mod 60)
     \<and> (\<forall>s t u. lo \<le> s \<longrightarrow> s \<le> t \<longrightarrow> t \<le> u \<longrightarrow> u \<le> hi \<longrightarrow> u \<le> s + 3540 \<longrightarrow> loc s = loc u \<longrightarrow> loc t = loc s)"

text \<open>An instant that begins a minute of the wall clock.\<close>

definition minute_aligned :: "location \<Rightarrow> instant \<Rightarrow> bool" where
  "minute_aligned loc t \<longleftrightarrow> civil_second (in_location loc t) = 0 \<and> civil_nano (in_location loc t) = 0"

lemma minute_aligned_iff:
  "minute_aligned loc t \<longleftrightarrow> (t div second_ns + loc (t div second_ns)) mod 60 = 0 \<and> t mod second_ns = 0"
  by (simp add: minute_aligned_def in_location_def civil_of_wall_def)

lemma offsets_ok_part: "offsets_ok loc lo hi \<Longrightarrow> lo \<le> lo' \<Longrightarrow> lo' \<le> hi \<Longrightarrow> hi' \<le> hi \<Longrightarrow> offsets_ok loc lo' hi'"
proof -
  assume ok: "offsets_ok loc lo hi" and le: "lo \<le> lo'" "lo' \<le> hi" "hi' \<le> hi"
  have m: "loc t mod 60 = loc lo mod 60" if "lo \<le> t" "t \<le> hi" for t using ok that unfolding offsets_ok_def by blast
  have h: "loc t = loc s" if "lo \<le> s" "s \<le> t" "t \<le> u" "u \<le> hi" "u \<le> s + 3540" "loc s = loc u" for s t u
    using ok that unfolding offsets_ok_def by blast
  show "offsets_ok loc lo' hi'"
    unfolding offsets_ok_def
  proof (intro conjI allI impI)
    fix t assume "lo' \<le> t" "t \<le> hi'"
    then show "loc t mod 60 = loc lo' mod 60" using m [of t] m [of lo'] le by linarith
  next
    fix s t u assume "lo' \<le> s" "s \<le> t" "t \<le> u" "u \<le> hi'" "u \<le> s + 3540" "loc s = loc u"
    then show "loc t = loc s" by (intro h [of s t u]) (use le in simp_all)
  qed
qed

lemma minute_aligned_step:
  assumes "offsets_ok loc (t div second_ns) hi" "minute_aligned loc t" "0 \<le> i" "t div second_ns + 60 * i \<le> hi"
  shows "minute_aligned loc (t + i * minute_ns)"
proof -
  define s where "s = t div second_ns"
  have "s \<le> s + 60 * i" using assms(3) by simp
  then have l: "loc (s + 60 * i) mod 60 = loc s mod 60" using assms(1,4) unfolding offsets_ok_def s_def by blast
  have "(s + 60 * i + loc (s + 60 * i)) mod 60 = (s + loc s) mod 60"
    by (rule mod_add_cong) (simp_all only: mod_mult_self2 l)
  then show ?thesis using assms(2) unfolding minute_aligned_iff minute_ticks s_def by (simp only:)
qed

lemma wall_minute_local: "wall_minute (in_location loc t) = (t div second_ns + loc (t div second_ns)) div 60"
proof -
  define w where "w = t div second_ns + loc (t div second_ns)"
  have q: "w mod 86400 div 3600 * 3600 + w mod 3600 div 60 * 60 = w mod 86400 - w mod 60"
  proof -
    have a: "w mod 86400 = w mod 86400 div 3600 * 3600 + w mod 86400 mod 3600" by simp
    have b: "w mod 86400 mod 3600 = w mod 3600" "w mod 3600 mod 60 = w mod 60" by (simp_all add: mod_mod_cancel)
    have "w mod 3600 = w mod 3600 div 60 * 60 + w mod 3600 mod 60" by simp
    then show ?thesis using a unfolding b by linarith
  qed
  have "w div 86400 * 86400 + w mod 86400 = w" "w - w mod 60 = w div 60 * 60" by (simp_all add: minus_mod_eq_div_mult)
  then have "w div 86400 * 86400 + w mod 86400 div 3600 * 3600 + w mod 3600 div 60 * 60 = w div 60 * 60" using q by linarith
  then show ?thesis
    by (simp add: wall_minute_def in_location_def w_def [symmetric] civil_of_wall_def days_of_date_of_days del: mult_div_mod_eq)
qed

lemma count_window_due:
  assumes ok: "offsets_ok loc (start div second_ns) (stop div second_ns)" and a: "minute_aligned loc start"
    and k: "stop = start + int k * minute_ns" "k \<le> 59"
  shows "count_window loc spec start stop = tally 0 None (due loc spec start (Suc k))"
proof -
  have mk: "minutes start stop = Suc k" using k(1) by (simp add: minutes_def)
  have sub: "sub_time stop start = int k * minute_ns" using k by (simp add: sub_time_def)
  define s e where se: "s = start div second_ns" "e = stop div second_ns"
  have e: "e = s + 60 * int k" using minute_ticks(1) [of start "int k"] k(1) by (simp add: se)
  have s60: "(s + loc s) mod 60 = 0" "start mod second_ns = 0" using a by (simp_all add: minute_aligned_iff se)
  show ?thesis
  proof (cases "wall_minute (in_location loc stop) - wall_minute (in_location loc start) = int k")
    case False
    then show ?thesis by (simp add: count_window_def sub count_transition_window_def transition_loop_due mk)
  next
    case True
    have "minute_aligned loc stop" unfolding k(1) by (rule minute_aligned_step [OF ok a]) (use e in \<open>simp_all add: se\<close>)
    then have "(e + loc e) mod 60 = 0" by (simp add: minute_aligned_iff se)
    then obtain x z where xz: "s + loc s = 60 * x" "e + loc e = 60 * z" using s60(1) by (auto simp: mod_eq_0_iff_dvd dvd_def)
    have "(e + loc e) div 60 - (s + loc s) div 60 = int k" using True by (simp add: wall_minute_local se)
    then have "z - x = int k" unfolding xz by simp
    then have eq: "loc s = loc e" using xz e by simp
    have "loc (s + 60 * i) = loc s" if "0 \<le> i" "i < int k + 1" for i
    proof -
      have c: "s \<le> s" "s \<le> s + 60 * i" "s + 60 * i \<le> e" "e \<le> e" "e \<le> s + 3540" using that k(2) by (simp_all add: e)
      show ?thesis using ok c eq unfolding offsets_ok_def se [symmetric] by blast
    qed
    then have "steady loc start (int k + 1) (loc s)" using s60 by (simp add: steady_def se)
    then show ?thesis using True by (simp add: count_window_def sub segment_loop_due nat_add_distrib)
  qed
qed

section \<open>The catch-up\<close>

lemma tally_join:
  "tally 0 None D = (count, lst) \<Longrightarrow> (occ + count, if lst \<noteq> None then lst else latest) = tally occ latest D"
  by (auto simp: tally_def split: if_splits)

lemma minutes_multiple: "minutes start (start + int j * minute_ns) = Suc j"
  by (simp add: minutes_def)

lemma aligned_step: "start mod minute_ns = 0 \<Longrightarrow> (start + i * minute_ns) mod minute_ns = 0"
  by (simp only: mod_mult_self1)

lemma catch_up_due:
  "\<forall>k. \<not> ended k \<Longrightarrow> (last_grid - start) mod minute_ns = 0 \<Longrightarrow>
    (start \<le> last_grid \<Longrightarrow> offsets_ok loc (start div second_ns) (last_grid div second_ns) \<and> minute_aligned loc start) \<Longrightarrow>
    catch_up_loop loc spec ended n start last_grid occ latest = Inr (tally occ latest (due loc spec start (minutes start last_grid)))"
proof (induction loc spec ended n start last_grid occ latest rule: catch_up_loop.induct)
  case (1 loc spec ended n start last_grid occ latest)
  note prems = "1.prems"
  show ?case
  proof (cases "start > last_grid")
    case True
    then show ?thesis by (simp add: catch_up_loop.simps [of loc spec ended n start] minutes_none)
  next
    case False
    have ok: "offsets_ok loc (start div second_ns) (last_grid div second_ns)" "minute_aligned loc start"
      using prems(3) False by simp_all
    have run: "\<not> ended n" using prems(1) by simp
    obtain j' where j': "last_grid - start = j' * minute_ns"
      using prems(2) by (auto simp: mod_eq_0_iff_dvd dvd_def)
    then have "0 \<le> j'" using False by simp
    then obtain j where "j' = int j" by (rule nonneg_int_cases)
    then have j: "last_grid = start + int j * minute_ns" using j' by linarith
    define k where "k = min j 59"
    define stop where "stop = (if last_grid < start + 59 * minute_ns then last_grid else start + 59 * minute_ns)"
    have k: "stop = start + int k * minute_ns" "k \<le> 59" by (auto simp: stop_def k_def j min_def)
    obtain count lst where cw: "count_window loc spec start stop = (count, lst)" by fastforce
    have D: "tally 0 None (due loc spec start (Suc k)) = (count, lst)"
    proof -
      have "stop \<le> last_grid" by (simp add: stop_def)
      then have "offsets_ok loc (start div second_ns) (stop div second_ns)"
        using offsets_ok_part [OF ok(1) order.refl] False by (simp add: zdiv_mono1)
      then show ?thesis using count_window_due [OF _ ok(2) k] cw by simp
    qed
    obtain occ' latest' where t: "tally occ latest (due loc spec start (Suc k)) = (occ', latest')" by fastforce
    have here: "occ + count = occ'" "(if lst \<noteq> None then lst else latest) = latest'"
      using tally_join [OF D, of occ latest] t by simp_all
    have hour: "start + hour_ns = start + 60 * minute_ns" by simp
    have "catch_up_loop loc spec ended n start last_grid occ latest
        = catch_up_loop loc spec ended (n + 1) (start + hour_ns) last_grid occ' latest'"
      using False run by (simp only: catch_up_loop.simps [of loc spec ended n start last_grid occ latest] Let_def stop_def [symmetric]
          cw prod.case here if_False)
    also have "\<dots> = Inr (tally occ' latest' (due loc spec (start + hour_ns) (minutes (start + hour_ns) last_grid)))"
    proof (rule "1.IH" [OF False run stop_def cw [symmetric] refl, unfolded here, OF prems(1)])
      have "(j' - 60) * minute_ns = last_grid - (start + hour_ns)" using j' by simp
      then show "(last_grid - (start + hour_ns)) mod minute_ns = 0" by (metis mod_mult_self2_is_0)
      assume le: "start + hour_ns \<le> last_grid"
      have tick: "(start + hour_ns) div second_ns = start div second_ns + 60 * 60" using minute_ticks(1) [of start 60] by simp
      have in_range: "(start + hour_ns) div second_ns \<le> last_grid div second_ns" using le by (rule zdiv_mono1) simp
      show "offsets_ok loc ((start + hour_ns) div second_ns) (last_grid div second_ns) \<and> minute_aligned loc (start + hour_ns)"
        using offsets_ok_part [OF ok(1) _ in_range order.refl] minute_aligned_step [OF ok, of 60] in_range unfolding tick by simp
    qed
    also have "\<dots> = Inr (tally occ latest (due loc spec start (Suc k) @ due loc spec (start + hour_ns) (minutes (start + hour_ns) last_grid)))"
      by (simp add: tally_append [OF t])
    also have "due loc spec start (Suc k) @ due loc spec (start + hour_ns) (minutes (start + hour_ns) last_grid)
        = due loc spec start (minutes start last_grid)"
    proof (cases "j \<le> 59")
      case True
      then have "minutes (start + hour_ns) last_grid = 0" by (intro minutes_none) (simp add: j)
      then show ?thesis using True by (simp add: k_def j minutes_multiple)
    next
      case big: False
      have l: "last_grid = (start + hour_ns) + int (j - 60) * minute_ns" using big by (simp add: j of_nat_diff)
      have "minutes (start + hour_ns) last_grid = Suc (j - 60)" unfolding l by (rule minutes_multiple)
      moreover have "minutes start last_grid = 60 + Suc (j - 60)" unfolding j minutes_multiple using big by simp
      moreover have "k = 59" using big by (simp add: k_def)
      ultimately show ?thesis using due_append [of loc spec start 60 "Suc (j - 60)"] by simp
    qed
    finally show ?thesis .
  qed
qed

lemma due_length: "length (due loc spec start k) \<le> k"
  unfolding due_def by (rule order.trans [OF length_filter_le]) simp


text \<open>What the catch-up is to compute: the latest of the matching minutes from the first due one to the present, the
  occurrence behind it, and how many were skipped.\<close>

definition catch_up_result :: "cron_schedule \<Rightarrow> instant list \<Rightarrow> cron_error + gotime \<times> gotime \<times> u64" where
  "catch_up_result sch ts =
     (if ts = [] then Inl DueMismatch
      else case next_time sch (last ts) of
          None \<Rightarrow> Inl DidNotAdvance
        | Some nx \<Rightarrow> if nx \<le> last ts then Inl DidNotAdvance else Inr (Some (last ts), Some nx, of_nat (length ts - 1)))"

lemma range_windows:
  assumes "first \<le> now"
  shows "go_quot (sub_time (first + truncate_duration (sub_time now first) minute_ns) first) hour_ns + 1 > maximum_catch_up_hour_windows
    \<longleftrightarrow> (now - first) div hour_ns + 1 > 2 ^ 20"
    and "(now - first) div hour_ns + 1 \<le> 2 ^ 20 \<Longrightarrow>
      first + truncate_duration (sub_time now first) minute_ns = first + (now - first) div minute_ns * minute_ns
      \<and> minutes first now \<le> 2 ^ 27"
proof -
  define d where "d = now - first"
  define s where "s = min (2 ^ 63 - 1) d"
  have d: "0 \<le> d" using assms by (simp add: d_def)
  have s: "sub_time now first = s" "0 \<le> s" using d by (simp_all add: sub_time_def s_def d_def)
  have t: "truncate_duration s minute_ns = s div minute_ns * minute_ns" using s(2) by (simp add: truncate_duration_def)
  define g where "g = s div minute_ns * minute_ns"
  have g: "0 \<le> g" "g \<le> s" using s(2) mult_div_mod_eq [of minute_ns s] by (simp_all add: g_def pos_imp_zdiv_nonneg_iff)
  have gs: "sub_time (first + g) first = g" using g by (simp add: sub_time_def s_def)
  have h: "g div hour_ns = s div hour_ns"
  proof -
    have e: "hour_ns = minute_ns * 60" by simp
    have "g div minute_ns = s div minute_ns" unfolding g_def by (rule nonzero_mult_div_cancel_right) simp
    then show ?thesis unfolding e by (simp only: zdiv_zmult2_eq)
  qed
  have big: "s div hour_ns + 1 > 2 ^ 20 \<longleftrightarrow> d div hour_ns + 1 > 2 ^ 20"
  proof (cases "d \<le> 2 ^ 63 - 1")
    case True
    then show ?thesis by (simp add: s_def)
  next
    case False
    have "2562047 \<le> d div hour_ns" using False zdiv_mono1 [of "2 ^ 63 - 1" d hour_ns] by simp
    then show ?thesis using False by (simp add: s_def)
  qed
  show "go_quot (sub_time (first + truncate_duration (sub_time now first) minute_ns) first) hour_ns + 1 > maximum_catch_up_hour_windows
    \<longleftrightarrow> (now - first) div hour_ns + 1 > 2 ^ 20"
    using g(1) big by (simp add: s(1) t g_def [symmetric] gs h maximum_catch_up_hour_windows_def d_def)
  assume le: "(now - first) div hour_ns + 1 \<le> 2 ^ 20"
  have "d \<le> 2 ^ 63 - 1"
  proof (rule ccontr)
    assume "\<not> d \<le> 2 ^ 63 - 1"
    then have "2562047 \<le> d div hour_ns" using zdiv_mono1 [of "2 ^ 63 - 1" d hour_ns] by simp
    then show False using le by (simp add: d_def)
  qed
  then have sd: "s = d" by (simp add: s_def)
  have "d div minute_ns < 2 ^ 27 - 1"
  proof -
    have e: "hour_ns = minute_ns * 60" by simp
    have "d div minute_ns div 60 + 1 \<le> 2 ^ 20" using le zdiv_zmult2_eq [of 60 d minute_ns] by (simp add: d_def [symmetric])
    then show ?thesis by simp
  qed
  then have "minutes first now \<le> 2 ^ 27" by (simp add: minutes_def d_def [symmetric])
  then show "first + truncate_duration (sub_time now first) minute_ns = first + (now - first) div minute_ns * minute_ns
      \<and> minutes first now \<le> 2 ^ 27"
    unfolding s(1) using t [unfolded sd] by (simp add: sd d_def)
qed


text \<open>C10: the catch-up is exact. Where the offsets of the location, between the due time and the present, keep their
  seconds part and do not change and change back within an hour, \<open>AdvancePast\<close> - which counts bits of hour windows
  where the wall clock runs evenly - answers as the walk over every minute from the due time to the present: the latest
  matching minute, its successor, and the number of matching minutes before it, and exactly the listed errors. Nothing is
  asked of the offsets outside that range; changes for daylight saving inside it are covered.\<close>

theorem catch_up_exact:
  assumes "cron_spec_of sch = Some spec" "cron_location sch = Some loc" "offsets_ok loc (first div second_ns) (now div second_ns)"
  shows "advance_past sch (Some first) (Some now) =
    (if now < first then Inr (None, Some first, 0)
     else if \<not> minute_aligned loc first then Inl NotMinuteAligned
     else if (now - first) div hour_ns + 1 > 2 ^ 20 then Inl RangeExceeded
     else catch_up_result sch (due loc spec first (minutes first now)))"
proof (cases "now < first \<or> \<not> minute_aligned loc first \<or> (now - first) div hour_ns + 1 > 2 ^ 20")
  case True
  then show ?thesis using assms(1,2) range_windows(1) [of first now]
    by (auto simp: advance_past_def advance_past_context_def minute_aligned_def Let_def)
next
  case False
  then have f: "first \<le> now" "minute_aligned loc first" "(now - first) div hour_ns + 1 \<le> 2 ^ 20" by simp_all
  define grid where "grid = first + truncate_duration (sub_time now first) minute_ns"
  note rw = range_windows(2) [OF f(1,3)]
  have g: "grid = first + (now - first) div minute_ns * minute_ns" using rw by (simp add: grid_def)
  have ga: "(grid - first) mod minute_ns = 0" by (simp add: g)
  have gn: "first \<le> grid" "grid \<le> now" using f(1) mult_div_mod_eq [of minute_ns "now - first"]
    by (simp_all add: g pos_imp_zdiv_nonneg_iff) 
  have ok: "offsets_ok loc (first div second_ns) (grid div second_ns)"
    using offsets_ok_part [OF assms(3) order.refl] gn f(1) by (simp add: zdiv_mono1)
  have mg: "minutes first grid = minutes first now" by (simp add: minutes_def g)
  define D where "D = due loc spec first (minutes first now)"
  have "catch_up_loop loc spec (\<lambda>_. False) 1 first grid 0 None = Inr (tally 0 None D)"
    using catch_up_due [of "\<lambda>_. False" grid first loc spec 1 0 None] ga ok f(2) by (simp add: mg D_def)
  moreover have "length D \<le> 2 ^ 27" using due_length [of loc spec first "minutes first now"] rw by (simp add: D_def)
  then have "of_nat (length D) = (0 :: u64) \<longleftrightarrow> D = []" by (cases "D = []") (auto simp: word_of_nat_eq_0_iff dest!: dvd_imp_le)
  moreover have "of_nat (length D) - 1 = (of_nat (length D - 1) :: u64)" if "D \<noteq> []" using that by (simp add: of_nat_diff Suc_leI)
  ultimately show ?thesis using f assms(1,2) range_windows(1) [OF f(1)]
    by (simp add: advance_past_def advance_past_context_def minute_aligned_def Let_def grid_def [symmetric] tally_def D_def [symmetric]
        catch_up_result_def not_less split: option.splits)
qed

text \<open>
  Los Angeles: local mean time until 1883, and the clock set forward at 10:00 UTC on 8 March 2026.  A schedule at minutes
  0, 58 and 59 of every hour, due at 1:58, is caught up with at 3:01 of the wall clock, three minutes later.
\<close>

definition los_angeles :: location where
  "los_angeles t = (if t < - 2717640000 then - 28378 else if t < 1772964000 then - 28800 else - 25200)"

definition turn_of_hour_spec :: cron_spec where
  "turn_of_hour_spec = \<lparr>minute_bits = 0xC00000000000001, hour_bits = -1, dom_bits = -1, month_bits = -1, dow_bits = -1\<rparr>"

lemma turn_of_hour_due:
  "due los_angeles turn_of_hour_spec 1772963880000000000 4 = [1772963880000000000, 1772963940000000000, 1772964000000000000]"
  by code_simp

lemma los_angeles_ok: "offsets_ok los_angeles 1772963880 1772964065"
  by (auto simp: offsets_ok_def los_angeles_def)

lemma los_angeles_aligned: "minute_aligned los_angeles 1772963880000000000"
  by code_simp

theorem catch_up_exact_witness:
  "\<exists>sch. advance_past sch (Some 1772963880000000000) (Some 1772964065000000000)
     = Inr (Some 1772964000000000000, Some 1772967480000000000, 2)"
proof -
  let ?sch = "\<lparr>cron_expression = ''0,58,59 * * * *'', cron_location = Some los_angeles,
    cron_next = Some (\<lambda>_ t. Some (t + 58 * minute_ns)),
    cron_spec_of = Some turn_of_hour_spec, cron_timezone = ''America/Los_Angeles''\<rparr>"
  have m: "minutes 1772963880000000000 1772964065000000000 = 4" by (simp add: minutes_def)
  have "advance_past ?sch (Some 1772963880000000000) (Some 1772964065000000000)
     = Inr (Some 1772964000000000000, Some 1772967480000000000, 2)"
    using catch_up_exact [of ?sch turn_of_hour_spec los_angeles 1772963880000000000 1772964065000000000]
    by (simp add: los_angeles_ok los_angeles_aligned m turn_of_hour_due catch_up_result_def next_time_def)
  then show ?thesis by blast
qed

text \<open>
  Behind a change of the seconds part the two ways of counting differ: the bits of the minutes do not see the seconds.  Here
  the offset gains 30 seconds at the second window, and the catch-up reports a minute that never matches.
\<close>

definition on_the_hour_spec :: cron_spec where
  "on_the_hour_spec = \<lparr>minute_bits = 1, hour_bits = -1, dom_bits = -1, month_bits = -1, dow_bits = -1\<rparr>"

definition half_minute_change :: location where
  "half_minute_change t = (if t < 3600 then 0 else 30)"

lemma window_ignores_seconds:
  "count_window half_minute_change on_the_hour_spec hour_ns hour_ns = (1, Some hour_ns)"
  "count_transition_window half_minute_change on_the_hour_spec hour_ns hour_ns = (0, None)"
  by code_simp+

lemma catch_up_ignores_seconds:
  "catch_up_loop half_minute_change on_the_hour_spec (\<lambda>_. False) 1 0 hour_ns 0 None = Inr (2, Some hour_ns)"
  "\<not> cron_matches on_the_hour_spec (in_location half_minute_change hour_ns)"
  by code_simp+

end
