(* ===== verification/Ckpt_Identity.thy ===== *)
theory Ckpt_Identity
  imports Protocol_Ids Go_Strconv Go_Time "HOL-Library.List_Lexorder" "HOL-Library.Char_ord"
begin

text \<open>
  The identities and the records of the collector's checkpoints: \<open>FileIdentity\<close> with its canonical string
  and its parser (\<open>input/input.go\<close>, \<open>input/identity.go\<close>), the digest grammar of \<open>internal/sha256hex\<close>, \<open>Checkpoint\<close>, its line cursor
  (\<open>checkpointNextLine\<close> of \<open>input/manager.go\<close>) and the invariant \<open>ValidateCheckpoint\<close>.
\<close>

section \<open>Grammars\<close>

text \<open>\<open>ValidInputID\<close> is the grammar of protocol identifiers.\<close>

definition valid_input_id :: "string \<Rightarrow> bool" where
  "valid_input_id s = valid_protocol_id s"

definition sha256_hex :: "string \<Rightarrow> bool" where
  "sha256_hex s \<longleftrightarrow> length s = 64 \<and>
     list_all (\<lambda>c. \<not> ((c < CHR ''0'' \<or> c > CHR ''9'') \<and> (c < CHR ''a'' \<or> c > CHR ''f''))) s"

section \<open>Identities\<close>

record file_identity =
  id_device :: u64
  id_inode :: u64
  id_generation :: u64
  id_fingerprint :: string
  id_fp_length :: u32

definition identity_string :: "file_identity \<Rightarrow> string" where
  "identity_string i =
     ''dev='' @ decimal (unat (id_device i)) @ '';ino='' @ decimal (unat (id_inode i)) @
     '';gen='' @ decimal (unat (id_generation i)) @ '';fp='' @ id_fingerprint i"

definition tracking_key :: "file_identity \<Rightarrow> string" where
  "tracking_key i =
     (if id_device i \<noteq> 0 \<or> id_inode i \<noteq> 0
      then ''dev='' @ decimal (unat (id_device i)) @ '';ino='' @ decimal (unat (id_inode i))
      else ''fp='' @ id_fingerprint i)"

text \<open>\<open>strings.Split\<close> on one byte.\<close>

fun split_on :: "char \<Rightarrow> string \<Rightarrow> string list" where
  "split_on sep [] = [[]]"
| "split_on sep (c # cs) =
     (if c = sep then [] # split_on sep cs
      else (c # hd (split_on sep cs)) # tl (split_on sep cs))"

datatype identity_error =
    Want_Four_Fields
  | Want_Field string
  | Parse_Number string
  | Non_Canonical_Number string
  | Generation_Not_Positive
  | Fingerprint_Not_Hex
  | Non_Canonical_Identity

text \<open>The closure \<open>parseUint\<close>: the field's prefix ends in an equals sign, which the messages drop.\<close>

definition parse_identity_number :: "string \<Rightarrow> string \<Rightarrow> identity_error + u64" where
  "parse_identity_number part pre =
     (if \<not> prefix pre part then Inl (Want_Field pre)
      else let raw = drop (length pre) part in
        case parse_uint64 raw of
          None \<Rightarrow> Inl (Parse_Number pre)
        | Some n \<Rightarrow> if decimal (unat n) \<noteq> raw then Inl (Non_Canonical_Number pre) else Inr n)"

definition parse_file_identity :: "string \<Rightarrow> identity_error + file_identity" where
  "parse_file_identity v =
     (let parts = split_on (CHR '';'') v in
      if length parts \<noteq> 4 then Inl Want_Four_Fields
      else case parse_identity_number (parts ! 0) ''dev='' of Inl e \<Rightarrow> Inl e | Inr dev \<Rightarrow>
        case parse_identity_number (parts ! 1) ''ino='' of Inl e \<Rightarrow> Inl e | Inr ino \<Rightarrow>
        case parse_identity_number (parts ! 2) ''gen='' of Inl e \<Rightarrow> Inl e | Inr gen \<Rightarrow>
        if gen = 0 then Inl Generation_Not_Positive
        else if \<not> prefix ''fp='' (parts ! 3) then Inl (Want_Field ''fp='')
        else let fp = drop 3 (parts ! 3) in
          if \<not> sha256_hex fp then Inl Fingerprint_Not_Hex
          else let i = \<lparr>id_device = dev, id_inode = ino, id_generation = gen, id_fingerprint = fp, id_fp_length = 0\<rparr>
            in if identity_string i \<noteq> v then Inl Non_Canonical_Identity else Inr i)"

text \<open>Canonical identities: the ones the parser produces.\<close>

definition canonical_identity :: "file_identity \<Rightarrow> bool" where
  "canonical_identity i \<longleftrightarrow> id_generation i \<noteq> 0 \<and> sha256_hex (id_fingerprint i)"

section \<open>Checkpoints\<close>

record checkpoint =
  cp_input :: string
  cp_identity :: file_identity
  cp_path :: string
  cp_offset :: u64
  cp_line :: u64
  cp_next_line :: u64
  cp_guard :: string
  cp_guard_length :: u32
  cp_updated :: gotime

datatype checkpoint_error =
    Bad_Input_Id
  | Bad_Identity identity_error
  | Empty_Path
  | Offset_Too_Large
  | Fingerprint_Too_Long
  | Bad_Empty_Fingerprint
  | Guard_Without_Length
  | Guard_Too_Long
  | Guard_Beyond_Offset
  | Guard_Not_Hex
  | Bad_Next_Line
  | Line_Exhausted

abbreviation max_u64 :: u64 where "max_u64 \<equiv> - 1"

definition checkpoint_next_line :: "checkpoint \<Rightarrow> bool \<Rightarrow> checkpoint_error + (u64 \<times> bool)" where
  "checkpoint_next_line cp multiline =
     (if cp_next_line cp \<noteq> 0 then
        (if cp_next_line cp = max_u64 \<or> (cp_line cp = 0 \<and> cp_next_line cp \<noteq> 1)
            \<or> (cp_line cp \<noteq> 0 \<and> cp_next_line cp \<le> cp_line cp)
         then Inl Bad_Next_Line else Inr (cp_next_line cp, True))
      else if cp_line cp = 0 then Inr (1, cp_offset cp = 0)
      else if multiline then Inr (1, False)
      else if cp_line cp \<ge> max_u64 - 1 then Inl Line_Exhausted
      else Inr (cp_line cp + 1, True))"

abbreviation maximum_fingerprint_bytes :: nat where "maximum_fingerprint_bytes \<equiv> 1048576"

definition empty_fingerprint_sha256 :: string where
  "empty_fingerprint_sha256 = ''e3b0c44298fc1c149afbf4c8996fb924'' @ ''27ae41e4649b934ca495991b7852b855''"

text \<open>\<open>ValidateCheckpoint\<close>: \<open>None\<close> is the nil error.\<close>

definition validate_checkpoint :: "checkpoint \<Rightarrow> checkpoint_error option" where
  "validate_checkpoint cp =
     (if \<not> valid_input_id (cp_input cp) then Some Bad_Input_Id
      else case parse_file_identity (identity_string (cp_identity cp)) of Inl e \<Rightarrow> Some (Bad_Identity e) | Inr _ \<Rightarrow>
        if cp_path cp = '''' then Some Empty_Path
        else if unat (cp_offset cp) > 2 ^ 63 - 1 then Some Offset_Too_Large
        else if unat (id_fp_length (cp_identity cp)) > maximum_fingerprint_bytes then Some Fingerprint_Too_Long
        else if id_fp_length (cp_identity cp) = 0
          \<and> (id_fingerprint (cp_identity cp) \<noteq> empty_fingerprint_sha256 \<or> cp_offset cp \<noteq> 0) then Some Bad_Empty_Fingerprint
        else if cp_guard_length cp = 0 \<and> cp_guard cp \<noteq> '''' then Some Guard_Without_Length
        else if cp_guard_length cp \<noteq> 0 \<and> unat (cp_guard_length cp) > maximum_fingerprint_bytes then Some Guard_Too_Long
        else if cp_guard_length cp \<noteq> 0 \<and> unat (cp_guard_length cp) > unat (cp_offset cp) then Some Guard_Beyond_Offset
        else if cp_guard_length cp \<noteq> 0 \<and> \<not> sha256_hex (cp_guard cp) then Some Guard_Not_Hex
        else case checkpoint_next_line cp False of Inl e \<Rightarrow> Some e | Inr _ \<Rightarrow> None)"

section \<open>Keys\<close>

type_synonym file_key = "string \<times> string"

definition checkpoint_key_for :: "string \<Rightarrow> file_identity \<Rightarrow> checkpoint_error + file_key" where
  "checkpoint_key_for input i =
     (if \<not> valid_input_id input then Inl Bad_Input_Id else Inr (input, tracking_key i))"

definition checkpoint_position_equal :: "checkpoint \<Rightarrow> checkpoint \<Rightarrow> bool" where
  "checkpoint_position_equal l r \<longleftrightarrow>
     cp_input l = cp_input r \<and> cp_identity l = cp_identity r \<and> cp_path l = cp_path r \<and>
     cp_offset l = cp_offset r \<and> cp_line l = cp_line r \<and> cp_next_line l = cp_next_line r \<and>
     cp_guard l = cp_guard r \<and> cp_guard_length l = cp_guard_length r"

section \<open>Parsing and printing\<close>

lemma split_on_not_Nil [simp]: "split_on sep s \<noteq> []"
  by (cases s) simp_all

lemma split_on_field: "sep \<notin> set p \<Longrightarrow> split_on sep (p @ sep # r) = p # split_on sep r"
  by (induction p) auto

lemma split_on_last: "sep \<notin> set p \<Longrightarrow> split_on sep p = [p]"
  by (induction p) auto

lemma decimal_no_separator: "CHR '';'' \<notin> set (decimal n)"
  using decimal_digits_only [of n] by (auto simp: list_all_iff is_digit_def)

lemma sha256_hex_no_separator: "sha256_hex s \<Longrightarrow> CHR '';'' \<notin> set s"
  by (auto simp: sha256_hex_def list_all_iff less_char_def)

lemma parse_uint64_decimal: "parse_uint64 (decimal (unat (w :: u64))) = Some w"
proof -
  have "unat w < 2 ^ 64" using unsigned_less [of w] by simp
  then show ?thesis using last_digit(2) [of "unat w"] decimal_digits_only [of "unat w"] by (simp add: parse_uint64_def)
qed

lemma parse_identity_number_print:
  "parse_identity_number (pre @ decimal (unat n)) pre = Inr n"
  by (simp add: parse_identity_number_def parse_uint64_decimal)

lemma identity_string_fields:
  assumes "canonical_identity i"
  shows "split_on (CHR '';'') (identity_string i) =
    [''dev='' @ decimal (unat (id_device i)), ''ino='' @ decimal (unat (id_inode i)),
     ''gen='' @ decimal (unat (id_generation i)), ''fp='' @ id_fingerprint i]"
proof -
  let ?d = "''dev='' @ decimal (unat (id_device i))" and ?i = "''ino='' @ decimal (unat (id_inode i))"
  let ?g = "''gen='' @ decimal (unat (id_generation i))" and ?f = "''fp='' @ id_fingerprint i"
  have n: "CHR '';'' \<notin> set ?d" "CHR '';'' \<notin> set ?i" "CHR '';'' \<notin> set ?g" "CHR '';'' \<notin> set ?f"
    using assms by (simp_all add: decimal_no_separator sha256_hex_no_separator canonical_identity_def)
  have "identity_string i = ?d @ CHR '';'' # ?i @ CHR '';'' # ?g @ CHR '';'' # ?f" by (simp add: identity_string_def)
  then show ?thesis by (simp only: split_on_field [OF n(1)] split_on_field [OF n(2)] split_on_field [OF n(3)] split_on_last [OF n(4)])
qed

lemma parse_identity_string:
  assumes "canonical_identity i"
  shows "parse_file_identity (identity_string i) = Inr (i\<lparr>id_fp_length := 0\<rparr>)"
proof -
  have s: "identity_string (i\<lparr>id_fp_length := 0\<rparr>) = identity_string i" by (simp add: identity_string_def)
  have r: "\<lparr>id_device = id_device i, id_inode = id_inode i, id_generation = id_generation i,
      id_fingerprint = id_fingerprint i, id_fp_length = 0\<rparr> = i\<lparr>id_fp_length := 0\<rparr>" by (cases i) simp
  show ?thesis
    using assms by (simp only: parse_file_identity_def Let_def identity_string_fields)
      (simp add: parse_identity_number_print [of "''dev=''", simplified] parse_identity_number_print [of "''ino=''", simplified]
        parse_identity_number_print [of "''gen=''", simplified] canonical_identity_def r s)
qed

lemma parse_file_identity_sound:
  assumes "parse_file_identity v = Inr i"
  shows "identity_string i = v \<and> canonical_identity i \<and> id_fp_length i = 0"
  using assms by (cases i) (auto simp: parse_file_identity_def Let_def canonical_identity_def split: sum.splits if_splits)

text \<open>Identities that print alike are the same file generation; the prefix length is not printed.\<close>

lemma field_cancel: "sep \<notin> set p \<Longrightarrow> sep \<notin> set q \<Longrightarrow> p @ sep # r = q @ sep # s \<longleftrightarrow> p = q \<and> r = s"
proof (induction p arbitrary: q)
  case (Cons a p)
  then show ?case by (cases q) auto
qed (auto simp: Cons_eq_append_conv append_eq_Cons_conv)

lemma identity_string_inj:
  "identity_string i = identity_string j \<longleftrightarrow>
     id_device i = id_device j \<and> id_inode i = id_inode j \<and> id_generation i = id_generation j \<and>
     id_fingerprint i = id_fingerprint j"
proof -
  have "identity_string i = identity_string j \<longleftrightarrow>
      decimal (unat (id_device i)) = decimal (unat (id_device j)) \<and> decimal (unat (id_inode i)) = decimal (unat (id_inode j)) \<and>
      decimal (unat (id_generation i)) = decimal (unat (id_generation j)) \<and> id_fingerprint i = id_fingerprint j"
    by (simp add: identity_string_def field_cancel decimal_no_separator)
  then show ?thesis by (simp add: decimal_inj word_unat_eq_iff)
qed

lemma tracking_key_of_string: "identity_string i = identity_string j \<Longrightarrow> tracking_key i = tracking_key j"
  by (simp add: identity_string_inj tracking_key_def)

lemma canonical_of_string: "identity_string i = identity_string j \<Longrightarrow> canonical_identity i \<longleftrightarrow> canonical_identity j"
  by (simp add: identity_string_inj canonical_identity_def)

lemma valid_canonical:
  assumes "validate_checkpoint cp = None"
  shows "canonical_identity (cp_identity cp)" "valid_input_id (cp_input cp)"
proof -
  obtain j where "parse_file_identity (identity_string (cp_identity cp)) = Inr j"
    using assms by (auto simp: validate_checkpoint_def split: if_splits sum.splits)
  then show "canonical_identity (cp_identity cp)" using parse_file_identity_sound canonical_of_string by blast
  show "valid_input_id (cp_input cp)" using assms by (auto simp: validate_checkpoint_def split: if_splits)
qed

text \<open>\<open>ParseFileIdentity\<close> (\<open>internal/collector/input/identity.go\<close>) accepts exactly the strings that
  \<open>FileIdentity.String\<close> prints for an identity with a positive generation and a canonical digest, and returns
  that identity, with no prefix length: there is one spelling per identity, and none is reinterpreted.\<close>

lemma file_identity_roundtrip:
  "parse_file_identity v = Inr i \<longleftrightarrow>
     v = identity_string i \<and> id_generation i \<noteq> 0 \<and> sha256_hex (id_fingerprint i) \<and> id_fp_length i = 0"
proof
  assume "parse_file_identity v = Inr i"
  then show "v = identity_string i \<and> id_generation i \<noteq> 0 \<and> sha256_hex (id_fingerprint i) \<and> id_fp_length i = 0"
    using parse_file_identity_sound canonical_identity_def by blast
next
  assume a: "v = identity_string i \<and> id_generation i \<noteq> 0 \<and> sha256_hex (id_fingerprint i) \<and> id_fp_length i = 0"
  then have "i\<lparr>id_fp_length := 0\<rparr> = i" by (cases i) simp
  then show "parse_file_identity v = Inr i" using a parse_identity_string [of i] by (simp add: canonical_identity_def)
qed

end
