(* ===== verification/Ckpt_Store.thy ===== *)
theory Ckpt_Store
  imports Ckpt_Identity "HOL-Library.AList" "HOL-Library.Product_Lexorder" "HOL-Library.Option_ord"
begin

text \<open>
  The in-memory half of \<open>internal/collector/input/checkpoint.go\<close>: the map from an input and a physical file to
  its checkpoint, the monotonic merge of \<open>SetMany\<close>, and the ordered snapshot that is persisted.  Go's map is an
  association list with distinct keys; where the code iterates over it the result is sorted afterwards, and
  \<open>snapshot_of_map\<close> shows that it does not depend on the iteration order.  The journal and the snapshot file behind it
  are parameters: persisting succeeds or fails.
\<close>

section \<open>Entries\<close>

type_synonym entries = "(file_key \<times> checkpoint) list"

datatype merge_error =
    Invalid_Checkpoint nat checkpoint_error
  | Next_Line_Stuck
  | Conflicting_Line
  | Conflicting_Next_Line
  | Conflicting_Guard
  | Invalid_After_Merge checkpoint_error

definition store_get :: "entries \<Rightarrow> string \<Rightarrow> file_identity \<Rightarrow> checkpoint_error + checkpoint option" where
  "store_get ents input i =
     (case checkpoint_key_for input i of Inl e \<Rightarrow> Inl e | Inr k \<Rightarrow> Inr (map_of ents k))"

text \<open>\<open>checkpointSnapshot\<close>, and with it \<open>List\<close>.\<close>

definition checkpoint_order :: "checkpoint \<Rightarrow> string \<times> string" where
  "checkpoint_order cp = (cp_input cp, identity_string (cp_identity cp))"

definition checkpoint_snapshot :: "entries \<Rightarrow> checkpoint list" where
  "checkpoint_snapshot ents = sort_key checkpoint_order (map snd ents)"

section \<open>The merge of SetMany\<close>

text \<open>The first loop: every checkpoint is validated and its key computed before anything else.\<close>

fun keyed_checkpoints :: "nat \<Rightarrow> checkpoint list \<Rightarrow> merge_error + (file_key \<times> checkpoint) list" where
  "keyed_checkpoints n [] = Inr []"
| "keyed_checkpoints n (cp # cps) =
     (case validate_checkpoint cp of Some e \<Rightarrow> Inl (Invalid_Checkpoint n e) | None \<Rightarrow>
      case checkpoint_key_for (cp_input cp) (cp_identity cp) of Inl e \<Rightarrow> Inl (Invalid_Checkpoint n e) | Inr k \<Rightarrow>
      case keyed_checkpoints (Suc n) cps of Inl e \<Rightarrow> Inl e | Inr kcs \<Rightarrow> Inr ((k, cp) # kcs))"

text \<open>
  The switch of the second loop.  \<open>Inr None\<close> is \<open>continue\<close>; otherwise the checkpoint to keep, and whether it took
  a cursor or a guard from the current one (\<open>normalized\<close>).
\<close>

abbreviation cp_generation :: "checkpoint \<Rightarrow> u64" where "cp_generation cp \<equiv> id_generation (cp_identity cp)"

definition fill_next_line :: "checkpoint \<Rightarrow> checkpoint \<Rightarrow> checkpoint" where
  "fill_next_line cur cp = (if cp_next_line cp = 0 then cp\<lparr>cp_next_line := cp_next_line cur\<rparr> else cp)"

definition fill_guard :: "checkpoint \<Rightarrow> checkpoint \<Rightarrow> checkpoint" where
  "fill_guard cur cp =
     (if cp_guard_length cp = 0 then cp\<lparr>cp_guard_length := cp_guard_length cur, cp_guard := cp_guard cur\<rparr> else cp)"

definition merge_same_offset :: "checkpoint \<Rightarrow> checkpoint \<Rightarrow> merge_error + (checkpoint \<times> bool) option" where
  "merge_same_offset cur cp =
     (if cp_line cp \<noteq> cp_line cur then Inl Conflicting_Line
      else if cp_next_line cp \<noteq> 0 \<and> cp_next_line cur \<noteq> 0 \<and> cp_next_line cp \<noteq> cp_next_line cur then Inl Conflicting_Next_Line
      else if cp_guard_length cp \<noteq> 0 \<and> cp_guard_length cur \<noteq> 0
        \<and> (cp_guard_length cp \<noteq> cp_guard_length cur \<or> cp_guard cp \<noteq> cp_guard cur) then Inl Conflicting_Guard
      else let merged = fill_guard cur (fill_next_line cur cp);
               normalized = (cp_next_line cp = 0 \<and> cp_next_line cur \<noteq> 0 \<or> cp_guard_length cp = 0 \<and> cp_guard_length cur \<noteq> 0)
        in if checkpoint_position_equal merged cur then Inr None else Inr (Some (merged, normalized)))"

definition merge_checkpoint :: "checkpoint option \<Rightarrow> checkpoint \<Rightarrow> merge_error + (checkpoint \<times> bool) option" where
  "merge_checkpoint current cp =
     (case current of None \<Rightarrow> Inr (Some (cp, False)) | Some cur \<Rightarrow>
        if cp_generation cp < cp_generation cur then Inr None
        else if cp_generation cp = cp_generation cur \<and> cp_offset cp < cp_offset cur then Inr None
        else if cp_generation cp = cp_generation cur \<and> cp_offset cp > cp_offset cur
          \<and> cp_next_line cp \<noteq> 0 \<and> cp_next_line cur \<noteq> 0 \<and> cp_next_line cp \<le> cp_next_line cur then Inl Next_Line_Stuck
        else if cp_generation cp = cp_generation cur \<and> cp_offset cp = cp_offset cur then merge_same_offset cur cp
        else Inr (Some (cp, False)))"

definition stamp :: "instant \<Rightarrow> checkpoint \<Rightarrow> checkpoint" where
  "stamp now cp = (if cp_updated cp = None then cp\<lparr>cp_updated := Some now\<rparr> else cp)"

text \<open>The second loop, over the checkpoints with their keys.\<close>

fun merge_loop :: "instant \<Rightarrow> entries \<Rightarrow> (file_key \<times> checkpoint) list \<Rightarrow> entries \<Rightarrow> merge_error + entries" where
  "merge_loop now ents [] nxt = Inr nxt"
| "merge_loop now ents ((k, cp) # kcs) nxt =
     (case merge_checkpoint (case map_of nxt k of Some c \<Rightarrow> Some c | None \<Rightarrow> map_of ents k) cp of
        Inl e \<Rightarrow> Inl e
      | Inr None \<Rightarrow> merge_loop now ents kcs nxt
      | Inr (Some (merged, normalized)) \<Rightarrow>
          (case (if normalized then validate_checkpoint merged else None) of
             Some e \<Rightarrow> Inl (Invalid_After_Merge e)
           | None \<Rightarrow> merge_loop now ents kcs (AList.update k (stamp now merged) nxt)))"

text \<open>
  The whole computation of \<open>SetMany\<close> up to the persistence call: the changed entries; \<open>changed\<close> is that they are
  not empty.
\<close>

definition merge_updates :: "instant \<Rightarrow> entries \<Rightarrow> checkpoint list \<Rightarrow> merge_error + entries" where
  "merge_updates now ents cps =
     (case keyed_checkpoints 0 cps of Inl e \<Rightarrow> Inl e | Inr kcs \<Rightarrow> merge_loop now ents kcs [])"

text \<open>\<open>maps.Copy(s.entries, next)\<close>.\<close>

definition publish :: "entries \<Rightarrow> entries \<Rightarrow> entries" where
  "publish ents nxt = AList.merge ents nxt"

section \<open>The operations of the store\<close>

text \<open>
  \<open>persistUpdates\<close> is a field of the Go struct, and so a parameter here: it is given the ordered changes and says whether
  they are durable.  So is what \<open>Delete\<close> needs to rewrite the whole store (\<open>compactCheckpointEntries\<close>).
\<close>

datatype store_error = Refused merge_error | Bad_Key checkpoint_error | Not_Persisted

record store_env =
  env_clock :: instant
  env_persists :: "checkpoint list \<Rightarrow> bool"

definition set_many :: "store_env \<Rightarrow> checkpoint list \<Rightarrow> entries \<Rightarrow> entries \<times> store_error option" where
  "set_many env cps ents =
     (if cps = [] then (ents, None)
      else case merge_updates (env_clock env) ents cps of
          Inl e \<Rightarrow> (ents, Some (Refused e))
        | Inr nxt \<Rightarrow>
            (if nxt = [] then (ents, None)
             else if env_persists env (checkpoint_snapshot nxt) then (publish ents nxt, None)
             else (ents, Some Not_Persisted)))"

definition store_set :: "store_env \<Rightarrow> checkpoint \<Rightarrow> entries \<Rightarrow> entries \<times> store_error option" where
  "store_set env cp ents = set_many env [cp] ents"

definition store_delete :: "store_env \<Rightarrow> string \<Rightarrow> file_identity \<Rightarrow> entries \<Rightarrow> entries \<times> store_error option" where
  "store_delete env input i ents =
     (case checkpoint_key_for input i of
        Inl e \<Rightarrow> (ents, Some (Bad_Key e))
      | Inr k \<Rightarrow>
          (if map_of ents k = None then (ents, None)
           else let nxt = AList.delete k ents
             in if env_persists env (checkpoint_snapshot nxt) then (nxt, None) else (ents, Some Not_Persisted)))"

section \<open>Reading a snapshot file\<close>

datatype load_error =
    Unsupported_Version
  | Invalid_Stored checkpoint_error
  | Duplicate_Stored

fun load_checkpoints :: "checkpoint list \<Rightarrow> entries \<Rightarrow> load_error + entries" where
  "load_checkpoints [] ents = Inr ents"
| "load_checkpoints (cp # cps) ents =
     (case validate_checkpoint cp of Some e \<Rightarrow> Inl (Invalid_Stored e) | None \<Rightarrow>
      case checkpoint_key_for (cp_input cp) (cp_identity cp) of Inl e \<Rightarrow> Inl (Invalid_Stored e) | Inr k \<Rightarrow>
      if map_of ents k \<noteq> None then Inl Duplicate_Stored
      else load_checkpoints cps (AList.update k cp ents))"

text \<open>\<open>load\<close> behind the JSON decoder: the version, then the checkpoints into the empty map.\<close>

definition load_document :: "int \<Rightarrow> checkpoint list \<Rightarrow> load_error + entries" where
  "load_document version cps =
     (if version \<noteq> 1 \<and> version \<noteq> 2 then Inl Unsupported_Version else load_checkpoints cps [])"

section \<open>The invariant of the map\<close>

definition entry_ok :: "file_key \<times> checkpoint \<Rightarrow> bool" where
  "entry_ok kc \<longleftrightarrow> validate_checkpoint (snd kc) = None \<and>
     checkpoint_key_for (cp_input (snd kc)) (cp_identity (snd kc)) = Inr (fst kc)"

definition entries_ok :: "entries \<Rightarrow> bool" where
  "entries_ok ents \<longleftrightarrow> distinct (map fst ents) \<and> list_all entry_ok ents"

definition key_of :: "checkpoint \<Rightarrow> file_key" where
  "key_of cp = (cp_input cp, tracking_key (cp_identity cp))"

lemma entry_ok_key: "entry_ok (k, cp) \<longleftrightarrow> validate_checkpoint cp = None \<and> k = key_of cp"
  using valid_canonical(2) by (auto simp: entry_ok_def key_of_def checkpoint_key_for_def)

lemma validate_updated [simp]: "validate_checkpoint (cp\<lparr>cp_updated := t\<rparr>) = validate_checkpoint cp"
  by (cases cp) (simp only: validate_checkpoint_def checkpoint_next_line_def checkpoint.select_convs checkpoint.update_convs)

lemma validate_stamp [simp]: "validate_checkpoint (stamp now cp) = validate_checkpoint cp"
  by (simp add: stamp_def)

lemma valid_guard: "validate_checkpoint cp = None \<Longrightarrow> cp_guard_length cp = 0 \<Longrightarrow> cp_guard cp = []"
  by (auto simp: validate_checkpoint_def split: if_splits sum.splits)

lemma stamp_simps [simp]:
  "cp_input (stamp now cp) = cp_input cp" "cp_identity (stamp now cp) = cp_identity cp" "cp_offset (stamp now cp) = cp_offset cp"
  "cp_path (stamp now cp) = cp_path cp" "key_of (stamp now cp) = key_of cp"
  by (simp_all add: stamp_def key_of_def)

lemma keyed_checkpoints_ok:
  "keyed_checkpoints n cps = Inr kcs \<Longrightarrow>
     kcs = map (\<lambda>cp. (key_of cp, cp)) cps \<and> list_all (\<lambda>cp. validate_checkpoint cp = None) cps"
  by (induction cps arbitrary: n kcs)
    (auto simp: key_of_def checkpoint_key_for_def split: option.splits sum.splits if_splits)

section \<open>The furthest position\<close>

definition cp_position :: "checkpoint \<Rightarrow> u64 \<times> u64" where
  "cp_position cp = (cp_generation cp, cp_offset cp)"

lemma position_stamp [simp]: "cp_position (stamp now cp) = cp_position cp"
  by (simp add: cp_position_def)

lemma merge_same_offset_kept:
  assumes "merge_same_offset cur cp = Inr (Some (m, b))"
  shows "key_of m = key_of cp" "cp_position m = cp_position cp" "cp_path m = cp_path cp"
    and "validate_checkpoint cp = None \<Longrightarrow> validate_checkpoint cur = None \<Longrightarrow> \<not> b \<Longrightarrow> m = cp"
  using assms valid_guard
  by (auto simp: merge_same_offset_def fill_guard_def fill_next_line_def key_of_def cp_position_def Let_def split: if_splits)

lemma merge_checkpoint_kept:
  assumes "merge_checkpoint current cp = Inr (Some (m, b))"
  shows "key_of m = key_of cp" "cp_position m = cp_position cp" "cp_path m = cp_path cp"
    and "validate_checkpoint cp = None \<Longrightarrow> (\<And>cur. current = Some cur \<Longrightarrow> validate_checkpoint cur = None) \<Longrightarrow> \<not> b \<Longrightarrow> m = cp"
  using assms by (auto simp: merge_checkpoint_def merge_same_offset_kept split: option.splits if_splits)

lemma merge_checkpoint_order:
  "merge_checkpoint (Some cur) cp = Inr None \<Longrightarrow> cp_position cp \<le> cp_position cur"
  "merge_checkpoint (Some cur) cp = Inr (Some (m, b)) \<Longrightarrow> cp_position cur \<le> cp_position cp"
  "merge_checkpoint None cp \<noteq> Inr None"
  by (auto simp: merge_checkpoint_def cp_position_def less_eq_prod_def split: if_splits)

text \<open>The abstraction: how far each file of each input has been delivered.\<close>

type_synonym progress = "file_key \<Rightarrow> (u64 \<times> u64) option"

definition progress_of :: "(file_key \<rightharpoonup> checkpoint) \<Rightarrow> progress" where
  "progress_of m k = map_option cp_position (m k)"

text \<open>The specification of an update: each file moves to the furthest of where it was and what is reported.\<close>

definition advance :: "checkpoint \<Rightarrow> progress \<Rightarrow> progress" where
  "advance cp P = P(key_of cp := max (P (key_of cp)) (Some (cp_position cp)))"

lemma progress_update: "progress_of (m(k \<mapsto> c)) = (progress_of m)(k \<mapsto> cp_position c)"
  by (auto simp: progress_of_def)

definition loop_view :: "entries \<Rightarrow> entries \<Rightarrow> file_key \<Rightarrow> checkpoint option" where
  "loop_view ents nxt = map_of ents ++ map_of nxt"

lemma loop_view_current: "(case map_of nxt k of Some c \<Rightarrow> Some c | None \<Rightarrow> map_of ents k) = loop_view ents nxt k"
  by (simp add: loop_view_def map_add_def split: option.splits)

lemma loop_view_update: "loop_view ents (AList.update k c nxt) = (loop_view ents nxt)(k \<mapsto> c)"
  by (simp add: loop_view_def update_conv')

lemma loop_view_ok: "entries_ok ents \<Longrightarrow> entries_ok nxt \<Longrightarrow> loop_view ents nxt k = Some c \<Longrightarrow> validate_checkpoint c = None \<and> k = key_of c"
  by (auto simp: loop_view_def map_add_def entries_ok_def list_all_iff simp flip: entry_ok_key dest!: map_of_SomeD split: option.splits)

lemma entries_ok_update:
  assumes "entries_ok ents" "validate_checkpoint c = None" "k = key_of c"
  shows "entries_ok (AList.update k c ents)"
proof -
  have "set (AList.update k c ents) \<subseteq> insert (k, c) (set ents)"
    by (induction ents) auto
  then show ?thesis using assms by (auto simp: entries_ok_def list_all_iff entry_ok_key distinct_update)
qed

lemma merge_loop_ok:
  assumes "entries_ok ents" "entries_ok nxt" "merge_loop now ents kcs nxt = Inr nxt'"
    and "list_all (\<lambda>kc. validate_checkpoint (snd kc) = None \<and> fst kc = key_of (snd kc)) kcs"
  shows "entries_ok nxt' \<and> progress_of (loop_view ents nxt') = fold (advance \<circ> snd) kcs (progress_of (loop_view ents nxt))"
  using assms(2-)
proof (induction kcs arbitrary: nxt)
  case (Cons kc kcs)
  obtain k cp where kc: "kc = (k, cp)" by (cases kc)
  have v: "validate_checkpoint cp = None" "k = key_of cp" using Cons.prems(3) kc by simp_all
  let ?cur = "loop_view ents nxt k"
  have cur: "\<And>c. ?cur = Some c \<Longrightarrow> validate_checkpoint c = None" using loop_view_ok [OF assms(1) Cons.prems(1)] by blast
  note loop = Cons.prems(2) [unfolded kc merge_loop.simps loop_view_current]
  show ?case
  proof (cases "merge_checkpoint ?cur cp")
    case (Inl e)
    then show ?thesis using loop by simp
  next
    case (Inr r)
    show ?thesis
    proof (cases r)
      case None
      then obtain c where c: "?cur = Some c" using Inr merge_checkpoint_order(3) by (cases ?cur) auto
      then have "cp_position cp \<le> cp_position c" using merge_checkpoint_order(1) Inr None by simp
      then have "advance cp (progress_of (loop_view ents nxt)) = progress_of (loop_view ents nxt)"
        using c v(2) by (auto simp: advance_def progress_of_def max_def less_eq_option_def split: option.splits)
      then show ?thesis using Cons.IH [of nxt] Cons.prems loop Inr None kc by simp
    next
      case (Some mb)
      obtain m b where mb: "mb = (m, b)" by (cases mb)
      note mc = Inr [unfolded Some mb]
      have vm: "validate_checkpoint m = None"
        using loop mc v(1) cur merge_checkpoint_kept(4) [OF mc] by (cases b) (auto split: option.splits)
      have km: "k = key_of (stamp now m)" using merge_checkpoint_kept(1) [OF mc] v(2) by simp
      have ok: "entries_ok (AList.update k (stamp now m) nxt)" using entries_ok_update [OF Cons.prems(1), of "stamp now m" k] vm km by simp
      have adv: "progress_of (loop_view ents (AList.update k (stamp now m) nxt)) = advance cp (progress_of (loop_view ents nxt))"
        using merge_checkpoint_kept(2) [OF mc] merge_checkpoint_order(2) [of _ cp m b] mc v(2)
        by (cases ?cur) (auto simp: advance_def loop_view_update progress_update progress_of_def max_def)
      show ?thesis using Cons.IH [OF ok] Cons.prems(3) loop mc vm kc adv by (auto split: if_splits)
    qed
  qed
qed simp

lemma merge_updates_ok:
  assumes "entries_ok ents" "merge_updates now ents cps = Inr nxt"
  shows "entries_ok nxt" "entries_ok (publish ents nxt)"
    and "progress_of (map_of (publish ents nxt)) = fold advance cps (progress_of (map_of ents))"
proof -
  obtain kcs where k: "keyed_checkpoints 0 cps = Inr kcs" and l: "merge_loop now ents kcs [] = Inr nxt"
    using assms(2) by (auto simp: merge_updates_def split: sum.splits)
  have kcs: "kcs = map (\<lambda>cp. (key_of cp, cp)) cps" "list_all (\<lambda>cp. validate_checkpoint cp = None) cps"
    using keyed_checkpoints_ok [OF k] by simp_all
  have "list_all (\<lambda>kc. validate_checkpoint (snd kc) = None \<and> fst kc = key_of (snd kc)) kcs"
    using kcs by (simp add: list_all_iff)
  note r = merge_loop_ok [OF assms(1) _ l this]
  show n: "entries_ok nxt" using r by (simp add: entries_ok_def)
  have m: "map_of (publish ents nxt) = loop_view ents nxt" by (simp add: publish_def loop_view_def merge_conv')
  have e: "loop_view ents [] = map_of ents" by (simp add: loop_view_def)
  have f: "fold (advance \<circ> snd) kcs = fold advance cps" by (simp add: kcs(1) fold_map comp_def)
  show "progress_of (map_of (publish ents nxt)) = fold advance cps (progress_of (map_of ents))"
    using r by (simp add: m e f entries_ok_def)
  have d: "distinct (map fst (publish ents nxt))" using assms(1) by (simp add: publish_def distinct_merge entries_ok_def)
  have "entry_ok kc" if "kc \<in> set (publish ents nxt)" for kc
  proof -
    obtain k c where kc: "kc = (k, c)" by (cases kc)
    then have "map_of (publish ents nxt) k = Some c" using d that by simp
    then show ?thesis using loop_view_ok [OF assms(1) n] by (simp add: m kc entry_ok_key)
  qed
  then show "entries_ok (publish ents nxt)" using d by (simp add: entries_ok_def list_all_iff)
qed

lemma entries_ok_map: "entries_ok ents \<Longrightarrow> map_of ents k = Some c \<Longrightarrow> validate_checkpoint c = None \<and> k = key_of c"
  by (auto simp: entries_ok_def list_all_iff simp flip: entry_ok_key dest: map_of_SomeD)

section \<open>Snapshots\<close>

lemma entry_of_value:
  assumes "entries_ok ents" "c \<in> set (map snd ents)"
  shows "map_of ents (key_of c) = Some c"
proof -
  obtain k where "(k, c) \<in> set ents" using assms(2) by auto
  then have "map_of ents k = Some c" using assms(1) unfolding entries_ok_def by (blast intro: map_of_is_SomeI)
  then show ?thesis using entries_ok_map [OF assms(1)] by blast
qed

lemma value_of_entry: "map_of ents k = Some c \<Longrightarrow> c \<in> set (map snd ents)"
proof -
  assume "map_of ents k = Some c"
  then have "snd (k, c) \<in> snd ` set ents" by (intro imageI map_of_SomeD)
  then show "c \<in> set (map snd ents)" by (simp only: set_map snd_conv)
qed

lemma pairs_of_values: "(k, c) \<in> set (map (\<lambda>x. (f x, x)) xs) \<longleftrightarrow> c \<in> set xs \<and> k = f c"
  by auto

lemma entries_ok_key_inj: "entries_ok ents \<Longrightarrow> inj_on key_of (set (map snd ents))"
proof (rule inj_onI)
  fix a b
  assume "entries_ok ents" "a \<in> set (map snd ents)" "b \<in> set (map snd ents)" "key_of a = key_of b"
  then have "Some a = Some b" using entry_of_value by metis
  then show "a = b" by (rule option.inject [THEN iffD1])
qed

lemma order_determines_key: "checkpoint_order a = checkpoint_order b \<Longrightarrow> key_of a = key_of b"
  unfolding checkpoint_order_def key_of_def using tracking_key_of_string by blast

lemma entries_ok_inj: "entries_ok ents \<Longrightarrow> inj_on checkpoint_order (set (map snd ents))"
  using entries_ok_key_inj order_determines_key unfolding inj_on_def by blast

lemma entries_ok_values:
  assumes "entries_ok ents"
  shows "distinct (map snd ents)"
proof -
  have "fst kc = key_of (snd kc)" if "kc \<in> set ents" for kc
    using assms that entry_ok_key [of "fst kc" "snd kc"] unfolding entries_ok_def list_all_iff by simp
  then have "map fst ents = map key_of (map snd ents)" by simp
  then show ?thesis using assms unfolding entries_ok_def by (metis distinct_map)
qed

text \<open>The snapshot depends only on the map, not on the order in which the map is walked.\<close>

lemma snapshot_of_map:
  assumes "entries_ok a" "entries_ok b" "map_of a = map_of b"
  shows "checkpoint_snapshot a = checkpoint_snapshot b"
proof -
  have vals: "set (map snd x) = ran (map_of x)" if "entries_ok x" for x :: entries
    using that by (simp add: entries_ok_def ran_distinct)
  have sets: "set (map snd a) = set (map snd b)" using assms vals by simp
  have sd: "sorted (map checkpoint_order (checkpoint_snapshot x)) \<and> distinct (map checkpoint_order (checkpoint_snapshot x))"
    if "entries_ok x" for x :: entries
  proof -
    have "distinct (checkpoint_snapshot x)" using entries_ok_values [OF that] by (simp only: checkpoint_snapshot_def distinct_sort)
    then show ?thesis using entries_ok_inj [OF that] by (simp add: distinct_map checkpoint_snapshot_def)
  qed
  have s: "set (checkpoint_snapshot x) = set (map snd x)" for x by (simp only: checkpoint_snapshot_def set_sort)
  have e: "map checkpoint_order (checkpoint_snapshot a) = map checkpoint_order (checkpoint_snapshot b)"
    by (rule sorted_distinct_set_unique) (use sd assms sets s in \<open>simp_all only: set_map\<close>)
  have "inj_on checkpoint_order (set (checkpoint_snapshot a) \<union> set (checkpoint_snapshot b))"
    using entries_ok_inj [OF assms(1)] sets by (simp only: s Un_absorb)
  then show ?thesis using map_inj_on [OF e] by blast
qed

lemma load_checkpoints_ok:
  assumes "list_all (\<lambda>cp. validate_checkpoint cp = None) cps" "distinct (map key_of cps)" "entries_ok ents"
    and "\<And>cp. cp \<in> set cps \<Longrightarrow> map_of ents (key_of cp) = None"
  shows "\<exists>ents'. load_checkpoints cps ents = Inr ents' \<and> entries_ok ents' \<and>
    map_of ents' = map_of ents ++ map_of (map (\<lambda>cp. (key_of cp, cp)) cps)"
  using assms
proof (induction cps arbitrary: ents)
  case (Cons cp cps)
  let ?e = "AList.update (key_of cp) cp ents"
  have v: "validate_checkpoint cp = None" "checkpoint_key_for (cp_input cp) (cp_identity cp) = Inr (key_of cp)"
    using Cons.prems(1) valid_canonical(2) by (auto simp: checkpoint_key_for_def key_of_def)
  have step: "load_checkpoints (cp # cps) ents = load_checkpoints cps ?e" using v Cons.prems(4) by simp
  have ok: "entries_ok ?e" using entries_ok_update [OF Cons.prems(3) v(1) refl] .
  have fresh: "map_of ?e (key_of c) = None" if "c \<in> set cps" for c
    proof -
    have "key_of c \<noteq> key_of cp" using that Cons.prems(2) by (metis distinct.simps(2) image_eqI list.set_map list.simps(9))
    then show ?thesis using that Cons.prems(4) [of c] by (simp add: update_conv')
  qed
  obtain ents' where e: "load_checkpoints cps ?e = Inr ents'" "entries_ok ents'"
      "map_of ents' = map_of ?e ++ map_of (map (\<lambda>cp. (key_of cp, cp)) cps)"
    using Cons.IH [OF _ _ ok fresh] Cons.prems(1,2) by auto
  have nd: "key_of cp \<notin> dom (map_of (map (\<lambda>cp. (key_of cp, cp)) cps))"
    using Cons.prems(2) by (auto simp: dom_map_of_conv_image_fst)
  have m: "map_of ents' = map_of ents ++ map_of (map (\<lambda>cp. (key_of cp, cp)) (cp # cps))"
    using e(3) by (simp only: update_conv' map_add_upd_left [OF nd] list.map map_of.simps fst_conv snd_conv map_add_upd)
  show ?case unfolding step using e(1,2) m by blast
qed simp

text \<open>What a store writes, the next start reads back as the same map.\<close>

lemma load_snapshot:
  assumes "entries_ok ents"
  shows "\<exists>ents'. load_document 2 (checkpoint_snapshot ents) = Inr ents' \<and> entries_ok ents' \<and> map_of ents' = map_of ents"
proof -
  let ?s = "checkpoint_snapshot ents" and ?L = "map (\<lambda>cp. (key_of cp, cp)) (checkpoint_snapshot ents)"
  have sv: "set ?s = set (map snd ents)" by (simp only: checkpoint_snapshot_def set_sort)
  have val: "list_all (\<lambda>cp. validate_checkpoint cp = None) ?s"
    unfolding list_all_iff sv using entry_of_value [OF assms] entries_ok_map [OF assms] by blast
  have "distinct ?s" using entries_ok_values [OF assms] by (simp only: checkpoint_snapshot_def distinct_sort)
  then have dist: "distinct (map key_of ?s)" using entries_ok_key_inj [OF assms] unfolding distinct_map [of key_of] sv by blast
  then have dL: "distinct (map fst ?L)" by (simp only: map_map comp_def fst_conv)
  have iff: "map_of ?L k = Some c \<longleftrightarrow> map_of ents k = Some c" for k c
  proof -
    have "map_of ?L k = Some c \<longleftrightarrow> (k, c) \<in> set ?L" by (rule map_of_eq_Some_iff [OF dL])
    also have "\<dots> \<longleftrightarrow> c \<in> set (map snd ents) \<and> k = key_of c" unfolding pairs_of_values sv ..
    also have "\<dots> \<longleftrightarrow> map_of ents k = Some c" using entry_of_value [OF assms, of c] entries_ok_map [OF assms, of k c] value_of_entry [of ents k c] by metis
    finally show ?thesis .
  qed
  have L: "map_of ?L = map_of ents"
  proof (rule ext)
    fix k show "map_of ?L k = map_of ents k"
    proof (cases "map_of ents k")
      case None
      then show ?thesis using iff [of k] by (metis not_None_eq)
    next
      case (Some c)
      then show ?thesis using iff [of k c] by (simp only:)
    qed
  qed
  have "entries_ok []" "map_of [] (key_of c) = None" for c :: checkpoint by (simp_all add: entries_ok_def)
  from load_checkpoints_ok [OF val dist this] show ?thesis unfolding L map_of.simps(1) empty_map_add by (simp add: load_document_def)
qed

section \<open>The contract of a checkpoint store\<close>

lemma advance_other [simp]: "k \<noteq> key_of cp \<Longrightarrow> advance cp P k = P k"
  by (simp add: advance_def)

lemma advance_le: "P k \<le> advance cp P k"
  by (simp add: advance_def)

lemma advance_reaches: "Some (cp_position cp) \<le> advance cp P (key_of cp)"
  by (simp add: advance_def)

lemma advance_idle: "Some (cp_position cp) \<le> P (key_of cp) \<Longrightarrow> advance cp P = P"
  by (auto simp: advance_def max_def)

lemma fold_advance_le: "P k \<le> fold advance cps P k"
proof (induction cps arbitrary: P)
  case (Cons cp cps)
  then show ?case using order.trans [OF advance_le Cons.IH] by simp
qed simp

lemma fold_advance_reaches: "cp \<in> set cps \<Longrightarrow> Some (cp_position cp) \<le> fold advance cps P (key_of cp)"
proof (induction cps arbitrary: P)
  case (Cons c cps)
  show ?case
  proof (cases "cp \<in> set cps")
    case True
    then show ?thesis using Cons.IH by simp
  next
    case False
    then have c: "c = cp" using Cons.prems by simp
    have "Some (cp_position cp) \<le> advance cp P (key_of cp)" by (rule advance_reaches)
    also have "\<dots> \<le> fold advance cps (advance cp P) (key_of cp)" by (rule fold_advance_le)
    finally show ?thesis by (simp add: c)
  qed
qed simp

text \<open>Calls of \<open>SetMany\<close>, one after the other, and the checkpoints of those that succeeded.\<close>

definition store_call ::
  "('env \<Rightarrow> checkpoint list \<Rightarrow> 's \<Rightarrow> 's \<times> store_error option) \<Rightarrow> 'env \<times> checkpoint list
     \<Rightarrow> 's \<times> checkpoint list \<Rightarrow> 's \<times> checkpoint list" where
  "store_call set_all call x =
     (case set_all (fst call) (snd call) (fst x) of (s, e) \<Rightarrow> (s, if e = None then snd x @ snd call else snd x))"

text \<open>
  \<open>ManagerCheckpointStore\<close>: the interface through which tailers and terminal delivery see checkpoints.  \<open>at\<close> is what the
  store shows for a file of an input.  Its contract: a successful call moves each file to the furthest position
  known, a refused one changes nothing that is shown.
\<close>

locale progress_store =
  fixes ok :: "'s \<Rightarrow> bool"
    and shown :: "'s \<Rightarrow> file_key \<Rightarrow> checkpoint option"
    and get :: "'s \<Rightarrow> string \<Rightarrow> file_identity \<Rightarrow> checkpoint_error + checkpoint option"
    and set_all :: "'env \<Rightarrow> checkpoint list \<Rightarrow> 's \<Rightarrow> 's \<times> store_error option"
  assumes get_shown: "ok s \<Longrightarrow> get s input i = (case checkpoint_key_for input i of Inl e \<Rightarrow> Inl e | Inr k \<Rightarrow> Inr (shown s k))"
    and shown_key: "ok s \<Longrightarrow> shown s k = Some c \<Longrightarrow> k = key_of c"
    and set_keeps: "ok s \<Longrightarrow> ok (fst (set_all env cps s))"
    and set_advances: "ok s \<Longrightarrow> snd (set_all env cps s) = None \<Longrightarrow>
      progress_of (shown (fst (set_all env cps s))) = fold advance cps (progress_of (shown s))"
    and set_refused: "ok s \<Longrightarrow> snd (set_all env cps s) = Some e \<Longrightarrow> shown (fst (set_all env cps s)) = shown s"
begin

lemma call_step:
  assumes "ok (fst x)"
  shows "ok (fst (store_call set_all call x))"
    and "\<exists>cps. snd (store_call set_all call x) = snd x @ cps \<and>
      progress_of (shown (fst (store_call set_all call x))) = fold advance cps (progress_of (shown (fst x)))"
proof -
  let ?r = "set_all (fst call) (snd call) (fst x)"
  have f: "fst (store_call set_all call x) = fst ?r" by (simp add: store_call_def split_beta)
  show "ok (fst (store_call set_all call x))" unfolding f by (rule set_keeps [OF assms])
  show "\<exists>cps. snd (store_call set_all call x) = snd x @ cps \<and>
      progress_of (shown (fst (store_call set_all call x))) = fold advance cps (progress_of (shown (fst x)))"
  proof (cases "snd ?r")
    case None
    then show ?thesis using set_advances [OF assms None] unfolding f by (simp add: store_call_def split_beta)
  next
    case (Some e)
    then show ?thesis using set_refused [OF assms Some] unfolding f by (simp add: store_call_def split_beta)
  qed
qed

lemma calls_progress:
  assumes "ok s"
  shows "ok (fst (fold (store_call set_all) calls (s, acc)))"
    and "\<exists>cps. snd (fold (store_call set_all) calls (s, acc)) = acc @ cps \<and>
      progress_of (shown (fst (fold (store_call set_all) calls (s, acc)))) = fold advance cps (progress_of (shown s))"
proof -
  have "ok (fst (fold (store_call set_all) calls x)) \<and> (\<exists>cps. snd (fold (store_call set_all) calls x) = snd x @ cps \<and>
      progress_of (shown (fst (fold (store_call set_all) calls x))) = fold advance cps (progress_of (shown (fst x))))"
    if "ok (fst x)" for x
    using that
  proof (induction calls arbitrary: x)
    case (Cons call calls)
    let ?y = "store_call set_all call x"
    note step = call_step [OF Cons.prems, of call]
    obtain a where a: "snd ?y = snd x @ a" "progress_of (shown (fst ?y)) = fold advance a (progress_of (shown (fst x)))"
      using step(2) by blast
    obtain b where b: "snd (fold (store_call set_all) calls ?y) = snd ?y @ b"
        "progress_of (shown (fst (fold (store_call set_all) calls ?y))) = fold advance b (progress_of (shown (fst ?y)))"
      using Cons.IH [OF step(1)] by blast
    have "snd (fold (store_call set_all) (call # calls) x) = snd x @ (a @ b)"
      "progress_of (shown (fst (fold (store_call set_all) (call # calls) x))) = fold advance (a @ b) (progress_of (shown (fst x)))"
      by (simp_all only: fold_Cons fold_append comp_apply a b append_assoc)
    then show ?case using Cons.IH [OF step(1)] by (intro conjI exI [of _ "a @ b"]) (simp_all only: fold_Cons comp_apply)
  next
    case Nil
    then show ?case by (intro conjI exI [of _ "[]"]) simp_all
  qed
  from this [of "(s, acc)"] assms
  show "ok (fst (fold (store_call set_all) calls (s, acc)))"
    and "\<exists>cps. snd (fold (store_call set_all) calls (s, acc)) = acc @ cps \<and>
      progress_of (shown (fst (fold (store_call set_all) calls (s, acc)))) = fold advance cps (progress_of (shown s))"
    by simp_all
qed

text \<open>After any calls, the progress is that of the successful ones together.\<close>

lemma calls_furthest:
  assumes "ok s" "fold (store_call set_all) calls (s, []) = (s', accepted)"
  shows "progress_of (shown s') = fold advance accepted (progress_of (shown s))"
  using calls_progress(2) [OF assms(1), of calls "[]"] assms(2) by auto

end

lemma set_many_effect:
  assumes "entries_ok ents"
  shows "entries_ok (fst (set_many env cps ents))"
    and "snd (set_many env cps ents) = None \<Longrightarrow>
      progress_of (map_of (fst (set_many env cps ents))) = fold advance cps (progress_of (map_of ents))"
    and "snd (set_many env cps ents) = Some e \<Longrightarrow> fst (set_many env cps ents) = ents"
proof -
  have same: "progress_of (map_of ents) = fold advance cps (progress_of (map_of ents))"
    if "merge_updates (env_clock env) ents cps = Inr []"
    using merge_updates_ok(3) [OF assms that] by (simp add: publish_def)
  show "entries_ok (fst (set_many env cps ents))"
    using assms merge_updates_ok(2) [OF assms] by (auto simp: set_many_def split: sum.split)
  show "snd (set_many env cps ents) = None \<Longrightarrow>
      progress_of (map_of (fst (set_many env cps ents))) = fold advance cps (progress_of (map_of ents))"
    using merge_updates_ok(3) [OF assms] same by (auto simp: set_many_def split: sum.splits if_splits)
  show "snd (set_many env cps ents) = Some e \<Longrightarrow> fst (set_many env cps ents) = ents"
    by (auto simp: set_many_def split: sum.splits if_splits)
qed

interpretation durable: progress_store entries_ok map_of store_get set_many
proof unfold_locales
  fix s :: entries
  assume ok: "entries_ok s"
  show "store_get s input i = (case checkpoint_key_for input i of Inl e \<Rightarrow> Inl e | Inr k \<Rightarrow> Inr (map_of s k))" for input i
    by (simp add: store_get_def)
  show "map_of s k = Some c \<Longrightarrow> k = key_of c" for k c using entries_ok_map [OF ok] by blast
  show "entries_ok (fst (set_many env cps s))" for env cps by (rule set_many_effect(1) [OF ok])
  show "snd (set_many env cps s) = None \<Longrightarrow>
      progress_of (map_of (fst (set_many env cps s))) = fold advance cps (progress_of (map_of s))" for env cps
    by (rule set_many_effect(2) [OF ok])
  show "snd (set_many env cps s) = Some e \<Longrightarrow> map_of (fst (set_many env cps s)) = map_of s" for env cps e
    using set_many_effect(3) [OF ok] by simp
qed

text \<open>C37: the checkpoint store only moves forward, and exactly as far as it is told. From a consistent store, after any calls of
  \<open>SetMany\<close>, each with its clock and the outcome of persisting, the store is consistent, and the position of every
  file, its generation and then its offset, is the furthest of the one at the start and those of the calls that
  succeeded: a delayed batch, a refused call or one that was not persisted moves nothing.\<close>

theorem checkpoint_updates_furthest:
  assumes "entries_ok ents" "fold (store_call set_many) calls (ents, []) = (ents', accepted)"
  shows "entries_ok ents' \<and> progress_of (map_of ents') = fold advance accepted (progress_of (map_of ents))"
  using durable.calls_furthest [OF assms] durable.calls_progress(1) [OF assms(1), of calls "[]"] assms(2) by simp

definition demo_identity :: file_identity where
  "demo_identity = \<lparr>id_device = 1, id_inode = 2, id_generation = 1,
     id_fingerprint = empty_fingerprint_sha256, id_fp_length = 64\<rparr>"

definition demo_checkpoint :: checkpoint where
  "demo_checkpoint = \<lparr>cp_input = ''app'', cp_identity = demo_identity, cp_path = ''/var/log/app.log'', cp_offset = 10,
     cp_line = 2, cp_next_line = 3, cp_guard = [], cp_guard_length = 0, cp_updated = Some 0\<rparr>"

definition demo_store_env :: store_env where
  "demo_store_env = \<lparr>env_clock = 7, env_persists = (\<lambda>_. True)\<rparr>"

abbreviation demo_at :: "u64 \<Rightarrow> u64 \<Rightarrow> u64 \<Rightarrow> checkpoint" where
  "demo_at off line nxt \<equiv> demo_checkpoint\<lparr>cp_offset := off, cp_line := line, cp_next_line := nxt\<rparr>"

lemma demo_identity_parses: "\<exists>i. parse_file_identity (identity_string demo_identity) = Inr i"
proof -
  have "sha256_hex empty_fingerprint_sha256" by code_simp
  then have "canonical_identity demo_identity" by (simp add: canonical_identity_def demo_identity_def)
  then show ?thesis using parse_identity_string by blast
qed

lemma demo_valid:
  assumes "unat off \<le> 2 ^ 63 - 1" "line \<noteq> 0" "line < nxt" "nxt \<noteq> max_u64"
  shows "validate_checkpoint (demo_at off line nxt) = None"
proof -
  have "valid_input_id ''app''" by code_simp
  moreover have "nxt \<noteq> 0" using assms(3) by auto
  moreover obtain i where "parse_file_identity (identity_string demo_identity) = Inr i" using demo_identity_parses by blast
  ultimately show ?thesis using assms
    by (simp add: validate_checkpoint_def checkpoint_next_line_def demo_checkpoint_def not_le) (simp add: demo_identity_def)
qed

lemma demo_keys: "checkpoint_key_for ''app'' demo_identity = Inr (key_of demo_checkpoint)" "key_of (demo_at off line nxt) = key_of demo_checkpoint"
proof -
  have "valid_input_id ''app''" by code_simp
  then show "checkpoint_key_for ''app'' demo_identity = Inr (key_of demo_checkpoint)"
    by (simp add: checkpoint_key_for_def key_of_def demo_checkpoint_def)
qed (simp add: key_of_def)

lemma demo_fields [simp]:
  "cp_input demo_checkpoint = ''app''" "cp_identity demo_checkpoint = demo_identity" "cp_guard_length demo_checkpoint = 0"
  "cp_guard demo_checkpoint = []" "cp_updated demo_checkpoint = Some 0" "id_generation demo_identity = 1"
  by (simp_all add: demo_checkpoint_def demo_identity_def)

lemma demo_merge:
  assumes "unat off \<le> 2 ^ 63 - 1" "line \<noteq> 0" "line < nxt" "nxt \<noteq> max_u64"
  shows "set_many demo_store_env [demo_at off line nxt] [(key_of demo_checkpoint, demo_at off' line' nxt')] =
    (if off < off' then ([(key_of demo_checkpoint, demo_at off' line' nxt')], None)
     else if off > off' then
       (if nxt' \<noteq> 0 \<and> nxt \<le> nxt' then ([(key_of demo_checkpoint, demo_at off' line' nxt')], Some (Refused Next_Line_Stuck))
        else ([(key_of demo_checkpoint, demo_at off line nxt)], None))
     else set_many demo_store_env [demo_at off line nxt] [(key_of demo_checkpoint, demo_at off' line' nxt')])"
proof -
  have "nxt \<noteq> 0" using assms(3) by auto
  then show ?thesis using demo_valid [OF assms]
    by (auto simp: set_many_def merge_updates_def demo_keys merge_checkpoint_def stamp_def publish_def demo_store_env_def)
qed

lemma demo_run:
  "fold (store_call set_many) [(demo_store_env, [demo_at 30 5 6]), (demo_store_env, [demo_at 20 4 5]), (demo_store_env, [demo_at 40 5 6])]
     ([(key_of demo_checkpoint, demo_at 10 2 3)], [])
   = ([(key_of demo_checkpoint, demo_at 30 5 6)], [demo_at 30 5 6, demo_at 20 4 5])"
  by (simp add: store_call_def demo_merge)

lemma demo_entries_ok: "entries_ok [(key_of demo_checkpoint, demo_at 10 2 3)]"
  using demo_valid [of 10 2 3] by (simp add: entries_ok_def entry_ok_key demo_keys)

text \<open>Of three calls from byte 10, the first moves to 30, the second is late, the third contradicts the line numbers.\<close>

theorem checkpoint_updates_furthest_witness:
  "\<exists>ents' accepted. fold (store_call set_many)
       [(demo_store_env, [demo_at 30 5 6]), (demo_store_env, [demo_at 20 4 5]), (demo_store_env, [demo_at 40 5 6])]
       ([(key_of demo_checkpoint, demo_at 10 2 3)], []) = (ents', accepted)
     \<and> length accepted = 2 \<and> entries_ok ents' \<and> progress_of (map_of ents') (key_of demo_checkpoint) = Some (1, 30)"
proof -
  have e: "fold advance [demo_at 30 5 6, demo_at 20 4 5] (progress_of (map_of [(key_of demo_checkpoint, demo_at 10 2 3)])) (key_of demo_checkpoint)
      = Some (1, 30)"
    by (simp add: advance_def demo_keys progress_of_def cp_position_def max_def less_eq_prod_def less_prod_def)
  note c = checkpoint_updates_furthest [OF demo_entries_ok demo_run]
  show ?thesis
  proof (intro exI conjI)
    show "length [demo_at 30 5 6, demo_at 20 4 5] = 2" by simp
    show "entries_ok [(key_of demo_checkpoint, demo_at 30 5 6)]" by (rule conjunct1 [OF c])
    show "progress_of (map_of [(key_of demo_checkpoint, demo_at 30 5 6)]) (key_of demo_checkpoint) = Some (1, 30)"
      by (rule trans [OF fun_cong [OF conjunct2 [OF c]] e])
  qed (rule demo_run)
qed

end
