(* ===== verification/Ckpt_Resume.thy ===== *)
theory Ckpt_Resume
  imports Ckpt_Store
begin

text \<open>
  \<open>internal/collector/checkpoint_resume.go\<close>: the view that a starting collector puts over its checkpoint store.  Batches
  still in the queue have been read from their files but not delivered; the view shows the tailers the furthest of the
  durable and these pending positions, and keeps pending positions out of the durable store.  The durable store is any
  implementation of the interface, so its operations are arguments here.  Keys are those of \<open>checkpoint_key.go\<close>.
  A write of the view takes its lock several times; here each call is one step, and two calls do not interleave.
\<close>

section \<open>The view\<close>

record 'd resume_view =
  view_durable :: 'd
  view_pending :: entries
  view_active :: bool

definition checkpoint_after :: "checkpoint \<Rightarrow> checkpoint \<Rightarrow> bool" where
  "checkpoint_after candidate current =
     (if cp_generation candidate \<noteq> cp_generation current then cp_generation candidate > cp_generation current
      else cp_offset candidate > cp_offset current)"

definition input_file_tracking_key :: "string \<Rightarrow> file_identity \<Rightarrow> file_key" where
  "input_file_tracking_key input i = (input, tracking_key i)"

fun pending_by_key :: "checkpoint list \<Rightarrow> entries \<Rightarrow> entries" where
  "pending_by_key [] m = m"
| "pending_by_key (cp # cps) m =
     (let key = input_file_tracking_key (cp_input cp) (cp_identity cp) in
      case map_of m key of
        None \<Rightarrow> pending_by_key cps (AList.update key cp m)
      | Some current \<Rightarrow> pending_by_key cps (if checkpoint_after cp current then AList.update key cp m else m))"

text \<open>Without pending positions the durable store itself is used.\<close>

definition new_checkpoint_resume_view :: "'d \<Rightarrow> checkpoint list \<Rightarrow> 'd + 'd resume_view" where
  "new_checkpoint_resume_view d pending =
     (if pending = [] then Inl d
      else Inr \<lparr>view_durable = d, view_pending = pending_by_key pending [], view_active = True\<rparr>)"

definition view_get ::
  "('d \<Rightarrow> string \<Rightarrow> file_identity \<Rightarrow> checkpoint_error + checkpoint option)
     \<Rightarrow> 'd resume_view \<Rightarrow> string \<Rightarrow> file_identity \<Rightarrow> checkpoint_error + checkpoint option" where
  "view_get get v input i =
     (if \<not> view_active v then get (view_durable v) input i
      else case get (view_durable v) input i of
          Inl e \<Rightarrow> Inl e
        | Inr found \<Rightarrow>
            (case map_of (view_pending v) (input_file_tracking_key input i) of
               None \<Rightarrow> Inr found
             | Some p \<Rightarrow>
                 (case found of
                    None \<Rightarrow> Inr (Some p)
                  | Some d \<Rightarrow> if checkpoint_after p d then Inr (Some p) else Inr (Some d))))"

definition suppress_pending_mutation ::
  "('d \<Rightarrow> string \<Rightarrow> file_identity \<Rightarrow> checkpoint_error + checkpoint option)
     \<Rightarrow> 'd resume_view \<Rightarrow> checkpoint \<Rightarrow> checkpoint_error + bool" where
  "suppress_pending_mutation get v cp =
     (if \<not> view_active v then Inr False
      else case map_of (view_pending v) (input_file_tracking_key (cp_input cp) (cp_identity cp)) of
          None \<Rightarrow> Inr False
        | Some p \<Rightarrow>
            if cp_generation cp \<noteq> cp_generation p \<or> cp_offset cp > cp_offset p then Inr False
            else case get (view_durable v) (cp_input cp) (cp_identity cp) of
                Inl e \<Rightarrow> Inl e
              | Inr None \<Rightarrow> Inr True
              | Inr (Some d) \<Rightarrow> Inr (checkpoint_after p d))"

fun filter_pending ::
  "('d \<Rightarrow> string \<Rightarrow> file_identity \<Rightarrow> checkpoint_error + checkpoint option)
     \<Rightarrow> 'd resume_view \<Rightarrow> checkpoint list \<Rightarrow> checkpoint_error + checkpoint list" where
  "filter_pending get v [] = Inr []"
| "filter_pending get v (cp # cps) =
     (case suppress_pending_mutation get v cp of Inl e \<Rightarrow> Inl e
      | Inr suppress \<Rightarrow>
          (case filter_pending get v cps of Inl e \<Rightarrow> Inl e
           | Inr kept \<Rightarrow> Inr (if suppress then kept else cp # kept)))"

fun prune_keys :: "checkpoint list \<Rightarrow> entries \<Rightarrow> entries" where
  "prune_keys [] m = m"
| "prune_keys (cp # cps) m =
     (let key = input_file_tracking_key (cp_input cp) (cp_identity cp) in
      case map_of m key of
        None \<Rightarrow> prune_keys cps m
      | Some p \<Rightarrow> prune_keys cps (if \<not> checkpoint_after p cp then AList.delete key m else m))"

definition prune_covered :: "checkpoint list \<Rightarrow> 'd resume_view \<Rightarrow> 'd resume_view" where
  "prune_covered cps v =
     (if cps = [] \<or> \<not> view_active v then v
      else let left = prune_keys cps (view_pending v)
        in if left = [] then v\<lparr>view_pending := [], view_active := False\<rparr> else v\<lparr>view_pending := left\<rparr>)"

definition view_set_many ::
  "('d \<Rightarrow> string \<Rightarrow> file_identity \<Rightarrow> checkpoint_error + checkpoint option)
     \<Rightarrow> ('env \<Rightarrow> checkpoint list \<Rightarrow> 'd \<Rightarrow> 'd \<times> store_error option)
     \<Rightarrow> 'env \<Rightarrow> checkpoint list \<Rightarrow> 'd resume_view \<Rightarrow> 'd resume_view \<times> store_error option" where
  "view_set_many get set_all env cps v =
     (if cps = [] then (v, None)
      else if \<not> view_active v then
        (case set_all env cps (view_durable v) of (d, e) \<Rightarrow> (v\<lparr>view_durable := d\<rparr>, e))
      else case filter_pending get v cps of
          Inl e \<Rightarrow> (v, Some (Bad_Key e))
        | Inr kept \<Rightarrow>
            (case set_all env kept (view_durable v) of
               (d, Some e) \<Rightarrow> (v\<lparr>view_durable := d\<rparr>, Some e)
             | (d, None) \<Rightarrow> (prune_covered kept (v\<lparr>view_durable := d\<rparr>), None)))"

definition view_set where
  "view_set get set_all env cp v = view_set_many get set_all env [cp] v"

text \<open>
  Terminal delivery goes past the view: the callback \<open>OnTerminalMarks\<close> of \<open>daemon.go\<close> commits the checkpoints of the
  acknowledged batches to the durable store and then prunes the view.  Their reconstruction from the marks
  (\<open>sourceCheckpointsFromWAL\<close>) is not modelled; its result is the argument here.
\<close>

definition terminal_commit ::
  "('env \<Rightarrow> checkpoint list \<Rightarrow> 'd \<Rightarrow> 'd \<times> store_error option)
     \<Rightarrow> 'env \<Rightarrow> checkpoint list \<Rightarrow> 'd resume_view \<Rightarrow> 'd resume_view \<times> store_error option" where
  "terminal_commit set_all env cps v =
     (case set_all env cps (view_durable v) of
        (d, Some e) \<Rightarrow> (v\<lparr>view_durable := d\<rparr>, Some e)
      | (d, None) \<Rightarrow> (prune_covered cps (v\<lparr>view_durable := d\<rparr>), None))"

text \<open>Both ways to write, chosen by a flag.\<close>

definition view_write where
  "view_write get set_all env cps v =
     (if snd env then terminal_commit set_all (fst env) cps v else view_set_many get set_all (fst env) cps v)"

section \<open>What the view shows\<close>

lemma tracking_key_of [simp]: "input_file_tracking_key (cp_input cp) (cp_identity cp) = key_of cp"
  by (simp add: input_file_tracking_key_def key_of_def)

lemma after_iff: "checkpoint_after c d \<longleftrightarrow> cp_position d < cp_position c"
  by (auto simp: checkpoint_after_def cp_position_def less_prod_def)

definition furthest_of :: "checkpoint option \<Rightarrow> checkpoint option \<Rightarrow> checkpoint option" where
  "furthest_of d p =
     (case p of None \<Rightarrow> d | Some p' \<Rightarrow> (case d of None \<Rightarrow> p | Some d' \<Rightarrow> if checkpoint_after p' d' then p else d))"

definition view_shown :: "('d \<Rightarrow> file_key \<Rightarrow> checkpoint option) \<Rightarrow> 'd resume_view \<Rightarrow> file_key \<Rightarrow> checkpoint option" where
  "view_shown shown v k = furthest_of (shown (view_durable v) k) (map_of (view_pending v) k)"

definition keyed :: "(file_key \<Rightarrow> checkpoint option) \<Rightarrow> bool" where
  "keyed m \<longleftrightarrow> (\<forall>k c. m k = Some c \<longrightarrow> k = key_of c)"

lemma keyedD: "keyed m \<Longrightarrow> m k = Some c \<Longrightarrow> k = key_of c"
  unfolding keyed_def by blast

lemma keyedI: "(\<And>k c. m k = Some c \<Longrightarrow> k = key_of c) \<Longrightarrow> keyed m"
  unfolding keyed_def by blast

lemma keyed_update: "keyed (map_of m) \<Longrightarrow> keyed (map_of (AList.update (key_of cp) cp m))"
  by (rule keyedI) (simp add: update_conv' keyedD split: if_splits)

definition view_ok :: "('d \<Rightarrow> bool) \<Rightarrow> 'd resume_view \<Rightarrow> bool" where
  "view_ok ok v \<longleftrightarrow> ok (view_durable v) \<and> keyed (map_of (view_pending v))
     \<and> (\<not> view_active v \<longrightarrow> view_pending v = [])"

text \<open>Progress joins pointwise, and an update passes over a join.\<close>

definition join :: "progress \<Rightarrow> progress \<Rightarrow> progress" where
  "join P Q k = max (P k) (Q k)"

lemma progress_furthest: "map_option cp_position (furthest_of d p) = max (map_option cp_position d) (map_option cp_position p)"
  by (cases d; cases p) (auto simp: furthest_of_def after_iff max_def less_eq_option_def)

lemma progress_shown:
  "progress_of (view_shown shown v) = join (progress_of (shown (view_durable v))) (progress_of (map_of (view_pending v)))"
  by (rule ext) (simp add: progress_of_def view_shown_def join_def progress_furthest)

lemma max_swap: "max (max p q) a = max (max p a) (q :: 'a :: linorder)"
  by (simp only: max.assoc max.commute [of q a])

lemma advance_join: "advance cp (join P Q) = join (advance cp P) Q"
proof (rule ext)
  fix k show "advance cp (join P Q) k = join (advance cp P) Q k"
    by (cases "k = key_of cp") (simp_all only: advance_def join_def fun_upd_apply simp_thms if_True if_False max_swap [of "P k" "Q k"] max_swap [of "P (key_of cp)" "Q (key_of cp)"])
qed

lemma fold_advance_join: "fold advance cps (join P Q) = join (fold advance cps P) Q"
  by (induction cps arbitrary: P) (simp_all add: advance_join)

lemma join_le1: "P k \<le> join P Q k" and join_le2: "Q k \<le> join P Q k"
  by (simp_all add: join_def)

lemma prune_keys_shrinks:
  "map_of (prune_keys cps m) k = map_of m k
   \<or> (map_of (prune_keys cps m) k = None \<and> (\<exists>c \<in> set cps. \<exists>p. map_of m k = Some p \<and> key_of c = k \<and> cp_position p \<le> cp_position c))"
proof (induction cps arbitrary: m)
  case (Cons cp cps)
  show ?case
  proof (cases "map_of m (key_of cp)")
    case None
    then show ?thesis using Cons.IH [of m] by auto
  next
    case (Some p)
    show ?thesis
    proof (cases "checkpoint_after p cp")
      case True
      then show ?thesis using Cons.IH [of m] Some by auto
    next
      case False
      then have le: "cp_position p \<le> cp_position cp" by (simp add: after_iff not_less)
      show ?thesis using Cons.IH [of "AList.delete (key_of cp) m"] Some False le
        by (cases "k = key_of cp") (auto simp: delete_conv')
    qed
  qed
qed simp

lemma pending_by_key_ok:
  "keyed (map_of m) \<Longrightarrow> keyed (map_of (pending_by_key cps m))
     \<and> progress_of (map_of (pending_by_key cps m)) = fold advance cps (progress_of (map_of m))"
proof (induction cps arbitrary: m)
  case (Cons cp cps)
  note upd = keyed_update [OF Cons.prems, of cp]
  have pu: "progress_of (map_of (AList.update (key_of cp) cp m)) = (progress_of (map_of m))(key_of cp \<mapsto> cp_position cp)"
    by (simp add: update_conv' progress_update)
  show ?case
  proof (cases "map_of m (key_of cp)")
    case None
    then have "advance cp (progress_of (map_of m)) = (progress_of (map_of m))(key_of cp \<mapsto> cp_position cp)"
      by (simp add: advance_def progress_of_def)
    then show ?thesis using Cons.IH [OF upd, unfolded pu] None by (simp del: fun_upd_apply)
  next
    case (Some c)
    show ?thesis
    proof (cases "checkpoint_after cp c")
      case True
      then have "advance cp (progress_of (map_of m)) = (progress_of (map_of m))(key_of cp \<mapsto> cp_position cp)"
        using Some by (simp add: advance_def progress_of_def after_iff max_absorb2 less_imp_le)
      then show ?thesis using Cons.IH [OF upd, unfolded pu] Some True by (simp del: fun_upd_apply)
    next
      case False
      then have "advance cp (progress_of (map_of m)) = progress_of (map_of m)"
        using Some by (intro advance_idle) (simp add: progress_of_def after_iff not_less)
      then show ?thesis using Cons.IH [OF Cons.prems] Some False by simp
    qed
  qed
qed simp

section \<open>The view keeps the contract\<close>

text \<open>A suppressed checkpoint is already covered by a pending position.\<close>

lemma filter_pending_covered:
  assumes "filter_pending get v cps = Inr kept"
    and "\<And>k. progress_of (map_of (view_pending v)) k \<le> P k"
  shows "fold advance kept P = fold advance cps P"
  using assms
proof (induction cps arbitrary: P kept)
  case (Cons cp cps)
  obtain b where b: "suppress_pending_mutation get v cp = Inr b" using Cons.prems(1) by (cases "suppress_pending_mutation get v cp") auto
  obtain ks where ks: "filter_pending get v cps = Inr ks" using Cons.prems(1) b by (cases "filter_pending get v cps") auto
  have kept: "kept = (if b then ks else cp # ks)" using Cons.prems(1) b ks by simp
  have up: "progress_of (map_of (view_pending v)) k \<le> advance cp P k" for k
    using order.trans [OF Cons.prems(2) advance_le] .
  show ?case
  proof (cases b)
    case True
    then obtain p where p: "map_of (view_pending v) (key_of cp) = Some p" "cp_generation cp = cp_generation p" "cp_offset cp \<le> cp_offset p"
      using b by (auto simp: suppress_pending_mutation_def not_less split: if_splits option.splits)
    then have "Some (cp_position cp) \<le> progress_of (map_of (view_pending v)) (key_of cp)"
      by (simp add: progress_of_def cp_position_def)
    then have "advance cp P = P" using order.trans [OF _ Cons.prems(2)] by (intro advance_idle)
    then show ?thesis using Cons.IH [OF ks Cons.prems(2)] True kept by simp
  next
    case False
    then show ?thesis using Cons.IH [OF ks up] kept by simp
  qed
qed simp

text \<open>Pruning drops only pending positions that the store has reached.\<close>

lemma join_pruned:
  assumes "\<And>c. c \<in> set cps \<Longrightarrow> Some (cp_position c) \<le> P (key_of c)"
  shows "join P (progress_of (map_of (prune_keys cps m))) = join P (progress_of (map_of m))"
proof (rule ext)
  fix k
  have "\<exists>p. map_of m k = Some p \<and> Some (cp_position p) \<le> P k"
    if "map_of m k = Some p" "c \<in> set cps" "key_of c = k" "cp_position p \<le> cp_position c" for c p
    using that order.trans [of "Some (cp_position p)" "Some (cp_position c)" "P k"] assms [OF that(2)] by auto
  then show "join P (progress_of (map_of (prune_keys cps m))) k = join P (progress_of (map_of m)) k"
    using prune_keys_shrinks [of cps m k] by (auto simp: join_def progress_of_def max_absorb1)
qed

lemma prune_covered_simps:
  "view_durable (prune_covered cps v) = view_durable v"
  "view_active v \<Longrightarrow> map_of (view_pending (prune_covered cps v)) = map_of (prune_keys cps (view_pending v))"
  by (simp_all add: prune_covered_def Let_def)

lemma pruned_shows_same:
  assumes "\<And>c. c \<in> set cps \<Longrightarrow> Some (cp_position c) \<le> progress_of (shown (view_durable v)) (key_of c)"
  shows "progress_of (view_shown shown (prune_covered cps v)) = progress_of (view_shown shown v)"
proof (cases "view_active v")
  case True
  then show ?thesis using join_pruned [of cps "progress_of (shown (view_durable v))" "view_pending v"] assms
    by (simp add: progress_shown prune_covered_simps)
qed (simp add: prune_covered_def)

lemma view_ok_prune:
  assumes "view_ok ok v"
  shows "view_ok ok (prune_covered cps v)"
proof -
  have kd: "keyed (map_of (view_pending v))" using assms by (simp add: view_ok_def)
  have "keyed (map_of (prune_keys cps (view_pending v)))"
  proof (rule keyedI)
    fix k c assume "map_of (prune_keys cps (view_pending v)) k = Some c"
    then have "map_of (view_pending v) k = Some c" using prune_keys_shrinks [of cps "view_pending v" k] by simp
    then show "k = key_of c" by (rule keyedD [OF kd])
  qed
  then show ?thesis using assms by (simp add: view_ok_def prune_covered_def keyed_def [of "\<lambda>_. None"] Let_def)
qed

text \<open>Held back: a position at or below the pending one of its file, in the same generation.\<close>

definition held_back :: "progress \<Rightarrow> checkpoint \<Rightarrow> bool" where
  "held_back Q cp \<longleftrightarrow>
     (case Q (key_of cp) of None \<Rightarrow> False | Some (g, off) \<Rightarrow> cp_generation cp = g \<and> cp_offset cp \<le> off)"

lemma held_back_le: "held_back Q cp \<Longrightarrow> Some (cp_position cp) \<le> Q (key_of cp)"
  by (auto simp: held_back_def cp_position_def split: option.splits)

definition pending_left :: "('d \<Rightarrow> file_key \<Rightarrow> checkpoint option) \<Rightarrow> progress \<Rightarrow> 'd resume_view \<Rightarrow> bool" where
  "pending_left shown Q v \<longleftrightarrow> (\<forall>k. progress_of (map_of (view_pending v)) k = Q k
     \<or> progress_of (map_of (view_pending v)) k = None \<and> Q k \<le> progress_of (shown (view_durable v)) k)"

lemma pending_leftD:
  "pending_left shown Q v \<Longrightarrow> progress_of (map_of (view_pending v)) k = Q k
     \<or> progress_of (map_of (view_pending v)) k = None \<and> Q k \<le> progress_of (shown (view_durable v)) k"
  unfolding pending_left_def by blast

lemma pending_left_grows:
  assumes "pending_left shown Q v" "view_pending w = view_pending v"
    and "\<And>k. progress_of (shown (view_durable v)) k \<le> progress_of (shown (view_durable w)) k"
  shows "pending_left shown Q w"
  unfolding pending_left_def
proof
  fix k show "progress_of (map_of (view_pending w)) k = Q k
      \<or> progress_of (map_of (view_pending w)) k = None \<and> Q k \<le> progress_of (shown (view_durable w)) k"
    using pending_leftD [OF assms(1), of k] order.trans [OF _ assms(3) [of k]] unfolding assms(2) by blast
qed

lemma pending_left_prune:
  assumes "pending_left shown Q v" "\<And>c. c \<in> set cps \<Longrightarrow> Some (cp_position c) \<le> progress_of (shown (view_durable v)) (key_of c)"
  shows "pending_left shown Q (prune_covered cps v)"
proof (cases "view_active v")
  case True
  show ?thesis unfolding pending_left_def
  proof
    fix k
    let ?w = "prune_covered cps v"
    have m: "map_of (view_pending ?w) k = map_of (prune_keys cps (view_pending v)) k" by (simp only: prune_covered_simps(2) [OF True])
    consider (same) "map_of (view_pending ?w) k = map_of (view_pending v) k"
      | (gone) c p where "map_of (view_pending ?w) k = None" "c \<in> set cps" "map_of (view_pending v) k = Some p" "key_of c = k"
          "cp_position p \<le> cp_position c"
      using prune_keys_shrinks [of cps "view_pending v" k] m by auto
    then show "progress_of (map_of (view_pending ?w)) k = Q k
        \<or> progress_of (map_of (view_pending ?w)) k = None \<and> Q k \<le> progress_of (shown (view_durable ?w)) k"
    proof cases
      case same
      then show ?thesis using pending_leftD [OF assms(1), of k] by (simp only: progress_of_def prune_covered_simps(1))
    next
      case gone
      then have "Q k = Some (cp_position p)" using pending_leftD [OF assms(1), of k] by (simp add: progress_of_def)
      moreover have "Some (cp_position p) \<le> progress_of (shown (view_durable v)) k"
        using order.trans [of "Some (cp_position p)" "Some (cp_position c)"] gone(5) assms(2) [OF gone(2)] gone(4) by simp
      ultimately show ?thesis using gone(1) by (simp add: progress_of_def prune_covered_simps(1))
    qed
  qed
qed (use assms(1) in \<open>simp add: prune_covered_def\<close>)

text \<open>Writes one after the other, and the checkpoints of those that succeeded, each with the flag of its write.\<close>

definition view_call ::
  "('d \<Rightarrow> string \<Rightarrow> file_identity \<Rightarrow> checkpoint_error + checkpoint option)
     \<Rightarrow> ('env \<Rightarrow> checkpoint list \<Rightarrow> 'd \<Rightarrow> 'd \<times> store_error option)
     \<Rightarrow> ('env \<times> bool) \<times> checkpoint list \<Rightarrow> 'd resume_view \<times> (bool \<times> checkpoint) list \<Rightarrow> 'd resume_view \<times> (bool \<times> checkpoint) list" where
  "view_call get set_all call x =
     (case view_write get set_all (fst call) (snd call) (fst x) of
        (v, e) \<Rightarrow> (v, if e = None then snd x @ map (Pair (snd (fst call))) (snd call) else snd x))"

lemma view_call_store_call:
  "store_call (view_write get set_all) call (v, map snd acc) =
     (fst (view_call get set_all call (v, acc)), map snd (snd (view_call get set_all call (v, acc))))"
  by (simp add: store_call_def view_call_def split_beta comp_def)

lemma view_calls_store_calls:
  "fold (store_call (view_write get set_all)) calls (v, map snd acc) =
     (fst (fold (view_call get set_all) calls (v, acc)), map snd (snd (fold (view_call get set_all) calls (v, acc))))"
proof (induction calls arbitrary: v acc)
  case (Cons call calls)
  show ?case unfolding fold_Cons comp_apply view_call_store_call Cons.IH prod.collapse ..
qed simp

definition reaches_store :: "progress \<Rightarrow> bool \<times> checkpoint \<Rightarrow> bool" where
  "reaches_store Q bc \<longleftrightarrow> fst bc \<or> \<not> held_back Q (snd bc)"

locale pending_store = durable: progress_store ok shown get set_all
  for ok :: "'d \<Rightarrow> bool" and shown :: "'d \<Rightarrow> file_key \<Rightarrow> checkpoint option"
    and get :: "'d \<Rightarrow> string \<Rightarrow> file_identity \<Rightarrow> checkpoint_error + checkpoint option"
    and set_all :: "'env \<Rightarrow> checkpoint list \<Rightarrow> 'd \<Rightarrow> 'd \<times> store_error option"
begin

lemma view_get_shown:
  assumes "view_ok ok v"
  shows "view_get get v input i = (case checkpoint_key_for input i of Inl e \<Rightarrow> Inl e | Inr k \<Rightarrow> Inr (view_shown shown v k))"
proof -
  have d: "ok (view_durable v)" using assms by (simp add: view_ok_def)
  show ?thesis
  proof (cases "checkpoint_key_for input i")
    case (Inl e)
    then show ?thesis using durable.get_shown [OF d, of input i] by (simp add: view_get_def)
  next
    case (Inr k)
    then have k: "k = input_file_tracking_key input i" by (auto simp: checkpoint_key_for_def input_file_tracking_key_def split: if_splits)
    show ?thesis using durable.get_shown [OF d, of input i] Inr assms
      by (simp add: view_get_def view_shown_def furthest_of_def view_ok_def k split: option.split)
  qed
qed

lemma view_set_many_effect:
  fixes v :: "'d resume_view" and env :: 'env and cps :: "checkpoint list"
  assumes "view_ok ok v"
  defines "r \<equiv> view_set_many get set_all env cps v"
  shows "view_ok ok (fst r)"
    and "snd r = None \<Longrightarrow> progress_of (view_shown shown (fst r)) = fold advance cps (progress_of (view_shown shown v))"
    and "snd r = Some e \<Longrightarrow> view_shown shown (fst r) = view_shown shown v"
proof -
  have d: "ok (view_durable v)" using assms(1) by (simp add: view_ok_def)
  have okd: "view_ok ok (v\<lparr>view_durable := fst (set_all env c (view_durable v))\<rparr>)" for c
    using assms(1) durable.set_keeps [OF d] by (simp add: view_ok_def)
  have same: "view_shown shown (v\<lparr>view_durable := fst (set_all env c (view_durable v))\<rparr>) = view_shown shown v"
    if "snd (set_all env c (view_durable v)) = Some e'" for c e'
    using durable.set_refused [OF d that] by (simp add: view_shown_def fun_eq_iff)
  consider (none) "cps = []" | (plain) "cps \<noteq> []" "\<not> view_active v"
    | (bad) e' where "cps \<noteq> []" "view_active v" "filter_pending get v cps = Inl e'"
    | (kept) ks where "cps \<noteq> []" "view_active v" "filter_pending get v cps = Inr ks"
    by (cases "filter_pending get v cps") auto
  then have "view_ok ok (fst r)
     \<and> (snd r = None \<longrightarrow> progress_of (view_shown shown (fst r)) = fold advance cps (progress_of (view_shown shown v)))
     \<and> (\<forall>e. snd r = Some e \<longrightarrow> view_shown shown (fst r) = view_shown shown v)"
  proof cases
    case none
    then show ?thesis using assms(1) by (simp add: r_def view_set_many_def)
  next
    case plain
    let ?s = "set_all env cps (view_durable v)"
    have r: "r = (v\<lparr>view_durable := fst ?s\<rparr>, snd ?s)" using plain by (simp add: r_def view_set_many_def split_beta)
    have "progress_of (view_shown shown (fst r)) = fold advance cps (progress_of (view_shown shown v))" if "snd ?s = None"
      using durable.set_advances [OF d that] by (simp add: r progress_shown fold_advance_join)
    then show ?thesis using okd same by (auto simp: r)
  next
    case bad
    then show ?thesis using assms(1) by (simp add: r_def view_set_many_def)
  next
    case kept
    let ?s = "set_all env ks (view_durable v)"
    let ?w = "v\<lparr>view_durable := fst ?s\<rparr>"
    have r: "r = (case snd ?s of Some e \<Rightarrow> (?w, Some e) | None \<Rightarrow> (prune_covered ks ?w, None))"
      using kept by (simp add: r_def view_set_many_def split_beta split: option.split)
    show ?thesis
    proof (cases "snd ?s")
      case (Some e')
      then show ?thesis using okd same by (simp add: r)
    next
      case None
      let ?D = "progress_of (shown (view_durable v))" and ?Q = "progress_of (map_of (view_pending v))"
      have D: "progress_of (shown (fst ?s)) = fold advance ks ?D" by (rule durable.set_advances [OF d None])
      have "progress_of (view_shown shown (fst r)) = progress_of (view_shown shown ?w)"
        using None pruned_shows_same [of ks shown ?w] fold_advance_reaches D by (simp add: r)
      also have "\<dots> = join (fold advance ks ?D) ?Q" by (simp add: progress_shown D)
      also have "\<dots> = fold advance ks (join ?D ?Q)" by (simp only: fold_advance_join)
      also have "\<dots> = fold advance cps (join ?D ?Q)" by (rule filter_pending_covered [OF kept(3)]) (rule join_le2)
      finally show ?thesis using None view_ok_prune [OF okd, of ks] by (simp add: r progress_shown)
    qed
  qed
  then show "view_ok ok (fst r)"
    and "snd r = None \<Longrightarrow> progress_of (view_shown shown (fst r)) = fold advance cps (progress_of (view_shown shown v))"
    and "snd r = Some e \<Longrightarrow> view_shown shown (fst r) = view_shown shown v" by simp_all
qed

lemma view_shown_key:
  assumes "view_ok ok v" "view_shown shown v k = Some c"
  shows "k = key_of c"
proof -
  have "shown (view_durable v) k = Some c \<or> map_of (view_pending v) k = Some c"
    using assms(2) by (auto simp: view_shown_def furthest_of_def split: option.splits if_splits)
  then show ?thesis using assms(1) durable.shown_key keyedD unfolding view_ok_def by blast
qed

lemma terminal_commit_effect:
  fixes v :: "'d resume_view" and env :: 'env and cps :: "checkpoint list"
  assumes "view_ok ok v"
  defines "r \<equiv> terminal_commit set_all env cps v"
  shows "view_ok ok (fst r)"
    and "snd r = None \<Longrightarrow> progress_of (view_shown shown (fst r)) = fold advance cps (progress_of (view_shown shown v))"
    and "snd r = Some e \<Longrightarrow> view_shown shown (fst r) = view_shown shown v"
proof -
  let ?s = "set_all env cps (view_durable v)" and ?w = "v\<lparr>view_durable := fst (set_all env cps (view_durable v))\<rparr>"
  have d: "ok (view_durable v)" using assms(1) by (simp add: view_ok_def)
  have okw: "view_ok ok ?w" using assms(1) durable.set_keeps [OF d] by (simp add: view_ok_def)
  have r: "r = (case snd ?s of Some e \<Rightarrow> (?w, Some e) | None \<Rightarrow> (prune_covered cps ?w, None))"
    by (simp add: r_def terminal_commit_def split_beta split: option.split)
  show "view_ok ok (fst r)" using okw view_ok_prune [OF okw] by (simp add: r split: option.split)
  show "snd r = Some e \<Longrightarrow> view_shown shown (fst r) = view_shown shown v"
    using durable.set_refused [OF d, of env cps e] by (simp add: r view_shown_def fun_eq_iff split: option.splits)
  assume "snd r = None"
  then have n: "snd ?s = None" by (simp add: r split: option.splits)
  note D = durable.set_advances [OF d n]
  have "progress_of (view_shown shown (fst r)) = progress_of (view_shown shown ?w)"
    using n pruned_shows_same [of cps shown ?w] fold_advance_reaches D by (simp add: r)
  then show "progress_of (view_shown shown (fst r)) = fold advance cps (progress_of (view_shown shown v))"
    by (simp add: progress_shown D fold_advance_join)
qed

lemma view_write_effect:
  assumes "view_ok ok v"
  shows "view_ok ok (fst (view_write get set_all env cps v))"
    and "snd (view_write get set_all env cps v) = None \<Longrightarrow>
      progress_of (view_shown shown (fst (view_write get set_all env cps v))) = fold advance cps (progress_of (view_shown shown v))"
    and "snd (view_write get set_all env cps v) = Some e \<Longrightarrow> view_shown shown (fst (view_write get set_all env cps v)) = view_shown shown v"
proof -
  note m = view_set_many_effect [OF assms, of "fst env" cps] and t = terminal_commit_effect [OF assms, of "fst env" cps]
  show "view_ok ok (fst (view_write get set_all env cps v))" using m(1) t(1) by (simp add: view_write_def)
  show "snd (view_write get set_all env cps v) = None \<Longrightarrow>
      progress_of (view_shown shown (fst (view_write get set_all env cps v))) = fold advance cps (progress_of (view_shown shown v))"
    using m(2) t(2) by (cases "snd env") (simp_all only: view_write_def if_True if_False simp_thms)
  show "snd (view_write get set_all env cps v) = Some e \<Longrightarrow> view_shown shown (fst (view_write get set_all env cps v)) = view_shown shown v"
    using m(3) t(3) by (cases "snd env") (simp_all only: view_write_def if_True if_False simp_thms)
qed

text \<open>
  What reaches the durable store: everything, except what the tailers write at or below a position that was pending when the
  view was made.  Of the pending positions only those leave the view that the store has reached.
\<close>

lemma suppressed_held_back:
  assumes "suppress_pending_mutation get v cp = Inr True" "pending_left shown Q v"
  shows "held_back Q cp"
proof -
  obtain p where p: "map_of (view_pending v) (key_of cp) = Some p" "cp_generation cp = cp_generation p" "cp_offset cp \<le> cp_offset p"
    using assms(1) by (auto simp: suppress_pending_mutation_def not_less split: if_splits option.splits)
  then have "Q (key_of cp) = Some (cp_position p)" using pending_leftD [OF assms(2), of "key_of cp"] by (simp add: progress_of_def)
  then show ?thesis using p by (simp add: held_back_def cp_position_def)
qed

lemma passed_covered:
  assumes "suppress_pending_mutation get v cp = Inr False" "pending_left shown Q v" "held_back Q cp" "view_active v" "ok (view_durable v)"
  shows "Some (cp_position cp) \<le> progress_of (shown (view_durable v)) (key_of cp)"
proof -
  let ?k = "key_of cp"
  have le: "Some (cp_position cp) \<le> Q ?k" by (rule held_back_le [OF assms(3)])
  have "Q ?k \<le> progress_of (shown (view_durable v)) ?k"
  proof (cases "map_of (view_pending v) ?k")
    case None
    then show ?thesis using pending_leftD [OF assms(2), of ?k] by (auto simp: progress_of_def)
  next
    case (Some p)
    then have q: "Q ?k = Some (cp_position p)" using pending_leftD [OF assms(2), of ?k] by (simp add: progress_of_def)
    then have "\<not> (cp_generation cp \<noteq> cp_generation p \<or> cp_offset p < cp_offset cp)"
      using assms(3) by (auto simp: held_back_def cp_position_def)
    then obtain d where d: "get (view_durable v) (cp_input cp) (cp_identity cp) = Inr (Some d)" "\<not> checkpoint_after p d"
      using assms(1,4) Some by (auto simp: suppress_pending_mutation_def split: option.splits sum.splits)
    then have "shown (view_durable v) ?k = Some d"
      using durable.get_shown [OF assms(5), of "cp_input cp" "cp_identity cp"]
      by (auto simp: checkpoint_key_for_def key_of_def split: if_splits)
    then show ?thesis using d(2) q by (simp add: progress_of_def after_iff not_less)
  qed
  with le show ?thesis by (rule order.trans)
qed

lemma filter_pending_exact:
  assumes "filter_pending get v cps = Inr kept" "pending_left shown Q v" "view_active v" "ok (view_durable v)"
    and "\<And>k. progress_of (shown (view_durable v)) k \<le> P k"
  shows "fold advance kept P = fold advance (filter (\<lambda>c. \<not> held_back Q c) cps) P"
  using assms(1,5)
proof (induction cps arbitrary: P kept)
  case (Cons cp cps)
  obtain b where b: "suppress_pending_mutation get v cp = Inr b" using Cons.prems(1) by (cases "suppress_pending_mutation get v cp") auto
  obtain ks where ks: "filter_pending get v cps = Inr ks" using Cons.prems(1) b by (cases "filter_pending get v cps") auto
  have kept: "kept = (if b then ks else cp # ks)" using Cons.prems(1) b ks by simp
  have up: "progress_of (shown (view_durable v)) k \<le> advance cp P k" for k
    using order.trans [OF Cons.prems(2) advance_le] .
  consider (held) "b" "held_back Q cp" | (idle) "\<not> b" "held_back Q cp" | (passed) "\<not> b" "\<not> held_back Q cp"
    using suppressed_held_back [OF _ assms(2), of cp] b by (cases b) auto
  then show ?case
  proof cases
    case held
    then show ?thesis using Cons.IH [OF ks Cons.prems(2)] kept by simp
  next
    case idle
    then have "suppress_pending_mutation get v cp = Inr False" using b by simp
    note order.trans [OF passed_covered [OF this assms(2) idle(2) assms(3,4)] Cons.prems(2)]
    then have "advance cp P = P" by (rule advance_idle)
    then show ?thesis using Cons.IH [OF ks Cons.prems(2)] kept idle by simp
  next
    case passed
    then show ?thesis using Cons.IH [OF ks up] kept by simp
  qed
qed simp

lemma inactive_exact:
  assumes "pending_left shown Q v" "view_pending v = []" "\<And>k. progress_of (shown (view_durable v)) k \<le> P k"
  shows "fold advance cps P = fold advance (filter (\<lambda>c. \<not> held_back Q c) cps) P"
  using assms(3)
proof (induction cps arbitrary: P)
  case (Cons cp cps)
  have up: "progress_of (shown (view_durable v)) k \<le> advance cp P k" for k
    using order.trans [OF Cons.prems advance_le] .
  show ?case
  proof (cases "held_back Q cp")
    case True
    have "Q (key_of cp) \<le> progress_of (shown (view_durable v)) (key_of cp)"
      using pending_leftD [OF assms(1), of "key_of cp"] assms(2) by (auto simp: progress_of_def)
    then have "Some (cp_position cp) \<le> P (key_of cp)"
      using order.trans [OF held_back_le [OF True] order.trans [OF _ Cons.prems]] by blast
    then have "advance cp P = P" by (rule advance_idle)
    then show ?thesis using Cons.IH [OF Cons.prems] True by simp
  qed (use Cons.IH [OF up] in simp)
qed simp

lemma write_persists:
  fixes v :: "'d resume_view" and env :: "'env \<times> bool" and cps :: "checkpoint list"
  assumes "view_ok ok v" "pending_left shown Q v"
  defines "r \<equiv> view_write get set_all env cps v"
  shows "pending_left shown Q (fst r)
    \<and> progress_of (shown (view_durable (fst r))) =
        fold advance (if snd r = None then filter (\<lambda>c. snd env \<or> \<not> held_back Q c) cps else []) (progress_of (shown (view_durable v)))"
proof -
  let ?D = "progress_of (shown (view_durable v))"
  have d: "ok (view_durable v)" using assms(1) by (simp add: view_ok_def)
  let ?s = "\<lambda>c. set_all (fst env) c (view_durable v)"
  let ?w = "\<lambda>c. v\<lparr>view_durable := fst (?s c)\<rparr>"
  have failed: "pending_left shown Q (?w c) \<and> progress_of (shown (fst (?s c))) = ?D" if "snd (?s c) = Some e" for c e
    using pending_left_grows [OF assms(2), of "?w c"] durable.set_refused [OF d that] by simp
  have wrote: "pending_left shown Q (?w c)" "pending_left shown Q (prune_covered c (?w c))"
      "progress_of (shown (fst (?s c))) = fold advance c ?D" if "snd (?s c) = None" for c
  proof -
    note D = durable.set_advances [OF d that]
    show "progress_of (shown (fst (?s c))) = fold advance c ?D" by (rule D)
    show p: "pending_left shown Q (?w c)" by (rule pending_left_grows [OF assms(2)]) (simp_all add: D fold_advance_le)
    show "pending_left shown Q (prune_covered c (?w c))" by (rule pending_left_prune [OF p]) (simp add: D fold_advance_reaches)
  qed
  consider (terminal) "snd env" | (none) "\<not> snd env" "cps = []" | (plain) "\<not> snd env" "cps \<noteq> []" "\<not> view_active v"
    | (bad) e' where "\<not> snd env" "cps \<noteq> []" "view_active v" "filter_pending get v cps = Inl e'"
    | (kept) ks where "\<not> snd env" "cps \<noteq> []" "view_active v" "filter_pending get v cps = Inr ks"
    by (cases "filter_pending get v cps") auto
  then show ?thesis
  proof cases
    case terminal
    then have r: "r = (case snd (?s cps) of Some e \<Rightarrow> (?w cps, Some e) | None \<Rightarrow> (prune_covered cps (?w cps), None))"
      by (simp add: r_def view_write_def terminal_commit_def split_beta split: option.split)
    show ?thesis using failed [of cps] wrote [of cps] terminal by (cases "snd (?s cps)") (simp_all add: r prune_covered_simps(1))
  next
    case plain
    then have r: "r = (?w cps, snd (?s cps))" by (simp add: r_def view_write_def view_set_many_def split_beta)
    have "fold advance cps ?D = fold advance (filter (\<lambda>c. \<not> held_back Q c) cps) ?D"
      by (rule inactive_exact [OF assms(2)]) (use assms(1) plain in \<open>simp_all add: view_ok_def\<close>)
    then show ?thesis using failed [of cps] wrote [of cps] plain by (cases "snd (?s cps)") (simp_all add: r)
  next
    case kept
    then have r: "r = (case snd (?s ks) of Some e \<Rightarrow> (?w ks, Some e) | None \<Rightarrow> (prune_covered ks (?w ks), None))"
      by (simp add: r_def view_write_def view_set_many_def split_beta split: option.split)
    have "fold advance ks ?D = fold advance (filter (\<lambda>c. \<not> held_back Q c) cps) ?D"
      by (rule filter_pending_exact [OF kept(4) assms(2) kept(3) d order.refl])
    then show ?thesis using failed [of ks] wrote [of ks] kept(1) by (cases "snd (?s ks)") (simp_all add: r prune_covered_simps(1))
  qed (use assms(2) in \<open>simp_all add: r_def view_write_def view_set_many_def\<close>)
qed

lemma calls_persist:
  assumes "view_ok ok v" "pending_left shown Q v"
  shows "\<exists>new. snd (fold (view_call get set_all) calls (v, acc)) = acc @ new
    \<and> progress_of (shown (view_durable (fst (fold (view_call get set_all) calls (v, acc))))) =
        fold advance (map snd (filter (reaches_store Q) new)) (progress_of (shown (view_durable v)))"
  using assms
proof (induction calls arbitrary: v acc)
  case Nil
  then show ?case by (intro exI [of _ "[]"]) simp
next
  case (Cons call calls)
  let ?r = "view_write get set_all (fst call) (snd call) v"
  let ?new = "if snd ?r = None then map (Pair (snd (fst call))) (snd call) else []"
  have st: "view_call get set_all call (v, acc) = (fst ?r, acc @ ?new)" by (simp add: view_call_def split_beta)
  have okv: "view_ok ok (fst ?r)" by (rule view_write_effect(1) [OF Cons.prems(1)])
  note w = write_persists [OF Cons.prems, of "fst call" "snd call"]
  have f: "map snd (filter (reaches_store Q) ?new) =
      (if snd ?r = None then filter (\<lambda>c. snd (fst call) \<or> \<not> held_back Q c) (snd call) else [])"
    by (simp add: filter_map comp_def reaches_store_def)
  obtain b where b: "snd (fold (view_call get set_all) calls (fst ?r, acc @ ?new)) = (acc @ ?new) @ b"
      "progress_of (shown (view_durable (fst (fold (view_call get set_all) calls (fst ?r, acc @ ?new))))) =
        fold advance (map snd (filter (reaches_store Q) b)) (progress_of (shown (view_durable (fst ?r))))"
    using Cons.IH [OF okv conjunct1 [OF w], of "acc @ ?new"] by blast
  have "progress_of (shown (view_durable (fst (fold (view_call get set_all) (call # calls) (v, acc))))) =
      fold advance (map snd (filter (reaches_store Q) (?new @ b))) (progress_of (shown (view_durable v)))"
    unfolding fold_Cons comp_apply st b(2) filter_append map_append fold_append f conjunct2 [OF w] ..
  moreover have "snd (fold (view_call get set_all) (call # calls) (v, acc)) = acc @ (?new @ b)"
    unfolding fold_Cons comp_apply st b(1) by (rule append_assoc)
  ultimately show ?case by blast
qed

end

text \<open>So the view is again a store that keeps the contract, over whichever store it stands.\<close>

sublocale pending_store \<subseteq> resumed: progress_store "view_ok ok" "view_shown shown" "view_get get" "view_write get set_all"
  by unfold_locales (rule view_get_shown view_shown_key view_write_effect, assumption+)+

interpretation file_store: pending_store entries_ok map_of store_get set_many
  by unfold_locales

section \<open>The view over the file store\<close>

lemma new_view_start:
  assumes "entries_ok ents" "new_checkpoint_resume_view ents pending = Inr v"
  shows "view_ok entries_ok v" "pending_left map_of (fold advance pending (\<lambda>_. None)) v" "view_durable v = ents"
    "progress_of (view_shown map_of v) = fold advance pending (progress_of (map_of ents))"
proof -
  have v: "v = \<lparr>view_durable = ents, view_pending = pending_by_key pending [], view_active = True\<rparr>"
    using assms(2) by (simp add: new_checkpoint_resume_view_def split: if_splits)
  have p: "keyed (map_of (pending_by_key pending []))"
      "progress_of (map_of (pending_by_key pending [])) = fold advance pending (\<lambda>_. None)"
    using pending_by_key_ok [of "[]" pending] by (simp_all add: keyed_def progress_of_def [abs_def])
  show "view_ok entries_ok v" using assms(1) p(1) by (simp add: v view_ok_def)
  show "pending_left map_of (fold advance pending (\<lambda>_. None)) v" unfolding pending_left_def v resume_view.select_convs p(2) by blast
  show "view_durable v = ents" by (simp add: v)
  have "join P (fold advance cps (\<lambda>_. None)) = fold advance cps P" for P cps
  proof -
    have c: "join P Q = join Q P" for P Q by (rule ext) (simp add: join_def max.commute)
    have "join (\<lambda>_. None) P = P" by (rule ext) (simp add: join_def max_def)
    then show ?thesis using fold_advance_join [of cps "\<lambda>_. None" P] by (simp add: c [of P])
  qed
  then show "progress_of (view_shown map_of v) = fold advance pending (progress_of (map_of ents))"
    by (simp add: progress_shown v p(2))
qed

text \<open>C38: the resume view is a store too, and it never persists what is only pending. Over a consistent checkpoint store, with
  the checkpoints of the batches still queued, after any writes (of tailers through the view, of terminal deliveries past
  it, each with its clock and the outcome of persisting): the view shows, for each file, the furthest of the durable position
  at the start, the pending ones and those of the writes that succeeded, and \<open>Get\<close> returns what is shown; the durable
  store below has moved exactly as far as the successful writes of terminal deliveries and those tailer writes that go beyond the
  pending position of their file or are of another generation.\<close>

theorem resume_view_exact:
  assumes "entries_ok ents" "new_checkpoint_resume_view ents pending = Inr v"
    and "fold (view_call store_get set_many) calls (v, []) = (v', accepted)"
  shows "progress_of (view_shown map_of v') = fold advance (pending @ map snd accepted) (progress_of (map_of ents))
    \<and> progress_of (map_of (view_durable v')) =
        fold advance (map snd (filter (reaches_store (fold advance pending (\<lambda>_. None))) accepted)) (progress_of (map_of ents))
    \<and> view_get store_get v' input i =
        (case checkpoint_key_for input i of Inl e \<Rightarrow> Inl e | Inr k \<Rightarrow> Inr (view_shown map_of v' k))"
proof -
  note start = new_view_start [OF assms(1,2)]
  have run: "fold (store_call (view_write store_get set_many)) calls (v, []) = (v', map snd accepted)"
    using view_calls_store_calls [of store_get set_many calls v "[]"] assms(3) by simp
  have final: "view_ok entries_ok v'" using file_store.resumed.calls_progress(1) [OF start(1), of calls "[]"] run by simp
  have "progress_of (map_of (view_durable v')) =
      fold advance (map snd (filter (reaches_store (fold advance pending (\<lambda>_. None))) accepted)) (progress_of (map_of ents))"
    using file_store.calls_persist [OF start(1,2), of calls "[]"] unfolding assms(3) fst_conv snd_conv start(3) append_Nil by blast
  then show ?thesis
    using file_store.resumed.calls_furthest [OF start(1) run] file_store.resumed.get_shown [OF final, of input i]
    by (simp add: start(4))
qed

text \<open>
  A file delivered up to byte 10 with a batch up to byte 20 pending.  A tailer writes 15, which is held back; a terminal
  delivery of 12 follows.  The view shows 20 throughout, the store goes from 10 to 12.
\<close>

definition demo_view :: "entries resume_view" where
  "demo_view = \<lparr>view_durable = [(key_of demo_checkpoint, demo_at 10 2 3)], view_pending = [(key_of demo_checkpoint, demo_at 20 4 5)],
     view_active = True\<rparr>"

lemma demo_tracking: "input_file_tracking_key ''app'' demo_identity = key_of demo_checkpoint"
  by (simp add: input_file_tracking_key_def key_of_def)

lemma demo_view_new: "new_checkpoint_resume_view [(key_of demo_checkpoint, demo_at 10 2 3)] [demo_at 20 4 5] = Inr demo_view"
  by (simp add: new_checkpoint_resume_view_def demo_view_def demo_tracking)

lemma demo_view_run:
  "fold (view_call store_get set_many) [((demo_store_env, False), [demo_at 15 3 4]), ((demo_store_env, True), [demo_at 12 3 4])] (demo_view, [])
   = (demo_view\<lparr>view_durable := [(key_of demo_checkpoint, demo_at 12 3 4)]\<rparr>, [(False, demo_at 15 3 4), (True, demo_at 12 3 4)])"
proof -
  have "suppress_pending_mutation store_get demo_view (demo_at 15 3 4) = Inr True"
    by (simp add: suppress_pending_mutation_def demo_view_def demo_tracking store_get_def demo_keys checkpoint_after_def)
  then have tail: "view_write store_get set_many (demo_store_env, False) [demo_at 15 3 4] demo_view = (demo_view, None)"
    by (simp add: view_write_def view_set_many_def set_many_def prune_covered_def) (simp add: demo_view_def)
  have "view_write store_get set_many (demo_store_env, True) [demo_at 12 3 4] demo_view
      = (demo_view\<lparr>view_durable := [(key_of demo_checkpoint, demo_at 12 3 4)]\<rparr>, None)"
    by (simp add: view_write_def terminal_commit_def demo_view_def demo_merge prune_covered_def demo_tracking checkpoint_after_def)
  with tail show ?thesis by (simp only: fold_simps fold_Cons comp_apply view_call_def fst_conv snd_conv prod.case) simp
qed

theorem resume_view_exact_witness:
  "\<exists>v v' accepted. new_checkpoint_resume_view [(key_of demo_checkpoint, demo_at 10 2 3)] [demo_at 20 4 5] = Inr v
     \<and> fold (view_call store_get set_many) [((demo_store_env, False), [demo_at 15 3 4]), ((demo_store_env, True), [demo_at 12 3 4])] (v, []) = (v', accepted)
     \<and> map fst accepted = [False, True]
     \<and> progress_of (view_shown map_of v') (key_of demo_checkpoint) = Some (1, 20)
     \<and> progress_of (map_of (view_durable v')) (key_of demo_checkpoint) = Some (1, 12)"
proof -
  let ?v = "demo_view\<lparr>view_durable := [(key_of demo_checkpoint, demo_at 12 3 4)]\<rparr>"
  let ?acc = "[(False, demo_at 15 3 4), (True, demo_at 12 3 4)]" and ?k = "key_of demo_checkpoint"
  let ?D = "progress_of (map_of [(?k, demo_at 10 2 3)])" and ?Q = "fold advance [demo_at 20 4 5] (\<lambda>_. None)"
  note r = resume_view_exact [OF demo_entries_ok demo_view_new demo_view_run]
  note eval = advance_def demo_keys progress_of_def cp_position_def max_def less_eq_prod_def less_prod_def
  have q: "?Q ?k = Some (1, 20)" by (simp add: eval)
  have p: "filter (reaches_store ?Q) ?acc = [(True, demo_at 12 3 4)]"
    using q by (simp add: reaches_store_def held_back_def demo_keys)
  have shown: "fold advance ([demo_at 20 4 5] @ map snd ?acc) ?D ?k = Some (1, 20)" by (simp add: eval)
  have kept: "fold advance (map snd [(True, demo_at 12 3 4)]) ?D ?k = Some (1, 12)" by (simp add: eval)
  show ?thesis
  proof (intro exI conjI)
    show "map fst ?acc = [False, True]" by simp
    show "progress_of (view_shown map_of ?v) ?k = Some (1, 20)" by (rule trans [OF fun_cong [OF conjunct1 [OF r]] shown])
    show "progress_of (map_of (view_durable ?v)) ?k = Some (1, 12)"
      by (rule trans [OF fun_cong [OF conjunct1 [OF conjunct2 [OF r]]]]) (simp only: p kept)
  qed (rule demo_view_new demo_view_run)+
qed

end
