(* ===== verification/Spec2Isabelle.thy ===== *)
theory Spec2Isabelle
  imports Ordered_Index Ingest_Quota Wal_Record Wal_Marks Wal_Service Wal_Restart Framing_Exact Spl_Like Spl_Path Spl_Tokens Sched_Cron Ckpt_Resume
begin

text \<open>
  A verification library for open-splunk, a log store: collectors tail files, cut them into events, keep the events
  in a durable queue and send them to a server, which admits them under quotas, stores them in an external database
  and answers queries of a search language.  The library models, from the Go sources, the parts whose meaning lies
  in the program itself.

  \<^bold>\<open>The parts and their theories.\<close>

  \<^item> Framing, \<open>internal/collector/framing/framing.go\<close>.  \<open>Framing\<close> holds the reader, the two framers and all
    their operations, and the locale \<open>framer\<close>, the contract of the Go interface \<open>Framer\<close>: from any reachable
    state a call returns a piece of the stream behind the last one and reaches such a state again.  It is
    interpreted on the line framer there and on the multiline framer in \<open>Framing_Multiline\<close>.  \<open>Framing_Exact\<close>
    compares both with reference definitions on the whole stream, which knows no chunks.

  \<^item> The durable queue of a collector, \<open>internal/collector/wal\<close>.  The frames of an input are batched and appended
    here, the sender takes batches from it and acknowledges them.  \<open>Wal_Record\<close>: segment names, records with their
    CRC32C, scanning and reading (\<open>segment.go\<close>).  \<open>Wal_Marks\<close>: the source checkpoints of a batch and their
    aggregation (\<open>queue.go\<close>, \<open>wal.go\<close>).  \<open>Wal_Queue\<close>: the state \<open>queue\<close>, which is the Go struct
    under its mutex with the files it owns, and every operation: append, rotation, delivery, acknowledgment,
    reclamation, metadata.  \<open>Wal_Ack\<close>, \<open>Wal_Disk\<close>, \<open>Wal_Invariant\<close>: the invariant \<open>wal_inv\<close> and that
    every operation keeps it.  \<open>Wal_Repack\<close>: replacing a refused batch by children (\<open>repack.go\<close>).
    \<open>Wal_Runs\<close>: runs of operations, three interpretations of the locales of \<open>Machine\<close>.  \<open>Wal_Service\<close>:
    what callers rely on.  \<open>Wal_Quarantine\<close>, \<open>Wal_Recovery\<close>, \<open>Wal_Restart\<close>: the directory with its hard links,
    the repair of corrupt tails, the start of the queue, and crashes at any point of it.

  \<^item> The checkpoints of a collector: how far each file has been delivered.  \<open>Ckpt_Identity\<close>: identities of files with their
    canonical strings, and \<open>ValidateCheckpoint\<close> (\<open>internal/collector/input/identity.go\<close>, \<open>input.go\<close>,
    \<open>checkpoint.go\<close>).  \<open>Ckpt_Store\<close>: the map of the store and the merge of \<open>SetMany\<close>, with the locale
    \<open>progress_store\<close>, the contract of the Go interface \<open>ManagerCheckpointStore\<close>, interpreted on it.
    \<open>Ckpt_Resume\<close>: the view that a starting collector lays over any such store (\<open>internal/collector/checkpoint_resume.go\<close>); a
    \<open>sublocale\<close> shows that it is such a store again.  \<open>Protocol_Ids\<close> is the grammar of identifiers, used here and in
    \<open>Wal_Repack\<close>.

  \<^item> Ingestion quotas, \<open>internal/ingestquota/quota.go\<close>: \<open>Ingest_Quota\<close>, the virtual schedules with the 128-bit
    arithmetic of \<open>math/bits\<close>.

  \<^item> The search language.  \<open>Spl_Lexer\<close>, \<open>Spl_Scan\<close>, \<open>Spl_Tokens\<close>: the lexer \<open>internal/spl/lexer.go\<close>, its scanners
    one by one, and the whole.  \<open>Spl_Like\<close>: LIKE patterns (\<open>internal/splwildcard/like.go\<close>).  \<open>Spl_Path\<close>: JSON
    locations of \<open>spath\<close> (\<open>internal/splpath/path.go\<close>).

  \<^item> Schedules, \<open>internal/scheduler/cron.go\<close>: \<open>Sched_Cron\<close>, used by alerts and reports to catch up on missed
    occurrences.

  \<^item> The ordered index, \<open>internal/orderedindex/index.go\<close>, with its client, the list of search jobs
    (\<open>internal/searchjobs/job_list.go\<close>, \<open>job_list_index.go\<close>): \<open>Ordered_Index\<close>.  The laws the index asks of a
    comparison are the locales \<open>strict_key_order\<close> and \<open>boundary_order\<close>, interpreted on the comparisons of the
    job list.

  \<^item> What these use of Go's library: \<open>Prelude\<close> (bytes), \<open>Go_Utf8\<close>, \<open>Go_Strconv\<close>, \<open>Go_Time\<close>, \<open>Go_Sha256\<close>.

  \<^bold>\<open>Correspondence.\<close>  A struct is a record, an enumeration a datatype, a method a function from the state to the
  state and its result, named as in the source; an error is a constructor of the component's error type, one for
  each \<open>errors.New\<close>, in the left of a sum.  Strings and byte slices are lists of 8-bit characters, so lengths are
  byte counts.  Unsigned integers are words and wrap; Go's \<open>int\<close> used as a length or an index is a natural
  number, since no slice is longer than its range.  Calls to the file system are explicit: in the open queue each
  call consumes the next outcome of a list (\<open>io_left\<close>), which may be a failure after any part of its effect; in
  the recovery the changes are a log, and a crash leaves the disk behind a prefix of it.  A method that
  holds the mutex for its whole body is one atomic step.  A reader is the list of the results of its reads.

  \<^bold>\<open>What the lemmas show.\<close>  Framing: every frame is a slice of the stream at its offsets and line numbers, in order,
  whatever the reads; as long as no read fails and every line or event fits its limit, the frames depend only on the bytes, and
  a framer started at the end of one continues them (an oversized event breaks both).  The queue: no operation, under any failures, loses a batch that nobody acknowledged or replaced, and
  sequences are never handed out twice; a failed append queues nothing, and what it may leave on disk is stated; a recovery that
  is crashed after any of its calls and repeated yields the queued batches of the uninterrupted one, if it starts on a directory
  without a half-done quarantine (there is no lemma that ties the disk of a running queue to its next recovery); a preview of an acknowledgment is exact; a changed byte of a record is detected; repacking keeps the events.
  Checkpoints: a file moves to the furthest position that was persisted and never back, and the view over the store persists
  nothing that is only pending, each call taken as one step.  Quotas:
  admitted work respects the rate over every window and a denied request is admitted after its hint.  The search
  language: the lexer ends, its tokens tile the source, are typed by their kinds and carry true positions; strings
  and paths are read back as written; a normalized pattern means what was authored.  Schedules: the bit
  counting of the catch-up agrees with the walk over all minutes, for offsets as below.  The index: sorted, heap-ordered pages.

  \<^bold>\<open>Bounds and termination.\<close>  No definition runs on fuel.  Loops are total functions with a measure, most often the
  bytes left; the loop of the lexer is a partial function whose result the property \<open>lex_tiles_source\<close>
  shows to exist.  Constants of the code (sizes, limits, windows) are kept at their values.

  \<^bold>\<open>Parameters.\<close>  Code outside the repository enters as an argument: the protobuf codec (\<open>codec_ok\<close>: unmarshalling
  undoes marshalling), the sizes of JSON encodings, fresh identifiers, the start pattern of the multiline framer, the
  parser and \<open>Next\<close> of the cron library, the offsets of a time zone (\<open>offsets_ok\<close>: between the due time
  and the present they keep their seconds part, and no change is undone within an hour; nothing is asked of other times), the cancellation of a context.

  \<^bold>\<open>Not modelled.\<close>  The compilers to ClickHouse and the query executor, whose results are texts and rows of an external
  database; the planner and the parser of the search language above the lexer; everything that keeps its state in
  SQLite (control, authentication, knowledge objects, lookups, audit, alerts); transports (HTTP, gRPC, WebSocket);
  the tailing of files, the journal of the checkpoint store, the reconstruction of checkpoints from queue marks, and the process lifecycles, which are goroutines around system calls; user regular
  expressions; the texts of warnings, and the rendering of the byte in one unreachable lexer message.
\<close>

end
